(* ===== verification/Prelude.thy ===== *)
theory Prelude
  imports Main "HOL-Library.Word" "HOL-Library.Monad_Syntax"
begin

unbundle bit_operations_syntax

text \<open>
  Shared material: the machine integers of include/sys/defs.h, the byte-addressed
  memory the C code reads and writes, and the generic facts about words, memory and
  linked structures that the component theories use.

  Memory is a total function from 64-bit addresses to bytes. Accesses wider than a
  byte are little endian, as on x86-64. A pointer is its address; \<open>NULL\<close> is 0.
\<close>

section \<open>Fact collections\<close>

named_theorems mem_simps \<open>reading memory after a write\<close>
named_theorems bitblast \<open>facts that decide an equation of 64-bit words bit by bit\<close>

section \<open>Machine integers\<close>

type_synonym u8 = "8 word"
type_synonym u16 = "16 word"
type_synonym u32 = "32 word"
type_synonym u64 = "64 word"

text \<open>
  C's \<open>int\<close> is 32 bits wide. Arithmetic on it is modelled with the two's complement
  result the compiled code computes; \<open>sint\<close> reads it. Division of \<open>int\<close>s truncates
  towards zero.
\<close>

type_synonym cint = "32 word"

definition cint_div :: "cint \<Rightarrow> cint \<Rightarrow> cint" where
  "cint_div a b = word_of_int (sgn (sint a) * sgn (sint b) * (\<bar>sint a\<bar> div \<bar>sint b\<bar>))"

definition cint_mod :: "cint \<Rightarrow> cint \<Rightarrow> cint" where
  "cint_mod a b = a - cint_div a b * b"

section \<open>Words\<close>

lemma sint_cint_of_nat: "n < 2 ^ 31 \<Longrightarrow> sint (of_nat n :: cint) = int n"
  by (simp add: signed_of_nat signed_take_bit_int_eq_self)

text \<open>An equation between 64-bit words holds when it holds at each of the 64 bits.\<close>

lemma word64_eqI:
  "list_all (\<lambda>n. bit (x :: u64) n = bit y n) [0..<64] \<Longrightarrow> x = y"
  by (rule bit_word_eqI) (auto simp: list_all_iff)

lemmas [bitblast] = bit_simps

lemma bit_positions [bitblast]: "[0..<64] = [0, 1, 2, 3, 4, 5, 6, 7, 8, 9, 10, 11, 12, 13, 14, 15, 16, 17, 18, 19, 20, 21, 22, 23, 24, 25, 26, 27, 28, 29, 30, 31,
  32, 33, 34, 35, 36, 37, 38, 39, 40, 41, 42, 43, 44, 45, 46, 47, 48, 49, 50, 51, 52, 53, 54, 55, 56, 57, 58, 59, 60, 61, 62, 63]"
  by (simp add: upt_conv_Cons)

lemma unat_u64_less: "unat (x :: u64) < 18446744073709551616"
  using unsigned_less [of x, where ?'a = nat] by simp

lemma unat_u8_less: "unat (x :: u8) < 256"
  using unsigned_less [of x, where ?'a = nat] by simp

lemma unat_add_no_wrap:
  "unat (a :: u64) + n < 2 ^ 64 \<Longrightarrow> unat (a + of_nat n) = unat a + n"
  by (simp add: unat_word_ariths unat_of_nat)

lemma of_nat_u64_eq_iff:
  "\<lbrakk>a < 2 ^ 64; b < 2 ^ 64\<rbrakk> \<Longrightarrow> (of_nat a :: u64) = of_nat b \<longleftrightarrow> a = b"
  by (simp add: word_unat_eq_iff unat_of_nat)

lemma of_nat_u64_less_iff:
  "\<lbrakk>a < 2 ^ 64; b < 2 ^ 64\<rbrakk> \<Longrightarrow> (of_nat a :: u64) < of_nat b \<longleftrightarrow> a < b"
  by (simp add: word_less_nat_alt unat_of_nat)

section \<open>Byte memory\<close>

type_synonym mem = "u64 \<Rightarrow> u8"

primrec load_bytes :: "nat \<Rightarrow> mem \<Rightarrow> u64 \<Rightarrow> nat" where
  "load_bytes 0 m a = 0"
| "load_bytes (Suc n) m a = unat (m a) + 256 * load_bytes n m (a + 1)"

primrec store_bytes :: "nat \<Rightarrow> mem \<Rightarrow> u64 \<Rightarrow> nat \<Rightarrow> mem" where
  "store_bytes 0 m a v = m"
| "store_bytes (Suc n) m a v = store_bytes n (m(a := of_nat v)) (a + 1) (v div 256)"

definition load16 :: "mem \<Rightarrow> u64 \<Rightarrow> u16" where
  "load16 m a = of_nat (load_bytes 2 m a)"

definition load32 :: "mem \<Rightarrow> u64 \<Rightarrow> u32" where
  "load32 m a = of_nat (load_bytes 4 m a)"

definition load64 :: "mem \<Rightarrow> u64 \<Rightarrow> u64" where
  "load64 m a = of_nat (load_bytes 8 m a)"

definition store64 :: "mem \<Rightarrow> u64 \<Rightarrow> u64 \<Rightarrow> mem" where
  "store64 m a v = store_bytes 8 m a (unat v)"

definition store32 :: "mem \<Rightarrow> u64 \<Rightarrow> u32 \<Rightarrow> mem" where
  "store32 m a v = store_bytes 4 m a (unat v)"

text \<open>
  The offset of an address from the start of a range decides membership in the range,
  also when the range wraps around the end of the address space.
\<close>

lemma offset_Suc: "b \<noteq> a \<Longrightarrow> unat (b - a) = Suc (unat (b - (a + 1)))" for a b :: u64
proof -
  assume "b \<noteq> a"
  then have ne: "unat b \<noteq> unat a" by (metis word_unat_eq_iff)
  have a1: "unat (a + 1) = (if unat a = 2 ^ 64 - 1 then 0 else unat a + 1)"
    using unat_u64_less [of a] by (auto simp: unat_word_ariths intro!: mod_less)
  show ?thesis
    unfolding unat_sub_if_size word_size word_le_nat_alt a1
    using ne unat_u64_less [of a] unat_u64_less [of b] by auto
qed

lemma offset_before: "unat (a - (a + 1)) = 2 ^ 64 - 1" for a :: u64
proof -
  have "a - (a + 1) = - 1" by simp
  then show ?thesis by (simp add: unsigned_minus_1_eq_mask mask_eq_exp_minus_1)
qed

lemma store_bytes_frame:
  "n \<le> unat (b - a) \<Longrightarrow> store_bytes n m a v b = m b"
proof (induction n arbitrary: m a v)
  case 0
  then show ?case by simp
next
  case (Suc n)
  then have ne: "b \<noteq> a" by auto
  with Suc.prems have "n \<le> unat (b - (a + 1))" by (simp add: offset_Suc)
  then have "store_bytes n (m(a := of_nat v)) (a + 1) (v div 256) b = (m(a := of_nat v)) b"
    by (rule Suc.IH)
  with ne show ?case by simp
qed

lemma store_bytes_cong: "m b = m' b \<Longrightarrow> store_bytes n m a v b = store_bytes n m' a v b"
proof (induction n arbitrary: m m' a v)
  case (Suc n)
  have "(m(a := of_nat v)) b = (m'(a := of_nat v)) b" using Suc.prems by (cases "a = b") simp_all
  then show ?case unfolding store_bytes.simps by (rule Suc.IH)
qed simp

lemma load_bytes_cong:
  "(\<And>b. unat (b - a) < n \<Longrightarrow> m b = m' b) \<Longrightarrow> n < 2 ^ 64 \<Longrightarrow> load_bytes n m a = load_bytes n m' a"
proof (induction n arbitrary: a)
  case 0
  then show ?case by simp
next
  case (Suc n)
  have "load_bytes n m (a + 1) = load_bytes n m' (a + 1)"
  proof (rule Suc.IH)
    fix b :: u64
    assume b: "unat (b - (a + 1)) < n"
    have "b \<noteq> a"
    proof
      assume "b = a"
      then have "unat (b - (a + 1)) = 2 ^ 64 - 1" using offset_before [of a] by simp
      with b Suc.prems(2) show False by simp
    qed
    with b have "unat (b - a) < Suc n" by (simp add: offset_Suc)
    then show "m b = m' b" by (rule Suc.prems(1))
  next
    show "n < 2 ^ 64" using Suc.prems(2) by simp
  qed
  moreover have "m a = m' a" by (rule Suc.prems(1)) simp
  ultimately show ?case by simp
qed

lemma load_store_bytes_same:
  "n < 2 ^ 64 \<Longrightarrow> load_bytes n (store_bytes n m a v) a = v mod 256 ^ n"
proof (induction n arbitrary: m a v)
  case 0
  then show ?case by simp
next
  case (Suc n)
  have "unat (a - (a + 1)) = 2 ^ 64 - 1" by (rule offset_before)
  then have "store_bytes n (m(a := of_nat v)) (a + 1) (v div 256) a = of_nat v"
    using Suc.prems by (subst store_bytes_frame) simp_all
  moreover have "load_bytes n (store_bytes n (m(a := of_nat v)) (a + 1) (v div 256)) (a + 1)
      = v div 256 mod 256 ^ n"
    using Suc.prems by (intro Suc.IH) simp
  ultimately show ?case
    by (simp add: unat_of_nat mod_mult2_eq)
qed

lemma load64_store64_same [simp, mem_simps]: "load64 (store64 m a v) a = v"
  using unat_u64_less [of v] by (simp add: load64_def store64_def load_store_bytes_same)

lemma load32_store32 [simp]: "load32 (store32 m a v) a = v"
proof -
  have "unat v < 256 ^ 4" using unsigned_less [of v, where ?'a = nat] by simp
  then show ?thesis by (simp add: load32_def store32_def load_store_bytes_same)
qed

lemma store64_frame: "8 \<le> unat (b - a) \<Longrightarrow> store64 m a v b = m b"
  by (simp add: store64_def store_bytes_frame)

text \<open>The addresses of a range of \<open>n\<close> bytes from \<open>a\<close>.\<close>

definition region :: "u64 \<Rightarrow> nat \<Rightarrow> u64 set" where
  "region a n = {b. unat (b - a) < n}"

lemma region_iff: "b \<in> region a n \<longleftrightarrow> unat (b - a) < n"
  by (simp add: region_def)

lemma region_offset: "i < 2 ^ 64 \<Longrightarrow> a + of_nat i \<in> region a n \<longleftrightarrow> i < n"
  by (simp add: region_def unat_of_nat)

lemma regionE:
  assumes "b \<in> region a n"
  obtains i where "i < n" "i < 2 ^ 64" "b = a + of_nat i"
proof
  show "unat (b - a) < n" using assms by (simp add: region_def)
  show "unat (b - a) < 2 ^ 64" using unat_u64_less [of "b - a"] by simp
  show "b = a + of_nat (unat (b - a))" by simp
qed

lemma region_mono: "n \<le> k \<Longrightarrow> region a n \<subseteq> region a k"
  by (auto simp: region_def)

lemma region_shift: "i + n \<le> m \<Longrightarrow> m < 2 ^ 64 \<Longrightarrow> region (a + of_nat i) n \<subseteq> region a m"
proof
  fix b assume i: "i + n \<le> m" "m < 2 ^ 64" and "b \<in> region (a + of_nat i) n"
  then obtain j where "j < n" "b = a + of_nat i + of_nat j" by (elim regionE)
  then have "b = a + of_nat (i + j)" "i + j < m" using i by (simp_all add: add.assoc)
  then show "b \<in> region a m" using region_offset [of "i + j" a m] i by simp
qed

lemma region_Suc:
  assumes "n < 2 ^ 64"
  shows "b \<in> region a (Suc n) \<longleftrightarrow> b \<in> region a n \<or> b = a + of_nat n"
proof -
  have "unat (b - a) = n \<longleftrightarrow> b - a = of_nat n"
    using assms by (auto simp: unat_of_nat)
  also have "\<dots> \<longleftrightarrow> b = a + of_nat n" by (metis add_diff_cancel_left' diff_add_cancel add.commute)
  finally show ?thesis by (auto simp: region_def less_Suc_eq)
qed

lemma region_disjointI:
  assumes "unat a + n \<le> unat b" "unat b + k \<le> 2 ^ 64"
  shows "region a n \<inter> region b k = {}"
proof -
  have False if "c \<in> region a n" "c \<in> region b k" for c
  proof -
    from that(1) obtain i where i: "i < n" "c = a + of_nat i" by (rule regionE)
    from that(2) obtain j where j: "j < k" "c = b + of_nat j" by (rule regionE)
    have "unat c = unat a + i" using i assms by (simp add: unat_add_no_wrap)
    moreover have "unat c = unat b + j" using j assms by (simp add: unat_add_no_wrap)
    ultimately show False using i j assms by simp
  qed
  then show ?thesis by auto
qed

lemma region_disjoint_offset:
  "\<lbrakk>region a n \<inter> region b k = {}; i < n; j < k; i < 2 ^ 64; j < 2 ^ 64\<rbrakk> \<Longrightarrow>
    a + of_nat i \<noteq> b + of_nat j"
  by (metis disjoint_iff region_offset)

text \<open>Two words at addresses at least eight bytes apart do not overlap.\<close>

definition sep8 :: "u64 \<Rightarrow> u64 \<Rightarrow> bool" where
  "sep8 a b \<longleftrightarrow> 8 \<le> unat (a - b) \<and> 8 \<le> unat (b - a)"

lemma sep8_sym: "sep8 a b \<Longrightarrow> sep8 b a"
  by (simp add: sep8_def)

lemma sep8_bytes: "sep8 a b \<Longrightarrow> unat (c - a) < 8 \<Longrightarrow> 8 \<le> unat (c - b)"
  unfolding sep8_def by unat_arith

lemma load64_zero: "load64 (\<lambda>_. 0) a = 0"
proof -
  have "load_bytes n (\<lambda>_. 0) a = 0" for n by (induction n arbitrary: a) simp_all
  then show ?thesis by (simp add: load64_def)
qed

lemma load64_cong:
  "(\<And>b. unat (b - a) < 8 \<Longrightarrow> m b = m' b) \<Longrightarrow> load64 m a = load64 m' a"
  by (simp add: load64_def cong: load_bytes_cong)

lemma load64_store64_sep [mem_simps]:
  "sep8 b a \<Longrightarrow> load64 (store64 m a v) b = load64 m b"
  by (rule load64_cong) (metis sep8_bytes store64_frame)

text \<open>Eight-byte aligned addresses are equal or eight bytes apart.\<close>

definition aligned8 :: "u64 \<Rightarrow> bool" where
  "aligned8 a \<longleftrightarrow> a AND 7 = 0"

lemma aligned8_iff: "aligned8 a \<longleftrightarrow> unat a mod 8 = 0"
proof -
  have "a AND 7 = take_bit 3 a" by (simp add: take_bit_eq_mask mask_eq_exp_minus_1)
  moreover have "unat (take_bit 3 a) = unat a mod 8" by (simp only: unsigned_take_bit_eq) (simp add: take_bit_eq_mod)
  ultimately show ?thesis by (metis aligned8_def unat_eq_zero)
qed

lemma aligned8_sep8: "\<lbrakk>aligned8 a; aligned8 b; a \<noteq> b\<rbrakk> \<Longrightarrow> sep8 a b"
proof -
  assume "aligned8 a" "aligned8 b" "a \<noteq> b"
  then have al: "unat a mod 8 = 0" "unat b mod 8 = 0" and ne: "unat a \<noteq> unat b"
    by (simp_all add: aligned8_iff) (metis word_unat_eq_iff)
  have far: "8 \<le> (if y \<le> x then x - y else 2 ^ 64 + x - y)"
    if "x mod 8 = 0" "y mod 8 = 0" "x \<noteq> y" "x < 2 ^ 64" "y < 2 ^ 64" for x y :: nat
  proof -
    from that(1,2) obtain k l where "x = 8 * k" "y = 8 * l"
      by (metis dvd_def mod_0_imp_dvd)
    moreover from this that(3) have "Suc k \<le> l \<or> Suc l \<le> k" by auto
    ultimately show ?thesis using that(4,5) by auto
  qed
  show "sep8 a b"
    unfolding sep8_def unat_sub_if_size word_size
    using ne far [OF al(1) al(2) ne] far [OF al(2) al(1) ne [symmetric]]
      unat_u64_less [of a] unat_u64_less [of b]
    by (auto simp: word_le_nat_alt)
qed

lemma load64_store64_aligned:
  "\<lbrakk>aligned8 a; aligned8 b\<rbrakk> \<Longrightarrow>
    load64 (store64 m a v) b = (if a = b then v else load64 m b)"
  by (simp add: load64_store64_sep aligned8_sep8 sep8_sym)

lemma aligned8_add: "\<lbrakk>aligned8 a; aligned8 b\<rbrakk> \<Longrightarrow> aligned8 (a + b)"
proof -
  assume "aligned8 a" "aligned8 b"
  then have "8 dvd unat a + unat b" by (simp add: aligned8_iff mod_eq_0_iff_dvd)
  moreover have "unat (a + b) mod 8 = (unat a + unat b) mod 8"
    by (simp add: unat_word_ariths mod_mod_cancel)
  ultimately show ?thesis by (simp add: aligned8_iff mod_eq_0_iff_dvd)
qed

lemma aligned8_numeral [simp]: "aligned8 8" "aligned8 16" "aligned8 0"
  by (simp_all add: aligned8_def)

end
