(* ===== verification/CString.thy ===== *)
theory CString
  imports Prelude
begin

text \<open>
  sys/string.c (libc/string.c holds the same functions for user programs): strings
  are addresses of NUL-terminated bytes. Lengths and indices are C \<open>int\<close>s, which an
  access sign-extends to 64 bits. The scanning loops end at a byte of memory, so they
  are \<open>partial_function (option)\<close>, where \<open>None\<close> means that the loop never ends; that
  they return is part of each functional theorem below.
\<close>

section \<open>The functions of string.c\<close>

partial_function (option) strlen_loop :: "mem \<Rightarrow> u64 \<Rightarrow> cint \<Rightarrow> cint option" where
  "strlen_loop m str len =
     (let c = m (str + scast len); len' = len + 1
      in if c \<noteq> 0 then strlen_loop m str len' else Some (len' - 1))"

definition strlen :: "mem \<Rightarrow> u64 \<Rightarrow> cint option" where
  "strlen m str = strlen_loop m str 0"

partial_function (option) strcmp_loop :: "mem \<Rightarrow> u64 \<Rightarrow> u64 \<Rightarrow> cint \<Rightarrow> cint option" where
  "strcmp_loop m str1 str2 i =
     (if m (str1 + scast i) \<noteq> 0 \<and> m (str1 + scast i) = m (str2 + scast i)
      then strcmp_loop m str1 str2 (i + 1) else Some i)"

definition strcmp :: "mem \<Rightarrow> u64 \<Rightarrow> u64 \<Rightarrow> cint option" where
  "strcmp m str1 str2 = do {
     len1 \<leftarrow> strlen m str1;
     len2 \<leftarrow> strlen m str2;
     if sint len1 > sint len2 then Some 1
     else if sint len1 < sint len2 then Some (- 1)
     else do {
       i \<leftarrow> strcmp_loop m str1 str2 0;
       if m (str1 + scast i) = 0 then Some 0
       else if sint (m (str1 + scast i)) > sint (m (str2 + scast i)) then Some 1
       else Some (- 1)
     }
   }"

partial_function (option) strsubcmp_loop ::
  "mem \<Rightarrow> u64 \<Rightarrow> u64 \<Rightarrow> cint \<Rightarrow> cint \<Rightarrow> cint \<Rightarrow> (cint \<times> cint) option" where
  "strsubcmp_loop m str1 str2 to i j =
     (if m (str1 + scast i) \<noteq> 0 \<and> m (str1 + scast i) = m (str2 + scast j) \<and> sint j < sint to
      then strsubcmp_loop m str1 str2 to (i + 1) (j + 1) else Some (i, j))"

definition strsubcmp :: "mem \<Rightarrow> u64 \<Rightarrow> u64 \<Rightarrow> cint \<Rightarrow> cint \<Rightarrow> cint option" where
  "strsubcmp m str1 str2 from_i to = do {
     len1 \<leftarrow> strlen m str1;
     let len2 = to - from_i;
     if sint len1 > sint len2 then Some 1
     else if sint len1 < sint len2 then Some (- 1)
     else do {
       (i, j) \<leftarrow> strsubcmp_loop m str1 str2 to 0 from_i;
       if m (str1 + scast i) = 0 then Some 0
       else if sint (m (str1 + scast i)) > sint (m (str2 + scast j)) then Some 1
       else Some (- 1)
     }
   }"

text \<open>
  The copying loops run over a range of indices known before they start. The functions
  return 1 in C; the model returns the memory they leave.
\<close>

definition copy_byte :: "u64 \<Rightarrow> u64 \<Rightarrow> int \<Rightarrow> mem \<Rightarrow> mem" where
  "copy_byte str1 str2 i m = m(str1 + of_int i := m (str2 + of_int i))"

definition strcpy :: "mem \<Rightarrow> u64 \<Rightarrow> u64 \<Rightarrow> mem option" where
  "strcpy m str1 str2 = do {
     len \<leftarrow> strlen m str2;
     let m' = fold (copy_byte str1 str2) [0..sint len - 1] m;
     Some (m'(str1 + scast len := 0))
   }"

definition strsubcpy :: "mem \<Rightarrow> u64 \<Rightarrow> u64 \<Rightarrow> cint \<Rightarrow> cint \<Rightarrow> mem" where
  "strsubcpy m str1 str2 from_i to = fold (copy_byte str1 str2) [sint from_i..sint to - 1] m"

definition strcat :: "mem \<Rightarrow> u64 \<Rightarrow> u64 \<Rightarrow> mem option" where
  "strcat m str1 str2 = do {
     len1 \<leftarrow> strlen m str1;
     strcpy m (str1 + scast len1) str2
   }"

definition strrevcat :: "mem \<Rightarrow> u64 \<Rightarrow> u64 \<Rightarrow> mem option" where
  "strrevcat m str1 str2 = do {
     len2 \<leftarrow> strlen m str2;
     strcpy m (str2 + scast len2) str1
   }"

function strrev_loop :: "mem \<Rightarrow> u64 \<Rightarrow> int \<Rightarrow> int \<Rightarrow> mem" where
  "strrev_loop m str i j =
     (if i < j
      then strrev_loop (m(str + of_int i := m (str + of_int j),
                          str + of_int j := m (str + of_int i))) str (i + 1) (j - 1)
      else m)"
  by pat_completeness auto
termination
  by (relation "measure (\<lambda>(m, str, i, j). nat (j - i))") auto

declare strrev_loop.simps [simp del]

definition strrev :: "mem \<Rightarrow> u64 \<Rightarrow> mem option" where
  "strrev m str = do {
     len \<leftarrow> strlen m str;
     Some (strrev_loop m str 0 (sint len))
   }"

section \<open>C strings in memory\<close>

primrec cstr :: "mem \<Rightarrow> u64 \<Rightarrow> u8 list \<Rightarrow> bool" where
  "cstr m p [] \<longleftrightarrow> m p = 0"
| "cstr m p (c # cs) \<longleftrightarrow> c \<noteq> 0 \<and> m p = c \<and> cstr m (p + 1) cs"

lemma cstr_nth: "cstr m p s \<Longrightarrow> i < length s \<Longrightarrow> m (p + of_nat i) = s ! i \<and> s ! i \<noteq> 0"
proof (induction s arbitrary: p i)
  case Nil
  then show ?case by simp
next
  case (Cons c s)
  then show ?case by (cases i) (auto simp: add.assoc [symmetric])
qed

lemma cstr_end: "cstr m p s \<Longrightarrow> m (p + of_nat (length s)) = 0"
  by (induction s arbitrary: p) (auto simp: add.assoc [symmetric])

lemma cstrI:
  "\<lbrakk>\<And>i. i < length s \<Longrightarrow> m (p + of_nat i) = s ! i; 0 \<notin> set s; m (p + of_nat (length s)) = 0\<rbrakk>
    \<Longrightarrow> cstr m p s"
proof (induction s arbitrary: p)
  case Nil
  then show ?case by simp
next
  case (Cons c s)
  have "cstr m (p + 1) s"
  proof (rule Cons.IH)
    show "m (p + 1 + of_nat i) = s ! i" if "i < length s" for i
      using Cons.prems(1) [of "Suc i"] that by (simp add: add.assoc)
  qed (use Cons.prems in \<open>auto simp: add.assoc\<close>)
  then show ?case using Cons.prems(1) [of 0] Cons.prems(2) by auto
qed

lemma cstr_nonzero: "cstr m p s \<Longrightarrow> 0 \<notin> set s"
  by (induction s arbitrary: p) auto

lemma cstr_unique: "cstr m p s \<Longrightarrow> cstr m p t \<Longrightarrow> s = t"
proof (induction s arbitrary: p t)
  case Nil
  then show ?case by (cases t) auto
next
  case (Cons c s)
  then show ?case by (cases t) auto
qed

section \<open>Indices\<close>

lemma scast_cint_of_nat: "n < 2 ^ 31 \<Longrightarrow> (scast (of_nat n :: cint) :: u64) = of_nat n"
proof -
  assume "n < 2 ^ 31"
  then have "(of_int (sint (of_nat n :: cint)) :: u64) = of_int (int n)"
    by (simp only: sint_cint_of_nat)
  then show ?thesis by simp
qed

lemma cint_of_nat_Suc: "(of_nat n :: cint) + 1 = of_nat (Suc n)"
  by simp

lemma u64_of_nat_Suc: "(p :: u64) + of_nat (Suc n) = p + of_nat n + 1"
  by simp

section \<open>Scanning\<close>

lemma strlen_loop_cstr:
  "\<lbrakk>cstr m (p + of_nat k) s; k + length s < 2 ^ 31\<rbrakk> \<Longrightarrow>
    strlen_loop m p (of_nat k) = Some (of_nat (k + length s))"
proof (induction s arbitrary: k)
  case Nil
  then show ?case
    by (subst strlen_loop.simps) (simp add: scast_cint_of_nat)
next
  case (Cons c s)
  have "strlen_loop m p (of_nat (Suc k)) = Some (of_nat (Suc k + length s))"
    using Cons.prems by (intro Cons.IH) (simp_all add: add.assoc add.commute [of 1])
  with Cons.prems show ?case
    by (subst strlen_loop.simps) (simp add: scast_cint_of_nat add.commute [of 1])
qed

lemma strlen_cstr: "\<lbrakk>cstr m p s; length s < 2 ^ 31\<rbrakk> \<Longrightarrow> strlen m p = Some (of_nat (length s))"
  using strlen_loop_cstr [of m p 0 s] by (simp add: strlen_def)

fun first_diff :: "u8 list \<Rightarrow> u8 list \<Rightarrow> nat" where
  "first_diff (a # as) (b # bs) = (if a = b then Suc (first_diff as bs) else 0)"
| "first_diff _ _ = 0"

lemma first_diff_le: "first_diff s t \<le> length s" "first_diff s t \<le> length t"
  by (induction s t rule: first_diff.induct) auto

lemma strcmp_loop_cstr:
  "\<lbrakk>cstr m (p + of_nat k) s; cstr m (q + of_nat k) t; k + length s < 2 ^ 31; k + length t < 2 ^ 31\<rbrakk> \<Longrightarrow>
    strcmp_loop m p q (of_nat k) = Some (of_nat (k + first_diff s t))"
proof (induction s t arbitrary: k rule: first_diff.induct)
  case (1 a as b bs)
  have "strcmp_loop m p q (of_nat (Suc k)) = Some (of_nat (Suc k + first_diff as bs))" if "a = b"
    using "1.prems" that by (intro "1.IH") (simp_all add: add.assoc add.commute [of 1])
  with "1.prems" show ?case
    by (subst strcmp_loop.simps) (simp add: scast_cint_of_nat add.commute [of 1])
qed (subst strcmp_loop.simps, use cstr_nonzero in \<open>auto simp: scast_cint_of_nat neq_Nil_conv\<close>)+

text \<open>
  The order strcmp decides: first by length, then by the first pair of different bytes,
  read as signed \<open>char\<close>s.
\<close>

fun lex_order :: "u8 list \<Rightarrow> u8 list \<Rightarrow> cint" where
  "lex_order (a # as) (b # bs) =
     (if a = b then lex_order as bs else if sint a > sint b then 1 else - 1)"
| "lex_order _ _ = 0"

definition str_order :: "u8 list \<Rightarrow> u8 list \<Rightarrow> cint" where
  "str_order s t =
     (if length s > length t then 1 else if length s < length t then - 1 else lex_order s t)"

lemma lex_order_first_diff:
  "length s = length t \<Longrightarrow> lex_order s t =
    (if first_diff s t = length s then 0
     else if sint (s ! first_diff s t) > sint (t ! first_diff s t) then 1 else - 1)"
  by (induction s t rule: first_diff.induct) auto

lemma lex_order_zero: "length s = length t \<Longrightarrow> lex_order s t = 0 \<longleftrightarrow> s = t"
  by (induction s t rule: lex_order.induct) auto

lemma str_order_zero: "str_order s t = 0 \<longleftrightarrow> s = t"
  by (auto simp: str_order_def lex_order_zero)

lemma sint_u8_eq_iff: "sint (a :: u8) = sint b \<longleftrightarrow> a = b"
  by (metis signed_word_eqI)

lemma lex_order_antisym: "lex_order t s = - lex_order s t"
  by (induction s t rule: lex_order.induct) (auto simp: not_less_iff_gr_or_eq sint_u8_eq_iff)

lemma str_order_antisym: "str_order t s = - str_order s t"
  by (simp add: str_order_def lex_order_antisym [of t s])

lemma cstr_at_first_diff:
  "\<lbrakk>cstr m p s; n \<le> length s\<rbrakk> \<Longrightarrow>
    m (p + of_nat n) = (if n = length s then 0 else s ! n) \<and> (n < length s \<longrightarrow> s ! n \<noteq> 0)"
  using cstr_nth [of m p s n] cstr_end [of m p s] by auto

lemma strcmp_cstr:
  assumes s: "cstr m p s" "length s < 2 ^ 31" and t: "cstr m q t" "length t < 2 ^ 31"
  shows "strcmp m p q = Some (str_order s t)"
proof -
  note len = strlen_cstr [OF s] strlen_cstr [OF t] sint_cint_of_nat [OF s(2)] sint_cint_of_nat [OF t(2)]
  show ?thesis
  proof (cases "length s = length t")
    case False
    then show ?thesis by (auto simp: strcmp_def str_order_def len)
  next
    case True
    let ?n = "first_diff s t"
    have n: "?n \<le> length s" "?n \<le> length t" "?n < 2 ^ 31"
      using first_diff_le [of s t] s(2) by auto
    have loop: "strcmp_loop m p q 0 = Some (of_nat ?n)"
      using strcmp_loop_cstr [of m p 0 s q t] s t by simp
    show ?thesis
      using True loop cstr_at_first_diff [OF s(1) n(1)] cstr_at_first_diff [OF t(1) n(2)] n
      by (simp add: strcmp_def str_order_def len scast_cint_of_nat lex_order_first_diff)
  qed
qed

lemma cstr_region_cong:
  assumes "cstr m p s" "length s < 2 ^ 64" "\<And>b. b \<in> region p (Suc (length s)) \<Longrightarrow> m' b = m b"
  shows "cstr m' p s"
proof (rule cstrI)
  show "m' (p + of_nat i) = s ! i" if "i < length s" for i
    using that assms cstr_nth [OF assms(1) that] by (simp add: region_offset)
  show "0 \<notin> set s" using assms(1) by (rule cstr_nonzero)
  show "m' (p + of_nat (length s)) = 0"
    using assms cstr_end [OF assms(1)] by (simp add: region_offset)
qed

lemma strsubcmp_loop_cstr:
  "\<lbrakk>cstr m (p + of_nat k) s; int (j + length s) = sint to; k + length s < 2 ^ 31\<rbrakk> \<Longrightarrow>
    strsubcmp_loop m p q to (of_nat k) (of_nat j) =
      (let n = first_diff s (map (\<lambda>i. m (q + of_nat j + of_nat i)) [0..<length s])
       in Some (of_nat (k + n), of_nat (j + n)))"
proof (induction s arbitrary: k j)
  case Nil
  then show ?case by (subst strsubcmp_loop.simps) (simp add: scast_cint_of_nat)
next
  case (Cons a s)
  have j: "j + length s < 2 ^ 31 - 1"
    using Cons.prems(2) sint_lt [of to] by simp
  have IH: "strsubcmp_loop m p q to (of_nat (Suc k)) (of_nat (Suc j)) =
      (let n = first_diff s (map (\<lambda>i. m (q + of_nat (Suc j) + of_nat i)) [0..<length s])
       in Some (of_nat (Suc k + n), of_nat (Suc j + n)))"
    using Cons.prems by (intro Cons.IH) (simp_all add: add.assoc add.commute [of 1])
  have map_eq: "map (\<lambda>i. m (q + of_nat j + of_nat i)) [0..<length (a # s)] =
      m (q + of_nat j) # map (\<lambda>i. m (q + of_nat (Suc j) + of_nat i)) [0..<length s]"
    by (simp add: upt_conv_Cons map_Suc_upt [symmetric] del: upt_Suc) (simp add: algebra_simps)
  have "m (p + of_nat k) = a" "a \<noteq> 0" using Cons.prems(1) by auto
  then show ?case
    using IH Cons.prems j
    by (subst strsubcmp_loop.simps, subst map_eq)
      (simp add: scast_cint_of_nat sint_cint_of_nat Let_def ac_simps)
qed

text \<open>The bytes a range comparison looks at.\<close>

definition bytes_at :: "mem \<Rightarrow> u64 \<Rightarrow> nat \<Rightarrow> u8 list" where
  "bytes_at m p n = map (\<lambda>i. m (p + of_nat i)) [0..<n]"

lemma length_bytes_at [simp]: "length (bytes_at m p n) = n"
  by (simp add: bytes_at_def)

lemma nth_bytes_at [simp]: "i < n \<Longrightarrow> bytes_at m p n ! i = m (p + of_nat i)"
  by (simp add: bytes_at_def)

lemma strsubcmp_cstr:
  assumes s: "cstr m p s" "length s < 2 ^ 31" and f: "f < 2 ^ 31"
    and len: "int (f + length s) = sint to"
  shows "strsubcmp m p q (of_nat f) to = Some (lex_order s (bytes_at m (q + of_nat f) (length s)))"
proof -
  let ?t = "bytes_at m (q + of_nat f) (length s)"
  let ?n = "first_diff s ?t"
  have n: "?n \<le> length s" "?n < 2 ^ 31" "f + ?n < 2 ^ 31"
    using first_diff_le(1) [of s ?t] s(2) len sint_lt [of to] by auto
  have "to = of_nat (f + length s)"
    using len by (metis of_int_of_nat_eq of_int_sint scast_id sint_sbintrunc')
  then have len2: "to - of_nat f = of_nat (length s)" by simp
  have loop: "strsubcmp_loop m p q to 0 (of_nat f) = Some (of_nat ?n, of_nat (f + ?n))"
    using strsubcmp_loop_cstr [of m p 0 s f to q] s len by (simp add: bytes_at_def Let_def)
  have nth: "?n < length s \<Longrightarrow> ?t ! ?n = m (q + of_nat (f + ?n))"
    by (simp add: bytes_at_def add.assoc)
  have "lex_order s ?t =
    (if ?n = length s then 0 else if sint (s ! ?n) > sint (?t ! ?n) then 1 else - 1)"
    by (rule lex_order_first_diff) (simp add: bytes_at_def)
  then show ?thesis
    using loop nth cstr_at_first_diff [OF s(1) n(1)] n
    unfolding strsubcmp_def strlen_cstr [OF s] len2
    by (simp add: sint_cint_of_nat [OF s(2)] scast_cint_of_nat [OF n(2)] scast_cint_of_nat [OF n(3)]
        del: of_nat_add)
qed

section \<open>Copying\<close>

lemma fold_copy_byte:
  assumes "n < 2 ^ 64" "region d n \<inter> region s n = {}"
  shows "fold (copy_byte d s) (map int [0..<n]) m b =
    (if b \<in> region d n then m (s + (b - d)) else m b)"
  using assms
proof (induction n arbitrary: b)
  case 0
  then show ?case by (simp add: region_def)
next
  case (Suc n)
  have dis: "region d n \<inter> region s n = {}"
    using Suc.prems(2) region_mono [of n "Suc n" d] region_mono [of n "Suc n" s]
    by (auto simp: disjoint_iff)
  have src: "s + of_nat n \<notin> region d n"
  proof -
    have "s + of_nat n \<in> region s (Suc n)" using Suc.prems(1) by (simp add: region_offset)
    moreover have "region d n \<subseteq> region d (Suc n)" by (rule region_mono) simp
    ultimately show ?thesis using Suc.prems(2) by (metis disjoint_iff subsetD)
  qed
  have step: "b \<in> region d (Suc n) \<longleftrightarrow> b \<in> region d n \<or> b = d + of_nat n"
    using Suc.prems(1) by (intro region_Suc) simp
  have IH: "fold (copy_byte d s) (map int [0..<n]) m b = (if b \<in> region d n then m (s + (b - d)) else m b)" for b
    using Suc.prems(1) dis by (intro Suc.IH) simp_all
  have "fold (copy_byte d s) (map int [0..<Suc n]) m b =
      (if b = d + of_nat n then m (s + of_nat n) else fold (copy_byte d s) (map int [0..<n]) m b)"
    using IH [of "s + of_nat n"] src by (simp add: copy_byte_def)
  then show ?case
    using step by (simp add: IH)
qed

lemma upto_int_of_nat: "[0..int n - 1] = map int [0..<n]"
proof (induction n)
  case 0
  then show ?case by simp
next
  case (Suc n)
  have "[0..int (Suc n) - 1] = [0..int n - 1] @ [int n]"
    using upto_rec2 [of 0 "int n"] by simp
  then show ?case using Suc.IH by simp
qed

lemma strcpy_cstr:
  assumes s: "cstr m src s" "length s < 2 ^ 31"
    and dis: "region dst (length s) \<inter> region src (length s) = {}"
  shows "strcpy m dst src = Some (\<lambda>b.
    if b = dst + of_nat (length s) then 0
    else if b \<in> region dst (length s) then m (src + (b - dst)) else m b)"
proof -
  have "fold (copy_byte dst src) (map int [0..<length s]) m =
      (\<lambda>b. if b \<in> region dst (length s) then m (src + (b - dst)) else m b)"
    using s(2) dis by (intro ext fold_copy_byte) auto
  then show ?thesis
    unfolding strcpy_def strlen_cstr [OF s] bind.bind_lunit Let_def sint_cint_of_nat [OF s(2)]
      upto_int_of_nat scast_cint_of_nat [OF s(2)]
    by (simp add: fun_eq_iff)
qed

text \<open>
  The copy leaves the string at the destination, terminated, and touches nothing else.
  The result of \<open>strcpy\<close> is described by these two facts from here on.
\<close>

lemma strcpy_ok:
  assumes s: "cstr m src s" "length s < 2 ^ 31"
    and dis: "region dst (length s) \<inter> region src (length s) = {}"
  obtains m' where "strcpy m dst src = Some m'" "cstr m' dst s"
    "\<And>b. b \<notin> region dst (Suc (length s)) \<Longrightarrow> m' b = m b"
proof
  let ?m = "\<lambda>b. if b = dst + of_nat (length s) then 0
    else if b \<in> region dst (length s) then m (src + (b - dst)) else m b"
  show "strcpy m dst src = Some ?m" by (rule strcpy_cstr [OF assms])
  show "cstr ?m dst s"
  proof (rule cstrI)
    show "?m (dst + of_nat i) = s ! i" if "i < length s" for i
      using that s(2) cstr_nth [OF s(1) that]
      by (simp add: region_offset of_nat_u64_eq_iff)
    show "0 \<notin> set s" by (rule cstr_nonzero [OF s(1)])
  qed simp
  fix b
  assume "b \<notin> region dst (Suc (length s))"
  moreover have "dst + of_nat (length s) \<in> region dst (Suc (length s))"
    using s(2) by (simp add: region_offset)
  ultimately show "?m b = m b" using region_mono [of "length s" "Suc (length s)" dst] by auto
qed

lemma cstr_append:
  "\<lbrakk>\<And>i. i < length s \<Longrightarrow> m (p + of_nat i) = s ! i; 0 \<notin> set s; cstr m (p + of_nat (length s)) t\<rbrakk>
    \<Longrightarrow> cstr m p (s @ t)"
proof (induction s arbitrary: p)
  case Nil
  then show ?case by simp
next
  case (Cons c s)
  have "cstr m (p + 1) (s @ t)"
  proof (rule Cons.IH)
    show "m (p + 1 + of_nat i) = s ! i" if "i < length s" for i
      using Cons.prems(1) [of "Suc i"] that by (simp add: add.assoc)
  qed (use Cons.prems in \<open>auto simp: add.assoc\<close>)
  then show ?case using Cons.prems(1) [of 0] Cons.prems(2) by auto
qed

lemma strcat_ok:
  assumes s: "cstr m p s" and t: "cstr m q t" and len: "length s + length t < 2 ^ 31"
    and dis: "region p (length s + length t) \<inter> region q (length t) = {}"
  obtains m' where "strcat m p q = Some m'" "cstr m' p (s @ t)"
    "\<And>b. b \<notin> region (p + of_nat (length s)) (Suc (length t)) \<Longrightarrow> m' b = m b"
proof -
  let ?d = "p + of_nat (length s)"
  have sub: "region ?d (length t) \<subseteq> region p (length s + length t)"
  proof
    fix b
    assume "b \<in> region ?d (length t)"
    then obtain i where "i < length t" "b = ?d + of_nat i" by (rule regionE)
    then show "b \<in> region p (length s + length t)"
      using len region_offset [of "length s + i" p "length s + length t"] by (simp add: add.assoc)
  qed
  obtain m' where m': "strcpy m ?d q = Some m'" "cstr m' ?d t"
    "\<And>b. b \<notin> region ?d (Suc (length t)) \<Longrightarrow> m' b = m b"
    using strcpy_ok [OF t, of ?d] len dis sub by auto
  show ?thesis
  proof
    show "strcat m p q = Some m'"
      using strlen_cstr [OF s] len m'(1) by (simp add: strcat_def scast_cint_of_nat)
    show "cstr m' p (s @ t)"
    proof (rule cstr_append)
      fix i
      assume i: "i < length s"
      have "p + of_nat i \<notin> region ?d (Suc (length t))"
      proof
        assume "p + of_nat i \<in> region ?d (Suc (length t))"
        then obtain j where j: "j < Suc (length t)" "p + of_nat i = ?d + of_nat j" by (rule regionE)
        then have "(of_nat i :: u64) = of_nat (length s + j)" by simp
        then show False using i j len by (subst (asm) of_nat_u64_eq_iff) auto
      qed
      then show "m' (p + of_nat i) = s ! i" using m'(3) cstr_nth [OF s i] by simp
    qed (use m'(2) cstr_nonzero [OF s] in auto)
  qed (rule m'(3))
qed

lemma strrevcat_eq_strcat: "strrevcat m str1 str2 = strcat m str2 str1"
  by (simp add: strrevcat_def strcat_def)

section \<open>Reversal\<close>

lemma of_int_u64_eq_iff:
  "\<lbrakk>0 \<le> a; a < 2 ^ 64; 0 \<le> b; b < 2 ^ 64\<rbrakk> \<Longrightarrow> (of_int a :: u64) = of_int b \<longleftrightarrow> a = b"
  by (simp add: word_of_int_eq_iff take_bit_int_eq_self)

lemma strrev_loop_at:
  "\<lbrakk>0 \<le> i; j < 2 ^ 31; 0 \<le> k; k < 2 ^ 31\<rbrakk> \<Longrightarrow>
    strrev_loop m p i j (p + of_int k) =
      m (p + of_int (if i \<le> k \<and> k \<le> j then i + j - k else k))"
proof (induction m p i j rule: strrev_loop.induct)
  case (1 m p i j)
  show ?case
  proof (cases "i < j")
    case False
    then have k: "(if i \<le> k \<and> k \<le> j then i + j - k else k) = k" by auto
    from False show ?thesis unfolding k by (simp add: strrev_loop.simps [of m p i j])
  next
    case True
    let ?m = "m(p + of_int i := m (p + of_int j), p + of_int j := m (p + of_int i))"
    have at: "?m (p + of_int l) = m (p + of_int (if l = i then j else if l = j then i else l))"
      if "0 \<le> l" "l < 2 ^ 31" for l
      using that "1.prems" True of_int_u64_eq_iff [of l i] of_int_u64_eq_iff [of l j] by simp
    have "strrev_loop m p i j (p + of_int k) = strrev_loop ?m p (i + 1) (j - 1) (p + of_int k)"
      using True by (simp add: strrev_loop.simps [of m p i j])
    also have "\<dots> = ?m (p + of_int (if i + 1 \<le> k \<and> k \<le> j - 1 then (i + 1) + (j - 1) - k else k))"
      using "1.prems" by (intro "1.IH" [OF True]) simp_all
    also have "\<dots> = m (p + of_int (if i \<le> k \<and> k \<le> j then i + j - k else k))"
      using "1.prems" True by (subst at) auto
    finally show ?thesis .
  qed
qed

lemma strrev_loop_frame:
  "\<lbrakk>0 \<le> i; j < 2 ^ 31; b \<notin> region p (2 ^ 31)\<rbrakk> \<Longrightarrow> strrev_loop m p i j b = m b"
proof (induction m p i j rule: strrev_loop.induct)
  case (1 m p i j)
  have ne: "b \<noteq> p + of_int k" if "0 \<le> k" "k < 2 ^ 31" for k
    using "1.prems"(3) region_offset [of "nat k" p "2 ^ 31"] that by auto
  show ?case
  proof (cases "i < j")
    case True
    let ?m = "m(p + of_int i := m (p + of_int j), p + of_int j := m (p + of_int i))"
    have "strrev_loop ?m p (i + 1) (j - 1) b = ?m b"
      using True "1.prems" by (intro "1.IH") simp_all
    moreover have "?m b = m b" using ne [of i] ne [of j] "1.prems" True by simp
    ultimately show ?thesis using True by (simp only: strrev_loop.simps [of m p i j] if_True)
  qed (simp add: strrev_loop.simps [of m p i j])
qed

section \<open>Properties\<close>

text \<open>
  C38. strcmp returns for every pair of terminated strings shorter than 2 GiB; it orders
  them by length first and then by the first differing byte (as signed char), and it
  returns 0 exactly when the strings are equal.
\<close>

theorem strcmp_correct:
  assumes "cstr m p s" "length s < 2 ^ 31" "cstr m q t" "length t < 2 ^ 31"
  shows "strcmp m p q = Some (str_order s t) \<and> (strcmp m p q = Some 0 \<longleftrightarrow> s = t)
    \<and> strcmp m q p = Some (- str_order s t)"
  using strcmp_cstr [OF assms] strcmp_cstr [OF assms(3,4,1,2)]
  by (simp add: str_order_zero str_order_antisym [of t s])

text \<open>Memory holding given bytes at an address, for closed instances.\<close>

primrec put_bytes :: "u64 \<Rightarrow> u8 list \<Rightarrow> mem \<Rightarrow> mem" where
  "put_bytes p [] m = m"
| "put_bytes p (b # bs) m = (put_bytes (p + 1) bs m)(p := b)"

lemma put_bytes_nth:
  "\<lbrakk>i < length bs; length bs \<le> 2 ^ 64\<rbrakk> \<Longrightarrow> put_bytes p bs m (p + of_nat i) = bs ! i"
proof (induction bs arbitrary: p i)
  case Nil
  then show ?case by simp
next
  case (Cons b bs)
  show ?case
  proof (cases i)
    case (Suc j)
    then have "(of_nat i :: u64) \<noteq> 0"
      using Cons.prems by (simp add: word_unat_eq_iff unat_of_nat del: of_nat_Suc)
    moreover have "put_bytes (p + 1) bs m (p + 1 + of_nat j) = bs ! j"
      using Cons.prems Suc by (intro Cons.IH) simp_all
    ultimately show ?thesis using Suc by (simp add: add.assoc)
  qed simp
qed

lemma put_bytes_frame: "\<lbrakk>b \<notin> region p (length bs); length bs < 2 ^ 64\<rbrakk> \<Longrightarrow> put_bytes p bs m b = m b"
proof (induction bs arbitrary: p)
  case (Cons c bs)
  have ne: "b \<noteq> p" using Cons.prems(1) by (auto simp: region_def)
  then have "b \<notin> region (p + 1) (length bs)" using Cons.prems(1) offset_Suc [of b p] by (simp add: region_def)
  with ne Cons show ?case by simp
qed simp

lemma bytes_at_put_bytes: "length bs \<le> 2 ^ 64 \<Longrightarrow> bytes_at (put_bytes p bs m) p (length bs) = bs"
  by (rule nth_equalityI) (simp_all add: put_bytes_nth)

lemma strcmp_correct_witness:
  "strcmp (put_bytes 4096 [98, 105, 110] (\<lambda>_. 0)) 4096 4097 = Some 1"
proof -
  let ?m = "put_bytes 4096 [98, 105, 110] (\<lambda>_. 0)"
  have "strcmp ?m 4096 4097 = Some (str_order [98, 105, 110] [105, 110])"
    using strcmp_correct [of ?m 4096 "[98, 105, 110]" 4097 "[105, 110]"] by simp
  then show ?thesis by (simp add: str_order_def)
qed

text \<open>
  strsubcmp compares a whole string with a range of bytes of the same length: it
  returns 0 exactly when the range holds the string's bytes.
\<close>

lemma strsubcmp_zero_iff:
  assumes "cstr m p s" "length s < 2 ^ 31" "f + length s < 2 ^ 31"
  shows "strsubcmp m p q (of_nat f) (of_nat (f + length s)) = Some 0 \<longleftrightarrow>
    (\<forall>i < length s. m (q + of_nat (f + i)) = s ! i)"
proof -
  let ?t = "bytes_at m (q + of_nat f) (length s)"
  have "strsubcmp m p q (of_nat f) (of_nat (f + length s)) = Some (lex_order s ?t)"
    using assms sint_cint_of_nat [OF assms(3)] by (intro strsubcmp_cstr) auto
  moreover have "lex_order s ?t = 0 \<longleftrightarrow> s = ?t"
    by (rule lex_order_zero) (simp add: bytes_at_def)
  moreover have "s = ?t \<longleftrightarrow> (\<forall>i < length s. m (q + of_nat (f + i)) = s ! i)"
    unfolding list_eq_iff_nth_eq by (auto simp: bytes_at_def add.assoc)
  ultimately show ?thesis by simp
qed

lemma strsubcmp_zero_iff_witness:
  "strsubcmp (put_bytes 4096 [69, 76, 70, 0, 127, 69, 76, 70] (\<lambda>_. 0)) 4096 4100 1 4 = Some 0"
proof -
  let ?m = "put_bytes 4096 [69, 76, 70, 0, 127, 69, 76, 70] (\<lambda>_. 0)"
  have "\<forall>i < length [69, 76, 70 :: u8]. ?m (4100 + of_nat (1 + i)) = [69, 76, 70] ! i"
    by (auto simp: less_Suc_eq)
  then show ?thesis
    using strsubcmp_zero_iff [of ?m 4096 "[69, 76, 70]" 1 4100] by simp
qed

text \<open>
  C39. strcat (and strrevcat, which swaps the roles) appends: the destination holds the
  concatenation, and no byte outside the appended part changes.
\<close>

theorem strcat_correct:
  assumes "cstr m p s" "cstr m q t" "length s + length t < 2 ^ 31"
    and "region p (length s + length t) \<inter> region q (length t) = {}"
  shows "\<exists>m'. strcat m p q = Some m' \<and> strrevcat m q p = Some m' \<and> cstr m' p (s @ t) \<and>
    (\<forall>b. b \<notin> region (p + of_nat (length s)) (Suc (length t)) \<longrightarrow> m' b = m b)"
  using strcat_ok [OF assms] by (metis strrevcat_eq_strcat)

lemma strcat_correct_witness:
  "\<exists>m'. strcat (put_bytes 4096 [47] (put_bytes 8192 [98, 105] (\<lambda>_. 0))) 4096 8192 = Some m' \<and>
    cstr m' 4096 [47, 98, 105]"
proof -
  let ?m = "put_bytes 4096 [47] (put_bytes 8192 [98, 105] (\<lambda>_. 0))"
  have "region 4096 (Suc (Suc (Suc 0))) \<inter> region 8192 (Suc (Suc 0)) = {}"
    by (rule region_disjointI) simp_all
  then show ?thesis
    using strcat_correct [of ?m 4096 "[47]" 8192 "[98, 105]"] by auto
qed

text \<open>
  strrev swaps the terminator along with the characters: a non-empty string becomes
  the empty string, with its characters reversed behind the terminator.
\<close>

lemma strrev_moves_terminator:
  assumes "cstr m p s" "length s < 2 ^ 31 - 1"
  shows "\<exists>m'. strrev m p = Some m' \<and> cstr m' p [] \<and>
    bytes_at m' p (Suc (length s)) = 0 # rev s"
proof -
  let ?n = "length s"
  let ?m = "strrev_loop m p 0 (int ?n)"
  have at: "?m (p + of_nat k) = m (p + of_nat (?n - k))" if "k \<le> ?n" for k
    using strrev_loop_at [of 0 "int ?n" "int k" m p] that assms(2) by (simp add: of_nat_diff)
  have first: "?m p = 0" using at [of 0] cstr_end [OF assms(1)] by simp
  have "?m (p + of_nat (Suc i)) = rev s ! i" if "i < ?n" for i
    using at [of "Suc i"] cstr_nth [OF assms(1), of "?n - Suc i"] that by (simp add: rev_nth)
  with first have "bytes_at ?m p (Suc ?n) = 0 # rev s"
    by (intro nth_equalityI) (auto simp: nth_Cons split: nat.split)
  moreover have "strrev m p = Some ?m"
    using strlen_cstr [OF assms(1)] assms(2) by (simp add: strrev_def sint_cint_of_nat)
  ultimately show ?thesis using first by auto
qed

lemma strrev_moves_terminator_witness:
  "\<exists>m'. strrev (put_bytes 4096 [97, 98] (\<lambda>_. 0)) 4096 = Some m' \<and> cstr m' 4096 []"
  using strrev_moves_terminator [of "put_bytes 4096 [97, 98] (\<lambda>_. 0)" 4096 "[97, 98]"]
  by auto

end
