(* ===== verification/MathLib.thy ===== *)
theory MathLib
  imports Prelude CString
begin

text \<open>
  sys/math.c: octal text to numbers, and powers. The kernel reads every tar header's
  size field with \<open>oct2bin\<close>. The debugging output of the other two converters is not
  part of the model; what they return is.
\<close>

section \<open>The functions of math.c\<close>

primrec oct2bin_loop :: "nat \<Rightarrow> mem \<Rightarrow> u64 \<Rightarrow> cint \<Rightarrow> cint" where
  "oct2bin_loop 0 m c n = n"
| "oct2bin_loop (Suc k) m c n = oct2bin_loop k m (c + 1) (n * 8 + (ucast (m c) - 48))"

definition oct2bin :: "mem \<Rightarrow> u64 \<Rightarrow> cint \<Rightarrow> cint" where
  "oct2bin m str n = oct2bin_loop (nat (sint n)) m str 0"

function octalToBinary_loop :: "u8 \<Rightarrow> cint \<Rightarrow> nat \<Rightarrow> cint" where
  "octalToBinary_loop c answer counter =
     (if 48 \<le> c \<and> c \<le> 57 \<and> counter < 11
      then octalToBinary_loop c (answer * 8 + (ucast c - 48)) (counter + 1)
      else answer)"
  by pat_completeness auto
termination
  by (relation "measure (\<lambda>(c, answer, counter). 11 - counter)") auto

declare octalToBinary_loop.simps [simp del]

definition octalToBinary :: "mem \<Rightarrow> u64 \<Rightarrow> cint" where
  "octalToBinary m num = octalToBinary_loop (m num) 0 0"

function power_loop :: "u64 \<Rightarrow> u64 \<Rightarrow> u64 \<Rightarrow> u64" where
  "power_loop base answer pow =
     (let pow' = pow - 1 in if pow' \<noteq> 0 then power_loop base (answer * base) pow' else answer)"
  by pat_completeness auto
termination
proof (relation "measure (\<lambda>(base, answer, pow). unat (pow - 1))")
  fix base answer pow pow' :: u64
  assume pow': "pow' = pow - 1" "pow' \<noteq> 0"
  then have "unat (pow' - 1) < unat pow'" by (metis unat_minus_one unat_gt_0 diff_less zero_less_one)
  then show "((base, answer * base, pow'), base, answer, pow)
      \<in> measure (\<lambda>(base, answer, pow). unat (pow - 1))"
    by (simp only: in_measure prod.case pow'(1))
qed simp

declare power_loop.simps [simp del]

definition power_u64 :: "u64 \<Rightarrow> u64 \<Rightarrow> u64" where
  "power_u64 base pow = (if pow = 0 then 1 else power_loop base base pow)"

function octalStringToDecimal_loop :: "u8 \<Rightarrow> u64 \<Rightarrow> cint \<Rightarrow> nat \<Rightarrow> u64" where
  "octalStringToDecimal_loop c answer counter t =
     (if 48 \<le> c \<and> c \<le> 57 \<and> counter \<noteq> 0 \<and> t < 11
      then let counter' = counter - 1
           in octalStringToDecimal_loop c (ucast (c - 48) * power_u64 8 (scast (counter' - 1))) counter' (t + 1)
      else answer)"
  by pat_completeness auto
termination
  by (relation "measure (\<lambda>(c, answer, counter, t). 11 - t)") auto

declare octalStringToDecimal_loop.simps [simp del]

definition octalStringToDecimal :: "mem \<Rightarrow> u64 \<Rightarrow> u64" where
  "octalStringToDecimal m num = octalStringToDecimal_loop (m num) 0 11 0"

section \<open>Powers\<close>

lemma power_loop_eq: "pow \<noteq> 0 \<Longrightarrow> power_loop base answer pow = answer * base ^ (unat pow - 1)"
proof (induction base answer pow rule: power_loop.induct)
  case (1 base answer pow)
  show ?case
  proof (cases "pow - 1 = 0")
    case True
    then have "pow = 1" by simp
    then show ?thesis by (subst power_loop.simps) simp
  next
    case False
    have u: "unat (pow - 1) = unat pow - 1" using "1.prems" by (rule unat_minus_one)
    then have "unat pow - 1 \<noteq> 0" using False by (metis unat_eq_zero)
    then have k: "unat pow - 1 = Suc (unat (pow - 1) - 1)" using u by simp
    have "power_loop base answer pow = power_loop base (answer * base) (pow - 1)"
      using False by (subst power_loop.simps) (simp add: Let_def)
    also have "\<dots> = answer * base * base ^ (unat (pow - 1) - 1)"
      using "1.IH" [OF refl] False by simp
    also have "\<dots> = answer * base ^ (unat pow - 1)" unfolding k by (simp add: ac_simps)
    finally show ?thesis .
  qed
qed

text \<open>
  power terminates for every exponent and returns the power modulo 2^64.
\<close>

lemma power_correct: "power_u64 base pow = base ^ unat pow"
proof (cases "pow = 0")
  case True
  then show ?thesis by (simp add: power_u64_def)
next
  case False
  then have "unat pow = Suc (unat pow - 1)" by (simp add: unat_gt_0)
  then have "base ^ unat pow = base * base ^ (unat pow - 1)" by (metis power_Suc)
  with False show ?thesis by (simp add: power_u64_def power_loop_eq)
qed

lemma power_8_large: "22 \<le> unat n \<Longrightarrow> power_u64 8 n = 0"
proof -
  assume "22 \<le> unat n"
  then obtain k where "unat n = 22 + k" using le_Suc_ex by blast
  moreover have "(8 :: u64) ^ 22 = 0" by simp
  ultimately show ?thesis by (metis power_correct power_add mult_zero_left)
qed

section \<open>Octal numbers\<close>

text \<open>The value of a run of octal digits, most significant first.\<close>

definition oct_value :: "nat list \<Rightarrow> nat" where
  "oct_value ds = foldl (\<lambda>n d. 8 * n + d) 0 ds"

text \<open>The octal digits tar writes: \<open>k\<close> of them, zero padded.\<close>

primrec octal_digits :: "nat \<Rightarrow> nat \<Rightarrow> nat list" where
  "octal_digits 0 n = []"
| "octal_digits (Suc k) n = octal_digits k (n div 8) @ [n mod 8]"

definition digit_byte :: "nat \<Rightarrow> u8" where
  "digit_byte d = of_nat (48 + d)"

lemma length_octal_digits [simp]: "length (octal_digits k n) = k"
  by (induction k arbitrary: n) auto

lemma octal_digits_less: "d \<in> set (octal_digits k n) \<Longrightarrow> d < 8"
  by (induction k arbitrary: n) auto

lemma oct_value_snoc: "oct_value (ds @ [d]) = 8 * oct_value ds + d"
  by (simp add: oct_value_def)

lemma oct_value_octal_digits: "n < 8 ^ k \<Longrightarrow> oct_value (octal_digits k n) = n"
proof (induction k arbitrary: n)
  case 0
  then show ?case by (simp add: oct_value_def)
next
  case (Suc k)
  then have "n div 8 < 8 ^ k" by (simp add: less_mult_imp_div_less)
  with Suc.IH show ?case by (simp add: oct_value_snoc)
qed

lemma ucast_digit_byte: "d < 8 \<Longrightarrow> ucast (digit_byte d) - 48 = (of_nat d :: cint)"
proof -
  assume "d < 8"
  then have "(ucast (digit_byte d) :: cint) = of_nat (48 + d)"
    by (simp add: digit_byte_def unsigned_of_nat take_bit_nat_eq_self del: of_nat_add)
  then show ?thesis by simp
qed

lemma oct2bin_loop_digits:
  "\<lbrakk>bytes_at m c (length ds) = map digit_byte ds; \<forall>d \<in> set ds. d < 8\<rbrakk> \<Longrightarrow>
    oct2bin_loop (length ds) m c (of_nat n) = of_nat (foldl (\<lambda>n d. 8 * n + d) n ds)"
proof (induction ds arbitrary: c n)
  case Nil
  then show ?case by simp
next
  case (Cons d ds)
  have at: "m (c + of_nat i) = map digit_byte (d # ds) ! i" if "i < length (d # ds)" for i
    using Cons.prems(1) that by (metis nth_bytes_at)
  have "bytes_at m (c + 1) (length ds) = map digit_byte ds"
  proof (rule nth_equalityI)
    show "bytes_at m (c + 1) (length ds) ! i = map digit_byte ds ! i"
      if "i < length (bytes_at m (c + 1) (length ds))" for i
      using at [of "Suc i"] that by (simp add: add.assoc)
  qed simp
  moreover have "m c = digit_byte d" using at [of 0] by simp
  moreover have "of_nat n * 8 + (of_nat d :: cint) = of_nat (8 * n + d)" by simp
  ultimately show ?case
    using Cons.IH [of "c + 1" "8 * n + d"] Cons.prems(2)
    by (simp add: ucast_digit_byte mult.commute del: of_nat_add of_nat_mult)
qed

lemma oct2bin_digits:
  assumes "bytes_at m p (length ds) = map digit_byte ds" "\<forall>d \<in> set ds. d < 8" "length ds < 2 ^ 31"
  shows "oct2bin m p (of_nat (length ds)) = of_nat (oct_value ds)"
  using oct2bin_loop_digits [OF assms(1,2), of 0] sint_cint_of_nat [OF assms(3)]
  by (simp add: oct2bin_def oct_value_def)

lemma oct2bin_octal:
  assumes "n < 8 ^ 11" "bytes_at m p 11 = map digit_byte (octal_digits 11 n)"
  shows "oct2bin m p 11 = of_nat n"
proof -
  have "oct2bin m p (of_nat (length (octal_digits 11 n))) = of_nat (oct_value (octal_digits 11 n))"
    using assms(2) octal_digits_less by (intro oct2bin_digits) auto
  then show ?thesis using oct_value_octal_digits [OF assms(1)] by simp
qed

text \<open>
  C40. Reading back a tar size field: for the 11 octal digits of any size a header can
  hold, oct2bin returns the size reduced to C's int, which is the size itself exactly
  for files below 2 GiB.
\<close>

theorem oct2bin_roundtrip:
  assumes "n < 8 ^ 11" "bytes_at m p 11 = map digit_byte (octal_digits 11 n)"
  shows "oct2bin m p 11 = of_nat n \<and> (sint (oct2bin m p 11) = int n \<longleftrightarrow> n < 2 ^ 31)"
proof -
  have "oct2bin m p 11 = of_nat n" by (rule oct2bin_octal [OF assms])
  moreover have "sint (of_nat n :: cint) = int n \<longleftrightarrow> n < 2 ^ 31"
    using sint_cint_of_nat [of n] sint_lt [of "of_nat n :: cint"] by auto
  ultimately show ?thesis by simp
qed

lemma oct2bin_roundtrip_witness:
  "oct2bin (put_bytes 4096 (map digit_byte (octal_digits 11 1025)) (\<lambda>_. 0)) 4096 11 = 1025"
proof -
  let ?m = "put_bytes 4096 (map digit_byte (octal_digits 11 1025)) (\<lambda>_. 0)"
  have "bytes_at ?m 4096 11 = map digit_byte (octal_digits 11 1025)"
    using bytes_at_put_bytes [of "map digit_byte (octal_digits 11 1025)" 4096] by simp
  then show ?thesis using oct2bin_roundtrip [of 1025 ?m 4096] by simp
qed

lemma octalStringToDecimal_loop_zero:
  assumes "t < 11" "48 \<le> c" "c \<le> 57"
  shows "octalStringToDecimal_loop c answer (of_nat (11 - t)) t = 0"
  using assms(1)
proof (induction "10 - t" arbitrary: t answer)
  case 0
  then have t: "t = 10" by simp
  have "power_u64 8 (- 1) = 0" by (rule power_8_large) (simp add: unsigned_minus_1_eq_mask mask_eq_exp_minus_1)
  then have "octalStringToDecimal_loop c answer 1 10 = 0"
    using assms(2,3)
    by (subst octalStringToDecimal_loop.simps) (simp add: Let_def octalStringToDecimal_loop.simps [of _ _ 0])
  with t show ?case by simp
next
  case (Suc k)
  then have t: "t < 10" by simp
  have "(of_nat (11 - t) :: cint) - 1 = of_nat (11 - Suc t)"
    using t by (simp add: of_nat_diff)
  moreover have "(of_nat (11 - t) :: cint) \<noteq> 0"
    using t by (simp add: word_unat_eq_iff unat_of_nat del: of_nat_diff)
  moreover have "octalStringToDecimal_loop c a (of_nat (11 - Suc t)) (Suc t) = 0" for a
    using Suc t by (intro Suc.hyps) simp_all
  ultimately show ?case
    using t assms(2,3) by (subst octalStringToDecimal_loop.simps) (simp add: Let_def)
qed

text \<open>
  octalToBinary and octalStringToDecimal do not advance over the text: the first
  reads its first digit eleven times, and the second returns 0 for every text.
\<close>

lemma octal_converters_do_not_advance:
  "octalStringToDecimal m p = 0 \<and>
   octalToBinary m p = (if 48 \<le> m p \<and> m p \<le> 57 then (ucast (m p) - 48) * 1227133513 else 0)"
proof
  show "octalStringToDecimal m p = 0"
    using octalStringToDecimal_loop_zero [of 0 "m p" 0]
    by (cases "48 \<le> m p \<and> m p \<le> 57")
      (auto simp: octalStringToDecimal_def octalStringToDecimal_loop.simps [of "m p"])
  show "octalToBinary m p = (if 48 \<le> m p \<and> m p \<le> 57 then (ucast (m p) - 48) * 1227133513 else 0)"
    by (simp add: octalToBinary_def octalToBinary_loop.simps [of "m p"] algebra_simps)
qed

end
