(* ===== verification/Schedule.thy ===== *)
theory Schedule
  imports Prelude
begin

text \<open>
  sys/schedule.c and the queue operations of sys/isr.c. Process control blocks live in
  a store from addresses to records; the ready and the sleeping list are chains of
  \<open>next\<close> pointers (field \<open>next_pcb\<close> here) through it, ending at \<open>NULL\<close> = 0. The loops that look for the end of
  a chain do not return on a cyclic chain: they are \<open>partial_function (option)\<close>.
\<close>

section \<open>Process control blocks (include/sys/task.h)\<close>

datatype run_state = RUNNING | SLEEPING | ZOMBIE | IDLE
datatype p_type = USER | KERNEL

record pcb =
  kstack :: "u64 list"
  pstack :: u64
  pid :: u64
  rsp :: u64
  cr3 :: u64
  mm :: u64
  state :: run_state
  exit_status :: cint
  next_pcb :: u64
  e_entry :: u64
  time_remaining :: u64
  process_type :: p_type

type_synonym pcbs = "u64 \<Rightarrow> pcb"

text \<open>
  The address of \<open>p->kstack[i]\<close>: the array is the first field of the struct.
\<close>

definition kstack_addr :: "u64 \<Rightarrow> nat \<Rightarrow> u64" where
  "kstack_addr p i = p + of_nat (8 * i)"

definition set_next :: "u64 \<Rightarrow> u64 \<Rightarrow> pcbs \<Rightarrow> pcbs" where
  "set_next p n h = h(p := (h p)\<lparr>next_pcb := n\<rparr>)"

section \<open>Scheduler state (include/sys/schedule.h)\<close>

record sched =
  pcbs :: pcbs
  ready_processes :: u64
  sleeping_processes :: u64
  idle_process :: u64
  currently_running_process :: u64
  pid_count :: u64

definition scheduler_init :: "'a sched_scheme \<Rightarrow> 'a sched_scheme" where
  "scheduler_init s = s\<lparr>ready_processes := 0, sleeping_processes := 0, idle_process := 0,
     currently_running_process := 0, pid_count := 0\<rparr>"

partial_function (option) last_process :: "pcbs \<Rightarrow> u64 \<Rightarrow> u64 option" where
  "last_process h temp =
     (if next_pcb (h temp) \<noteq> 0 then last_process h (next_pcb (h temp)) else Some temp)"

definition add_ready_process :: "u64 \<Rightarrow> 'a sched_scheme \<Rightarrow> 'a sched_scheme option" where
  "add_ready_process process s =
     (if ready_processes s = 0
      then Some (s\<lparr>ready_processes := process, pcbs := set_next process 0 (pcbs s)\<rparr>)
      else do {
        temp \<leftarrow> last_process (pcbs s) (ready_processes s);
        Some (s\<lparr>pcbs := set_next process 0 (set_next temp process (pcbs s))\<rparr>)
      })"

definition add_sleeping_process :: "u64 \<Rightarrow> 'a sched_scheme \<Rightarrow> 'a sched_scheme option" where
  "add_sleeping_process process s =
     (if sleeping_processes s = 0
      then Some (s\<lparr>sleeping_processes := process, pcbs := set_next process 0 (pcbs s)\<rparr>)
      else do {
        temp \<leftarrow> last_process (pcbs s) (sleeping_processes s);
        Some (s\<lparr>pcbs := set_next process 0 (set_next temp process (pcbs s))\<rparr>)
      })"

text \<open>
  The frame a new process starts from: the five words \<open>iretq\<close> pops at 507 to 511, and
  the return address into the stub of the timer interrupt, \<open>irq0\<close>, below the sixteen
  words the stub pops. \<open>irq0\<close> is the address the linker gives the stub.
\<close>

definition schedule_idle_process ::
  "u64 \<Rightarrow> u64 \<Rightarrow> u64 \<Rightarrow> 'a sched_scheme \<Rightarrow> 'a sched_scheme" where
  "schedule_idle_process irq0 dummy_process function_pointer s =
     (let p = pcbs s dummy_process;
          p' = p\<lparr>kstack := (kstack p)[511 := 0x10, 510 := kstack_addr dummy_process 511,
                   509 := 0x200202, 508 := 0x08, 507 := function_pointer,
                   507 - 16 := irq0 + 0x1b],
                 rsp := kstack_addr dummy_process (507 - 17),
                 process_type := KERNEL, state := IDLE, pid := pid_count s\<rparr>
      in s\<lparr>pcbs := (pcbs s)(dummy_process := p'), pid_count := pid_count s + 1,
           idle_process := dummy_process\<rparr>)"

definition schedule_ready_process ::
  "u64 \<Rightarrow> u64 \<Rightarrow> u64 \<Rightarrow> 'a sched_scheme \<Rightarrow> 'a sched_scheme option" where
  "schedule_ready_process irq0 dummy_process function_pointer s =
     (let p = pcbs s dummy_process;
          p' = p\<lparr>kstack := (kstack p)[511 := 0x23, 510 := kstack_addr dummy_process 511,
                   509 := 0x200202, 508 := 0x2b, 507 := function_pointer,
                   507 - 16 := irq0 + 0x20],
                 rsp := kstack_addr dummy_process (507 - 17),
                 process_type := USER, state := RUNNING, pid := pid_count s\<rparr>;
          s' = s\<lparr>pcbs := (pcbs s)(dummy_process := p'), pid_count := pid_count s + 1\<rparr>
      in if ready_processes s' = 0
         then Some (s'\<lparr>ready_processes := dummy_process,
                       pcbs := set_next dummy_process 0 (pcbs s')\<rparr>)
         else do {
           temp \<leftarrow> last_process (pcbs s') (ready_processes s');
           Some (s'\<lparr>pcbs := set_next dummy_process 0 (set_next temp dummy_process (pcbs s'))\<rparr>)
         })"

definition schedule_user_process :: "u64 \<Rightarrow> u64 \<Rightarrow> 'a sched_scheme \<Rightarrow> 'a sched_scheme option" where
  "schedule_user_process irq0 process s =
     (let p = pcbs s process;
          p' = p\<lparr>kstack := (kstack p)[511 := 0x23, 510 := pstack p,
                   509 := 0x200202, 508 := 0x2b, 507 := e_entry p,
                   507 - 16 := irq0 + 0x20],
                 rsp := kstack_addr process (507 - 17),
                 process_type := USER, state := RUNNING, pid := pid_count s\<rparr>;
          s' = s\<lparr>pcbs := (pcbs s)(process := p'), pid_count := pid_count s + 1\<rparr>
      in if ready_processes s' = 0
         then Some (s'\<lparr>ready_processes := process, pcbs := set_next process 0 (pcbs s')\<rparr>)
         else do {
           temp \<leftarrow> last_process (pcbs s') (ready_processes s');
           Some (s'\<lparr>pcbs := set_next process 0 (set_next temp process (pcbs s'))\<rparr>)
         })"

section \<open>Taking and returning processes (sys/isr.c)\<close>

definition get_next_ready_process :: "'a sched_scheme \<Rightarrow> u64 \<times> 'a sched_scheme" where
  "get_next_ready_process s =
     (let temp = ready_processes s
      in if temp \<noteq> 0 then (temp, s\<lparr>ready_processes := next_pcb (pcbs s temp)\<rparr>) else (0, s))"

partial_function (option) last_or_null :: "pcbs \<Rightarrow> u64 \<Rightarrow> u64 option" where
  "last_or_null h temp =
     (if temp \<noteq> 0 \<and> next_pcb (h temp) \<noteq> 0 then last_or_null h (next_pcb (h temp)) else Some temp)"

definition schedule_old_process :: "u64 \<Rightarrow> 'a sched_scheme \<Rightarrow> 'a sched_scheme option" where
  "schedule_old_process process s =
     (let p = pcbs s process;
          t = (if time_remaining p \<noteq> 0 then time_remaining p - 1 else 0);
          h = (pcbs s)(process := p\<lparr>time_remaining := t, next_pcb := 0\<rparr>)
      in if t = 0
         then let h = h(process := (h process)\<lparr>time_remaining := 3\<rparr>)
              in do {
                temp \<leftarrow> last_or_null h (ready_processes s);
                if temp = 0 then Some (s\<lparr>pcbs := h, ready_processes := process\<rparr>)
                else Some (s\<lparr>pcbs := set_next temp process h\<rparr>)
              }
         else Some (s\<lparr>pcbs := set_next process (ready_processes s) h, ready_processes := process\<rparr>))"

section \<open>Chains of processes\<close>

primrec queue :: "pcbs \<Rightarrow> u64 \<Rightarrow> u64 list \<Rightarrow> bool" where
  "queue h p [] \<longleftrightarrow> p = 0"
| "queue h p (a # as) \<longleftrightarrow> p = a \<and> a \<noteq> 0 \<and> queue h (next_pcb (h a)) as"

lemma queue_Null [simp]: "queue h 0 qs \<longleftrightarrow> qs = []"
  by (cases qs) auto

lemma queue_nonzero: "queue h p qs \<Longrightarrow> 0 \<notin> set qs"
  by (induction qs arbitrary: p) auto

lemma queue_head: "queue h p qs \<Longrightarrow> p = 0 \<longleftrightarrow> qs = []"
  by (cases qs) auto

lemma queue_cong:
  "(\<And>a. a \<in> set qs \<Longrightarrow> next_pcb (h a) = next_pcb (h' a)) \<Longrightarrow> queue h p qs = queue h' p qs"
  by (induction qs arbitrary: p) auto

lemma queue_unique: "queue h p qs \<Longrightarrow> queue h p rs \<Longrightarrow> qs = rs"
proof (induction qs arbitrary: p rs)
  case (Cons a qs)
  then show ?case by (cases rs) auto
qed simp

lemma queue_suffix: "queue h p (as @ a # bs) \<Longrightarrow> queue h a (a # bs)"
  by (induction as arbitrary: p) auto

lemma queue_distinct: "queue h p qs \<Longrightarrow> distinct qs"
proof (induction qs arbitrary: p)
  case (Cons a qs)
  have "a \<notin> set qs"
  proof
    assume "a \<in> set qs"
    then obtain as bs where qs: "qs = as @ a # bs" by (auto simp: in_set_conv_decomp)
    then have "queue h a (a # bs)"
      using Cons.prems queue_suffix [of h p "a # as" a bs] by simp
    moreover have "queue h a (a # qs)" using Cons.prems by simp
    ultimately have "a # bs = a # qs" by (rule queue_unique)
    with qs show False by simp
  qed
  with Cons show ?case by auto
qed simp

lemma next_set_next [simp]:
  "next_pcb (set_next p n h a) = (if a = p then n else next_pcb (h a))"
  by (simp add: set_next_def)

lemma time_set_next [simp]: "time_remaining (set_next p n h a) = time_remaining (h a)"
  by (simp add: set_next_def)

lemma last_process_queue:
  "\<lbrakk>queue h p qs; qs \<noteq> []\<rbrakk> \<Longrightarrow> last_process h p = Some (last qs)"
proof (induction qs arbitrary: p)
  case (Cons a qs)
  then show ?case
    by (subst last_process.simps) (use queue_head [of h "next_pcb (h a)" qs] in auto)
qed simp

lemma last_or_null_queue:
  "queue h p qs \<Longrightarrow> last_or_null h p = Some (if qs = [] then 0 else last qs)"
proof (induction qs arbitrary: p)
  case Nil
  then show ?case by (subst last_or_null.simps) simp
next
  case (Cons a qs)
  then show ?case
    by (subst last_or_null.simps) (use queue_head [of h "next_pcb (h a)" qs] in auto)
qed

text \<open>Linking a process behind the last one appends it.\<close>

lemma queue_append:
  "\<lbrakk>queue h p qs; qs \<noteq> []; a \<noteq> 0; a \<notin> set qs\<rbrakk> \<Longrightarrow>
    queue (set_next a 0 (set_next (last qs) a h)) p (qs @ [a])"
proof (induction qs arbitrary: p)
  case (Cons b qs)
  show ?case
  proof (cases "qs = []")
    case False
    have "b \<notin> set qs" using queue_distinct [OF Cons.prems(1)] by simp
    then have "last qs \<noteq> b" using False last_in_set by metis
    with Cons False show ?thesis by auto
  qed (use Cons.prems in auto)
qed simp

section \<open>The queue interface\<close>

text \<open>
  What the rest of the kernel relies on: entering a process puts it behind all others,
  and taking one takes the process that waited longest. \<open>contents s qs\<close> says that the
  chain in state \<open>s\<close> holds the processes \<open>qs\<close>.
\<close>

primrec enq_all :: "('p \<Rightarrow> 's \<Rightarrow> 's option) \<Rightarrow> 'p list \<Rightarrow> 's \<Rightarrow> 's option" where
  "enq_all enq [] s = Some s"
| "enq_all enq (p # ps) s = do { s' \<leftarrow> enq p s; enq_all enq ps s' }"

primrec deq_many :: "('s \<Rightarrow> 'p \<times> 's) \<Rightarrow> nat \<Rightarrow> 's \<Rightarrow> 'p list" where
  "deq_many deq 0 s = []"
| "deq_many deq (Suc n) s = (case deq s of (p, s') \<Rightarrow> p # deq_many deq n s')"

locale process_chain =
  fixes enq :: "u64 \<Rightarrow> 's \<Rightarrow> 's option"
    and contents :: "'s \<Rightarrow> u64 list \<Rightarrow> bool"
  assumes enq_ok: "\<lbrakk>contents s qs; p \<noteq> 0; p \<notin> set qs\<rbrakk> \<Longrightarrow>
      \<exists>s'. enq p s = Some s' \<and> contents s' (qs @ [p])"
begin

lemma enq_all_ok:
  "\<lbrakk>contents s qs; distinct (qs @ ps); 0 \<notin> set ps\<rbrakk> \<Longrightarrow>
    \<exists>s'. enq_all enq ps s = Some s' \<and> contents s' (qs @ ps)"
proof (induction ps arbitrary: s qs)
  case (Cons p ps)
  then obtain s' where s': "enq p s = Some s'" "contents s' (qs @ [p])"
    using enq_ok [of s qs p] by auto
  then show ?case using Cons.IH [of s' "qs @ [p]"] Cons.prems by auto
qed simp

end

locale process_queue = process_chain +
  fixes deq :: "'s \<Rightarrow> u64 \<times> 's"
  assumes deq_Nil: "contents s [] \<Longrightarrow> deq s = (0, s)"
    and deq_Cons: "contents s (p # ps) \<Longrightarrow> \<exists>s'. deq s = (p, s') \<and> contents s' ps"
begin

lemma deq_many_contents: "contents s qs \<Longrightarrow> deq_many deq (length qs) s = qs"
proof (induction qs arbitrary: s)
  case (Cons q qs)
  then obtain s' where "deq s = (q, s')" "contents s' qs" using deq_Cons by blast
  then show ?case using Cons.IH by simp
qed simp

lemma first_in_first_out:
  assumes "contents s qs" "distinct (qs @ ps)" "0 \<notin> set ps"
  obtains s' where "enq_all enq ps s = Some s'"
    "deq_many deq (length qs + length ps) s' = qs @ ps"
proof -
  obtain s' where "enq_all enq ps s = Some s'" "contents s' (qs @ ps)"
    using enq_all_ok [OF assms] by blast
  then show ?thesis using that deq_many_contents [of s' "qs @ ps"] by simp
qed

end

definition ready_queue :: "'a sched_scheme \<Rightarrow> u64 list \<Rightarrow> bool" where
  "ready_queue s qs \<longleftrightarrow> queue (pcbs s) (ready_processes s) qs"

definition sleeping_queue :: "'a sched_scheme \<Rightarrow> u64 list \<Rightarrow> bool" where
  "sleeping_queue s qs \<longleftrightarrow> queue (pcbs s) (sleeping_processes s) qs"

lemma queue_upd_same_next:
  "next_pcb q = next_pcb (h p) \<Longrightarrow> queue (h(p := q)) r qs = queue h r qs"
  by (rule queue_cong) simp

lemma get_next_ready_process_Cons:
  "ready_queue s (p # ps) \<Longrightarrow>
    get_next_ready_process s = (p, s\<lparr>ready_processes := next_pcb (pcbs s p)\<rparr>) \<and>
    ready_queue (s\<lparr>ready_processes := next_pcb (pcbs s p)\<rparr>) ps"
  by (auto simp: ready_queue_def get_next_ready_process_def)

lemma get_next_ready_process_Nil: "ready_queue s [] \<Longrightarrow> get_next_ready_process s = (0, s)"
  by (simp add: ready_queue_def get_next_ready_process_def)

interpretation ready: process_queue add_ready_process ready_queue get_next_ready_process
proof unfold_locales
  fix s :: "'a sched_scheme" and qs p
  assume q: "ready_queue s qs" "p \<noteq> 0" "p \<notin> set qs"
  show "\<exists>s'. add_ready_process p s = Some s' \<and> ready_queue s' (qs @ [p])"
  proof (cases "qs = []")
    case False
    with q show ?thesis
      using queue_append [of "pcbs s" "ready_processes s" qs p]
      by (auto simp: ready_queue_def add_ready_process_def queue_head last_process_queue)
  qed (use q in \<open>auto simp: ready_queue_def add_ready_process_def\<close>)
qed (use get_next_ready_process_Cons get_next_ready_process_Nil in blast)+

interpretation sleeping: process_chain add_sleeping_process sleeping_queue
proof unfold_locales
  fix s :: "'a sched_scheme" and qs p
  assume q: "sleeping_queue s qs" "p \<noteq> 0" "p \<notin> set qs"
  show "\<exists>s'. add_sleeping_process p s = Some s' \<and> sleeping_queue s' (qs @ [p])"
  proof (cases "qs = []")
    case False
    with q show ?thesis
      using queue_append [of "pcbs s" "sleeping_processes s" qs p]
      by (auto simp: sleeping_queue_def add_sleeping_process_def queue_head last_process_queue)
  qed (use q in \<open>auto simp: sleeping_queue_def add_sleeping_process_def\<close>)
qed

interpretation user: process_queue "schedule_user_process irq0" ready_queue get_next_ready_process
  for irq0
proof unfold_locales
  fix s :: "'a sched_scheme" and qs p
  assume q: "ready_queue s qs" "p \<noteq> 0" "p \<notin> set qs"
  show "\<exists>s'. schedule_user_process irq0 p s = Some s' \<and> ready_queue s' (qs @ [p])"
  proof (cases "qs = []")
    case False
    with q show ?thesis
      using queue_append [of _ "ready_processes s" qs p]
      by (auto simp: ready_queue_def schedule_user_process_def Let_def queue_head
          last_process_queue queue_upd_same_next)
  qed (use q in \<open>auto simp: ready_queue_def schedule_user_process_def Let_def\<close>)
qed (use get_next_ready_process_Cons get_next_ready_process_Nil in blast)+

interpretation kernel_thread: process_queue
  "\<lambda>p. schedule_ready_process irq0 p function_pointer" ready_queue get_next_ready_process
  for irq0 function_pointer
proof unfold_locales
  fix s :: "'a sched_scheme" and qs p
  assume q: "ready_queue s qs" "p \<noteq> 0" "p \<notin> set qs"
  show "\<exists>s'. schedule_ready_process irq0 p function_pointer s = Some s' \<and> ready_queue s' (qs @ [p])"
  proof (cases "qs = []")
    case False
    with q show ?thesis
      using queue_append [of _ "ready_processes s" qs p]
      by (auto simp: ready_queue_def schedule_ready_process_def Let_def queue_head
          last_process_queue queue_upd_same_next)
  qed (use q in \<open>auto simp: ready_queue_def schedule_ready_process_def Let_def\<close>)
qed (use get_next_ready_process_Cons get_next_ready_process_Nil in blast)+

section \<open>Putting a process back\<close>

text \<open>
  A process that still has time goes to the front of the queue with one unit less; one
  that used its last unit goes to the end with three fresh units.
\<close>

definition requeue :: "u64 \<Rightarrow> u64 list \<Rightarrow> (u64 \<Rightarrow> u64) \<Rightarrow> u64 list \<times> (u64 \<Rightarrow> u64)" where
  "requeue c qs t = (if t c \<le> 1 then (qs @ [c], t(c := 3)) else (c # qs, t(c := t c - 1)))"

text \<open>What the scheduler never changes in a process: everything but its link and time.\<close>

definition pcb_kept :: "pcb \<Rightarrow> pcb \<Rightarrow> bool" where
  "pcb_kept p q \<longleftrightarrow> q\<lparr>next_pcb := next_pcb p, time_remaining := time_remaining p\<rparr> = p"

lemma pcb_kept_refl [simp]: "pcb_kept p p"
  by (simp add: pcb_kept_def)

lemma pcb_kept_trans: "pcb_kept p q \<Longrightarrow> pcb_kept q r \<Longrightarrow> pcb_kept p r"
  by (cases p; cases q; cases r; simp add: pcb_kept_def)

lemma pcb_kept_upd [simp]:
  "pcb_kept p (q\<lparr>next_pcb := n\<rparr>) = pcb_kept p q" "pcb_kept p (q\<lparr>time_remaining := t\<rparr>) = pcb_kept p q"
  by (cases p; cases q; simp add: pcb_kept_def)+

lemma pcb_kept_set_next [simp]: "pcb_kept p (set_next a n h b) = pcb_kept p (h b)"
  by (simp add: set_next_def)

lemma pcb_kept_fields:
  "pcb_kept p q \<Longrightarrow> rsp q = rsp p \<and> cr3 q = cr3 p \<and> process_type q = process_type p \<and> kstack q = kstack p"
  by (cases p; cases q; simp add: pcb_kept_def)

lemma u64_minus_1_eq_0: "(t :: u64) - 1 = 0 \<longleftrightarrow> t = 1"
  by simp

lemma u64_le_1: "(t :: u64) \<le> 1 \<longleftrightarrow> t = 0 \<or> t = 1"
  by (metis linorder_not_le order.order_iff_strict word_gt_0 word_le_less_eq word_less_1)

lemma schedule_old_process_ok:
  assumes q: "ready_queue s qs" and p: "p \<noteq> 0" "p \<notin> set qs"
    and r: "requeue p qs (\<lambda>a. time_remaining (pcbs s a)) = (rs, t)"
  obtains h r where "schedule_old_process p s = Some (s\<lparr>pcbs := h, ready_processes := r\<rparr>)"
    "queue h r rs" "\<And>a. time_remaining (h a) = t a" "\<And>a. pcb_kept (pcbs s a) (h a)"
proof (cases "time_remaining (pcbs s p) \<le> 1")
  case True
  let ?h = "(pcbs s)(p := (pcbs s p)\<lparr>next_pcb := 0, time_remaining := 3\<rparr>)"
  have qh: "queue ?h (ready_processes s) qs"
    using q p(2) by (subst queue_cong [of _ _ "pcbs s"]) (auto simp: ready_queue_def)
  have rs: "rs = qs @ [p]" "t = (\<lambda>a. time_remaining (pcbs s a))(p := 3)"
    using r True by (auto simp: requeue_def)
  have last: "last_or_null ?h (ready_processes s) = Some (if qs = [] then 0 else last qs)"
    by (rule last_or_null_queue [OF qh])
  show ?thesis
  proof (cases "qs = []")
    case True
    show ?thesis
    proof (rule that [where h = ?h and r = p])
      show "schedule_old_process p s = Some (s\<lparr>pcbs := ?h, ready_processes := p\<rparr>)"
        using True last \<open>time_remaining (pcbs s p) \<le> 1\<close> u64_le_1 [of "time_remaining (pcbs s p)"]
        by (auto simp: schedule_old_process_def Let_def)
    qed (use rs True p in auto)
  next
    case False
    let ?g = "set_next (last qs) p ?h"
    have ne: "last qs \<noteq> 0" "last qs \<noteq> p"
      using False p(2) queue_nonzero [OF qh] last_in_set by metis+
    have "set_next p 0 ?g = ?g"
      using ne by (auto simp: set_next_def fun_eq_iff)
    then have "queue ?g (ready_processes s) (qs @ [p])"
      using queue_append [OF qh False p] by simp
    show ?thesis
    proof (rule that [where h = ?g and r = "ready_processes s"])
      show "schedule_old_process p s = Some (s\<lparr>pcbs := ?g, ready_processes := ready_processes s\<rparr>)"
        using False last ne \<open>time_remaining (pcbs s p) \<le> 1\<close> u64_le_1 [of "time_remaining (pcbs s p)"]
        by (auto simp: schedule_old_process_def Let_def)
    qed (use rs \<open>queue ?g _ _\<close> in auto)
  qed
next
  case False
  let ?t = "time_remaining (pcbs s p) - 1"
  let ?h = "set_next p (ready_processes s) ((pcbs s)(p := (pcbs s p)\<lparr>time_remaining := ?t, next_pcb := 0\<rparr>))"
  have rs: "rs = p # qs" "t = (\<lambda>a. time_remaining (pcbs s a))(p := ?t)"
    using r False by (auto simp: requeue_def)
  have "queue ?h (ready_processes s) qs = queue (pcbs s) (ready_processes s) qs"
    using p(2) by (intro queue_cong) auto
  then have qh: "queue ?h p rs" using q p(1) rs by (simp add: ready_queue_def)
  show ?thesis
  proof (rule that [where h = ?h and r = p])
    show "schedule_old_process p s = Some (s\<lparr>pcbs := ?h, ready_processes := p\<rparr>)"
      using False u64_le_1 [of "time_remaining (pcbs s p)"]
      by (auto simp: schedule_old_process_def Let_def)
  qed (use rs qh in auto)
qed

section \<open>Properties\<close>

text \<open>
  C17. The ready list is first in, first out: processes scheduled one after the other with
  schedule_user_process come back in that order, after the ones already waiting, and the
  calls return.
\<close>

theorem user_processes_fifo:
  assumes "ready_queue s qs" "distinct (qs @ ps)" "0 \<notin> set ps"
  shows "\<exists>s'. enq_all (schedule_user_process irq0) ps s = Some s' \<and>
    deq_many get_next_ready_process (length qs + length ps) s' = qs @ ps"
  using user.first_in_first_out [OF assms] by metis

text \<open>
  The first dispatch of a process: the timer handler leaves with the stack pointer of the
  control block, takes one word for its frame and the return address above it, the stub
  \<open>irq0\<close> (sys/isr.s) pops fifteen registers, and \<open>iretq\<close> takes the instruction pointer,
  the code segment, the flags, the stack pointer and the stack segment.
\<close>

definition first_return :: "u64 \<Rightarrow> pcb \<Rightarrow> u64 \<times> u64 list" where
  "first_return p b =
     (let i = unat ((rsp b - p) div 8) in (kstack b ! (i + 1), take 5 (drop (i + 2 + 15) (kstack b))))"

lemma user_frame:
  assumes "schedule_user_process irq0 p s = Some s'"
  shows "kstack (pcbs s' p) = (kstack (pcbs s p))[511 := 0x23, 510 := pstack (pcbs s p), 509 := 0x200202,
      508 := 0x2b, 507 := e_entry (pcbs s p), 507 - 16 := irq0 + 0x20]"
    "rsp (pcbs s' p) = kstack_addr p 490" "process_type (pcbs s' p) = USER"
  using assms by (auto simp: schedule_user_process_def Let_def set_next_def split: if_splits bind_splits)

text \<open>
  C16. A process that was handed to schedule_user_process starts, at its first dispatch,
  behind the call in the timer stub, and from there in user mode at the entry point of its
  binary, on its own stack, with interrupts enabled.
\<close>

theorem user_process_starts:
  assumes len: "length (kstack (pcbs s p)) = 512"
    and run: "schedule_user_process irq0 p s = Some s'"
  shows "first_return p (pcbs s' p) = (irq0 + 0x20,
      [e_entry (pcbs s p), 0x2b, 0x200202, pstack (pcbs s p), 0x23]) \<and>
    bit (0x200202 :: u64) 9 \<and> process_type (pcbs s' p) = USER"
proof -
  let ?k = "(kstack (pcbs s p))[511 := 0x23, 510 := pstack (pcbs s p), 509 := 0x200202,
    508 := 0x2b, 507 := e_entry (pcbs s p), 507 - 16 := irq0 + 0x20]"
  note b = user_frame [OF run]
  have i: "unat ((rsp (pcbs s' p) - p) div 8) = 490" by (simp add: b(2) kstack_addr_def)
  have nth: "?k ! 491 = irq0 + 0x20" "?k ! 507 = e_entry (pcbs s p)" "?k ! 508 = 0x2b"
    "?k ! 509 = 0x200202" "?k ! 510 = pstack (pcbs s p)" "?k ! 511 = 0x23"
    using len by simp_all
  have drop: "take 5 (drop 507 xs) = [xs ! 507, xs ! 508, xs ! 509, xs ! 510, xs ! 511]"
    if "length xs = 512" for xs :: "u64 list"
    using that by (intro nth_equalityI) (auto simp: less_Suc_eq numeral_eq_Suc)
  have "length ?k = 512" using len by simp
  from drop [OF this] have "take 5 (drop 507 ?k) = [e_entry (pcbs s p), 0x2b, 0x200202, pstack (pcbs s p), 0x23]"
    by (simp only: nth)
  moreover have "(490 :: nat) + 1 = 491" "(490 :: nat) + 2 + 15 = 507" by simp_all
  ultimately have "first_return p (pcbs s' p) = (irq0 + 0x20,
      [e_entry (pcbs s p), 0x2b, 0x200202, pstack (pcbs s p), 0x23])"
    unfolding first_return_def Let_def i b(1) using nth(1) by (simp only:)
  then show ?thesis using b(3) by simp
qed

section \<open>Concrete processes\<close>

definition blank_pcb :: pcb where
  "blank_pcb = \<lparr>kstack = replicate 512 0, pstack = 0, pid = 0, rsp = 0, cr3 = 0, mm = 0,
     state = RUNNING, exit_status = 0, next_pcb = 0, e_entry = 0, time_remaining = 3,
     process_type = USER\<rparr>"

definition no_processes :: sched where
  "no_processes = \<lparr>pcbs = (\<lambda>_. blank_pcb), ready_processes = 0, sleeping_processes = 0,
     idle_process = 0, currently_running_process = 0, pid_count = 0\<rparr>"

theorem user_processes_fifo_witness:
  "\<exists>s'. enq_all (schedule_user_process 0x200000) [0x3000, 0x1000, 0x5000] no_processes = Some s' \<and>
    deq_many get_next_ready_process (Suc (Suc (Suc 0))) s' = [0x3000, 0x1000, 0x5000]"
  using user_processes_fifo [where s = no_processes and qs = "[]" and
      ps = "[0x3000, 0x1000, 0x5000]" and ?irq0.0 = "0x200000"]
  by (simp add: no_processes_def ready_queue_def del: deq_many.simps enq_all.simps)

theorem user_process_starts_witness:
  "\<exists>s'. schedule_user_process 0x200000 0x3000 no_processes = Some s' \<and>
    first_return 0x3000 (pcbs s' 0x3000) = (0x200020, [0, 0x2b, 0x200202, 0, 0x23])"
proof -
  obtain s' where s': "schedule_user_process 0x200000 0x3000 no_processes = Some s'"
    by (simp add: schedule_user_process_def no_processes_def Let_def)
  have "length (kstack (pcbs no_processes 0x3000)) = 512"
    by (simp add: no_processes_def blank_pcb_def)
  from user_process_starts [OF this s'] s' show ?thesis
    by (simp add: no_processes_def blank_pcb_def)
qed

end
