(* ===== verification/Timer.thy ===== *)
theory Timer
  imports Schedule
begin

text \<open>
  The timer interrupt of sys/isr.c: counting, dispatching, and the round robin over the
  ready processes it implements. The processor state the C code writes through inline
  assembly (stack pointer, page table base, the task's kernel stack, the data segments,
  the I/O ports) is part of the record.
\<close>

section \<open>Kernel state\<close>

record kernel = sched +
  timer_ticks :: cint
  first_schedule :: u64
  cpu_rsp :: u64
  cpu_cr3 :: u64
  tss_rsp0 :: u64
  data_seg :: u64
  ports :: "(u16 \<times> u8) list"

text \<open>Output to a port (include/sys/io.h); the trace lists the oldest write first.\<close>

definition outb :: "u16 \<Rightarrow> u8 \<Rightarrow> 'a kernel_scheme \<Rightarrow> 'a kernel_scheme" where
  "outb port val s = s\<lparr>ports := ports s @ [(port, val)]\<rparr>"

definition set_tss_rsp :: "u64 \<Rightarrow> 'a kernel_scheme \<Rightarrow> 'a kernel_scheme" where
  "set_tss_rsp r s = s\<lparr>tss_rsp0 := r\<rparr>"

section \<open>Programming the timer\<close>

text \<open>\<open>None\<close> is the division by zero the processor traps on.\<close>

definition timer_phase :: "cint \<Rightarrow> 'a kernel_scheme \<Rightarrow> 'a kernel_scheme option" where
  "timer_phase frequency s =
     (if frequency = 0 then None
      else let divisor = cint_div 1193180 frequency;
               s = outb 0x43 0x36 s;
               s = outb 0x40 (ucast (divisor AND 0xff)) s;
               s = outb 0x40 (ucast (signed_drop_bit 8 divisor)) s
           in Some (s\<lparr>timer_ticks := 0, first_schedule := 1\<rparr>))"

section \<open>The timer interrupt\<close>

text \<open>
  The three ways a time slice ends: the first dispatch, a ready process, or nothing
  ready. The stack pointer of the interrupted process is saved in its control block
  before the process goes back to the queue.
\<close>

definition run_first_idle :: "'a kernel_scheme \<Rightarrow> 'a kernel_scheme" where
  "run_first_idle s =
     (let s = s\<lparr>first_schedule := 0\<rparr>;
          s = s\<lparr>cpu_cr3 := cr3 (pcbs s (idle_process s))\<rparr>;
          s = s\<lparr>cpu_rsp := rsp (pcbs s (idle_process s))\<rparr>
      in s\<lparr>currently_running_process := idle_process s\<rparr>)"

definition save_and_requeue :: "u64 \<Rightarrow> 'a kernel_scheme \<Rightarrow> 'a kernel_scheme option" where
  "save_and_requeue old_rsp s =
     (let c = currently_running_process s
      in if c \<noteq> 0
         then schedule_old_process c (s\<lparr>pcbs := (pcbs s)(c := (pcbs s c)\<lparr>rsp := old_rsp\<rparr>)\<rparr>)
         else Some s)"

definition run_ready_process :: "u64 \<Rightarrow> 'a kernel_scheme \<Rightarrow> 'a kernel_scheme option" where
  "run_ready_process process s = do {
     s \<leftarrow> save_and_requeue (cpu_rsp s) s;
     let s = s\<lparr>currently_running_process := process\<rparr>;
     let s = s\<lparr>cpu_cr3 := cr3 (pcbs s process)\<rparr>;
     let s = s\<lparr>cpu_rsp := rsp (pcbs s process)\<rparr>;
     Some (if process_type (pcbs s process) = USER
           then (set_tss_rsp (kstack_addr process 511) s)\<lparr>data_seg := 0x23\<rparr>
           else s)
   }"

definition run_idle_process :: "'a kernel_scheme \<Rightarrow> 'a kernel_scheme option" where
  "run_idle_process s = do {
     s \<leftarrow> save_and_requeue (cpu_rsp s) s;
     let idle = idle_process s;
     let s = s\<lparr>pcbs := (pcbs s)(idle := (pcbs s idle)\<lparr>time_remaining := 3\<rparr>)\<rparr>;
     let s = s\<lparr>cpu_cr3 := cr3 (pcbs s idle)\<rparr>;
     let s = s\<lparr>cpu_rsp := rsp (pcbs s idle)\<rparr>;
     Some (s\<lparr>currently_running_process := idle\<rparr>)
   }"

definition generate_timer :: "'a kernel_scheme \<Rightarrow> 'a kernel_scheme option" where
  "generate_timer s = do {
     let s = s\<lparr>timer_ticks := timer_ticks s + 1\<rparr>;
     s \<leftarrow> (if timer_ticks s = 180
          then let s = s\<lparr>timer_ticks := 0\<rparr>
               in if first_schedule s = 1 then Some (run_first_idle s)
                  else case get_next_ready_process s of (process, s) \<Rightarrow>
                    if process \<noteq> 0 then run_ready_process process s else run_idle_process s
          else Some s);
     Some (outb 0x20 0x20 s)
   }"

section \<open>Round robin\<close>

text \<open>
  The schedule the interrupt implements, over the running process, the ready list and
  the time every process has left.
\<close>

type_synonym rr = "u64 \<times> u64 list \<times> (u64 \<Rightarrow> u64)"

fun rr_tick :: "u64 \<Rightarrow> rr \<Rightarrow> rr" where
  "rr_tick idle (c, [], t) = (case requeue c [] t of (q, t') \<Rightarrow> (idle, q, t'(idle := 3)))"
| "rr_tick idle (c, p # ps, t) = (case requeue c ps t of (q, t') \<Rightarrow> (p, q, t'))"

definition times :: "'a sched_scheme \<Rightarrow> u64 \<Rightarrow> u64" where
  "times s = (\<lambda>a. time_remaining (pcbs s a))"

definition rr_of :: "'a kernel_scheme \<Rightarrow> rr \<Rightarrow> bool" where
  "rr_of s r \<longleftrightarrow> (case r of (c, q, t) \<Rightarrow>
     currently_running_process s = c \<and> ready_queue s q \<and> times s = t)"

lemma ready_queue_pcb_upd:
  "next_pcb p = next_pcb (pcbs s c) \<Longrightarrow> ready_queue (s\<lparr>pcbs := (pcbs s)(c := p)\<rparr>) q = ready_queue s q"
  by (simp add: ready_queue_def queue_upd_same_next)

lemma save_and_requeue_ok:
  assumes q: "ready_queue s qs" and c: "currently_running_process s = c" "c \<noteq> 0" "c \<notin> set qs"
    and r: "requeue c qs (times s) = (rs, t)"
  obtains h r where "save_and_requeue old_rsp s = Some (s\<lparr>pcbs := h, ready_processes := r\<rparr>)"
    "queue h r rs" "(\<lambda>a. time_remaining (h a)) = t"
    "\<And>a. pcb_kept (if a = c then (pcbs s c)\<lparr>rsp := old_rsp\<rparr> else pcbs s a) (h a)"
proof -
  let ?s = "s\<lparr>pcbs := (pcbs s)(c := (pcbs s c)\<lparr>rsp := old_rsp\<rparr>)\<rparr>"
  have q': "ready_queue ?s qs" using q by (simp add: ready_queue_pcb_upd)
  have t: "times ?s = times s" by (auto simp: times_def)
  have r': "requeue c qs (\<lambda>a. time_remaining (pcbs ?s a)) = (rs, t)"
    using r unfolding t [symmetric] by (simp only: times_def)
  obtain h r where h: "schedule_old_process c ?s = Some (?s\<lparr>pcbs := h, ready_processes := r\<rparr>)"
    "queue h r rs" "\<And>a. time_remaining (h a) = t a" "\<And>a. pcb_kept (pcbs ?s a) (h a)"
    by (rule schedule_old_process_ok [OF q' c(2,3) r']) (rule that)
  show ?thesis
  proof (rule that [where h = h and r = r])
    show "pcb_kept (if a = c then (pcbs s c)\<lparr>rsp := old_rsp\<rparr> else pcbs s a) (h a)" for a
      using h(4) [of a] by (simp split: if_splits)
    show "save_and_requeue old_rsp s = Some (s\<lparr>pcbs := h, ready_processes := r\<rparr>)"
      using h(1) c by (simp add: save_and_requeue_def Let_def)
    show "queue h r rs" by (rule h(2))
    show "(\<lambda>a. time_remaining (h a)) = t" using h(3) by (simp add: fun_eq_iff)
  qed
qed

text \<open>
  The processor after a dispatch of \<open>p\<close>: it runs on the stack and the page tables the
  control block names, and a user process has its kernel stack in the TSS.
\<close>

definition dispatched :: "u64 \<Rightarrow> 'a kernel_scheme \<Rightarrow> bool" where
  "dispatched p s \<longleftrightarrow> cpu_rsp s = rsp (pcbs s p) \<and> cpu_cr3 s = cr3 (pcbs s p) \<and>
     (process_type (pcbs s p) = USER \<longrightarrow> tss_rsp0 s = kstack_addr p 511 \<and> data_seg s = 0x23)"

lemma run_ready_process_ok:
  assumes q: "ready_queue s qs" and c: "currently_running_process s = c" "c \<noteq> 0" "c \<notin> set qs"
    and r: "requeue c qs (times s) = (rs, t)"
  obtains s' where "run_ready_process p s = Some s'" "rr_of s' (p, rs, t)" "dispatched p s'"
    "\<And>a. pcb_kept (if a = c then (pcbs s c)\<lparr>rsp := cpu_rsp s\<rparr> else pcbs s a) (pcbs s' a)"
    "timer_ticks s' = timer_ticks s" "first_schedule s' = first_schedule s"
    "idle_process s' = idle_process s"
proof -
  obtain h r where h: "save_and_requeue (cpu_rsp s) s = Some (s\<lparr>pcbs := h, ready_processes := r\<rparr>)"
    "queue h r rs" "(\<lambda>a. time_remaining (h a)) = t"
    "\<And>a. pcb_kept (if a = c then (pcbs s c)\<lparr>rsp := cpu_rsp s\<rparr> else pcbs s a) (h a)"
    using save_and_requeue_ok [OF q c r] by blast
  let ?s = "s\<lparr>pcbs := h, ready_processes := r, currently_running_process := p,
    cpu_cr3 := cr3 (h p), cpu_rsp := rsp (h p)\<rparr>"
  let ?s' = "if process_type (h p) = USER
    then (set_tss_rsp (kstack_addr p 511) ?s)\<lparr>data_seg := 0x23\<rparr> else ?s"
  have run: "run_ready_process p s = Some ?s'"
    using h(1) by (simp add: run_ready_process_def Let_def)
  have "pcbs ?s' = h" by (simp add: set_tss_rsp_def)
  then have "pcb_kept (if a = c then (pcbs s c)\<lparr>rsp := cpu_rsp s\<rparr> else pcbs s a) (pcbs ?s' a)" for a
    using h(4) [of a] by (simp only:)
  then show ?thesis
    by (intro that [OF run]) (use h(2,3) in \<open>simp_all add: rr_of_def ready_queue_def
        times_def dispatched_def set_tss_rsp_def\<close>)
qed

lemma run_idle_process_ok:
  assumes q: "ready_queue s qs" and c: "currently_running_process s = c" "c \<noteq> 0" "c \<notin> set qs"
    and r: "requeue c qs (times s) = (rs, t)"
  obtains s' where "run_idle_process s = Some s'" "rr_of s' (idle_process s, rs, t(idle_process s := 3))"
    "cpu_rsp s' = rsp (pcbs s' (idle_process s))" "cpu_cr3 s' = cr3 (pcbs s' (idle_process s))"
    "\<And>a. pcb_kept (if a = c then (pcbs s c)\<lparr>rsp := cpu_rsp s\<rparr> else pcbs s a) (pcbs s' a)"
    "timer_ticks s' = timer_ticks s" "first_schedule s' = first_schedule s"
    "idle_process s' = idle_process s"
proof -
  let ?i = "idle_process s"
  obtain h r where h: "save_and_requeue (cpu_rsp s) s = Some (s\<lparr>pcbs := h, ready_processes := r\<rparr>)"
    "queue h r rs" "(\<lambda>a. time_remaining (h a)) = t"
    "\<And>a. pcb_kept (if a = c then (pcbs s c)\<lparr>rsp := cpu_rsp s\<rparr> else pcbs s a) (h a)"
    using save_and_requeue_ok [OF q c r] by blast
  let ?h = "h(?i := (h ?i)\<lparr>time_remaining := 3\<rparr>)"
  let ?s' = "s\<lparr>pcbs := ?h, ready_processes := r, cpu_cr3 := cr3 (h ?i), cpu_rsp := rsp (h ?i),
    currently_running_process := ?i\<rparr>"
  have run: "run_idle_process s = Some ?s'"
    using h(1) by (simp add: run_idle_process_def Let_def)
  have "queue ?h r rs" using h(2) by (simp add: queue_upd_same_next)
  moreover have "(\<lambda>a. time_remaining (?h a)) = t(?i := 3)" using h(3) by auto
  moreover have "pcb_kept (if a = c then (pcbs s c)\<lparr>rsp := cpu_rsp s\<rparr> else pcbs s a) (?h a)" for a
    using h(4) [of a] by (cases "a = ?i") (simp_all split: if_splits)
  ultimately show ?thesis
    by (intro that [OF run]) (simp_all add: rr_of_def ready_queue_def times_def)
qed

text \<open>
  One time slice of the interrupt handler is one step of the round robin. Interrupts
  inside a slice change only the counter and acknowledge the interrupt controller.
\<close>

lemma generate_timer_inside_slice:
  "timer_ticks s + 1 \<noteq> 180 \<Longrightarrow>
    generate_timer s = Some (outb 0x20 0x20 (s\<lparr>timer_ticks := timer_ticks s + 1\<rparr>))"
  by (simp add: generate_timer_def Let_def)

lemma outb_simps [simp]:
  "ready_processes (outb p v s) = ready_processes s" "ports (outb p v s) = ports s @ [(p, v)]"
  "pcbs (outb p v s) = pcbs s" "cpu_rsp (outb p v s) = cpu_rsp s" "cpu_cr3 (outb p v s) = cpu_cr3 s"
  "tss_rsp0 (outb p v s) = tss_rsp0 s" "data_seg (outb p v s) = data_seg s"
  "timer_ticks (outb p v s) = timer_ticks s" "first_schedule (outb p v s) = first_schedule s"
  "idle_process (outb p v s) = idle_process s"
  "currently_running_process (outb p v s) = currently_running_process s"
  "ready_queue (outb p v s) q = ready_queue s q" "times (outb p v s) = times s"
  "dispatched a (outb p v s) = dispatched a s"
  by (simp_all add: outb_def ready_queue_def times_def dispatched_def)

lemma rr_of_simps [simp]:
  "rr_of (outb p v s) r = rr_of s r" "rr_of (s\<lparr>timer_ticks := n\<rparr>) r = rr_of s r"
  "rr_of (s\<lparr>cpu_rsp := x\<rparr>) r = rr_of s r"
  by (auto simp: rr_of_def outb_def ready_queue_def times_def split: prod.splits)

lemma generate_timer_slice:
  assumes tick: "timer_ticks s = 179" and fs: "first_schedule s \<noteq> 1"
    and r: "rr_of s (c, q, t)" and c: "c \<noteq> 0" "c \<notin> set q"
  obtains s' p where "generate_timer s = Some s'" "rr_of s' (rr_tick (idle_process s) (c, q, t))"
    "currently_running_process s' = p" "cpu_rsp s' = rsp (pcbs s' p)" "cpu_cr3 s' = cr3 (pcbs s' p)"
    "q \<noteq> [] \<Longrightarrow> dispatched p s'"
    "\<And>a. pcb_kept (if a = c then (pcbs s c)\<lparr>rsp := cpu_rsp s\<rparr> else pcbs s a) (pcbs s' a)"
    "timer_ticks s' = 0" "first_schedule s' = first_schedule s" "idle_process s' = idle_process s"
proof (cases q)
  case Nil
  let ?s = "s\<lparr>timer_ticks := 0\<rparr>"
  obtain rs u where ru: "requeue c [] t = (rs, u)" by fastforce
  have s: "ready_queue ?s []" "currently_running_process ?s = c" "requeue c [] (times ?s) = (rs, u)"
    using r Nil ru by (simp_all add: rr_of_def ready_queue_def times_def)
  obtain s' where s': "run_idle_process ?s = Some s'"
    "rr_of s' (idle_process ?s, rs, u(idle_process ?s := 3))"
    "cpu_rsp s' = rsp (pcbs s' (idle_process ?s))" "cpu_cr3 s' = cr3 (pcbs s' (idle_process ?s))"
    "\<And>a. pcb_kept (if a = c then (pcbs ?s c)\<lparr>rsp := cpu_rsp ?s\<rparr> else pcbs ?s a) (pcbs s' a)"
    "timer_ticks s' = timer_ticks ?s" "first_schedule s' = first_schedule ?s"
    "idle_process s' = idle_process ?s"
    using run_idle_process_ok [OF s(1,2) c(1) _ s(3)] by auto
  have run: "generate_timer s = Some (outb 0x20 0x20 s')"
    using tick fs s'(1) get_next_ready_process_Nil [OF s(1)]
    by (simp add: generate_timer_def Let_def)
  show ?thesis
  proof (rule that [OF run, of "idle_process s"])
    show "pcb_kept (if a = c then (pcbs s c)\<lparr>rsp := cpu_rsp s\<rparr> else pcbs s a) (pcbs (outb 0x20 0x20 s') a)"
      for a using s'(5) [of a] by (simp split: if_splits)
  qed (use s'(2-4,6-8) Nil ru in \<open>simp_all add: rr_of_def\<close>)
next
  case (Cons p ps)
  let ?s = "s\<lparr>timer_ticks := 0\<rparr>"
  let ?g = "?s\<lparr>ready_processes := next_pcb (pcbs ?s p)\<rparr>"
  obtain rs u where ru: "requeue c ps t = (rs, u)" by fastforce
  have "ready_queue ?s (p # ps)" using r Cons by (simp add: rr_of_def ready_queue_def)
  then have g: "get_next_ready_process ?s = (p, ?g)" "ready_queue ?g ps" and p: "p \<noteq> 0"
    using get_next_ready_process_Cons [of ?s p ps] queue_nonzero [of "pcbs ?s" _ "p # ps"]
    by (auto simp: ready_queue_def)
  have s: "currently_running_process ?g = c" "requeue c ps (times ?g) = (rs, u)" "c \<notin> set ps"
    using r ru c(2) Cons by (simp_all add: rr_of_def times_def)
  obtain s' where s': "run_ready_process p ?g = Some s'" "rr_of s' (p, rs, u)" "dispatched p s'"
    "\<And>a. pcb_kept (if a = c then (pcbs ?g c)\<lparr>rsp := cpu_rsp ?g\<rparr> else pcbs ?g a) (pcbs s' a)"
    "timer_ticks s' = timer_ticks ?g" "first_schedule s' = first_schedule ?g"
    "idle_process s' = idle_process ?g"
    using run_ready_process_ok [OF g(2) s(1) c(1) s(3) s(2), where p = p] by blast
  have run: "generate_timer s = Some (outb 0x20 0x20 s')"
    using tick fs s'(1) g(1) p by (simp add: generate_timer_def Let_def)
  show ?thesis
  proof (rule that [OF run, of p])
    show "pcb_kept (if a = c then (pcbs s c)\<lparr>rsp := cpu_rsp s\<rparr> else pcbs s a) (pcbs (outb 0x20 0x20 s') a)"
      for a using s'(4) [of a] by (simp split: if_splits)
    show "rr_of (outb 0x20 0x20 s') (rr_tick (idle_process s) (c, q, t))"
      using s'(2) Cons ru by simp
  qed (use s'(2,3,5-7) in \<open>simp_all add: rr_of_def dispatched_def\<close>)
qed

section \<open>The programmed frequency\<close>

lemma divisor_bytes:
  "unat (ucast (d AND 0xff) :: u8) + 256 * unat (ucast (signed_drop_bit 8 d) :: u8) = unat d mod 65536"
  for d :: cint
proof -
  have "(0xff :: cint) = mask 8" by (simp add: mask_eq_exp_minus_1)
  moreover have "(ucast (d AND mask 8) :: u8) = ucast d"
    by (rule bit_word_eqI) (simp add: bit_simps)
  ultimately have "(ucast (d AND 0xff) :: u8) = ucast d" by (simp only:)
  then have lo: "unat (ucast (d AND 0xff) :: u8) = unat d mod 256"
    by (simp add: unsigned_ucast_eq take_bit_eq_mod)
  have "(ucast (signed_drop_bit 8 d) :: u8) = ucast (drop_bit 8 d)"
    by (rule bit_word_eqI) (simp add: bit_simps)
  then have hi: "unat (ucast (signed_drop_bit 8 d) :: u8) = unat d div 256 mod 256"
    by (simp only: unsigned_ucast_eq unat_drop_bit_eq) (simp add: drop_bit_eq_div take_bit_eq_mod)
  show ?thesis unfolding lo hi using mod_mult2_eq [of "unat d" 256 256] by simp
qed

text \<open>The value the three writes that end a port trace leave in the reload register.\<close>

definition counter_loaded :: "(u16 \<times> u8) list \<Rightarrow> nat option" where
  "counter_loaded ps = (case rev ps of
     (p2, hi) # (p1, lo) # (p0, c) # _ \<Rightarrow>
       if p0 = 0x43 \<and> c = 0x36 \<and> p1 = 0x40 \<and> p2 = 0x40 then Some (unat lo + 256 * unat hi) else None
   | _ \<Rightarrow> None)"

text \<open>
  C37. Bounds: the bytes written to the counter are the divisor of the requested frequency
  modulo 65536, so the hardware gets the requested frequency exactly from 19 Hz up. For
  the 2 Hz that start asks for it is loaded with 6766, about 176 Hz.
\<close>

theorem timer_phase_divisor:
  assumes f: "0 < sint f"
  shows "\<exists>s'. timer_phase f s = Some s' \<and> timer_ticks s' = 0 \<and> first_schedule s' = 1 \<and>
    counter_loaded (ports s') = Some (nat (1193180 div sint f) mod 65536) \<and>
    (nat (1193180 div sint f) mod 65536 = nat (1193180 div sint f) \<longleftrightarrow> 19 \<le> sint f)"
proof -
  let ?n = "nat (1193180 div sint f)"
  have n: "?n \<le> 1193180" "int ?n = 1193180 div sint f"
    using f zdiv_mono2 [of 1193180 1 "sint f"] by (auto simp: pos_imp_zdiv_nonneg_iff)
  have d: "cint_div 1193180 f = of_nat ?n"
  proof -
    have "cint_div 1193180 f = word_of_int (1193180 div sint f)" using f by (simp add: cint_div_def)
    also have "\<dots> = word_of_int (int ?n)" by (simp only: n(2))
    also have "\<dots> = of_nat ?n" by (rule of_int_of_nat_eq)
    finally show ?thesis .
  qed
  have "unat (of_nat ?n :: cint) = ?n" using n(1) by (simp add: unat_of_nat)
  then have "counter_loaded (ports s @ [(0x43, 0x36), (0x40, ucast (of_nat ?n AND 0xff :: cint)),
      (0x40, ucast (signed_drop_bit 8 (of_nat ?n :: cint)))]) = Some (?n mod 65536)"
    using divisor_bytes [of "of_nat ?n"] by (simp add: counter_loaded_def)
  moreover have "?n mod 65536 = ?n \<longleftrightarrow> 19 \<le> sint f"
  proof
    assume "?n mod 65536 = ?n"
    then have "?n < 65536" by (metis mod_less_divisor zero_less_numeral)
    show "19 \<le> sint f"
    proof (rule ccontr)
      assume "\<not> 19 \<le> sint f"
      then have "1193180 div 18 \<le> 1193180 div sint f" using f by (intro zdiv_mono2) auto
      with \<open>?n < 65536\<close> show False by simp
    qed
  next
    assume "19 \<le> sint f"
    then have "1193180 div sint f \<le> 1193180 div 19" by (intro zdiv_mono2) auto
    then show "?n mod 65536 = ?n" by simp
  qed
  moreover have "f \<noteq> 0" using f by auto
  ultimately show ?thesis by (simp add: timer_phase_def Let_def d outb_def)
qed

theorem timer_phase_divisor_witness:
  "\<forall>s :: kernel. \<exists>s'. timer_phase 2 s = Some s' \<and> counter_loaded (ports s') = Some 6766"
proof
  fix s :: kernel
  show "\<exists>s'. timer_phase 2 s = Some s' \<and> counter_loaded (ports s') = Some 6766"
    using timer_phase_divisor [of 2 s] by auto
qed

end
