(* ===== verification/RoundRobin.thy ===== *)
theory RoundRobin
  imports Timer "HOL-Library.Multiset"
begin

text \<open>
  What repeated timer interrupts do: the handler implements the round robin of Timer, it
  keeps every process exactly once in the running slot or in the ready list, every ready
  process gets the processor within a bound computed from the time slices of those before
  it, and a preempted process resumes on the stack it was interrupted on.
\<close>

section \<open>The round robin\<close>

lemma rr_of_current: "rr_of s r \<Longrightarrow> currently_running_process s = fst r"
  by (auto simp: rr_of_def split: prod.splits)

definition rr_procs :: "rr \<Rightarrow> u64 multiset" where
  "rr_procs r = (case r of (c, q, t) \<Rightarrow> add_mset c (mset q))"

definition rr_ok :: "rr \<Rightarrow> bool" where
  "rr_ok r \<longleftrightarrow> (case r of (c, q, t) \<Rightarrow> q \<noteq> [] \<and> distinct (c # q) \<and> 0 \<notin> set (c # q))"

lemma rr_tick_procs: "rr_ok r \<Longrightarrow> rr_procs (rr_tick idle r) = rr_procs r"
  by (cases "(idle, r)" rule: rr_tick.cases) (auto simp: rr_ok_def rr_procs_def requeue_def)

lemma rr_tick_ok: "rr_ok r \<Longrightarrow> rr_ok (rr_tick idle r)"
  by (cases "(idle, r)" rule: rr_tick.cases) (auto simp: rr_ok_def requeue_def)

lemma rr_ticks_ok: "rr_ok r \<Longrightarrow> rr_ok ((rr_tick idle ^^ n) r)"
  by (induction n) (simp_all add: rr_tick_ok)

text \<open>The slices a process may use before one that waits behind it.\<close>

definition slices :: "(u64 \<Rightarrow> u64) \<Rightarrow> u64 \<Rightarrow> nat" where
  "slices t a = max 1 (unat (t a))"

definition waiting :: "u64 \<Rightarrow> u64 list \<Rightarrow> (u64 \<Rightarrow> u64) \<Rightarrow> nat" where
  "waiting c ahead t = slices t c + sum_list (map (slices t) ahead)"

lemma slices_pos: "0 < slices t a"
  by (simp add: slices_def)

lemma slices_decr: "\<not> t c \<le> 1 \<Longrightarrow> slices (t(c := t c - 1)) c = slices t c - 1"
  by (simp add: slices_def) (unat_arith)

lemma slices_other: "a \<noteq> c \<Longrightarrow> slices (t(c := x)) a = slices t a"
  by (simp add: slices_def)

lemma slices_one: "t c \<le> 1 \<Longrightarrow> slices t c = 1"
  by (simp add: slices_def) unat_arith

text \<open>Every step brings a waiting process nearer to the processor.\<close>

lemma rr_tick_waiting:
  assumes "rr_ok (c, x # xs @ p # ys, t)"
  obtains c' xs' ys' t' where "rr_tick idle (c, x # xs @ p # ys, t) = (c', xs' @ p # ys', t')"
    "waiting c' xs' t' + 1 \<le> waiting c (x # xs) t"
proof (cases "t c \<le> 1")
  case True
  have "map (slices (t(c := 3))) xs = map (slices t) xs" "slices (t(c := 3)) x = slices t x"
    using assms by (auto simp: rr_ok_def intro!: slices_other)
  then show ?thesis
    using True slices_one [of t c]
    by (intro that [of x xs "ys @ [c]" "t(c := 3)"]) (simp_all add: requeue_def waiting_def del: map_eq_conv)
next
  case False
  let ?t = "t(c := t c - 1)"
  have "map (slices ?t) xs = map (slices t) xs" "slices ?t x = slices t x"
    using assms by (auto simp: rr_ok_def intro!: slices_other)
  moreover have "slices ?t c = slices t c - 1" by (rule slices_decr) (rule False)
  ultimately show ?thesis
    using False slices_pos [of t c]
    by (intro that [of x "c # xs" ys ?t]) (simp_all add: requeue_def waiting_def del: map_eq_conv)
qed

lemma rr_reaches:
  "rr_ok (c, xs @ p # ys, t) \<Longrightarrow>
    \<exists>n \<le> waiting c xs t. 0 < n \<and> fst ((rr_tick idle ^^ n) (c, xs @ p # ys, t)) = p"
proof (induction "waiting c xs t" arbitrary: c xs ys t rule: less_induct)
  case less
  show ?case
  proof (cases xs)
    case Nil
    then show ?thesis
      using slices_pos [of t c] by (intro exI [of _ 1]) (auto simp: requeue_def waiting_def)
  next
    case (Cons x zs)
    with less.prems have ok: "rr_ok (c, x # zs @ p # ys, t)" by simp
    then obtain c' xs' ys' t' where
      step: "rr_tick idle (c, x # zs @ p # ys, t) = (c', xs' @ p # ys', t')"
      and le: "waiting c' xs' t' + 1 \<le> waiting c (x # zs) t"
      by (rule rr_tick_waiting)
    have "rr_ok (c', xs' @ p # ys', t')" using rr_tick_ok [OF ok, of idle] step by simp
    with less.hyps [of c' xs' t' ys'] le Cons obtain n where
      n: "n \<le> waiting c' xs' t'" "fst ((rr_tick idle ^^ n) (c', xs' @ p # ys', t')) = p"
      by auto
    have "fst ((rr_tick idle ^^ Suc n) (c, xs @ p # ys, t)) = p"
      using n(2) step Cons by (simp add: funpow_swap1)
    with n(1) le Cons show ?thesis by (intro exI [of _ "Suc n"]) auto
  qed
qed

section \<open>Runs of interrupts\<close>

text \<open>
  Between two interrupts the running process moves its stack pointer; the list holds the
  stack pointer each interrupt finds.
\<close>

primrec timer_interrupts :: "u64 list \<Rightarrow> 'a kernel_scheme \<Rightarrow> 'a kernel_scheme option" where
  "timer_interrupts [] s = Some s"
| "timer_interrupts (r # rs) s = do { s' \<leftarrow> generate_timer (s\<lparr>cpu_rsp := r\<rparr>); timer_interrupts rs s' }"

lemma timer_interrupts_append:
  "timer_interrupts (as @ bs) s = do { s' \<leftarrow> timer_interrupts as s; timer_interrupts bs s' }"
  by (induction as arbitrary: s) (simp_all split: bind_split)

text \<open>Within a slice only the counter moves.\<close>

lemma timer_interrupts_inside:
  "unat (timer_ticks s) + length rs < 180 \<Longrightarrow>
    \<exists>s'. timer_interrupts rs s = Some s' \<and>
      unat (timer_ticks s') = unat (timer_ticks s) + length rs \<and> pcbs s' = pcbs s \<and>
      ready_processes s' = ready_processes s \<and>
      currently_running_process s' = currently_running_process s \<and>
      idle_process s' = idle_process s \<and> first_schedule s' = first_schedule s"
proof (induction rs arbitrary: s)
  case (Cons r rs)
  let ?s = "outb 0x20 0x20 (s\<lparr>cpu_rsp := r, timer_ticks := timer_ticks s + 1\<rparr>)"
  have u: "unat (timer_ticks s + 1) = unat (timer_ticks s) + 1"
    using Cons.prems by (simp add: unat_word_ariths)
  have "timer_ticks s + 1 \<noteq> 180"
  proof
    assume "timer_ticks s + 1 = 180"
    then have "unat (timer_ticks s + 1) = 180" by simp
    with u Cons.prems show False by simp
  qed
  then have "generate_timer (s\<lparr>cpu_rsp := r\<rparr>) = Some ?s"
    by (subst generate_timer_inside_slice) simp_all
  moreover have "unat (timer_ticks ?s) + length rs < 180" using u Cons.prems by simp
  note Cons.IH [OF this]
  ultimately show ?case using u by (auto simp: outb_def)
qed simp

text \<open>One slice: 180 interrupts are one step of the round robin.\<close>

definition at_slice :: "'a kernel_scheme \<Rightarrow> bool" where
  "at_slice s \<longleftrightarrow> timer_ticks s = 0 \<and> first_schedule s \<noteq> 1"

lemma timer_interrupts_slice:
  assumes s: "at_slice s" "rr_of s r" "rr_ok r" and len: "length rs = 180"
  obtains s' where "timer_interrupts rs s = Some s'" "at_slice s'"
    "rr_of s' (rr_tick (idle_process s) r)" "idle_process s' = idle_process s"
    "dispatched (currently_running_process s') s'"
    "\<And>a. a \<noteq> currently_running_process s \<Longrightarrow> pcb_kept (pcbs s a) (pcbs s' a)"
    "pcb_kept ((pcbs s (currently_running_process s))\<lparr>rsp := last rs\<rparr>)
      (pcbs s' (currently_running_process s))"
proof -
  obtain c q t where r: "r = (c, q, t)" by (cases r)
  have ok: "c \<noteq> 0" "c \<notin> set q" "q \<noteq> []" using s(3) r by (auto simp: rr_ok_def)
  have c: "currently_running_process s = c" using s(2) r by (simp add: rr_of_def)
  from len have ne: "rs \<noteq> []" by auto
  with len have rs: "rs = butlast rs @ [last rs]" "length (butlast rs) = 179" by simp_all
  then have "unat (timer_ticks s) + length (butlast rs) < 180" using s(1) by (simp add: at_slice_def)
  from timer_interrupts_inside [OF this] obtain u where u: "timer_interrupts (butlast rs) s = Some u"
    "unat (timer_ticks u) = unat (timer_ticks s) + length (butlast rs)" "pcbs u = pcbs s"
    "ready_processes u = ready_processes s"
    "currently_running_process u = currently_running_process s" "idle_process u = idle_process s"
    "first_schedule u = first_schedule s"
    by blast
  let ?u = "u\<lparr>cpu_rsp := last rs\<rparr>"
  have "unat (timer_ticks u) = unat (179 :: cint)" using u(2) rs(2) s(1) by (simp add: at_slice_def)
  then have t: "timer_ticks ?u = 179" by (simp add: word_unat_eq_iff del: unat_numeral)
  have rr: "rr_of ?u (c, q, t)"
    using s(2) r u(3,4,5) c by (simp add: rr_of_def ready_queue_def times_def)
  have fs: "first_schedule ?u \<noteq> 1" using s(1) u(7) by (simp add: at_slice_def)
  obtain s' p where s': "generate_timer ?u = Some s'" "rr_of s' (rr_tick (idle_process ?u) (c, q, t))"
    "currently_running_process s' = p" "q \<noteq> [] \<Longrightarrow> dispatched p s'"
    "\<And>a. pcb_kept (if a = c then (pcbs ?u c)\<lparr>rsp := cpu_rsp ?u\<rparr> else pcbs ?u a) (pcbs s' a)"
    "timer_ticks s' = 0" "first_schedule s' = first_schedule ?u" "idle_process s' = idle_process ?u"
    by (rule generate_timer_slice [OF t fs rr ok(1,2)]) (rule that)
  have "timer_interrupts rs s = Some s'"
    by (subst rs(1)) (simp add: timer_interrupts_append u(1) s'(1))
  moreover have "at_slice s'" using s'(6,7) fs by (simp add: at_slice_def)
  moreover have "pcb_kept (pcbs s a) (pcbs s' a)" if "a \<noteq> c" for a
    using s'(5) [of a] that u(3) by simp
  moreover have "pcb_kept ((pcbs s c)\<lparr>rsp := last rs\<rparr>) (pcbs s' c)"
    using s'(5) [of c] u(3) by simp
  ultimately show ?thesis
    using s'(2-4,8) u(6) r ok(3) c by (intro that [of s']) simp_all
qed

text \<open>
  \<open>n\<close> slices are \<open>n\<close> steps; a process that does not run meanwhile keeps the context
  that was saved for it.
\<close>

lemma timer_interrupts_slices:
  "\<lbrakk>at_slice s; rr_of s r; rr_ok r; length rs = 180 * n\<rbrakk> \<Longrightarrow>
    \<exists>s'. timer_interrupts rs s = Some s' \<and> at_slice s' \<and>
      rr_of s' ((rr_tick (idle_process s) ^^ n) r) \<and> idle_process s' = idle_process s \<and>
      (n \<noteq> 0 \<longrightarrow> dispatched (currently_running_process s') s') \<and>
      (\<forall>a. (\<forall>j<n. fst ((rr_tick (idle_process s) ^^ j) r) \<noteq> a) \<longrightarrow> pcb_kept (pcbs s a) (pcbs s' a))"
proof (induction n arbitrary: s r rs)
  case (Suc n)
  let ?i = "idle_process s"
  have len: "length (take 180 rs) = 180" "length (drop 180 rs) = 180 * n" using Suc.prems(4) by simp_all
  obtain u where u: "timer_interrupts (take 180 rs) s = Some u" "at_slice u" "rr_of u (rr_tick ?i r)"
    "idle_process u = ?i" "dispatched (currently_running_process u) u"
    "\<And>a. a \<noteq> currently_running_process s \<Longrightarrow> pcb_kept (pcbs s a) (pcbs u a)"
    by (rule timer_interrupts_slice [OF Suc.prems(1-3) len(1)]) (rule that)
  have c: "currently_running_process s = fst r"
    by (rule rr_of_current [OF Suc.prems(2)])
  obtain s' where s': "timer_interrupts (drop 180 rs) u = Some s'" "at_slice s'"
    "rr_of s' ((rr_tick ?i ^^ n) (rr_tick ?i r))" "idle_process s' = ?i"
    "n \<noteq> 0 \<longrightarrow> dispatched (currently_running_process s') s'"
    "\<forall>a. (\<forall>j<n. fst ((rr_tick ?i ^^ j) (rr_tick ?i r)) \<noteq> a) \<longrightarrow> pcb_kept (pcbs u a) (pcbs s' a)"
    using Suc.IH [OF u(2,3) rr_tick_ok [OF Suc.prems(3)] len(2)] u(4) by auto
  have kept: "pcb_kept (pcbs s a) (pcbs s' a)"
    if a: "\<forall>j<Suc n. fst ((rr_tick ?i ^^ j) r) \<noteq> a" for a
  proof -
    have "pcb_kept (pcbs s a) (pcbs u a)" using u(6) [of a] a c by (metis funpow_0 zero_less_Suc)
    moreover have "\<forall>j<n. fst ((rr_tick ?i ^^ j) (rr_tick ?i r)) \<noteq> a"
      using a by (metis funpow_simps_right(2) comp_apply Suc_less_eq)
    then have "pcb_kept (pcbs u a) (pcbs s' a)" using s'(6) by blast
    ultimately show ?thesis by (rule pcb_kept_trans)
  qed
  have "timer_interrupts rs s = Some s'"
    using timer_interrupts_append [of "take 180 rs" "drop 180 rs" s] u(1) s'(1) by simp
  moreover have "dispatched (currently_running_process s') s'"
    using s'(1,5) u(5) len(2) by (cases "n = 0") auto
  ultimately show ?case
    using s'(2-4) kept by (auto simp: funpow_swap1)
qed auto

section \<open>Scheduling from start on\<close>

text \<open>
  What start does once the two processes exist (sys/main.c): an idle process and one user
  process are handed to the scheduler, with the timer already programmed.
\<close>

definition start_scheduling ::
  "u64 \<Rightarrow> u64 \<Rightarrow> u64 \<Rightarrow> u64 \<Rightarrow> 'a sched_scheme \<Rightarrow> 'a sched_scheme option" where
  "start_scheduling irq0 dummy_process_1 user_mode_function_1 first_process s =
     (let s = scheduler_init s;
          s = schedule_idle_process irq0 dummy_process_1 user_mode_function_1 s
      in schedule_user_process irq0 first_process s)"

text \<open>
  The states the kernel goes through: a timer interrupt that finds the running process at
  any stack pointer, or a system call that creates a process at a fresh address \<open>p\<close> with
  any contents \<open>b\<close> and schedules it. The set holds the processes created so far.
\<close>

inductive scheduling :: "u64 \<Rightarrow> 'a kernel_scheme \<Rightarrow> u64 set \<Rightarrow> bool" for irq0 where
  scheduling_start: "\<lbrakk>start_scheduling irq0 i f p s = Some s'; first_schedule s = 1; i \<noteq> 0; p \<noteq> 0; p \<noteq> i\<rbrakk>
    \<Longrightarrow> scheduling irq0 s' {i, p}"
| scheduling_timer: "\<lbrakk>scheduling irq0 s P; generate_timer (s\<lparr>cpu_rsp := r\<rparr>) = Some s'\<rbrakk>
    \<Longrightarrow> scheduling irq0 s' P"
| scheduling_exec: "\<lbrakk>scheduling irq0 s P; p \<noteq> 0; p \<notin> P;
      schedule_user_process irq0 p (s\<lparr>pcbs := (pcbs s)(p := b)\<rparr>) = Some s'\<rbrakk>
    \<Longrightarrow> scheduling irq0 s' (insert p P)"

text \<open>Until the first slice ends nothing runs; then everything is in its place once.\<close>

definition accounted :: "'a kernel_scheme \<Rightarrow> u64 set \<Rightarrow> bool" where
  "accounted s P \<longleftrightarrow> (\<exists>q. ready_queue s q \<and> q \<noteq> [] \<and> 0 \<notin> P \<and>
     (if first_schedule s = 1 then distinct (idle_process s # q) \<and> P = set (idle_process s # q)
      else distinct (currently_running_process s # q) \<and> P = set (currently_running_process s # q)))"

lemma schedule_user_process_frame:
  "schedule_user_process irq0 p s = Some s' \<Longrightarrow>
    currently_running_process s' = currently_running_process s \<and> idle_process s' = idle_process s \<and>
    sched.more s' = sched.more s"
  by (auto simp: schedule_user_process_def Let_def split: if_splits bind_splits)

lemma first_schedule_more: "sched.more s' = sched.more s \<Longrightarrow> first_schedule s' = first_schedule s"
  by (cases s; cases s') simp

lemma accounted_enter:
  assumes "accounted s P" "p \<noteq> 0" "p \<notin> P"
    and run: "schedule_user_process irq0 p (s\<lparr>pcbs := (pcbs s)(p := b)\<rparr>) = Some s'"
  shows "accounted s' (insert p P)"
proof -
  let ?s = "s\<lparr>pcbs := (pcbs s)(p := b)\<rparr>"
  obtain q where q: "ready_queue s q" "q \<noteq> []" "0 \<notin> P"
    "if first_schedule s = 1 then distinct (idle_process s # q) \<and> P = set (idle_process s # q)
      else distinct (currently_running_process s # q) \<and> P = set (currently_running_process s # q)"
    using assms(1) by (auto simp: accounted_def)
  have p: "p \<notin> set q" using q(4) assms(3) by (auto split: if_splits)
  then have "ready_queue ?s q"
    using q(1) unfolding ready_queue_def by (subst queue_cong [of _ _ "pcbs s"]) auto
  then have "ready_queue s' (q @ [p])" using user.enq_ok [of ?s q p irq0] assms(2) p run by auto
  moreover have "currently_running_process s' = currently_running_process s"
    "idle_process s' = idle_process s" "first_schedule s' = first_schedule s"
    using schedule_user_process_frame [OF run] first_schedule_more [of s' ?s] by auto
  ultimately show ?thesis
    using q assms(2,3) unfolding accounted_def
    by (intro exI [of _ "q @ [p]"]) (auto split: if_splits)
qed

lemma generate_timer_first:
  "\<lbrakk>timer_ticks s = 179; first_schedule s = 1\<rbrakk> \<Longrightarrow>
    generate_timer s = Some (outb 0x20 0x20 (run_first_idle (s\<lparr>timer_ticks := 0\<rparr>)))"
  by (simp add: generate_timer_def Let_def)

lemma last_tick: "x + 1 = 180 \<Longrightarrow> x = 179" for x :: cint
proof -
  assume "x + 1 = 180"
  then have "x + 1 - 1 = 180 - 1" by (simp only:)
  then show ?thesis by simp
qed

lemma accounted_timer:
  assumes "accounted s P"
  obtains s' where "generate_timer (s\<lparr>cpu_rsp := r\<rparr>) = Some s'" "accounted s' P"
proof -
  let ?s = "s\<lparr>cpu_rsp := r\<rparr>"
  obtain q where q: "ready_queue s q" "q \<noteq> []" "0 \<notin> P"
    "if first_schedule s = 1 then distinct (idle_process s # q) \<and> P = set (idle_process s # q)
      else distinct (currently_running_process s # q) \<and> P = set (currently_running_process s # q)"
    using assms by (auto simp: accounted_def)
  consider "timer_ticks s + 1 \<noteq> 180" | "timer_ticks s = 179" "first_schedule s = 1"
    | "timer_ticks s = 179" "first_schedule s \<noteq> 1"
    using last_tick [of "timer_ticks s"] by blast
  then show ?thesis
  proof cases
    case 1
    then have "generate_timer ?s = Some (outb 0x20 0x20 (?s\<lparr>timer_ticks := timer_ticks s + 1\<rparr>))"
      by (subst generate_timer_inside_slice) simp_all
    then show ?thesis
      by (rule that) (use q in \<open>auto simp: accounted_def ready_queue_def split: if_splits\<close>)
  next
    case 2
    then have "generate_timer ?s = Some (outb 0x20 0x20 (run_first_idle (?s\<lparr>timer_ticks := 0\<rparr>)))"
      by (intro generate_timer_first) simp_all
    then show ?thesis
      by (rule that) (use q 2 in \<open>auto simp: accounted_def ready_queue_def run_first_idle_def Let_def\<close>)
  next
    case 3
    let ?c = "currently_running_process s"
    have r: "rr_of ?s (?c, q, times s)"
      using q(1) by (simp add: rr_of_def ready_queue_def times_def)
    have ok: "rr_ok (?c, q, times s)" using q 3 by (auto simp: rr_ok_def)
    have c: "?c \<noteq> 0" "?c \<notin> set q" using q 3 by auto
    have t: "timer_ticks ?s = 179" "first_schedule ?s \<noteq> 1" using 3 by simp_all
    obtain s' where s': "generate_timer ?s = Some s'"
      "rr_of s' (rr_tick (idle_process ?s) (?c, q, times s))" "first_schedule s' = first_schedule ?s"
      by (rule generate_timer_slice [OF t r c]) (rule that)
    let ?r = "rr_tick (idle_process ?s) (?c, q, times s)"
    have "rr_procs ?r = rr_procs (?c, q, times s)" by (rule rr_tick_procs [OF ok])
    then have "set_mset (rr_procs ?r) = P" using q(4) 3 by (simp add: rr_procs_def)
    moreover have "rr_ok ?r" by (rule rr_tick_ok [OF ok])
    ultimately have "accounted s' P"
      using s'(2,3) 3 q(3) by (cases ?r) (auto simp: accounted_def rr_ok_def rr_procs_def rr_of_def)
    with s'(1) show ?thesis by (rule that)
  qed
qed

lemma accounted_start:
  assumes run: "start_scheduling irq0 i f p s = Some s'"
    and s: "first_schedule s = 1" "i \<noteq> 0" "p \<noteq> 0" "p \<noteq> i"
  shows "accounted s' {i, p}"
proof -
  let ?s = "schedule_idle_process irq0 i f (scheduler_init s)"
  have run: "schedule_user_process irq0 p ?s = Some s'" using run by (simp add: start_scheduling_def Let_def)
  have idle: "idle_process ?s = i" "first_schedule ?s = 1"
    using s(1) by (simp_all add: schedule_idle_process_def scheduler_init_def Let_def)
  have "ready_queue ?s []"
    by (simp add: ready_queue_def schedule_idle_process_def scheduler_init_def Let_def)
  then have "ready_queue s' [p]" using user.enq_ok [of ?s "[]" p irq0] s(3) run by auto
  then show ?thesis
    using schedule_user_process_frame [OF run] first_schedule_more [of s' ?s] idle s(2-4)
    unfolding accounted_def by (intro exI [of _ "[p]"]) auto
qed

lemma scheduling_accounted: "scheduling irq0 s P \<Longrightarrow> accounted s P"
proof (induction rule: scheduling.induct)
  case (scheduling_start i f p s s')
  then show ?case by (intro accounted_start)
next
  case (scheduling_timer s P r s')
  then show ?case by (metis accounted_timer option.inject)
next
  case (scheduling_exec s P p b s')
  then show ?case by (intro accounted_enter)
qed

section \<open>Properties\<close>

text \<open>
  C1. Refinement: from the start of a slice, 180 n timer interrupts return, whatever the
  stack pointers they find, and do to the running process, the ready list and the time
  counters what n steps of the round robin do.
\<close>

theorem timer_refines_round_robin:
  assumes "at_slice s" "rr_of s r" "rr_ok r" "length rs = 180 * n"
  shows "\<exists>s'. timer_interrupts rs s = Some s' \<and> rr_of s' ((rr_tick (idle_process s) ^^ n) r)"
  using timer_interrupts_slices [OF assms] by blast

text \<open>
  C3. No starvation: a ready process is dispatched, on the stack, the page tables and (if
  it is a user process) the kernel stack of its control block, after at most as many
  slices as the processes before it have left, whatever happens in between.
\<close>

theorem ready_process_dispatched:
  assumes "at_slice s" "rr_of s (c, xs @ p # ys, t)" "rr_ok (c, xs @ p # ys, t)"
  shows "\<exists>n \<le> waiting c xs t. \<forall>rs. length rs = 180 * n \<longrightarrow>
    (\<exists>s'. timer_interrupts rs s = Some s' \<and> currently_running_process s' = p \<and> dispatched p s')"
proof -
  obtain n where n: "n \<le> waiting c xs t" "0 < n"
    "fst ((rr_tick (idle_process s) ^^ n) (c, xs @ p # ys, t)) = p"
    using rr_reaches [OF assms(3)] by blast
  have "\<exists>s'. timer_interrupts rs s = Some s' \<and> currently_running_process s' = p \<and> dispatched p s'"
    if "length rs = 180 * n" for rs
    using timer_interrupts_slices [OF assms that] n(2,3) by (auto dest!: rr_of_current)
  with n(1) show ?thesis by blast
qed

text \<open>
  C4. Context switch: a process that is preempted at stack pointer \<open>r\<close> and does not run
  for \<open>n\<close> slices gets the processor back with exactly that stack pointer and its own page
  table base, however the others moved theirs.
\<close>

theorem preempted_process_resumes:
  assumes s: "at_slice s" "rr_of s (c, q, t)" "rr_ok (c, q, t)"
    and rs: "length rs = 180" "last rs = r" "length rs' = 180 * n"
    and away: "\<forall>j<n. fst ((rr_tick (idle_process s) ^^ Suc j) (c, q, t)) \<noteq> c"
    and again: "fst ((rr_tick (idle_process s) ^^ Suc n) (c, q, t)) = c"
  shows "\<exists>s'. timer_interrupts (rs @ rs') s = Some s' \<and> currently_running_process s' = c \<and>
    cpu_rsp s' = r \<and> cpu_cr3 s' = cr3 (pcbs s c)"
proof -
  let ?i = "idle_process s" and ?r = "(c, q, t)"
  have c: "currently_running_process s = c" using s(2) by (simp add: rr_of_def)
  obtain u where u: "timer_interrupts rs s = Some u" "at_slice u" "rr_of u (rr_tick ?i ?r)"
    "idle_process u = ?i" "dispatched (currently_running_process u) u"
    "pcb_kept ((pcbs s c)\<lparr>rsp := r\<rparr>) (pcbs u c)"
    using timer_interrupts_slice [OF s rs(1)] c rs(2) by metis
  have "\<forall>j<n. fst ((rr_tick ?i ^^ j) (rr_tick ?i ?r)) \<noteq> c" using away by (simp add: funpow_swap1)
  then obtain s' where s': "timer_interrupts rs' u = Some s'"
    "rr_of s' ((rr_tick ?i ^^ n) (rr_tick ?i ?r))" "n \<noteq> 0 \<longrightarrow> dispatched (currently_running_process s') s'"
    "pcb_kept (pcbs u c) (pcbs s' c)"
    using timer_interrupts_slices [OF u(2,3) rr_tick_ok [OF s(3)] rs(3)] u(4) by auto
  have run: "currently_running_process s' = c"
    using rr_of_current [OF s'(2)] again by (simp add: funpow_swap1)
  moreover have "dispatched c s'"
    using s'(1,3) u(5) run rs(3) by (cases "n = 0") auto
  moreover have "pcb_kept ((pcbs s c)\<lparr>rsp := r\<rparr>) (pcbs s' c)" by (rule pcb_kept_trans [OF u(6) s'(4)])
  note pcb_kept_fields [OF this]
  ultimately show ?thesis
    by (intro exI [of _ s']) (simp add: timer_interrupts_append u(1) s'(1) dispatched_def)
qed

text \<open>
  C2. Safety: in every state the kernel reaches by interrupts at any moment and by
  creating processes, the timer interrupt returns. Until the first slice is over every
  process created so far is either the idle one or in the ready list, exactly once; from
  then on it is either the running one or in the ready list, exactly once. The list is
  finite and never names a process twice.
\<close>

theorem scheduling_safe:
  assumes "scheduling irq0 s P"
  shows "(\<exists>s'. generate_timer (s\<lparr>cpu_rsp := r\<rparr>) = Some s') \<and>
    (first_schedule s = 1 \<longrightarrow> (\<exists>q. ready_queue s q \<and>
      distinct (idle_process s # q) \<and> P = set (idle_process s # q))) \<and>
    (first_schedule s \<noteq> 1 \<longrightarrow> (\<exists>q. ready_queue s q \<and>
      distinct (currently_running_process s # q) \<and> P = set (currently_running_process s # q)))"
proof (intro conjI)
  have acc: "accounted s P" by (rule scheduling_accounted [OF assms])
  obtain s' where "generate_timer (s\<lparr>cpu_rsp := r\<rparr>) = Some s'" by (rule accounted_timer [OF acc])
  then show "\<exists>s'. generate_timer (s\<lparr>cpu_rsp := r\<rparr>) = Some s'" by blast
  show "first_schedule s \<noteq> 1 \<longrightarrow> (\<exists>q. ready_queue s q \<and>
      distinct (currently_running_process s # q) \<and> P = set (currently_running_process s # q))"
    using acc unfolding accounted_def by metis
  show "first_schedule s = 1 \<longrightarrow> (\<exists>q. ready_queue s q \<and>
      distinct (idle_process s # q) \<and> P = set (idle_process s # q))"
    using acc unfolding accounted_def by metis
qed

text \<open>
  C18. What the scheduler relies on: that there is a ready process. When the idle process
  is interrupted with nothing ready, it goes into the ready list and stays the running
  process, so it is scheduled twice.
\<close>

theorem idle_alone_enters_ready_list:
  assumes "timer_ticks s = 179" "first_schedule s \<noteq> 1" "ready_queue s []"
    and "currently_running_process s = idle_process s" "idle_process s \<noteq> 0"
  shows "\<exists>s'. generate_timer s = Some s' \<and> currently_running_process s' = idle_process s \<and>
    ready_queue s' [idle_process s]"
proof -
  have "rr_of s (idle_process s, [], times s)" using assms by (simp add: rr_of_def)
  then obtain s' where s': "generate_timer s = Some s'"
    "rr_of s' (rr_tick (idle_process s) (idle_process s, [], times s))"
    using generate_timer_slice [OF assms(1,2)] assms(5) by (metis empty_iff empty_set)
  then show ?thesis
    by (intro exI [of _ s']) (auto simp: rr_of_def requeue_def split: if_splits)
qed

section \<open>Concrete states\<close>

text \<open>Two processes, at 0x1000 (running, the idle one) and at 0x3000 (ready).\<close>

definition two_processes :: kernel where
  "two_processes = \<lparr>pcbs = (\<lambda>_. blank_pcb), ready_processes = 0x3000, sleeping_processes = 0,
     idle_process = 0x1000, currently_running_process = 0x1000, pid_count = 2,
     timer_ticks = 0, first_schedule = 0, cpu_rsp = 0, cpu_cr3 = 0, tss_rsp0 = 0,
     data_seg = 0, ports = []\<rparr>"

lemma two_processes_ok:
  "at_slice two_processes" "rr_of two_processes (0x1000, [] @ 0x3000 # [], \<lambda>_. 3)"
  "rr_ok (0x1000, [] @ 0x3000 # [], \<lambda>_. 3)" "idle_process two_processes = 0x1000"
  by (simp_all add: two_processes_def at_slice_def rr_of_def rr_ok_def ready_queue_def times_def
      blank_pcb_def fun_eq_iff)

theorem timer_refines_round_robin_witness:
  "\<exists>s'. timer_interrupts (replicate 180 7) two_processes = Some s' \<and>
    rr_of s' (0x3000, [0x1000], (\<lambda>_. 3)(0x1000 := 2))"
  using timer_refines_round_robin [OF two_processes_ok(1-3), of "replicate 180 7" 1]
  by (simp add: two_processes_ok(4) requeue_def word_le_nat_alt)

theorem ready_process_dispatched_witness:
  "\<exists>n \<le> 3. \<forall>rs. length rs = 180 * n \<longrightarrow> (\<exists>s'. timer_interrupts rs two_processes = Some s' \<and>
    currently_running_process s' = 0x3000 \<and> dispatched 0x3000 s')"
  using ready_process_dispatched [OF two_processes_ok(1-3)]
  by (simp add: waiting_def slices_def)

theorem preempted_process_resumes_witness:
  "\<exists>s'. timer_interrupts (replicate 180 7 @ replicate 180 9) two_processes = Some s' \<and>
    currently_running_process s' = 0x1000 \<and> cpu_rsp s' = 7 \<and> cpu_cr3 s' = 0"
proof -
  have "cr3 (pcbs two_processes 0x1000) = 0" by (simp add: two_processes_def blank_pcb_def)
  then show ?thesis
    using preempted_process_resumes [OF two_processes_ok(1-3), of "replicate 180 7" 7 "replicate 180 9" 1]
    by (simp add: requeue_def word_le_nat_alt two_processes_ok(4))
qed

definition started :: kernel where
  "started = the (start_scheduling 0x200000 0x1000 0x201000 0x3000 (two_processes\<lparr>first_schedule := 1\<rparr>))"

theorem scheduling_safe_witness:
  "(\<exists>s'. generate_timer (started\<lparr>cpu_rsp := 8\<rparr>) = Some s') \<and>
    (\<exists>q. ready_queue started q \<and> distinct (0x1000 # q) \<and> {0x1000, 0x3000} = set (0x1000 # q))"
proof -
  have "start_scheduling 0x200000 0x1000 0x201000 0x3000 (two_processes\<lparr>first_schedule := 1\<rparr>) = Some started"
    by (simp add: started_def start_scheduling_def Let_def schedule_user_process_def
        schedule_idle_process_def scheduler_init_def)
  then have "scheduling 0x200000 started {0x1000, 0x3000}"
    by (rule scheduling_start) simp_all
  moreover have "first_schedule started = 1" "idle_process started = 0x1000"
    by (simp_all add: started_def start_scheduling_def Let_def schedule_user_process_def
        schedule_idle_process_def scheduler_init_def)
  ultimately show ?thesis using scheduling_safe [of "0x200000" started "{0x1000, 0x3000}" 8] by simp
qed

theorem idle_alone_enters_ready_list_witness:
  "\<exists>s'. generate_timer (two_processes\<lparr>ready_processes := 0, timer_ticks := 179\<rparr>) = Some s' \<and>
    currently_running_process s' = 0x1000 \<and> ready_queue s' [0x1000]"
  using idle_alone_enters_ready_list [of "two_processes\<lparr>ready_processes := 0, timer_ticks := 179\<rparr>"]
  by (simp add: two_processes_def ready_queue_def)

end
