(* ===== verification/Mmu.thy ===== *)
theory Mmu
  imports Prelude
begin

text \<open>
  The memory management unit the paging code programs: the four-level translation of
  x86-64, access to memory through it, and the facts behind the recursive mapping
  (slot 510 of the top table names that table itself).
\<close>

section \<open>Translation\<close>

text \<open>
  A table is a frame of 512 entries; bit 0 of an entry says that it is present, bit 7 that
  it maps a large page (only in the two middle levels), bit 2 that user code may pass.
\<close>

definition frame :: "u64 \<Rightarrow> u64" where
  "frame e = e AND 0x000ffffffffff000"

definition index :: "nat \<Rightarrow> u64 \<Rightarrow> u64" where
  "index n va = drop_bit (12 + 9 * n) va AND 0x1ff"

definition slot :: "u64 \<Rightarrow> u64 \<Rightarrow> u64" where
  "slot f i = f OR push_bit 3 i"

definition canonical :: "u64 \<Rightarrow> bool" where
  "canonical va \<longleftrightarrow> drop_bit 47 va = 0 \<or> drop_bit 47 va = 0x1ffff"

definition present :: "u64 \<Rightarrow> bool" where
  "present e \<longleftrightarrow> bit e 0"

definition large :: "nat \<Rightarrow> u64 \<Rightarrow> bool" where
  "large n e \<longleftrightarrow> bit e 7 \<and> 0 < n \<and> n < 3"

primrec walk :: "nat \<Rightarrow> mem \<Rightarrow> u64 \<Rightarrow> u64 \<Rightarrow> u64 option" where
  "walk 0 m f va = Some (f OR (va AND 0xfff))"
| "walk (Suc n) m f va =
     (let e = load64 m (slot f (index n va))
      in if \<not> present e then None
         else if large n e
         then Some ((frame e AND NOT (mask (12 + 9 * n))) OR (va AND mask (12 + 9 * n)))
         else walk n m (frame e) va)"

text \<open>Register cr3 holds the frame of the top table.\<close>

type_synonym pagemap = "mem \<Rightarrow> u64 \<Rightarrow> u64 option"

definition translate :: "u64 \<Rightarrow> pagemap" where
  "translate cr3 m va = (if canonical va then walk 4 m (frame cr3) va else None)"

section \<open>Access through a translation\<close>

text \<open>
  \<open>None\<close> is a page fault. The words this code reads and writes through pointers are
  aligned to eight bytes and so lie in one page. Code that runs before the kernel loads
  its own tables uses the mapping of the boot loader, a parameter.
\<close>

definition vload64 :: "pagemap \<Rightarrow> mem \<Rightarrow> u64 \<Rightarrow> u64 option" where
  "vload64 mp m a = do { pa \<leftarrow> mp m a; Some (load64 m pa) }"

definition vstore64 :: "pagemap \<Rightarrow> mem \<Rightarrow> u64 \<Rightarrow> u64 \<Rightarrow> mem option" where
  "vstore64 mp m a v = do { pa \<leftarrow> mp m a; Some (store64 m pa v) }"

definition vload8 :: "pagemap \<Rightarrow> mem \<Rightarrow> u64 \<Rightarrow> u8 option" where
  "vload8 mp m a = do { pa \<leftarrow> mp m a; Some (m pa) }"

definition vstore8 :: "pagemap \<Rightarrow> mem \<Rightarrow> u64 \<Rightarrow> u8 \<Rightarrow> mem option" where
  "vstore8 mp m a v = do { pa \<leftarrow> mp m a; Some (m(pa := v)) }"

text \<open>memset of sys/mm.c; its third argument counts bytes.\<close>

primrec memset_loop :: "pagemap \<Rightarrow> nat \<Rightarrow> mem \<Rightarrow> u64 \<Rightarrow> u8 \<Rightarrow> mem option" where
  "memset_loop mp 0 m p val = Some m"
| "memset_loop mp (Suc n) m p val = do { m' \<leftarrow> vstore8 mp m p val; memset_loop mp n m' (p + 1) val }"

definition memset :: "pagemap \<Rightarrow> mem \<Rightarrow> u64 \<Rightarrow> cint \<Rightarrow> u64 \<Rightarrow> mem option" where
  "memset mp m ptr val n = memset_loop mp (unat n) m ptr (ucast val)"

section \<open>Frames and slots\<close>

definition is_frame :: "u64 \<Rightarrow> bool" where
  "is_frame f \<longleftrightarrow> frame f = f"

text \<open>The frame an address lies in.\<close>

definition page_of :: "u64 \<Rightarrow> u64" where
  "page_of a = a AND NOT 0xfff"

lemma frame_frame [simp]: "frame (frame e) = frame e"
  by (simp add: frame_def and.assoc)

lemma is_frame_frame [simp]: "is_frame (frame e)"
  by (simp add: is_frame_def)

lemma slot_frame_parts:
  assumes "is_frame f" "i AND 0x1ff = i"
  shows "page_of (slot f i) = f" "drop_bit 3 (slot f i) AND 0x1ff = i" "aligned8 (slot f i)"
proof -
  have f: "f = f AND 0x000ffffffffff000" and i: "i = i AND 0x1ff"
    using assms by (simp_all add: is_frame_def frame_def)
  show "page_of (slot f i) = f"
    by (subst (1 2) f, subst i, rule word64_eqI) (simp add: bitblast page_of_def slot_def)
  show "drop_bit 3 (slot f i) AND 0x1ff = i"
    by (subst f, subst (1 2) i, rule word64_eqI) (simp add: bitblast slot_def)
  have "slot f i AND 7 = 0"
    by (subst f, subst i, rule word64_eqI) (simp add: bitblast slot_def)
  then show "aligned8 (slot f i)" by (simp add: aligned8_def)
qed

lemma index_mask [simp]: "index n va AND 0x1ff = index n va"
  by (simp add: index_def and.assoc)

lemma slot_eq_iff:
  "\<lbrakk>is_frame f; is_frame g; i AND 0x1ff = i; j AND 0x1ff = j\<rbrakk> \<Longrightarrow> slot f i = slot g j \<longleftrightarrow> f = g \<and> i = j"
  using slot_frame_parts [of f i] slot_frame_parts [of g j] by auto

text \<open>
  A write to a word that is not a present entry breaks no translation: no walk that
  succeeds reads it as an entry.
\<close>

lemma walk_store:
  assumes "aligned8 a" "\<not> present (load64 m a)"
  shows "\<lbrakk>walk n m f va = Some pa; is_frame f\<rbrakk> \<Longrightarrow> walk n (store64 m a v) f va = Some pa"
proof (induction n arbitrary: f)
  case (Suc n)
  let ?a = "slot f (index n va)"
  have "present (load64 m ?a)" using Suc.prems(1) by (simp add: Let_def split: if_splits)
  then have "a \<noteq> ?a" using assms(2) by auto
  moreover have "aligned8 ?a" using slot_frame_parts(3) [OF Suc.prems(2), of "index n va"] by simp
  ultimately have "load64 (store64 m a v) ?a = load64 m ?a"
    using assms(1) by (simp add: load64_store64_aligned)
  with Suc show ?case by (simp add: Let_def split: if_splits)
qed simp

lemma translate_store:
  "\<lbrakk>aligned8 a; \<not> present (load64 m a); translate cr3 m va = Some pa\<rbrakk> \<Longrightarrow>
    translate cr3 (store64 m a v) va = Some pa"
  by (simp add: translate_def walk_store split: if_splits)

end
