(* ===== verification/FreeList.thy ===== *)
theory FreeList
  imports Mmu
begin

text \<open>
  Page addresses and the list of free physical pages (sys/paging.c). A page descriptor is
  24 bytes: \<open>next\<close> at 0, \<open>status\<close> at 8, \<open>p_addr\<close> at 16. The list is built through the
  boot loader's mapping, in which low addresses are physical ones, and later read at
  KERNBASE + descriptor through the kernel's own tables. \<open>None\<close> is a page fault, or a loop
  over a cyclic list.
\<close>

section \<open>Addresses\<close>

abbreviation (input) KERNBASE :: u64 where
  "KERNBASE \<equiv> 0xffffffff80000000"

abbreviation (input) PAGESIZE :: u64 where
  "PAGESIZE \<equiv> 4096"

definition to_virtual :: "u64 \<Rightarrow> u64" where
  "to_virtual phy_add = (if phy_add < KERNBASE then phy_add div 0x1000 * 0x1000 + KERNBASE else phy_add)"

definition page_align :: "u64 \<Rightarrow> u64" where
  "page_align addr = addr div 0x1000 * 0x1000"

definition round_up :: "u64 \<Rightarrow> u64" where
  "round_up addr = (if addr mod PAGESIZE \<noteq> 0 then addr div 0x1000 * 0x1000 + 0x1000
     else addr div 0x1000 * 0x1000)"

definition to_physical :: "u64 \<Rightarrow> u64" where
  "to_physical vir_add = vir_add div 0x1000 * 0x1000 - KERNBASE"

definition get_offset :: "u64 \<Rightarrow> u64 \<Rightarrow> u64" where
  "get_offset addr shift = drop_bit (unat shift) addr AND 0x1FF"

definition is_valid_page :: "u64 \<Rightarrow> bool" where
  "is_valid_page page_address \<longleftrightarrow> page_address AND 0x03 = 0x03"

section \<open>State (include/sys/paging.h)\<close>

record paging =
  pmem :: mem
  cr3_reg :: u64
  free_list_head :: u64
  free_list_head_kmalloc :: u64
  free_list :: u64
  free_list_page_length :: u64
  free_list_total_pages :: u64
  kernel_cr3 :: u64
  top_virtual_address :: u64
  kernel_pml4_t :: u64
  paging_user_stack_top :: u64

definition rd :: "pagemap \<Rightarrow> 'a paging_scheme \<Rightarrow> u64 \<Rightarrow> u64 option" where
  "rd mp s a = vload64 mp (pmem s) a"

definition wr :: "pagemap \<Rightarrow> 'a paging_scheme \<Rightarrow> u64 \<Rightarrow> u64 \<Rightarrow> 'a paging_scheme option" where
  "wr mp s a v = map_option (\<lambda>m. s\<lparr>pmem := m\<rparr>) (vstore64 mp (pmem s) a v)"

definition clear :: "pagemap \<Rightarrow> 'a paging_scheme \<Rightarrow> u64 \<Rightarrow> u64 \<Rightarrow> 'a paging_scheme option" where
  "clear mp s a n = map_option (\<lambda>m. s\<lparr>pmem := m\<rparr>) (memset mp (pmem s) a 0 n)"

text \<open>struct Page\<close>

abbreviation (input) next_off :: u64 where "next_off \<equiv> 0"
abbreviation (input) status_off :: u64 where "status_off \<equiv> 8"
abbreviation (input) p_addr_off :: u64 where "p_addr_off \<equiv> 16"
abbreviation (input) sizeof_Page :: u64 where "sizeof_Page \<equiv> 24"

abbreviation (input) ALLOCATED :: u64 where "ALLOCATED \<equiv> 1"
abbreviation (input) FREE :: u64 where "FREE \<equiv> 0"

section \<open>Building the list\<close>

definition initialize_free_list :: "'a paging_scheme \<Rightarrow> 'a paging_scheme" where
  "initialize_free_list s = s\<lparr>free_list := 0, free_list_total_pages := 0\<rparr>"

text \<open>
  The two loops of append_free_list, for the first region and for a further one; they
  return the last descriptor they wrote.
\<close>

partial_function (option) append_first ::
  "pagemap \<Rightarrow> u64 \<Rightarrow> u64 \<Rightarrow> u64 \<Rightarrow> u64 \<Rightarrow> 'a paging_scheme \<Rightarrow> (u64 \<times> 'a paging_scheme) option" where
  "append_first mp i end' temp last_d s =
     (if i < end' then do {
        s \<leftarrow> clear mp s i (PAGESIZE div 8);
        s \<leftarrow> clear mp s (KERNBASE + i) (PAGESIZE div 8);
        s \<leftarrow> wr mp s (temp + p_addr_off) i;
        s \<leftarrow> wr mp s (temp + next_off) (temp + sizeof_Page);
        temp' \<leftarrow> rd mp s (temp + next_off);
        append_first mp (i + PAGESIZE) end' temp' temp
          (s\<lparr>free_list_total_pages := free_list_total_pages s + 1\<rparr>)
      } else Some (last_d, s))"

partial_function (option) append_more ::
  "pagemap \<Rightarrow> u64 \<Rightarrow> u64 \<Rightarrow> u64 \<Rightarrow> 'a paging_scheme \<Rightarrow> (u64 \<times> 'a paging_scheme) option" where
  "append_more mp i end' temp s =
     (if i \<le> end' then do {
        s \<leftarrow> wr mp s (temp + next_off) (temp + sizeof_Page);
        temp' \<leftarrow> rd mp s (temp + next_off);
        s \<leftarrow> clear mp s i (PAGESIZE div 8);
        s \<leftarrow> clear mp s (KERNBASE + i) (PAGESIZE div 8);
        s \<leftarrow> wr mp s (temp' + p_addr_off) i;
        append_more mp (i + PAGESIZE) end' temp'
          (s\<lparr>free_list_total_pages := free_list_total_pages s + 1\<rparr>)
      } else Some (temp, s))"

partial_function (option) last_page :: "pagemap \<Rightarrow> 'a paging_scheme \<Rightarrow> u64 \<Rightarrow> u64 option" where
  "last_page mp s temp = do {
     n \<leftarrow> rd mp s (temp + next_off);
     if n \<noteq> 0 then last_page mp s n else Some temp
   }"

definition append_free_list ::
  "pagemap \<Rightarrow> u64 \<Rightarrow> u64 \<Rightarrow> u64 \<Rightarrow> 'a paging_scheme \<Rightarrow> 'a paging_scheme option" where
  "append_free_list mp start end' physfree s =
     (let start = round_up start; end' = round_up end'; physfree = round_up physfree
      in if free_list s = 0
         then if start \<le> physfree \<and> physfree \<le> end'
              then do {
                (last_d, s) \<leftarrow> append_first mp physfree end' physfree 0 (s\<lparr>free_list := physfree\<rparr>);
                wr mp s (last_d + next_off) 0
              }
              else Some s
         else if physfree \<le> start
              then do {
                temp \<leftarrow> last_page mp s (free_list s);
                (last_d, s) \<leftarrow> append_more mp start end' temp s;
                wr mp s (last_d + next_off) 0
              }
              else Some s)"

primrec skip_pages :: "pagemap \<Rightarrow> nat \<Rightarrow> 'a paging_scheme \<Rightarrow> u64 \<Rightarrow> u64 option" where
  "skip_pages mp 0 s temp = Some temp"
| "skip_pages mp (Suc n) s temp = do { temp' \<leftarrow> rd mp s (temp + next_off); skip_pages mp n s temp' }"

definition set_free_list_head :: "pagemap \<Rightarrow> 'a paging_scheme \<Rightarrow> 'a paging_scheme option" where
  "set_free_list_head mp s =
     (let free_list_size = free_list_total_pages s * sizeof_Page;
          free_list_pages_reqd =
            (if free_list_size mod PAGESIZE \<noteq> 0 then free_list_size div PAGESIZE + 1
             else free_list_size div PAGESIZE)
      in do {
        temp \<leftarrow> skip_pages mp (unat free_list_pages_reqd) s (free_list s);
        Some (s\<lparr>free_list_head := temp, free_list_page_length := free_list_pages_reqd,
                free_list_total_pages := free_list_total_pages s - free_list_pages_reqd\<rparr>)
      })"

text \<open>The older way to build the list, over all memory from address 0 on.\<close>

partial_function (option) map_mem_loop ::
  "pagemap \<Rightarrow> u64 \<Rightarrow> u64 \<Rightarrow> u64 \<Rightarrow> u64 \<Rightarrow> u64 \<Rightarrow> 'a paging_scheme \<Rightarrow> (u64 \<times> u64 \<times> 'a paging_scheme) option" where
  "map_mem_loop mp i end' temp last_d num_pages s =
     (if i < end' then do {
        s \<leftarrow> wr mp s (temp + p_addr_off) i;
        s \<leftarrow> wr mp s (temp + next_off) (temp + sizeof_Page);
        temp' \<leftarrow> rd mp s (temp + next_off);
        map_mem_loop mp (i + PAGESIZE) end' temp' temp (num_pages + 1) s
      } else Some (last_d, num_pages, s))"

partial_function (option) create_free_loop ::
  "pagemap \<Rightarrow> u64 \<Rightarrow> u64 \<Rightarrow> bool \<Rightarrow> 'a paging_scheme \<Rightarrow> 'a paging_scheme option" where
  "create_free_loop mp free_list_start_address temp allocated s =
     (if temp = 0 then Some s
      else if allocated
      then do {
        s \<leftarrow> wr mp s (temp + status_off) ALLOCATED;
        n \<leftarrow> rd mp s (temp + next_off);
        p \<leftarrow> rd mp s (n + p_addr_off);
        if p = free_list_start_address
        then create_free_loop mp free_list_start_address n False (s\<lparr>free_list_head := n\<rparr>)
        else create_free_loop mp free_list_start_address n True s
      }
      else do {
        s \<leftarrow> wr mp s (temp + status_off) FREE;
        n \<leftarrow> rd mp s (temp + next_off);
        create_free_loop mp free_list_start_address n False s
      })"

definition create_free_list :: "pagemap \<Rightarrow> u64 \<Rightarrow> 'a paging_scheme \<Rightarrow> 'a paging_scheme option" where
  "create_free_list mp free_list_start_address s =
     create_free_loop mp free_list_start_address (free_list s) True s"

definition map_mem_to_pages :: "pagemap \<Rightarrow> u64 \<Rightarrow> u64 \<Rightarrow> 'a paging_scheme \<Rightarrow> 'a paging_scheme option" where
  "map_mem_to_pages mp end' physfree s = do {
     let s = s\<lparr>free_list_page_length := 0, free_list := physfree\<rparr>;
     (last_d, num_pages, s) \<leftarrow> map_mem_loop mp 0 end' physfree 0 0 s;
     s \<leftarrow> wr mp s (last_d + next_off) 0;
     let free_list_size = num_pages * sizeof_Page;
     let s = s\<lparr>free_list_page_length :=
       (if free_list_size mod PAGESIZE \<noteq> 0 then free_list_size div PAGESIZE + 1
        else free_list_size div PAGESIZE)\<rparr>;
     create_free_list mp (physfree + free_list_page_length s * PAGESIZE) s
   }"

section \<open>Using the list\<close>

definition get_free_list_head :: "pagemap \<Rightarrow> 'a paging_scheme \<Rightarrow> u64 option" where
  "get_free_list_head mp s = rd mp s (free_list_head s + p_addr_off)"

definition get_free_list_page_length :: "'a paging_scheme \<Rightarrow> u64" where
  "get_free_list_page_length s = free_list_page_length s"

text \<open>Before the kernel's tables are loaded the pointers of the list are used as they are.\<close>

definition get_next_free_page :: "pagemap \<Rightarrow> 'a paging_scheme \<Rightarrow> (u64 \<times> 'a paging_scheme) option" where
  "get_next_free_page mp s =
     (let temp = free_list_head s
      in if free_list_head s = 0 then Some (-1, s)
         else do {
           s \<leftarrow> wr mp s (free_list_head s + status_off) ALLOCATED;
           n \<leftarrow> rd mp s (free_list_head s + next_off);
           let s = s\<lparr>free_list_head := n\<rparr>;
           p \<leftarrow> rd mp s (temp + p_addr_off);
           Some (p, s)
         })"

definition set_new_free_list_head :: "'a paging_scheme \<Rightarrow> 'a paging_scheme" where
  "set_new_free_list_head s = s\<lparr>free_list_head_kmalloc := free_list_head s + KERNBASE\<rparr>"

text \<open>Afterwards they are offsets from KERNBASE, reached through the tables in cr3.\<close>

abbreviation mmu :: "'a paging_scheme \<Rightarrow> pagemap" where
  "mmu s \<equiv> translate (cr3_reg s)"

definition get_next_free_page_kmalloc :: "'a paging_scheme \<Rightarrow> (u64 \<times> 'a paging_scheme) option" where
  "get_next_free_page_kmalloc s =
     (let temp = free_list_head_kmalloc s
      in if free_list_head_kmalloc s = 0 then Some (0, s)
         else do {
           s \<leftarrow> wr (mmu s) s (free_list_head_kmalloc s + status_off) ALLOCATED;
           n \<leftarrow> rd (mmu s) s (free_list_head_kmalloc s + next_off);
           let s = s\<lparr>free_list_head_kmalloc := KERNBASE + n\<rparr>;
           p \<leftarrow> rd (mmu s) s (temp + p_addr_off);
           Some (p, s)
         })"

partial_function (option) kmalloc_old_loop ::
  "u64 \<Rightarrow> u64 \<Rightarrow> 'a paging_scheme \<Rightarrow> (u64 \<times> 'a paging_scheme) option" where
  "kmalloc_old_loop num_pages temp s =
     (if num_pages \<noteq> 0 then do {
        s \<leftarrow> wr (mmu s) s (temp + status_off) 1;
        n \<leftarrow> rd (mmu s) s (temp + next_off);
        kmalloc_old_loop (num_pages - 1) (KERNBASE + n) s
      } else Some (temp, s))"

definition kmalloc_old :: "u64 \<Rightarrow> 'a paging_scheme \<Rightarrow> (u64 \<times> 'a paging_scheme) option" where
  "kmalloc_old n s =
     (let temp = KERNBASE + free_list_head s;
          num_pages = (if n mod PAGESIZE = 0 then n div PAGESIZE else n div PAGESIZE + 1)
      in do {
        p \<leftarrow> rd (mmu s) s (temp + p_addr_off);
        let ret_addr = KERNBASE + p;
        (temp, s) \<leftarrow> kmalloc_old_loop num_pages temp s;
        Some (ret_addr, s\<lparr>free_list_head := temp - KERNBASE\<rparr>)
      })"

section \<open>Allocators of physical pages\<close>

text \<open>
  What the page tables code relies on: an allocator with the frames \<open>fs\<close> left gives out the
  first of them and keeps the others.
\<close>

primrec alloc_many :: "('s \<Rightarrow> (u64 \<times> 's) option) \<Rightarrow> nat \<Rightarrow> 's \<Rightarrow> (u64 list \<times> 's) option" where
  "alloc_many alloc 0 s = Some ([], s)"
| "alloc_many alloc (Suc n) s = do {
     (p, s') \<leftarrow> alloc s;
     (ps, s'') \<leftarrow> alloc_many alloc n s';
     Some (p # ps, s'')
   }"

locale page_allocator =
  fixes alloc :: "'s \<Rightarrow> (u64 \<times> 's) option"
    and frames :: "'s \<Rightarrow> u64 list \<Rightarrow> bool"
  assumes alloc_frame: "frames s (f # fs) \<Longrightarrow> \<exists>s'. alloc s = Some (f, s') \<and> frames s' fs"
begin

lemma alloc_many_frames:
  "frames s (as @ bs) \<Longrightarrow> \<exists>s'. alloc_many alloc (length as) s = Some (as, s') \<and> frames s' bs"
proof (induction as arbitrary: s)
  case (Cons a as)
  then obtain s' where "alloc s = Some (a, s')" "frames s' (as @ bs)"
    using alloc_frame by fastforce
  with Cons.IH [of s'] show ?case by auto
qed simp

end

section \<open>Chains of descriptors\<close>

text \<open>Pairs of a descriptor's address and the page it describes.\<close>

fun page_chain :: "mem \<Rightarrow> u64 \<Rightarrow> (u64 \<times> u64) list \<Rightarrow> bool" where
  "page_chain m d [] \<longleftrightarrow> d = 0"
| "page_chain m d ((e, p) # ps) \<longleftrightarrow>
     d = e \<and> e \<noteq> 0 \<and> load64 m (e + 16) = p \<and> page_chain m (load64 m e) ps"

definition words :: "u64 \<Rightarrow> u64 set" where
  "words e = {e, e + 8, e + 16}"

definition descs_sep :: "u64 list \<Rightarrow> bool" where
  "descs_sep ds \<longleftrightarrow> (\<forall>e \<in> set ds. aligned8 e) \<and> distinct ds \<and>
     (\<forall>e \<in> set ds. \<forall>e' \<in> set ds. e \<noteq> e' \<longrightarrow> words e \<inter> words e' = {})"

lemma descs_sep_Cons:
  "descs_sep (e # ds) \<Longrightarrow> aligned8 e \<and> e \<notin> set ds \<and> descs_sep ds \<and> (\<forall>e' \<in> set ds. words e \<inter> words e' = {})"
  unfolding descs_sep_def by (metis distinct.simps(2) list.set_intros)

lemma page_chain_cong:
  "(\<And>e. e \<in> fst ` set ps \<Longrightarrow> load64 m e = load64 m' e \<and> load64 m (e + 16) = load64 m' (e + 16)) \<Longrightarrow>
    page_chain m d ps = page_chain m' d ps"
proof (induction ps arbitrary: d)
  case (Cons x ps)
  obtain e p where x: "x = (e, p)" by (cases x)
  have "load64 m e = load64 m' e \<and> load64 m (e + 16) = load64 m' (e + 16)"
    by (rule Cons.prems) (simp add: x)
  moreover have "page_chain m d' ps = page_chain m' d' ps" for d'
    by (rule Cons.IH) (use Cons.prems in simp)
  ultimately show ?case by (simp add: x)
qed simp

lemma words_aligned: "aligned8 e \<Longrightarrow> w \<in> words e \<Longrightarrow> aligned8 w"
  by (auto simp: words_def intro: aligned8_add)

lemma page_chain_store:
  assumes "aligned8 a" "\<forall>e \<in> fst ` set ps. aligned8 e \<and> a \<notin> words e"
  shows "page_chain (store64 m a v) d ps = page_chain m d ps"
proof (rule page_chain_cong)
  fix e assume "e \<in> fst ` set ps"
  with assms(2) have "aligned8 e" "a \<noteq> e" "a \<noteq> e + 16" by (auto simp: words_def)
  with assms(1) show "load64 (store64 m a v) e = load64 m e \<and> load64 (store64 m a v) (e + 16) = load64 m (e + 16)"
    by (simp add: load64_store64_aligned aligned8_add)
qed

section \<open>The list once the kernel's tables are loaded\<close>

definition kernel_list :: "'a paging_scheme \<Rightarrow> (u64 \<times> u64) list \<Rightarrow> bool" where
  "kernel_list s ps \<longleftrightarrow> descs_sep (map fst ps) \<and>
     page_chain (pmem s) (free_list_head_kmalloc s - KERNBASE) ps \<and>
     (\<forall>e \<in> fst ` set ps. e < 0x80000000 \<and> load64 (pmem s) (e + 8) = FREE \<and>
       (\<forall>w \<in> words e. mmu s (pmem s) (KERNBASE + w) = Some w))"

text \<open>
  Writing a word that is neither a present entry nor part of a descriptor keeps the list.
\<close>

lemma kernel_list_store:
  assumes l: "kernel_list s ps" and a: "aligned8 a" "\<not> present (load64 (pmem s) a)"
    and w: "\<forall>e \<in> fst ` set ps. a \<notin> words e"
  shows "kernel_list (s\<lparr>pmem := store64 (pmem s) a v\<rparr>) ps"
proof -
  have al: "aligned8 e" if "e \<in> fst ` set ps" for e
    using l that by (auto simp: kernel_list_def descs_sep_def)
  have "load64 (store64 (pmem s) a v) (e + 8) = FREE" if e: "e \<in> fst ` set ps" for e
  proof -
    have "a \<noteq> e + 8" using w e by (auto simp: words_def)
    then show ?thesis
      using l e a(1) al [OF e] by (auto simp: kernel_list_def load64_store64_aligned aligned8_add)
  qed
  moreover have "page_chain (store64 (pmem s) a v) d ps = page_chain (pmem s) d ps" for d
    using w al a(1) by (intro page_chain_store) auto
  ultimately show ?thesis
    using l by (auto simp: kernel_list_def intro: translate_store [OF a])
qed

lemma kernel_list_cong:
  "\<lbrakk>pmem s' = pmem s; cr3_reg s' = cr3_reg s; free_list_head_kmalloc s' = free_list_head_kmalloc s\<rbrakk> \<Longrightarrow>
    kernel_list s' ps = kernel_list s ps"
  by (simp add: kernel_list_def)

lemma not_present_FREE [simp]: "\<not> present FREE"
  by (simp add: present_def)

lemma KERNBASE_add_nonzero: "e < 0x80000000 \<Longrightarrow> KERNBASE + e \<noteq> 0"
proof
  assume e: "e < 0x80000000" and "KERNBASE + e = 0"
  then have "e = - KERNBASE" by (metis add_eq_0_iff)
  with e show False by simp
qed

text \<open>Taking the first page: its descriptor becomes ALLOCATED and the head moves on.\<close>

definition after_alloc :: "u64 \<Rightarrow> 'a paging_scheme \<Rightarrow> 'a paging_scheme" where
  "after_alloc e s = s\<lparr>pmem := store64 (pmem s) (e + 8) ALLOCATED,
     free_list_head_kmalloc := KERNBASE + load64 (pmem s) e\<rparr>"

lemma kmalloc_page:
  assumes l: "kernel_list s ((e, p) # ps)"
  shows "get_next_free_page_kmalloc s = Some (p, after_alloc e s)" "kernel_list (after_alloc e s) ps"
proof -
  let ?m = "store64 (pmem s) (e + 8) ALLOCATED"
  have e: "aligned8 e" "e < 0x80000000" "load64 (pmem s) (e + 8) = FREE"
    "\<And>w. w \<in> words e \<Longrightarrow> mmu s (pmem s) (KERNBASE + w) = Some w"
    using l by (auto simp: kernel_list_def descs_sep_def)
  have head: "free_list_head_kmalloc s = KERNBASE + e"
    and p: "load64 (pmem s) (e + 16) = p"
    and chain: "page_chain (pmem s) (load64 (pmem s) e) ps"
    using l by (auto simp: kernel_list_def diff_eq_eq add.commute)
  have al: "aligned8 (e + 8)" using e(1) by (simp add: aligned8_add)
  have np: "\<not> present (load64 (pmem s) (e + 8))" using e(3) by simp
  have tr: "mmu s (pmem s) (KERNBASE + e + status_off) = Some (e + 8)"
    "mmu s ?m (KERNBASE + e) = Some e" "mmu s ?m (KERNBASE + e + p_addr_off) = Some (e + 16)"
    using e(4) [of "e + 8"] e(4) [of e] e(4) [of "e + 16"] translate_store [OF al np]
    by (simp_all add: words_def add.assoc)
  have unchanged: "load64 ?m e = load64 (pmem s) e" "load64 ?m (e + 16) = load64 (pmem s) (e + 16)"
    using e(1) al by (simp_all add: load64_store64_aligned aligned8_add)
  show "get_next_free_page_kmalloc s = Some (p, after_alloc e s)"
    using KERNBASE_add_nonzero [OF e(2)] tr unchanged p
    by (simp add: get_next_free_page_kmalloc_def Let_def head wr_def rd_def vstore64_def vload64_def
        after_alloc_def)
  have rest: "descs_sep (map fst ps)" "\<forall>e' \<in> fst ` set ps. words e \<inter> words e' = {}"
    using l descs_sep_Cons [of e "map fst ps"] by (auto simp: kernel_list_def)
  let ?s = "s\<lparr>free_list_head_kmalloc := KERNBASE + load64 (pmem s) e\<rparr>"
  have "kernel_list ?s ps"
    using l rest(1) chain by (auto simp: kernel_list_def)
  moreover have "\<forall>e' \<in> fst ` set ps. e + 8 \<notin> words e'" using rest(2) by (auto simp: words_def)
  ultimately have "kernel_list (?s\<lparr>pmem := store64 (pmem ?s) (e + 8) ALLOCATED\<rparr>) ps"
    using al np by (intro kernel_list_store) simp_all
  then show "kernel_list (after_alloc e s) ps"
    by (subst (asm) kernel_list_cong [of "after_alloc e s", symmetric]) (simp_all add: after_alloc_def)
qed

interpretation kmalloc_pages: page_allocator get_next_free_page_kmalloc
  "\<lambda>s fs. \<exists>ps. kernel_list s ps \<and> map snd ps = fs"
proof unfold_locales
  fix s :: "'a paging_scheme" and f fs
  assume "\<exists>ps. kernel_list s ps \<and> map snd ps = f # fs"
  then obtain e ps where "kernel_list s ((e, f) # ps)" "map snd ps = fs" by auto
  with kmalloc_page [of s e f ps]
  show "\<exists>s'. get_next_free_page_kmalloc s = Some (f, s') \<and> (\<exists>ps. kernel_list s' ps \<and> map snd ps = fs)"
    by blast
qed

end
