(* ===== verification/PageWalk.thy ===== *)
theory PageWalk
  imports FreeList
begin

text \<open>
  page_walk and page_walk_user of sys/paging.c: mapping one page by writing the entries of
  the tables in cr3 through the recursive slot 510.
\<close>

section \<open>The code\<close>

abbreviation (input) PAGE_KERNEL :: u64 where "PAGE_KERNEL \<equiv> 3"
abbreviation (input) PAGE_USER :: u64 where "PAGE_USER \<equiv> 7"

abbreviation (input) PML4_PT_WALK :: u64 where "PML4_PT_WALK \<equiv> 0xffffff7fbfdfe000"
abbreviation (input) PDPE_PT_WALK :: u64 where "PDPE_PT_WALK \<equiv> 0xffffff7fbfc00000"
abbreviation (input) PGD_PT_WALK :: u64 where "PGD_PT_WALK \<equiv> 0xffffff7f80000000"
abbreviation (input) PTE_PT_WALK :: u64 where "PTE_PT_WALK \<equiv> 0xffffff0000000000"

abbreviation (input) PML4_OFFSET :: u64 where "PML4_OFFSET \<equiv> 0x0000ff8000000000"
abbreviation (input) PDPE_OFFSET :: u64 where "PDPE_OFFSET \<equiv> 0x0000ffffc0000000"
abbreviation (input) PGD_OFFSET :: u64 where "PGD_OFFSET \<equiv> 0x0000ffffffe00000"
abbreviation (input) PTE_OFFSET :: u64 where "PTE_OFFSET \<equiv> 0x0000fffffffff000"

definition pml4_rec_addr :: "u64 \<Rightarrow> u64" where
  "pml4_rec_addr v_addr = drop_bit 36 (v_addr AND PML4_OFFSET) OR PML4_PT_WALK"

definition pdpe_rec_addr :: "u64 \<Rightarrow> u64" where
  "pdpe_rec_addr v_addr = drop_bit 27 (v_addr AND PDPE_OFFSET) OR PDPE_PT_WALK"

definition pgd_rec_addr :: "u64 \<Rightarrow> u64" where
  "pgd_rec_addr v_addr = drop_bit 18 (v_addr AND PGD_OFFSET) OR PGD_PT_WALK"

definition pte_rec_addr :: "u64 \<Rightarrow> u64" where
  "pte_rec_addr v_addr = drop_bit 9 (v_addr AND PTE_OFFSET) OR PTE_PT_WALK"

text \<open>
  The two functions differ in the flags they give to the entries they create. An access
  that the processor cannot translate is a page fault, \<open>None\<close>.
\<close>

definition map_page :: "u64 \<Rightarrow> u64 \<Rightarrow> u64 \<Rightarrow> 'a paging_scheme \<Rightarrow> (cint \<times> 'a paging_scheme) option" where
  "map_page flags p_addr v_addr s = do {
     pml4e \<leftarrow> rd (mmu s) s (pml4_rec_addr v_addr);
     if is_valid_page pml4e then do {
       pdpe \<leftarrow> rd (mmu s) s (pdpe_rec_addr v_addr);
       if is_valid_page pdpe then do {
         pgde \<leftarrow> rd (mmu s) s (pgd_rec_addr v_addr);
         if is_valid_page pgde then do {
           pte \<leftarrow> rd (mmu s) s (pte_rec_addr v_addr);
           if is_valid_page pte then Some (0, s)
           else do {
             s \<leftarrow> wr (mmu s) s (pte_rec_addr v_addr) (p_addr OR flags);
             Some (1, s)
           }
         } else do {
           (physical_page, s) \<leftarrow> get_next_free_page_kmalloc s;
           s \<leftarrow> wr (mmu s) s (pgd_rec_addr v_addr) (physical_page OR flags);
           s \<leftarrow> wr (mmu s) s (pte_rec_addr v_addr) (p_addr OR flags);
           Some (1, s)
         }
       } else do {
         (physical_page, s) \<leftarrow> get_next_free_page_kmalloc s;
         s \<leftarrow> wr (mmu s) s (pdpe_rec_addr v_addr) (physical_page OR flags);
         (physical_page, s) \<leftarrow> get_next_free_page_kmalloc s;
         s \<leftarrow> wr (mmu s) s (pgd_rec_addr v_addr) (physical_page OR flags);
         s \<leftarrow> wr (mmu s) s (pte_rec_addr v_addr) (p_addr OR flags);
         Some (1, s)
       }
     } else do {
       (physical_page, s) \<leftarrow> get_next_free_page_kmalloc s;
       s \<leftarrow> wr (mmu s) s (pml4_rec_addr v_addr) (physical_page OR flags);
       (physical_page, s) \<leftarrow> get_next_free_page_kmalloc s;
       s \<leftarrow> wr (mmu s) s (pdpe_rec_addr v_addr) (physical_page OR flags);
       (physical_page, s) \<leftarrow> get_next_free_page_kmalloc s;
       s \<leftarrow> wr (mmu s) s (pgd_rec_addr v_addr) (physical_page OR flags);
       s \<leftarrow> wr (mmu s) s (pte_rec_addr v_addr) (p_addr OR flags);
       Some (1, s)
     }
   }"

definition page_walk :: "u64 \<Rightarrow> u64 \<Rightarrow> 'a paging_scheme \<Rightarrow> (cint \<times> 'a paging_scheme) option" where
  "page_walk p_addr v_addr s = map_page PAGE_KERNEL p_addr v_addr s"

definition page_walk_user :: "u64 \<Rightarrow> u64 \<Rightarrow> 'a paging_scheme \<Rightarrow> (cint \<times> 'a paging_scheme) option" where
  "page_walk_user p_addr v_addr s = map_page PAGE_USER p_addr v_addr s"

section \<open>The recursive addresses\<close>

text \<open>
  Each address leads through slot 510 once for every level it stays above the last one,
  and ends at the entry of \<open>v\<close> in the table of its level.
\<close>

lemma rec_addr_index:
  "index 3 (pml4_rec_addr v) = 510" "index 2 (pml4_rec_addr v) = 510"
  "index 1 (pml4_rec_addr v) = 510" "index 0 (pml4_rec_addr v) = 510"
  "index 3 (pdpe_rec_addr v) = 510" "index 2 (pdpe_rec_addr v) = 510"
  "index 1 (pdpe_rec_addr v) = 510" "index 0 (pdpe_rec_addr v) = index 3 v"
  "index 3 (pgd_rec_addr v) = 510" "index 2 (pgd_rec_addr v) = 510"
  "index 1 (pgd_rec_addr v) = index 3 v" "index 0 (pgd_rec_addr v) = index 2 v"
  "index 3 (pte_rec_addr v) = 510" "index 2 (pte_rec_addr v) = index 3 v"
  "index 1 (pte_rec_addr v) = index 2 v" "index 0 (pte_rec_addr v) = index 1 v"
  by (rule word64_eqI; simp add: bitblast index_def pml4_rec_addr_def pdpe_rec_addr_def
      pgd_rec_addr_def pte_rec_addr_def)+

lemma rec_addr_offset:
  "pml4_rec_addr v AND 0xfff = push_bit 3 (index 3 v)" "pdpe_rec_addr v AND 0xfff = push_bit 3 (index 2 v)"
  "pgd_rec_addr v AND 0xfff = push_bit 3 (index 1 v)" "pte_rec_addr v AND 0xfff = push_bit 3 (index 0 v)"
  by (rule word64_eqI; simp add: bitblast index_def pml4_rec_addr_def pdpe_rec_addr_def
      pgd_rec_addr_def pte_rec_addr_def)+

lemma rec_addr_canonical:
  "canonical (pml4_rec_addr v)" "canonical (pdpe_rec_addr v)"
  "canonical (pgd_rec_addr v)" "canonical (pte_rec_addr v)"
proof -
  have "drop_bit 47 (pml4_rec_addr v) = 0x1ffff" "drop_bit 47 (pdpe_rec_addr v) = 0x1ffff"
    "drop_bit 47 (pgd_rec_addr v) = 0x1ffff" "drop_bit 47 (pte_rec_addr v) = 0x1ffff"
    by (rule word64_eqI; simp add: bitblast pml4_rec_addr_def pdpe_rec_addr_def
        pgd_rec_addr_def pte_rec_addr_def)+
  then show "canonical (pml4_rec_addr v)" "canonical (pdpe_rec_addr v)"
    "canonical (pgd_rec_addr v)" "canonical (pte_rec_addr v)"
    by (simp_all add: canonical_def)
qed

section \<open>Following the tables\<close>

definition table_entry :: "u64 \<Rightarrow> bool" where
  "table_entry e \<longleftrightarrow> present e \<and> \<not> bit e 7"

definition recursive :: "mem \<Rightarrow> u64 \<Rightarrow> bool" where
  "recursive m b \<longleftrightarrow> table_entry (load64 m (slot b 510)) \<and> frame (load64 m (slot b 510)) = b"

text \<open>The entry of \<open>v\<close> in a table of level \<open>n\<close>.\<close>

abbreviation ent :: "'a paging_scheme \<Rightarrow> nat \<Rightarrow> u64 \<Rightarrow> u64 \<Rightarrow> u64" where
  "ent s n f v \<equiv> load64 (pmem s) (slot f (index n v))"

abbreviation root :: "'a paging_scheme \<Rightarrow> u64" where
  "root s \<equiv> frame (cr3_reg s)"

lemma translate_levels: "canonical va \<Longrightarrow> translate c m va = walk 4 m (frame c) va"
  by (simp add: translate_def)

lemma walk_table: "table_entry (load64 m (slot f (index n va))) \<Longrightarrow>
    walk (Suc n) m f va = walk n m (frame (load64 m (slot f (index n va)))) va"
  by (simp add: table_entry_def large_def Let_def)

lemma walk_tables:
  "table_entry (load64 m (slot f (index 3 va))) \<Longrightarrow> walk 4 m f va = walk 3 m (frame (load64 m (slot f (index 3 va)))) va"
  "table_entry (load64 m (slot f (index 2 va))) \<Longrightarrow> walk 3 m f va = walk 2 m (frame (load64 m (slot f (index 2 va)))) va"
  "table_entry (load64 m (slot f (index 1 va))) \<Longrightarrow> walk 2 m f va = walk 1 m (frame (load64 m (slot f (index 1 va)))) va"
  using walk_table [of m f 3 va] walk_table [of m f 2 va] walk_table [of m f 1 va]
  by (simp_all only: Suc_numeral add_num_simps numeral_2_eq_2 [symmetric] One_nat_def Suc_1)

lemma walk_leaf: "present (load64 m (slot f (index 0 va))) \<Longrightarrow>
    walk 1 m f va = Some (frame (load64 m (slot f (index 0 va))) OR (va AND 0xfff))"
  by (simp add: large_def Let_def)

lemma walk_absent: "\<not> present (load64 m (slot f (index n va))) \<Longrightarrow> walk (Suc n) m f va = None"
  by (simp add: Let_def)

lemma translate_recs:
  assumes r: "recursive m (frame c)"
  shows "translate c m (pml4_rec_addr v) = Some (slot (frame c) (index 3 v))"
    and "let e4 = load64 m (slot (frame c) (index 3 v)) in present e4 \<longrightarrow>
      translate c m (pdpe_rec_addr v) = Some (slot (frame e4) (index 2 v))"
    and "let e4 = load64 m (slot (frame c) (index 3 v)); e3 = load64 m (slot (frame e4) (index 2 v))
      in table_entry e4 \<and> present e3 \<longrightarrow>
        translate c m (pgd_rec_addr v) = Some (slot (frame e3) (index 1 v))"
    and "let e4 = load64 m (slot (frame c) (index 3 v)); e3 = load64 m (slot (frame e4) (index 2 v));
        e2 = load64 m (slot (frame e3) (index 1 v))
      in table_entry e4 \<and> table_entry e3 \<and> present e2 \<longrightarrow>
        translate c m (pte_rec_addr v) = Some (slot (frame e2) (index 0 v))"
    and "let e4 = load64 m (slot (frame c) (index 3 v)); e3 = load64 m (slot (frame e4) (index 2 v));
        e2 = load64 m (slot (frame e3) (index 1 v)); e1 = load64 m (slot (frame e2) (index 0 v))
      in canonical v \<and> table_entry e4 \<and> table_entry e3 \<and> table_entry e2 \<and> present e1 \<longrightarrow>
        translate c m v = Some (frame e1 OR (v AND 0xfff))"
proof -
  have r': "\<not> bit (load64 m (slot (frame c) 510)) 7" "frame (load64 m (slot (frame c) 510)) = frame c"
    "present (load64 m (slot (frame c) 510))"
    using r by (simp_all add: recursive_def table_entry_def)
  note steps = translate_levels rec_addr_canonical walk_tables walk_leaf rec_addr_index r' rec_addr_offset
    slot_def [symmetric] table_entry_def Let_def
  show "translate c m (pml4_rec_addr v) = Some (slot (frame c) (index 3 v))"
    by (simp add: steps del: walk.simps One_nat_def)
  show "let e4 = load64 m (slot (frame c) (index 3 v)) in present e4 \<longrightarrow>
      translate c m (pdpe_rec_addr v) = Some (slot (frame e4) (index 2 v))"
    by (simp add: steps del: walk.simps One_nat_def)
  show "let e4 = load64 m (slot (frame c) (index 3 v)); e3 = load64 m (slot (frame e4) (index 2 v))
      in table_entry e4 \<and> present e3 \<longrightarrow>
        translate c m (pgd_rec_addr v) = Some (slot (frame e3) (index 1 v))"
    by (simp add: steps del: walk.simps One_nat_def)
  show "let e4 = load64 m (slot (frame c) (index 3 v)); e3 = load64 m (slot (frame e4) (index 2 v));
        e2 = load64 m (slot (frame e3) (index 1 v))
      in table_entry e4 \<and> table_entry e3 \<and> present e2 \<longrightarrow>
        translate c m (pte_rec_addr v) = Some (slot (frame e2) (index 0 v))"
    by (simp add: steps del: walk.simps One_nat_def)
  show "let e4 = load64 m (slot (frame c) (index 3 v)); e3 = load64 m (slot (frame e4) (index 2 v));
        e2 = load64 m (slot (frame e3) (index 1 v)); e1 = load64 m (slot (frame e2) (index 0 v))
      in canonical v \<and> table_entry e4 \<and> table_entry e3 \<and> table_entry e2 \<and> present e1 \<longrightarrow>
        translate c m v = Some (frame e1 OR (v AND 0xfff))"
    by (simp add: steps del: walk.simps One_nat_def)
qed

section \<open>The invariant\<close>

text \<open>
  \<open>T n\<close> holds the tables whose entries are selected by \<open>index n\<close>: the top table in \<open>T 3\<close>,
  the page tables in \<open>T 0\<close>. Entries that are present are valid, name a table of the next
  level and map no large page; the free pages \<open>ps\<close> are blank, none of them is a table, and no
  descriptor lies in a table or a free page.
\<close>

definition good_slot :: "nat \<Rightarrow> u64 \<Rightarrow> bool" where
  "good_slot n i \<longleftrightarrow> i AND 0x1ff = i \<and> (n = 3 \<longrightarrow> i \<noteq> 510)"

definition good_entry :: "(nat \<Rightarrow> u64 set) \<Rightarrow> nat \<Rightarrow> u64 \<Rightarrow> bool" where
  "good_entry T n e \<longleftrightarrow> (present e \<longrightarrow>
     is_valid_page e \<and> (0 < n \<longrightarrow> \<not> bit e 7 \<and> frame e \<in> T (n - 1)))"

definition tables_ok :: "mem \<Rightarrow> (nat \<Rightarrow> u64 set) \<Rightarrow> bool" where
  "tables_ok m T \<longleftrightarrow> (\<forall>n \<le> 3. \<forall>f \<in> T n. is_frame f \<and>
     (\<forall>i. good_slot n i \<longrightarrow> good_entry T n (load64 m (slot f i))))"

definition blank :: "mem \<Rightarrow> u64 \<Rightarrow> bool" where
  "blank m f \<longleftrightarrow> is_frame f \<and> (\<forall>i. i AND 0x1ff = i \<longrightarrow> load64 m (slot f i) = 0)"

definition all_tables :: "(nat \<Rightarrow> u64 set) \<Rightarrow> u64 set" where
  "all_tables T = (\<Union>n \<le> 3. T n)"

definition levels_disjoint :: "(nat \<Rightarrow> u64 set) \<Rightarrow> bool" where
  "levels_disjoint T \<longleftrightarrow> (\<forall>n \<le> 3. \<forall>k \<le> 3. n \<noteq> k \<longrightarrow> T n \<inter> T k = {})"

text \<open>The tables form a tree: at most one entry leads to a table.\<close>

definition unshared :: "mem \<Rightarrow> (nat \<Rightarrow> u64 set) \<Rightarrow> bool" where
  "unshared m T \<longleftrightarrow> (\<forall>n. 0 < n \<and> n \<le> 3 \<longrightarrow> (\<forall>f \<in> T n. \<forall>g \<in> T n. \<forall>i j.
     good_slot n i \<and> good_slot n j \<and> present (load64 m (slot f i)) \<and> present (load64 m (slot g j)) \<and>
     frame (load64 m (slot f i)) = frame (load64 m (slot g j)) \<longrightarrow> f = g \<and> i = j))"

definition paging_inv :: "'a paging_scheme \<Rightarrow> (nat \<Rightarrow> u64 set) \<Rightarrow> (u64 \<times> u64) list \<Rightarrow> bool" where
  "paging_inv s T ps \<longleftrightarrow> levels_disjoint T \<and> unshared (pmem s) T \<and> T 3 = {root s} \<and>
     recursive (pmem s) (root s) \<and> tables_ok (pmem s) T \<and>
     kernel_list s ps \<and> distinct (map snd ps) \<and> (\<forall>f \<in> snd ` set ps. blank (pmem s) f \<and> f \<notin> all_tables T) \<and>
     (\<forall>e \<in> fst ` set ps. \<forall>w \<in> words e. page_of w \<notin> all_tables T \<union> snd ` set ps)"

lemma good_slot_index: "index 3 v \<noteq> 510 \<Longrightarrow> good_slot n (index n v)"
  by (simp add: good_slot_def)

lemma all_tablesI: "f \<in> T n \<Longrightarrow> n \<le> 3 \<Longrightarrow> f \<in> all_tables T"
  by (auto simp: all_tables_def)

lemma tables_okD:
  "\<lbrakk>tables_ok m T; f \<in> T n; n \<le> 3\<rbrakk> \<Longrightarrow> is_frame f"
  "\<lbrakk>tables_ok m T; f \<in> T n; n \<le> 3; good_slot n i\<rbrakk> \<Longrightarrow> good_entry T n (load64 m (slot f i))"
  by (auto simp: tables_ok_def)

lemma all_tables_frame: "tables_ok m T \<Longrightarrow> f \<in> all_tables T \<Longrightarrow> is_frame f"
  by (auto simp: all_tables_def tables_ok_def)

text \<open>Writing one entry of a table leaves every other entry alone.\<close>

lemma load_other_slot:
  "\<lbrakk>is_frame f; is_frame g; i AND 0x1ff = i; j AND 0x1ff = j; (f, i) \<noteq> (g, j)\<rbrakk> \<Longrightarrow>
    load64 (store64 m (slot f i) x) (slot g j) = load64 m (slot g j)"
  using slot_eq_iff [of f g i j] slot_frame_parts(3) [of f i] slot_frame_parts(3) [of g j]
  by (auto simp: load64_store64_aligned)

lemma tables_ok_store:
  assumes t: "tables_ok m T" and g: "g \<in> T n" "n \<le> 3" "good_slot n i"
    and np: "\<not> present (load64 m (slot g i))"
    and x: "levels_disjoint T" "good_entry T n x"
  shows "tables_ok (store64 m (slot g i) x) T"
  unfolding tables_ok_def
proof (intro allI impI ballI conjI)
  fix k f j assume k: "k \<le> 3" "f \<in> T k"
  show f: "is_frame f" by (rule tables_okD(1) [OF t k(2,1)])
  assume j: "good_slot k j"
  have gi: "is_frame g" "i AND 0x1ff = i" using tables_okD(1) [OF t g(1,2)] g(3) by (auto simp: good_slot_def)
  show "good_entry T k (load64 (store64 m (slot g i) x) (slot f j))"
  proof (cases "(g, i) = (f, j)")
    case True
    then have "k = n" using x(1) g(1,2) k by (auto simp: levels_disjoint_def)
    then show ?thesis using True x(2) by simp
  next
    case False
    have "j AND 0x1ff = j" using j by (simp add: good_slot_def)
    with False f gi tables_okD(2) [OF t k(2,1) j] show ?thesis by (simp add: load_other_slot)
  qed
qed

lemma unshared_store:
  assumes t: "tables_ok m T" and ld: "levels_disjoint T" and u: "unshared m T"
    and g: "g \<in> T n" "n \<le> 3" "good_slot n i" and np: "\<not> present (load64 m (slot g i))"
    and new: "\<And>g' j. \<lbrakk>0 < n; g' \<in> T n; good_slot n j; present (load64 m (slot g' j))\<rbrakk> \<Longrightarrow>
      frame (load64 m (slot g' j)) \<noteq> frame x"
  shows "unshared (store64 m (slot g i) x) T"
  unfolding unshared_def
proof (intro allI impI ballI)
  fix k f f' j j'
  let ?m = "store64 m (slot g i) x"
  assume k: "0 < k \<and> k \<le> 3" and f: "f \<in> T k" "f' \<in> T k"
    and e: "good_slot k j \<and> good_slot k j' \<and> present (load64 ?m (slot f j)) \<and>
      present (load64 ?m (slot f' j')) \<and> frame (load64 ?m (slot f j)) = frame (load64 ?m (slot f' j'))"
  have gi: "is_frame g" "i AND 0x1ff = i" using tables_okD(1) [OF t g(1,2)] g(3) by (auto simp: good_slot_def)
  have load: "load64 ?m (slot h l) = (if (h, l) = (g, i) then x else load64 m (slot h l))"
    if "h \<in> T k" "good_slot k l" for h l
  proof (cases "(h, l) = (g, i)")
    case False
    have "is_frame h" "l AND 0x1ff = l" using tables_okD(1) [OF t that(1)] k that(2) by (auto simp: good_slot_def)
    with False show ?thesis using load_other_slot [OF gi(1) _ gi(2)] by auto
  qed simp
  have level: "k = n" if "h = g" "h \<in> T k" for h
    using ld g(1,2) k that by (auto simp: levels_disjoint_def)
  have clash: False if "h \<in> T k" "good_slot k l" "(h, l) \<noteq> (g, i)" "k = n"
    "present (load64 ?m (slot h l))" "frame (load64 ?m (slot h l)) = frame x" for h l
    using new [of h l] load [OF that(1,2)] that k by (auto split: if_splits)
  consider "(f, j) = (g, i)" "(f', j') = (g, i)" | "(f, j) = (g, i)" "(f', j') \<noteq> (g, i)"
    | "(f, j) \<noteq> (g, i)" "(f', j') = (g, i)" | "(f, j) \<noteq> (g, i)" "(f', j') \<noteq> (g, i)" by blast
  then show "f = f' \<and> j = j'"
  proof cases
    case 1
    then show ?thesis by simp
  next
    case 2
    have x: "load64 ?m (slot f j) = x" using load [OF f(1), of j] e 2(1) by auto
    have "k = n" by (rule level [OF _ f(1)]) (use 2(1) in simp)
    from clash [OF f(2) _ 2(2) this] e show ?thesis unfolding x by metis
  next
    case 3
    have x: "load64 ?m (slot f' j') = x" using load [OF f(2), of j'] e 3(2) by auto
    have "k = n" by (rule level [OF _ f(2)]) (use 3(2) in simp)
    from clash [OF f(1) _ 3(1) this] e show ?thesis unfolding x by metis
  next
    case 4
    then have "load64 ?m (slot f j) = load64 m (slot f j)" "load64 ?m (slot f' j') = load64 m (slot f' j')"
      using load [of f j] load [of f' j'] e f by auto
    with e have "good_slot k j \<and> good_slot k j' \<and> present (load64 m (slot f j)) \<and>
      present (load64 m (slot f' j')) \<and> frame (load64 m (slot f j)) = frame (load64 m (slot f' j'))" by simp
    with u k f show ?thesis unfolding unshared_def by blast
  qed
qed

lemma load_blank_slot:
  assumes "blank m f" "is_frame g" "i AND 0x1ff = i" "f \<noteq> g"
  shows "blank (store64 m (slot g i) x) f"
  using assms load_other_slot [of g f i _ m x] by (auto simp: blank_def)

text \<open>A blank page added as a table, and what a memory with the same entries keeps.\<close>

lemma good_entry_insert: "good_entry T k e \<Longrightarrow> good_entry (T(n := insert f (T n))) k e"
  by (auto simp: good_entry_def)

lemma blank_slot: "blank m f \<Longrightarrow> good_slot n i \<Longrightarrow> load64 m (slot f i) = 0"
  by (simp add: blank_def good_slot_def)

lemma tables_ok_insert:
  assumes "tables_ok m T" "blank m f"
  shows "tables_ok m (T(n := insert f (T n)))"
  unfolding tables_ok_def
proof (intro allI impI ballI conjI)
  fix k g i assume k: "k \<le> 3" and g: "g \<in> (T(n := insert f (T n))) k"
  then have g': "g \<in> T k \<or> g = f" by (auto split: if_splits)
  then show "is_frame g" using tables_okD(1) [OF assms(1) _ k] assms(2) by (auto simp: blank_def)
  assume i: "good_slot k i"
  have "good_entry T k (load64 m (slot g i))"
    using g' tables_okD(2) [OF assms(1) _ k i] blank_slot [OF assms(2) i]
    by (auto simp: good_entry_def present_def)
  then show "good_entry (T(n := insert f (T n))) k (load64 m (slot g i))" by (rule good_entry_insert)
qed

lemma unshared_insert:
  assumes "unshared m T" "blank m f"
  shows "unshared m (T(n := insert f (T n)))"
  unfolding unshared_def
proof (intro allI impI ballI)
  fix k g h i j
  let ?T = "T(n := insert f (T n))"
  assume k: "0 < k \<and> k \<le> 3" and g: "g \<in> ?T k" "h \<in> ?T k"
    and e: "good_slot k i \<and> good_slot k j \<and> present (load64 m (slot g i)) \<and>
      present (load64 m (slot h j)) \<and> frame (load64 m (slot g i)) = frame (load64 m (slot h j))"
  have "g \<noteq> f" "h \<noteq> f" using e blank_slot [OF assms(2)] by (auto simp: present_def)
  then have "g \<in> T k" "h \<in> T k" using g by (auto split: if_splits)
  then show "g = h \<and> i = j" using assms(1) k e unfolding unshared_def by blast
qed

lemma tables_cong:
  assumes "\<And>g i. g \<in> all_tables T \<Longrightarrow> i AND 0x1ff = i \<Longrightarrow> load64 m' (slot g i) = load64 m (slot g i)"
  shows "tables_ok m T \<Longrightarrow> tables_ok m' T" "unshared m T \<Longrightarrow> unshared m' T"
    "r \<in> all_tables T \<Longrightarrow> recursive m r \<Longrightarrow> recursive m' r"
proof -
  have eq: "load64 m' (slot g i) = load64 m (slot g i)" if "g \<in> T k" "k \<le> 3" "good_slot k i" for g k i
    using assms [of g i] all_tablesI [of g T k] that by (simp add: good_slot_def)
  show "tables_ok m T \<Longrightarrow> tables_ok m' T" using eq by (simp add: tables_ok_def)
  show "unshared m T \<Longrightarrow> unshared m' T" unfolding unshared_def using eq by metis
  show "recursive m' r" if "r \<in> all_tables T" "recursive m r"
    using assms [OF that(1), of 510] that(2) by (simp add: recursive_def)
qed

text \<open>
  The two kinds of write page_walk does: an entry that was not present, and the status of
  the first free page, which becomes a table of any of the three lower levels.
\<close>

lemma inv_store:
  assumes inv: "paging_inv s T ps" and g: "g \<in> T n" "n \<le> 3" "good_slot n i"
    and np: "\<not> present (load64 (pmem s) (slot g i))" and x: "good_entry T n x"
    and new: "\<And>g' j. \<lbrakk>0 < n; g' \<in> T n; good_slot n j; present (load64 (pmem s) (slot g' j))\<rbrakk> \<Longrightarrow>
      frame (load64 (pmem s) (slot g' j)) \<noteq> frame x"
  shows "paging_inv (s\<lparr>pmem := store64 (pmem s) (slot g i) x\<rparr>) T ps"
proof -
  let ?a = "slot g i"
  have t: "tables_ok (pmem s) T" and ld: "levels_disjoint T" and root: "root s \<in> T 3"
    using inv by (simp_all add: paging_inv_def)
  have gi: "is_frame g" "i AND 0x1ff = i"
    using tables_okD(1) [OF t g(1,2)] g(3) by (auto simp: good_slot_def)
  have r: "recursive (pmem s) (root s)" using inv by (simp add: paging_inv_def)
  have "(g, i) \<noteq> (root s, 510)" using r np by (auto simp: recursive_def table_entry_def)
  then have "load64 (store64 (pmem s) ?a x) (slot (root s) 510) = load64 (pmem s) (slot (root s) 510)"
    using gi by (intro load_other_slot) simp_all
  with r have "recursive (store64 (pmem s) ?a x) (root s)" by (simp add: recursive_def)
  moreover have "tables_ok (store64 (pmem s) ?a x) T" by (rule tables_ok_store [OF t g np ld x])
  moreover have "kernel_list (s\<lparr>pmem := store64 (pmem s) ?a x\<rparr>) ps"
  proof (rule kernel_list_store)
    show "aligned8 ?a" by (rule slot_frame_parts(3) [OF gi])
    have "page_of ?a \<in> all_tables T"
      using slot_frame_parts(1) [OF gi] all_tablesI [of g T n] g by simp
    then show "\<forall>e \<in> fst ` set ps. ?a \<notin> words e" using inv unfolding paging_inv_def by blast
  qed (use inv np in \<open>simp_all add: paging_inv_def\<close>)
  moreover have "unshared (store64 (pmem s) ?a x) T"
  proof (rule unshared_store [OF t ld _ g np])
    show "unshared (pmem s) T" using inv by (simp add: paging_inv_def)
  qed (rule new)
  moreover have "blank (store64 (pmem s) ?a x) f" if "f \<in> snd ` set ps" for f
  proof (rule load_blank_slot)
    show "f \<noteq> g" using inv that all_tablesI [of g T n] g by (auto simp: paging_inv_def)
  qed (use inv that gi in \<open>auto simp: paging_inv_def\<close>)
  ultimately show ?thesis using inv by (auto simp: paging_inv_def)
qed

lemma inv_alloc:
  assumes inv: "paging_inv s T ((e, f) # ps)" and n: "n \<noteq> 3"
  shows "get_next_free_page_kmalloc s = Some (f, after_alloc e s)"
    and "paging_inv (after_alloc e s) (T(n := insert f (T n))) ps"
    and "\<And>g i. g \<in> all_tables T \<or> g = f \<Longrightarrow> i AND 0x1ff = i \<Longrightarrow>
      load64 (pmem (after_alloc e s)) (slot g i) = load64 (pmem s) (slot g i)"
proof -
  let ?s = "after_alloc e s" and ?T = "T(n := insert f (T n))"
  have l: "kernel_list s ((e, f) # ps)" and t: "tables_ok (pmem s) T" using inv by (simp_all add: paging_inv_def)
  show "get_next_free_page_kmalloc s = Some (f, ?s)" by (rule kmalloc_page(1) [OF l])
  have e: "aligned8 (e + 8)" "e + 8 \<in> words e"
    using l by (auto simp: kernel_list_def descs_sep_def words_def intro: aligned8_add)
  have f: "blank (pmem s) f" "f \<notin> all_tables T" "is_frame f" "f \<notin> snd ` set ps"
    using inv by (auto simp: paging_inv_def blank_def)
  have away: "page_of (e + 8) \<notin> all_tables T \<union> insert f (snd ` set ps)"
    using inv e(2) by (auto simp: paging_inv_def)
  have same: "load64 (pmem ?s) (slot g i) = load64 (pmem s) (slot g i)"
    if "g \<in> all_tables T \<union> insert f (snd ` set ps)" "is_frame g" "i AND 0x1ff = i" for g i
  proof -
    have "page_of (slot g i) = g" by (rule slot_frame_parts(1) [OF that(2,3)])
    with away that(1) have "e + 8 \<noteq> slot g i" by metis
    then show ?thesis
      using e(1) slot_frame_parts(3) [of g i] that by (simp add: after_alloc_def load64_store64_aligned)
  qed
  then show "\<And>g i. g \<in> all_tables T \<or> g = f \<Longrightarrow> i AND 0x1ff = i \<Longrightarrow>
      load64 (pmem ?s) (slot g i) = load64 (pmem s) (slot g i)"
    using f(3) all_tables_frame [OF t] by blast
  have root: "root ?s = root s" "root s \<in> T 3" "root s \<in> all_tables T"
    using inv all_tablesI [of "root s" T 3] by (simp_all add: after_alloc_def paging_inv_def)
  have eq: "load64 (pmem ?s) (slot g i) = load64 (pmem s) (slot g i)" if "g \<in> all_tables T" "i AND 0x1ff = i" for g i
    using same [of g i] that all_tables_frame [OF t] by blast
  have fb: "blank (pmem ?s) f" using f(1) same [of f] f(3) by (simp add: blank_def)
  have inv': "recursive (pmem s) (root s)" "unshared (pmem s) T" using inv by (simp_all add: paging_inv_def)
  have "recursive (pmem ?s) (root ?s)"
    unfolding root(1) by (rule tables_cong(3) [OF eq root(3) inv'(1)])
  moreover have "tables_ok (pmem ?s) ?T" by (rule tables_ok_insert [OF tables_cong(1) [OF eq t] fb])
  moreover have "unshared (pmem ?s) ?T" by (rule unshared_insert [OF tables_cong(2) [OF eq inv'(2)] fb])
  moreover have "levels_disjoint ?T"
    using inv f(2) n by (auto simp: paging_inv_def levels_disjoint_def all_tables_def)
  moreover have "blank (pmem ?s) g" if "g \<in> snd ` set ps" for g
    using inv that same [of g] by (auto simp: paging_inv_def blank_def)
  moreover have "\<forall>e' \<in> fst ` set ps. \<forall>w \<in> words e'. page_of w \<notin> all_tables ?T \<union> snd ` set ps"
  proof (intro ballI)
    fix e' w assume w: "e' \<in> fst ` set ps" "w \<in> words e'"
    have "\<forall>e' \<in> fst ` set ((e, f) # ps). \<forall>w \<in> words e'. page_of w \<notin> all_tables T \<union> snd ` set ((e, f) # ps)"
      using inv unfolding paging_inv_def by (elim conjE)
    with w have "page_of w \<notin> insert f (all_tables T)" "page_of w \<notin> snd ` set ps" by auto
    moreover have "all_tables ?T \<subseteq> insert f (all_tables T)" by (auto simp: all_tables_def split: if_splits)
    ultimately show "page_of w \<notin> all_tables ?T \<union> snd ` set ps" by blast
  qed
  moreover have "\<forall>g \<in> snd ` set ps. g \<notin> all_tables ?T"
    using inv f(4) by (auto simp: paging_inv_def all_tables_def split: if_splits)
  moreover have "distinct (map snd ps)" using inv by (simp add: paging_inv_def)
  moreover have "?T 3 = {root ?s}" using inv root(1) n by (auto simp: paging_inv_def)
  ultimately show "paging_inv ?s ?T ps"
    using kmalloc_page(2) [OF l] by (simp add: paging_inv_def)
qed

section \<open>Going down to a page\<close>

text \<open>The table for \<open>v\<close> at depth \<open>d\<close>, and that the entries above it are present.\<close>

primrec tab :: "'a paging_scheme \<Rightarrow> u64 \<Rightarrow> nat \<Rightarrow> u64" where
  "tab s v 0 = root s"
| "tab s v (Suc d) = frame (ent s (3 - d) (tab s v d) v)"

abbreviation at_depth :: "'a paging_scheme \<Rightarrow> u64 \<Rightarrow> nat \<Rightarrow> u64" where
  "at_depth s v d \<equiv> ent s (3 - d) (tab s v d) v"

definition down :: "'a paging_scheme \<Rightarrow> u64 \<Rightarrow> nat \<Rightarrow> bool" where
  "down s v d \<longleftrightarrow> (\<forall>k<d. present (at_depth s v k))"

definition rec_addr :: "nat \<Rightarrow> u64 \<Rightarrow> u64" where
  "rec_addr d v = (if d = 0 then pml4_rec_addr v else if d = 1 then pdpe_rec_addr v
     else if d = 2 then pgd_rec_addr v else pte_rec_addr v)"

lemma down_0 [simp]: "down s v 0"
  by (simp add: down_def)

lemma down_Suc: "down s v (Suc d) \<longleftrightarrow> down s v d \<and> present (at_depth s v d)"
  by (auto simp: down_def less_Suc_eq)

lemma tab_table:
  assumes inv: "paging_inv s T ps" and v: "index 3 v \<noteq> 510"
  shows "d \<le> 3 \<Longrightarrow> down s v d \<Longrightarrow> tab s v d \<in> T (3 - d)"
proof (induction d)
  case 0
  then show ?case using inv by (simp add: paging_inv_def)
next
  case (Suc d)
  then have "tab s v d \<in> T (3 - d)" "present (at_depth s v d)" by (simp_all add: down_Suc)
  moreover have "tables_ok (pmem s) T" using inv by (simp add: paging_inv_def)
  ultimately have "good_entry T (3 - d) (at_depth s v d)"
    using tables_okD(2) good_slot_index [OF v, of "3 - d"] by auto
  then show ?case using \<open>present _\<close> Suc.prems(1) by (simp add: good_entry_def)
qed

lemma at_depth_good:
  assumes "paging_inv s T ps" "index 3 v \<noteq> 510" "d \<le> 3" "down s v d"
  shows "good_entry T (3 - d) (at_depth s v d)"
  using assms tables_okD(2) [of "pmem s" T "tab s v d" "3 - d"] tab_table [OF assms]
    good_slot_index [of v "3 - d"] by (auto simp: paging_inv_def)

lemma down_table_entry:
  assumes "paging_inv s T ps" "index 3 v \<noteq> 510" "d \<le> 3" "down s v d" "k < d"
  shows "table_entry (at_depth s v k)"
proof -
  have "down s v k" "present (at_depth s v k)" using assms(4,5) by (auto simp: down_def)
  then show ?thesis
    using at_depth_good [OF assms(1,2), of k] assms(3,5) by (auto simp: table_entry_def good_entry_def)
qed

text \<open>The recursive address of depth \<open>d\<close> is the entry of \<open>v\<close> in the table there.\<close>

lemma translate_rec_addr:
  assumes inv: "paging_inv s T ps" "index 3 v \<noteq> 510" and d: "d \<le> 3" "down s v d"
  shows "mmu s (pmem s) (rec_addr d v) = Some (slot (tab s v d) (index (3 - d) v))"
proof -
  have r: "recursive (pmem s) (root s)" using inv(1) by (simp add: paging_inv_def)
  note entry = down_table_entry [OF inv d]
  have present: "present (at_depth s v k)" if "k < d" for k using d(2) that by (simp add: down_def)
  consider "d = 0" | "d = 1" | "d = 2" | "d = 3" using d(1) by linarith
  then show ?thesis
  proof cases
    case 1
    then show ?thesis using translate_recs(1) [OF r] by (simp add: rec_addr_def)
  next
    case 2
    then show ?thesis
      using translate_recs(2) [OF r, of v] present [of 0] by (simp add: rec_addr_def Let_def)
  next
    case 3
    then show ?thesis
      using translate_recs(3) [OF r, of v] present [of 1] entry [of 0]
      by (simp add: rec_addr_def Let_def numeral_2_eq_2)
  next
    case 4
    then show ?thesis
      using translate_recs(4) [OF r, of v] present [of 2] entry [of 0] entry [of 1]
      by (simp add: rec_addr_def Let_def numeral_3_eq_3 numeral_2_eq_2)
  qed
qed

lemma translate_down:
  assumes inv: "paging_inv s T ps" "index 3 v \<noteq> 510" and v: "canonical v"
    and d: "down s v 3" "present (at_depth s v 3)"
  shows "mmu s (pmem s) v = Some (frame (at_depth s v 3) OR (v AND 0xfff))"
proof -
  have r: "recursive (pmem s) (root s)" using inv(1) by (simp add: paging_inv_def)
  note entry = down_table_entry [OF inv order.refl d(1)]
  show ?thesis
    using translate_recs(5) [OF r, of v] v d(2) entry [of 0] entry [of 1] entry [of 2]
    by (simp add: Let_def numeral_3_eq_3 numeral_2_eq_2)
qed

lemma translate_absent:
  assumes inv: "paging_inv s T ps" "index 3 v \<noteq> 510" and d: "d \<le> 3" "down s v d"
    and np: "\<not> present (at_depth s v d)"
  shows "mmu s (pmem s) v = None"
proof -
  note entry = down_table_entry [OF inv d]
  consider "d = 0" | "d = 1" | "d = 2" | "d = 3" using d(1) by linarith
  then have "walk 4 (pmem s) (root s) v = None"
    using np entry [of 0] entry [of 1] entry [of 2]
    by cases (simp_all add: walk_tables numeral_2_eq_2 numeral_3_eq_3 table_entry_def large_def Let_def
        eval_nat_numeral)
  then show ?thesis by (simp add: translate_def)
qed

text \<open>A write to a word that is not a present entry leaves the way down as it is.\<close>

lemma tab_store:
  assumes inv: "paging_inv s T ps" "index 3 v \<noteq> 510" and d: "d \<le> 3" "down s v d"
    and s': "cr3_reg s' = cr3_reg s" "pmem s' = store64 (pmem s) a x"
    and a: "aligned8 a" "\<not> present (load64 (pmem s) a)"
  shows "k \<le> d \<Longrightarrow> tab s' v k = tab s v k \<and> down s' v k"
proof (induction k)
  case (Suc k)
  then have k: "k \<le> 3" "down s v k" "present (at_depth s v k)"
    using d by (auto simp: down_def)
  have "is_frame (tab s v k)"
    using tab_table [OF inv k(1,2)] inv(1) tables_okD(1) [of "pmem s" T _ "3 - k"] by (simp add: paging_inv_def)
  then have "aligned8 (slot (tab s v k) (index (3 - k) v))" by (rule slot_frame_parts(3)) simp
  moreover have "a \<noteq> slot (tab s v k) (index (3 - k) v)" using k(3) a(2) by auto
  ultimately have "load64 (pmem s') (slot (tab s v k) (index (3 - k) v)) = at_depth s v k"
    using a(1) by (simp add: s' load64_store64_aligned)
  with Suc k show ?case by (simp add: down_Suc)
qed (simp add: s')

section \<open>Creating a table\<close>

definition flags_ok :: "u64 \<Rightarrow> bool" where
  "flags_ok flags \<longleftrightarrow> flags = PAGE_KERNEL \<or> flags = PAGE_USER"

lemma entry_of_frame:
  assumes "is_frame p" "flags_ok flags"
  shows "is_valid_page (p OR flags)" "present (p OR flags)" "\<not> bit (p OR flags) 7" "frame (p OR flags) = p"
proof -
  have p: "p = p AND 0x000ffffffffff000" using assms(1) by (simp add: is_frame_def frame_def)
  have "p AND 3 = p AND (0x000ffffffffff000 AND 3)" by (subst p) (simp only: and.assoc)
  then have "(p OR flags) AND 3 = flags AND 3" by (simp add: bit.conj_disj_distrib2)
  then show "is_valid_page (p OR flags)" using assms(2) by (auto simp: is_valid_page_def flags_ok_def)
  have "\<not> bit p 0" "\<not> bit p 7" by (subst p, simp add: bit_simps)+
  then have "bit (p OR flags) 0" "\<not> bit (p OR flags) 7"
    using assms(2) by (auto simp: flags_ok_def bit_simps)
  then show "present (p OR flags)" "\<not> bit (p OR flags) 7" by (simp_all add: present_def)
  have "frame (p OR flags) = (p AND 0x000ffffffffff000) OR (flags AND 0x000ffffffffff000)"
    by (simp add: frame_def bit.conj_disj_distrib2)
  also have "flags AND 0x000ffffffffff000 = 0" using assms(2) by (auto simp: flags_ok_def)
  finally show "frame (p OR flags) = p" using p by simp
qed

text \<open>Translations that hold before hold after.\<close>

definition keeps_translations :: "'a paging_scheme \<Rightarrow> 'a paging_scheme \<Rightarrow> bool" where
  "keeps_translations s s' \<longleftrightarrow> cr3_reg s' = cr3_reg s \<and>
     (\<forall>va pa. mmu s (pmem s) va = Some pa \<longrightarrow> mmu s' (pmem s') va = Some pa)"

lemma keepsD: "keeps_translations s s' \<Longrightarrow> mmu s (pmem s) va = Some pa \<Longrightarrow> mmu s' (pmem s') va = Some pa"
  unfolding keeps_translations_def by blast

lemma keeps_refl [simp]: "keeps_translations s s"
  by (simp add: keeps_translations_def)

lemma keeps_trans: "keeps_translations s s' \<Longrightarrow> keeps_translations s' s'' \<Longrightarrow> keeps_translations s s''"
  unfolding keeps_translations_def by metis

lemma keeps_store:
  "\<lbrakk>aligned8 a; \<not> present (load64 (pmem s) a); cr3_reg s' = cr3_reg s; pmem s' = store64 (pmem s) a x\<rbrakk> \<Longrightarrow>
    keeps_translations s s'"
  by (simp add: keeps_translations_def translate_store)

lemma wr_at:
  "mmu s (pmem s) a = Some pa \<Longrightarrow> wr (mmu s) s a x = Some (s\<lparr>pmem := store64 (pmem s) pa x\<rparr>)"
  by (simp add: wr_def vstore64_def)

lemma rd_at: "mmu s (pmem s) a = Some pa \<Longrightarrow> rd (mmu s) s a = Some (load64 (pmem s) pa)"
  by (simp add: rd_def vload64_def)

text \<open>
  What a step at depth \<open>d\<close> starts from: the tables down to there, the entry missing, and
  the free pages.
\<close>

definition at_gap :: "'a paging_scheme \<Rightarrow> (nat \<Rightarrow> u64 set) \<Rightarrow> (u64 \<times> u64) list \<Rightarrow> u64 \<Rightarrow> nat \<Rightarrow> bool" where
  "at_gap s T ps v d \<longleftrightarrow> paging_inv s T ps \<and> index 3 v \<noteq> 510 \<and> d \<le> 3 \<and> down s v d \<and>
     \<not> present (at_depth s v d)"

definition put_entry :: "u64 \<Rightarrow> nat \<Rightarrow> u64 \<Rightarrow> 'a paging_scheme \<Rightarrow> 'a paging_scheme" where
  "put_entry v d x s = s\<lparr>pmem := store64 (pmem s) (slot (tab s v d) (index (3 - d) v)) x\<rparr>"

lemma put_entry_simps [simp]: "cr3_reg (put_entry v d x s) = cr3_reg s"
  by (simp add: put_entry_def)

lemma wr_rec_addr:
  "at_gap s T ps v d \<Longrightarrow> wr (mmu s) s (rec_addr d v) x = Some (put_entry v d x s)"
  using translate_rec_addr [of s T ps v d] by (simp add: at_gap_def wr_at put_entry_def)

lemma gap_slot:
  assumes "at_gap s T ps v d"
  shows "aligned8 (slot (tab s v d) (index (3 - d) v))" "tab s v d \<in> T (3 - d)"
    "good_slot (3 - d) (index (3 - d) v)" "is_frame (tab s v d)"
proof -
  show t: "tab s v d \<in> T (3 - d)" using tab_table [of s T ps v d] assms by (simp add: at_gap_def)
  show "is_frame (tab s v d)"
    using tables_okD(1) [of "pmem s" T _ "3 - d"] t assms by (simp add: at_gap_def paging_inv_def)
  then show "aligned8 (slot (tab s v d) (index (3 - d) v))" by (rule slot_frame_parts(3)) simp
  show "good_slot (3 - d) (index (3 - d) v)" using assms good_slot_index by (simp add: at_gap_def)
qed

lemma put_entry_keeps:
  assumes "at_gap s T ps v d"
  shows "keeps_translations s (put_entry v d x s)" "down (put_entry v d x s) v d"
    "tab (put_entry v d x s) v d = tab s v d" "at_depth (put_entry v d x s) v d = x"
proof -
  let ?s = "put_entry v d x s"
  have m: "pmem ?s = store64 (pmem s) (slot (tab s v d) (index (3 - d) v)) x" by (simp add: put_entry_def)
  show "keeps_translations s ?s"
    by (rule keeps_store [OF gap_slot(1) [OF assms] _ _ m]) (use assms in \<open>simp_all add: at_gap_def\<close>)
  show "down ?s v d" "tab ?s v d = tab s v d"
    using tab_store [of s T ps v d ?s, OF _ _ _ _ _ m gap_slot(1) [OF assms]] assms
    by (simp_all add: at_gap_def)
  then show "at_depth ?s v d = x" by (simp add: m)
qed

lemma gap_or_mapped:
  assumes "paging_inv s T ps" "index 3 v \<noteq> 510"
  shows "(\<exists>d. at_gap s T ps v d) \<or> (down s v 3 \<and> present (at_depth s v 3))"
proof (rule disjCI)
  assume n: "\<not> (down s v 3 \<and> present (at_depth s v 3))"
  then have "\<exists>d \<le> 3. \<not> present (at_depth s v d)" by (auto simp: down_def intro: less_imp_le)
  then obtain d where d: "d \<le> 3" "\<not> present (at_depth s v d)"
    "\<And>k. k < d \<Longrightarrow> \<not> (k \<le> 3 \<and> \<not> present (at_depth s v k))"
    using exists_least_iff [of "\<lambda>d. d \<le> 3 \<and> \<not> present (at_depth s v d)"] by blast
  then have "at_gap s T ps v d" using assms by (force simp: at_gap_def down_def)
  then show "\<exists>d. at_gap s T ps v d" ..
qed

text \<open>Which addresses share their way down: those of one page, and no others.\<close>

lemma same_way:
  assumes inv: "paging_inv s T ps" "index 3 v \<noteq> 510" "index 3 va \<noteq> 510"
  shows "\<lbrakk>d \<le> 3; down s v d; down s va d; tab s va d = tab s v d; j < d\<rbrakk> \<Longrightarrow>
    index (3 - j) va = index (3 - j) v"
proof (induction d)
  case (Suc d)
  have d: "d \<le> 3" "down s v d" "down s va d" "present (at_depth s v d)" "present (at_depth s va d)"
    using Suc.prems by (simp_all add: down_Suc)
  have t: "tab s v d \<in> T (3 - d)" "tab s va d \<in> T (3 - d)"
    using tab_table [OF inv(1)] inv d by simp_all
  have i: "good_slot (3 - d) (index (3 - d) v)" "good_slot (3 - d) (index (3 - d) va)"
    using good_slot_index inv by simp_all
  have "frame (at_depth s va d) = frame (at_depth s v d)" using Suc.prems(4) by simp
  moreover have "unshared (pmem s) T" using inv(1) by (simp add: paging_inv_def)
  moreover have "0 < 3 - d \<and> 3 - d \<le> 3" using Suc.prems(1) by simp
  ultimately have "tab s va d = tab s v d \<and> index (3 - d) va = index (3 - d) v"
    using t i d(4,5) unfolding unshared_def by blast
  then show ?case using Suc d by (cases "j = d") auto
qed simp

lemma bit_index: "bit (index k a) i \<longleftrightarrow> i < 9 \<and> bit a (12 + 9 * k + i)"
proof -
  have "index k a = take_bit 9 (drop_bit (12 + 9 * k) a)"
    by (simp add: index_def take_bit_eq_mask mask_eq_exp_minus_1)
  then show ?thesis by (simp add: bit_take_bit_iff bit_drop_bit_eq)
qed

lemma canonical_bit:
  assumes "canonical a" "47 \<le> n" "n < 64"
  shows "bit a n = bit a 47"
proof -
  have "drop_bit 47 a = 0 \<or> drop_bit 47 a = mask 17"
    using assms(1) by (simp add: canonical_def mask_eq_exp_minus_1)
  then have "bit (drop_bit 47 a) (n - 47) = bit (drop_bit 47 a) 0"
    using assms(2,3) by (elim disjE) (simp_all only: bit_0_eq bot_fun_def bit_mask_iff, auto)
  then show ?thesis using assms(2) by (simp add: bit_drop_bit_eq)
qed

lemma indexes_page:
  assumes c: "canonical a" "canonical b" and i: "\<And>k. k \<le> 3 \<Longrightarrow> index k a = index k b"
  shows "page_of a = page_of b"
proof -
  have low: "bit a n = bit b n" if "12 \<le> n" "n < 48" for n
  proof -
    have "n = 12 + 9 * ((n - 12) div 9) + (n - 12) mod 9" "(n - 12) div 9 \<le> 3" using that by simp_all
    then show ?thesis
      using i [of "(n - 12) div 9"] bit_index [of "(n - 12) div 9" a "(n - 12) mod 9"]
        bit_index [of "(n - 12) div 9" b "(n - 12) mod 9"] by simp
  qed
  have m: "(0xfff :: u64) = mask 12" by (simp add: mask_eq_exp_minus_1)
  show ?thesis
  proof (rule bit_word_eqI)
    fix n assume n: "n < LENGTH(64)"
    consider "n < 12" | "12 \<le> n" "n < 48" | "48 \<le> n" by linarith
    then show "bit (page_of a) n = bit (page_of b) n"
    proof cases
      case 3
      then have "bit a n = bit b n"
        using canonical_bit [OF c(1), of n] canonical_bit [OF c(2), of n] low [of 47] n by simp
      then show ?thesis by (simp add: page_of_def bit_simps)
    qed (use low [of n] in \<open>auto simp: page_of_def m bit_simps simp del: mask_numeral\<close>)
  qed
qed

text \<open>Filling the gap of one page maps no page but that one.\<close>

lemma put_entry_other:
  assumes gap: "at_gap s T ps v d" and inv': "paging_inv (put_entry v d x s) T ps" and x: "present x"
    and blank: "\<And>j. d < 3 \<Longrightarrow> j AND 0x1ff = j \<Longrightarrow> load64 (pmem (put_entry v d x s)) (slot (frame x) j) = 0"
    and leaf: "d = 3 \<Longrightarrow> page_of va \<noteq> page_of v"
    and v: "canonical v" and va: "canonical va" "index 3 va \<noteq> 510" "mmu s (pmem s) va = None"
  shows "mmu (put_entry v d x s) (pmem (put_entry v d x s)) va = None"
proof -
  let ?u = "put_entry v d x s"
  have inv: "paging_inv s T ps" and i: "index 3 v \<noteq> 510" using gap by (simp_all add: at_gap_def)
  obtain k where k: "at_gap s T ps va k"
    using gap_or_mapped [OF inv va(2)] translate_down [OF inv va(2,1)] va(3) by auto
  then have d: "k \<le> 3" "down s va k" "\<not> present (at_depth s va k)" by (simp_all add: at_gap_def)
  have m: "pmem ?u = store64 (pmem s) (slot (tab s v d) (index (3 - d) v)) x" by (simp add: put_entry_def)
  have np: "\<not> present (load64 (pmem s) (slot (tab s v d) (index (3 - d) v)))"
    using gap by (simp add: at_gap_def)
  have tab: "tab ?u va k = tab s va k" "down ?u va k"
    using tab_store [OF inv va(2) d(1,2) _ m gap_slot(1) [OF gap] np, of k] by simp_all
  show ?thesis
  proof (cases "(tab s v d, index (3 - d) v) = (tab s va k, index (3 - k) va)")
    case False
    then have "at_depth ?u va k = at_depth s va k"
      unfolding tab(1) m using gap_slot(4) [OF gap] gap_slot(4) [OF k] by (intro load_other_slot) simp_all
    then show ?thesis using translate_absent [OF inv' va(2) d(1) tab(2)] d(3) by simp
  next
    case True
    have "tab s v d \<in> T (3 - d)" "tab s va k \<in> T (3 - k)"
      using gap_slot(2) [OF gap] gap_slot(2) [OF k] by simp_all
    moreover have "levels_disjoint T" using inv by (simp add: paging_inv_def)
    ultimately have "3 - d = 3 - k" using True unfolding levels_disjoint_def
      by (metis Pair_inject diff_le_self disjoint_iff)
    moreover have "d \<le> 3" using gap by (simp add: at_gap_def)
    ultimately have kd: "k = d" using d(1) by linarith
    have at: "at_depth ?u va d = x" using True kd tab(1) m by simp
    show ?thesis
    proof (cases "d = 3")
      case True': True
      have "index (3 - j) va = index (3 - j) v" if "j < 3" for j
        using same_way [OF inv i va(2) order.refl _ _ _ that] gap k kd True True'
        by (simp add: at_gap_def)
      moreover have "index 0 va = index 0 v" using True kd True' by simp
      ultimately have "index j va = index j v" if "j \<le> 3" for j
        using that by (metis diff_diff_cancel diff_less diff_zero less_le_not_le zero_less_numeral le_zero_eq
            diff_is_0_eq' linorder_not_less gr_zeroI)
      then have "page_of va = page_of v" using indexes_page v va(1) by blast
      then show ?thesis using leaf True' by simp
    next
      case False
      then have d3: "d < 3" using d(1) kd by simp
      have down: "down ?u va (Suc d)" using tab(2) at x kd by (simp add: down_Suc)
      have "at_depth ?u va (Suc d) = 0" using blank [OF d3] at by simp
      then show ?thesis
        using translate_absent [OF inv' va(2) _ down] d3 by (simp add: present_def)
    qed
  qed
qed

definition only_page :: "u64 \<Rightarrow> 'a paging_scheme \<Rightarrow> 'a paging_scheme \<Rightarrow> bool" where
  "only_page v s s' \<longleftrightarrow> (\<forall>va. index 3 va \<noteq> 510 \<and> page_of va \<noteq> page_of v \<and>
     mmu s (pmem s) va = None \<longrightarrow> mmu s' (pmem s') va = None)"

lemma only_page_trans: "only_page v s s' \<Longrightarrow> only_page v s' s'' \<Longrightarrow> only_page v s s''"
  by (simp add: only_page_def)

lemma put_entry_only_page:
  assumes "at_gap s T ps v d" "paging_inv (put_entry v d x s) T ps" "present x" "canonical v"
    and "\<And>j. d < 3 \<Longrightarrow> j AND 0x1ff = j \<Longrightarrow> load64 (pmem (put_entry v d x s)) (slot (frame x) j) = 0"
  shows "only_page v s (put_entry v d x s)"
  unfolding only_page_def
proof (intro allI impI)
  fix va assume va: "index 3 va \<noteq> 510 \<and> page_of va \<noteq> page_of v \<and> mmu s (pmem s) va = None"
  show "mmu (put_entry v d x s) (pmem (put_entry v d x s)) va = None"
  proof (cases "canonical va")
    case True
    show ?thesis by (rule put_entry_other [OF assms(1-3)]) (use assms va True in auto)
  qed (simp add: translate_def)
qed

text \<open>Taking a free page, to become a table or to be handed out, opens or closes no gap.\<close>

lemma gap_alloc:
  assumes gap: "at_gap s T ((e, f) # ps) v d" and n: "n \<noteq> 3"
  shows "at_gap (after_alloc e s) (T(n := insert f (T n))) ps v d"
    and "tab (after_alloc e s) v d = tab s v d"
    and "keeps_translations s (after_alloc e s)"
proof -
  let ?s = "after_alloc e s"
  have inv: "paging_inv s T ((e, f) # ps)" and v: "index 3 v \<noteq> 510" using gap by (simp_all add: at_gap_def)
  note alloc = inv_alloc [OF inv n]
  have status: "aligned8 (e + 8)" "\<not> present (load64 (pmem s) (e + 8))"
    using inv by (auto simp: paging_inv_def kernel_list_def descs_sep_def intro: aligned8_add)
  have same: "cr3_reg ?s = cr3_reg s" "pmem ?s = store64 (pmem s) (e + 8) ALLOCATED"
    by (simp_all add: after_alloc_def)
  have tab: "tab ?s v d = tab s v d" "down ?s v d"
    using tab_store [OF inv v _ _ same status, of d d] gap by (simp_all add: at_gap_def)
  show "tab ?s v d = tab s v d" by (rule tab(1))
  show "keeps_translations s ?s" by (rule keeps_store [OF status same])
  have "tab s v d \<in> all_tables T" using gap_slot(2) [OF gap] all_tablesI [of _ T "3 - d"] by simp
  then have "at_depth ?s v d = at_depth s v d" using alloc(3) by (simp add: tab)
  then show "at_gap ?s (T(n := insert f (T n))) ps v d" using gap tab alloc(2) by (simp add: at_gap_def)
qed

lemma alloc_translations:
  assumes inv: "paging_inv s T ((e, f) # ps)"
  shows "keeps_translations s (after_alloc e s)"
    "index 3 va \<noteq> 510 \<Longrightarrow> mmu (after_alloc e s) (pmem (after_alloc e s)) va = mmu s (pmem s) va"
proof -
  have status: "aligned8 (e + 8)" "\<not> present (load64 (pmem s) (e + 8))"
    using inv by (auto simp: paging_inv_def kernel_list_def descs_sep_def intro: aligned8_add)
  show keeps: "keeps_translations s (after_alloc e s)"
    by (rule keeps_store [OF status]) (simp_all add: after_alloc_def)
  assume va: "index 3 va \<noteq> 510"
  show "mmu (after_alloc e s) (pmem (after_alloc e s)) va = mmu s (pmem s) va"
  proof (cases "canonical va")
    case can: True
    show ?thesis
    proof (cases "mmu s (pmem s) va")
      case None
      then obtain k where "at_gap s T ((e, f) # ps) va k"
        using gap_or_mapped [OF inv va] translate_down [OF inv va can] by auto
      then have "at_gap (after_alloc e s) (T(4 := insert f (T 4))) ps va k" by (rule gap_alloc(1)) simp
      then show ?thesis using None translate_absent [of "after_alloc e s"] by (auto simp: at_gap_def)
    next
      case (Some pa)
      with keeps have "mmu (after_alloc e s) (pmem (after_alloc e s)) va = Some pa"
        unfolding keeps_translations_def by blast
      then show ?thesis using Some by simp
    qed
  qed (simp add: translate_def)
qed

lemma alloc_only_page: "paging_inv s T ((e, f) # ps) \<Longrightarrow> only_page v s (after_alloc e s)"
  unfolding only_page_def by (metis alloc_translations(2))

text \<open>A new table at depth \<open>d + 1\<close>; its entry for \<open>v\<close> is the next gap.\<close>

lemma install_table:
  assumes gap: "at_gap s T ((e, f) # ps) v d" and d: "d < 3" and flags: "flags_ok flags"
  shows "get_next_free_page_kmalloc s = Some (f, after_alloc e s)"
    and "wr (mmu (after_alloc e s)) (after_alloc e s) (rec_addr d v) (f OR flags) =
      Some (put_entry v d (f OR flags) (after_alloc e s))"
    and "at_gap (put_entry v d (f OR flags) (after_alloc e s)) (T(2 - d := insert f (T (2 - d)))) ps v (Suc d)"
    and "keeps_translations s (put_entry v d (f OR flags) (after_alloc e s))"
    and "canonical v \<Longrightarrow> only_page v s (put_entry v d (f OR flags) (after_alloc e s))"
proof -
  let ?s = "after_alloc e s" and ?T = "T(2 - d := insert f (T (2 - d)))" and ?x = "f OR flags"
  let ?u = "put_entry v d ?x ?s"
  have inv: "paging_inv s T ((e, f) # ps)" and v: "index 3 v \<noteq> 510" using gap by (simp_all add: at_gap_def)
  have lt: "2 - d \<noteq> 3" by simp
  note alloc = inv_alloc [OF inv lt]
  show "get_next_free_page_kmalloc s = Some (f, ?s)" by (rule alloc(1))
  have f: "blank (pmem s) f" "is_frame f" using inv by (auto simp: paging_inv_def blank_def)
  note gap' = gap_alloc(1) [OF gap lt]
  have tab: "tab ?s v d = tab s v d" by (rule gap_alloc(2) [OF gap lt])
  have "tab s v d \<in> all_tables T" using gap_slot(2) [OF gap] all_tablesI [of _ T "3 - d"] by simp
  show "wr (mmu ?s) ?s (rec_addr d v) ?x = Some ?u" by (rule wr_rec_addr [OF gap'])
  have "keeps_translations s ?s" by (rule gap_alloc(3) [OF gap lt])
  then show "keeps_translations s ?u" by (rule keeps_trans) (rule put_entry_keeps(1) [OF gap'])
  have x: "present ?x" "is_valid_page ?x" "\<not> bit ?x 7" "frame ?x = f"
    using entry_of_frame [OF f(2) flags] by simp_all
  have "3 - d = Suc (2 - d)" using d by simp
  then have "good_entry ?T (3 - d) ?x" using x by (simp add: good_entry_def)
  moreover have "frame (load64 (pmem ?s) (slot g j)) \<noteq> f"
    if g: "g \<in> ?T (3 - d)" "good_slot (3 - d) j" "present (load64 (pmem ?s) (slot g j))" for g j
  proof -
    have gT: "g \<in> T (3 - d)" using g(1) \<open>3 - d = Suc (2 - d)\<close> by simp
    then have "load64 (pmem ?s) (slot g j) = load64 (pmem s) (slot g j)"
      using alloc(3) [of g j] g(2) all_tablesI [of g T "3 - d"] by (simp add: good_slot_def)
    moreover have "good_entry T (3 - d) (load64 (pmem s) (slot g j))"
      using inv g(2) gT tables_okD(2) [of "pmem s" T g "3 - d" j] by (simp add: paging_inv_def)
    ultimately have "frame (load64 (pmem ?s) (slot g j)) \<in> all_tables T"
      using g(3) d all_tablesI [of _ T "2 - d"] \<open>3 - d = Suc (2 - d)\<close> by (simp add: good_entry_def)
    then show ?thesis using inv by (auto simp: paging_inv_def)
  qed
  ultimately have inv': "paging_inv ?u ?T ps"
    unfolding put_entry_def using gap_slot [OF gap'] gap' x(4)
    by (intro inv_store) (simp_all add: at_gap_def)
  moreover have "down ?u v (Suc d)" "tab ?u v (Suc d) = f"
    using put_entry_keeps [OF gap', of ?x] x by (simp_all add: down_Suc)
  moreover have blank: "load64 (pmem ?u) (slot f j) = 0" if "j AND 0x1ff = j" for j
  proof -
    have "f \<noteq> tab s v d"
      using inv \<open>tab s v d \<in> all_tables T\<close> by (auto simp: paging_inv_def)
    then have "load64 (pmem ?u) (slot f j) = load64 (pmem ?s) (slot f j)"
      unfolding put_entry_def tab using f(2) gap_slot(4) [OF gap] that by (simp add: load_other_slot)
    also have "\<dots> = load64 (pmem s) (slot f j)" by (rule alloc(3)) (simp_all add: that)
    also have "\<dots> = 0" using f(1) that by (simp add: blank_def)
    finally show ?thesis .
  qed
  ultimately show "at_gap ?u ?T ps v (Suc d)" using v d by (simp add: at_gap_def present_def)
  show "only_page v s ?u" if "canonical v"
  proof (rule only_page_trans)
    show "only_page v s ?s" by (rule alloc_only_page [OF inv])
    show "only_page v ?s ?u"
      by (rule put_entry_only_page [OF gap' inv' x(1) that]) (simp add: x(4) blank)
  qed
qed

section \<open>Mapping a page\<close>

text \<open>The part of map_page behind the first missing entry, with \<open>n\<close> tables to create.\<close>

primrec fill :: "u64 \<Rightarrow> u64 \<Rightarrow> u64 \<Rightarrow> nat \<Rightarrow> 'a paging_scheme \<Rightarrow> (cint \<times> 'a paging_scheme) option" where
  "fill flags p v 0 s = do { s' \<leftarrow> wr (mmu s) s (rec_addr 3 v) (p OR flags); Some (1, s') }"
| "fill flags p v (Suc n) s = do {
     (physical_page, s') \<leftarrow> get_next_free_page_kmalloc s;
     s'' \<leftarrow> wr (mmu s') s' (rec_addr (2 - n) v) (physical_page OR flags);
     fill flags p v n s''
   }"

lemma valid_present: "is_valid_page e \<Longrightarrow> present e"
proof -
  assume "is_valid_page e"
  then have "bit (e AND 3) 0 = bit (3 :: u64) 0" by (simp only: is_valid_page_def)
  then show ?thesis by (simp add: bit_simps present_def)
qed

lemma valid_iff_present:
  "\<lbrakk>paging_inv s T ps; index 3 v \<noteq> 510; d \<le> 3; down s v d\<rbrakk> \<Longrightarrow>
    is_valid_page (at_depth s v d) \<longleftrightarrow> present (at_depth s v d)"
proof -
  assume "paging_inv s T ps" "index 3 v \<noteq> 510" "d \<le> 3" "down s v d"
  from at_depth_good [OF this] show ?thesis
    using valid_present by (auto simp: good_entry_def)
qed

lemma rd_rec_addr:
  "\<lbrakk>paging_inv s T ps; index 3 v \<noteq> 510; d \<le> 3; down s v d\<rbrakk> \<Longrightarrow>
    rd (mmu s) s (rec_addr d v) = Some (at_depth s v d)"
  by (simp add: rd_at translate_rec_addr)

lemma map_page_gap:
  assumes "at_gap s T ps v d"
  shows "map_page flags p v s = fill flags p v (3 - d) s"
proof -
  have gap: "paging_inv s T ps" "index 3 v \<noteq> 510" "d \<le> 3" "down s v d" "\<not> present (at_depth s v d)"
    using assms by (simp_all add: at_gap_def)
  have k: "rd (mmu s) s (rec_addr k v) = Some (at_depth s v k)"
    "is_valid_page (at_depth s v k) \<longleftrightarrow> k \<noteq> d" if "k \<le> d" for k
  proof -
    have "down s v k" "present (at_depth s v k) \<longleftrightarrow> k \<noteq> d"
      using gap(4,5) that by (auto simp: down_def order.order_iff_strict)
    then show "rd (mmu s) s (rec_addr k v) = Some (at_depth s v k)"
      "is_valid_page (at_depth s v k) \<longleftrightarrow> k \<noteq> d"
      using gap(1-3) that by (simp_all add: rd_rec_addr valid_iff_present)
  qed
  note names = rec_addr_def [of 0, simplified, symmetric] rec_addr_def [of 1, simplified, symmetric]
    rec_addr_def [of 2, simplified, symmetric] rec_addr_def [of 3, simplified, symmetric]
  consider "d = 0" | "d = 1" | "d = 2" | "d = 3" using gap(3) by linarith
  then show ?thesis
  proof cases
    case 1
    then show ?thesis unfolding map_page_def names
      using k [of 0] by (simp add: numeral_3_eq_3 numeral_2_eq_2 Let_def)
  next
    case 2
    then show ?thesis unfolding map_page_def names
      using k [of 0] k [of 1] by (simp add: numeral_2_eq_2 Let_def)
  next
    case 3
    then show ?thesis unfolding map_page_def names
      using k [of 0] k [of 1] k [of 2] by (simp add: Let_def)
  next
    case 4
    then show ?thesis unfolding map_page_def names
      using k [of 0] k [of 1] k [of 2] k [of 3] by (simp add: Let_def)
  qed
qed

text \<open>Addresses of one page take the same way.\<close>

lemma same_page_bit: "page_of a = page_of b \<Longrightarrow> 12 \<le> n \<Longrightarrow> bit a n = bit b n"
proof -
  assume eq: "page_of a = page_of b" and n: "12 \<le> n"
  have m: "(0xfff :: u64) = mask 12" by (simp add: mask_eq_exp_minus_1)
  have "bit (page_of a) n = bit (page_of b) n" by (simp only: eq)
  then show ?thesis
    using n by (cases "n < 64") (auto simp: page_of_def m bit_simps dest: bit_imp_le_length)
qed

lemma same_page: "page_of va = page_of v \<Longrightarrow> index n va = index n v \<and> canonical va = canonical v"
proof
  assume eq: "page_of va = page_of v"
  note b = same_page_bit [OF eq]
  show "index n va = index n v" unfolding index_def by (rule bit_word_eqI) (simp add: bit_simps b)
  have "drop_bit 47 va = drop_bit 47 v" by (rule bit_word_eqI) (simp add: bit_simps b)
  then show "canonical va = canonical v" by (simp add: canonical_def)
qed

lemma tab_same_page:
  assumes "page_of va = page_of v"
  shows "tab s va d = tab s v d \<and> down s va d = down s v d"
  using same_page [OF assms] by (induction d) (simp_all add: down_Suc)

text \<open>What neither step touches.\<close>

definition same_globals :: "'a paging_scheme \<Rightarrow> 'a paging_scheme \<Rightarrow> bool" where
  "same_globals s s' \<longleftrightarrow> cr3_reg s' = cr3_reg s \<and> free_list_head s' = free_list_head s \<and>
     free_list s' = free_list s \<and> free_list_page_length s' = free_list_page_length s \<and>
     free_list_total_pages s' = free_list_total_pages s \<and> kernel_cr3 s' = kernel_cr3 s \<and>
     top_virtual_address s' = top_virtual_address s \<and> kernel_pml4_t s' = kernel_pml4_t s \<and>
     paging_user_stack_top s' = paging_user_stack_top s \<and> paging.more s' = paging.more s"

lemma same_globals_simps [simp]:
  "same_globals s s" "same_globals s (after_alloc e s)" "same_globals s (put_entry v d x s)"
  by (simp_all add: same_globals_def after_alloc_def put_entry_def)

lemma same_globals_trans: "same_globals s s' \<Longrightarrow> same_globals s' s'' \<Longrightarrow> same_globals s s''"
  by (simp add: same_globals_def)

lemma same_globals_fields:
  "same_globals s s' \<Longrightarrow> cr3_reg s' = cr3_reg s \<and> top_virtual_address s' = top_virtual_address s \<and>
    kernel_pml4_t s' = kernel_pml4_t s \<and> paging_user_stack_top s' = paging_user_stack_top s"
  by (simp add: same_globals_def)

text \<open>The words page_walk may write: page tables, free pages and descriptors.\<close>

definition paging_word :: "(nat \<Rightarrow> u64 set) \<Rightarrow> (u64 \<times> u64) list \<Rightarrow> u64 \<Rightarrow> bool" where
  "paging_word T ps a \<longleftrightarrow> page_of a \<in> all_tables T \<union> snd ` set ps \<or> (\<exists>e \<in> fst ` set ps. a \<in> words e)"

definition untouched ::
  "(nat \<Rightarrow> u64 set) \<Rightarrow> (u64 \<times> u64) list \<Rightarrow> 'a paging_scheme \<Rightarrow> 'a paging_scheme \<Rightarrow> bool" where
  "untouched T ps s s' \<longleftrightarrow>
     (\<forall>a. aligned8 a \<and> \<not> paging_word T ps a \<longrightarrow> load64 (pmem s') a = load64 (pmem s) a)"

lemma untouched_refl [simp]: "untouched T ps s s"
  by (simp add: untouched_def)

lemma untouched_trans:
  "\<lbrakk>untouched T ps s s'; untouched T' ps' s' s'';
    \<And>a. paging_word T' ps' a \<Longrightarrow> paging_word T ps a\<rbrakk> \<Longrightarrow> untouched T ps s s''"
  unfolding untouched_def by metis

lemma untouched_put_entry:
  assumes "at_gap s T ps v d"
  shows "untouched T ps s (put_entry v d x s)"
  unfolding untouched_def
proof (intro allI impI)
  fix a assume a: "aligned8 a \<and> \<not> paging_word T ps a"
  have "page_of (slot (tab s v d) (index (3 - d) v)) \<in> all_tables T"
    using slot_frame_parts(1) [OF gap_slot(4) [OF assms], of "index (3 - d) v"] gap_slot(2) [OF assms]
      all_tablesI [of _ T "3 - d"] by simp
  then have "slot (tab s v d) (index (3 - d) v) \<noteq> a" using a by (auto simp: paging_word_def)
  then show "load64 (pmem (put_entry v d x s)) a = load64 (pmem s) a"
    using a gap_slot(1) [OF assms] by (simp add: put_entry_def load64_store64_aligned)
qed

lemma untouched_after_alloc:
  assumes "paging_inv s T ((e, f) # ps)"
  shows "untouched T ((e, f) # ps) s (after_alloc e s)"
  unfolding untouched_def
proof (intro allI impI)
  fix a assume a: "aligned8 a \<and> \<not> paging_word T ((e, f) # ps) a"
  have "aligned8 (e + 8)"
    using assms by (auto simp: paging_inv_def kernel_list_def descs_sep_def intro: aligned8_add)
  moreover have "e + 8 \<noteq> a" using a by (auto simp: paging_word_def words_def)
  ultimately show "load64 (pmem (after_alloc e s)) a = load64 (pmem s) a"
    using a by (simp add: after_alloc_def load64_store64_aligned)
qed

text \<open>
  Tables \<open>X\<close> of another address space: the tables outside \<open>X\<close> lead to them only through slot 511
  of the top table, the kernel's half. Mapping a page of the other half leaves them alone.
\<close>

definition isolated :: "'a paging_scheme \<Rightarrow> (nat \<Rightarrow> u64 set) \<Rightarrow> (u64 \<times> u64) list \<Rightarrow> u64 set \<Rightarrow> bool" where
  "isolated s T ps X \<longleftrightarrow> root s \<notin> X \<and> X \<inter> snd ` set ps = {} \<and>
     (\<forall>e \<in> fst ` set ps. \<forall>w \<in> words e. page_of w \<notin> X) \<and>
     (\<forall>n f i. 0 < n \<and> n \<le> 3 \<and> f \<in> T n \<and> f \<notin> X \<and> good_slot n i \<and> (n = 3 \<longrightarrow> i \<noteq> 511) \<and>
        present (load64 (pmem s) (slot f i)) \<longrightarrow> frame (load64 (pmem s) (slot f i)) \<notin> X)"

definition spares :: "u64 set \<Rightarrow> 'a paging_scheme \<Rightarrow> 'a paging_scheme \<Rightarrow> bool" where
  "spares X s s' \<longleftrightarrow> (\<forall>a. aligned8 a \<and> page_of a \<in> X \<longrightarrow> load64 (pmem s') a = load64 (pmem s) a)"

lemma spares_refl [simp]: "spares X s s"
  by (simp add: spares_def)

lemma spares_trans: "\<lbrakk>spares X s s'; spares X s' s''\<rbrakk> \<Longrightarrow> spares X s s''"
  by (simp add: spares_def)

lemma tab_isolated:
  assumes inv: "paging_inv s T ps" "index 3 v \<noteq> 510" and X: "isolated s T ps X" "index 3 v \<noteq> 511"
  shows "\<lbrakk>d \<le> 3; down s v d\<rbrakk> \<Longrightarrow> tab s v d \<notin> X"
proof (induction d)
  case 0
  then show ?case using X(1) by (simp add: isolated_def)
next
  case (Suc d)
  then have d: "d \<le> 3" "down s v d" "present (at_depth s v d)" by (simp_all add: down_Suc)
  have "tab s v d \<in> T (3 - d)" by (rule tab_table [OF inv d(1,2)])
  moreover have "good_slot (3 - d) (index (3 - d) v)" by (rule good_slot_index [OF inv(2)])
  moreover have "0 < 3 - d \<and> 3 - d \<le> 3 \<and> (3 - d = 3 \<longrightarrow> index (3 - d) v \<noteq> 511)"
    using Suc.prems(1) X(2) by auto
  ultimately have "frame (at_depth s v d) \<notin> X"
    using X(1) Suc.IH [OF d(1,2)] d(3) unfolding isolated_def by blast
  then show ?case by simp
qed

lemma isolated_put_entry:
  assumes gap: "at_gap s T ps v d" and X: "isolated s T ps X" "index 3 v \<noteq> 511"
    and x: "d < 3 \<Longrightarrow> frame x \<notin> X"
  shows "isolated (put_entry v d x s) T ps X" "spares X s (put_entry v d x s)"
proof -
  let ?t = "tab s v d" and ?j = "index (3 - d) v"
  have inv: "paging_inv s T ps" "index 3 v \<noteq> 510" "d \<le> 3" "down s v d" using gap by (simp_all add: at_gap_def)
  have t: "?t \<notin> X" by (rule tab_isolated [OF inv(1,2) X inv(3,4)])
  note slot = gap_slot [OF gap]
  have mem: "pmem (put_entry v d x s) = store64 (pmem s) (slot ?t ?j) x" by (simp add: put_entry_def)
  have page: "page_of (slot ?t ?j) = ?t" by (rule slot_frame_parts(1) [OF slot(4)]) simp
  show "spares X s (put_entry v d x s)"
    unfolding spares_def mem
  proof (intro allI impI)
    fix a assume a: "aligned8 a \<and> page_of a \<in> X"
    then have "slot ?t ?j \<noteq> a" using page t by auto
    then show "load64 (store64 (pmem s) (slot ?t ?j) x) a = load64 (pmem s) a"
      using a slot(1) by (simp add: load64_store64_aligned)
  qed
  have tables: "tables_ok (pmem s) T" "levels_disjoint T" using inv(1) by (simp_all add: paging_inv_def)
  have new: "frame (load64 (pmem (put_entry v d x s)) (slot f i)) \<notin> X"
    if f: "0 < n \<and> n \<le> 3 \<and> f \<in> T n \<and> f \<notin> X \<and> good_slot n i \<and> (n = 3 \<longrightarrow> i \<noteq> 511) \<and>
      present (load64 (pmem (put_entry v d x s)) (slot f i))" for n f i
  proof (cases "f = ?t \<and> i = ?j")
    case True
    then have "n = 3 - d" using f slot(2) tables(2) unfolding levels_disjoint_def by (metis Int_iff diff_le_self empty_iff)
    then have "d < 3" using f by simp
    then show ?thesis using x True by (simp add: mem)
  next
    case False
    have "is_frame f" "i AND 0x1ff = i" using f tables_okD(1) [OF tables(1)] by (auto simp: good_slot_def)
    then have "load64 (pmem (put_entry v d x s)) (slot f i) = load64 (pmem s) (slot f i)"
      unfolding mem using load_other_slot [OF slot(4), of f ?j i] False by auto
    then show ?thesis using f X(1) unfolding isolated_def by metis
  qed
  moreover have "root (put_entry v d x s) \<notin> X" "X \<inter> snd ` set ps = {}"
    "\<forall>e \<in> fst ` set ps. \<forall>w \<in> words e. page_of w \<notin> X" using X(1) by (simp_all add: isolated_def)
  ultimately show "isolated (put_entry v d x s) T ps X" unfolding isolated_def by blast
qed

lemma isolated_alloc:
  assumes inv: "paging_inv s T ((e, f) # ps)" and n: "n \<noteq> 3" and X: "isolated s T ((e, f) # ps) X"
  shows "isolated (after_alloc e s) (T(n := insert f (T n))) ps X" "spares X s (after_alloc e s)"
proof -
  let ?s = "after_alloc e s" and ?T = "T(n := insert f (T n))"
  have e: "aligned8 (e + 8)" "page_of (e + 8) \<notin> X"
    using inv X by (auto simp: paging_inv_def kernel_list_def descs_sep_def words_def isolated_def intro: aligned8_add)
  show "spares X s ?s"
    unfolding spares_def
  proof (intro allI impI)
    fix a assume a: "aligned8 a \<and> page_of a \<in> X"
    then have "e + 8 \<noteq> a" using e(2) by auto
    then show "load64 (pmem ?s) a = load64 (pmem s) a"
      using a e(1) by (simp add: after_alloc_def load64_store64_aligned)
  qed
  note same = inv_alloc(3) [OF inv n]
  have f: "blank (pmem s) f" using inv by (simp add: paging_inv_def)
  have new: "frame (load64 (pmem ?s) (slot g i)) \<notin> X"
    if g: "0 < k \<and> k \<le> 3 \<and> g \<in> ?T k \<and> g \<notin> X \<and> good_slot k i \<and> (k = 3 \<longrightarrow> i \<noteq> 511) \<and>
      present (load64 (pmem ?s) (slot g i))" for k g i
  proof -
    have i: "i AND 0x1ff = i" using g by (simp add: good_slot_def)
    have "g \<in> T k \<or> g = f" using g by (auto split: if_splits)
    then have eq: "load64 (pmem ?s) (slot g i) = load64 (pmem s) (slot g i)"
      using same [OF _ i, of g] all_tablesI [of g T k] g by blast
    have "g \<noteq> f" using g eq blank_slot [OF f] by (auto simp: present_def)
    then have "g \<in> T k" using \<open>g \<in> T k \<or> g = f\<close> by blast
    then show ?thesis using g eq X unfolding isolated_def by metis
  qed
  moreover have "root ?s \<notin> X" "X \<inter> snd ` set ps = {}" "\<forall>e \<in> fst ` set ps. \<forall>w \<in> words e. page_of w \<notin> X"
    using X by (auto simp: isolated_def after_alloc_def)
  ultimately show "isolated ?s ?T ps X" unfolding isolated_def by blast
qed

text \<open>What mapping \<open>v\<close> means for other address spaces.\<close>

definition confined ::
  "u64 \<Rightarrow> 'a paging_scheme \<Rightarrow> (nat \<Rightarrow> u64 set) \<Rightarrow> (u64 \<times> u64) list \<Rightarrow> 'a paging_scheme \<Rightarrow> (nat \<Rightarrow> u64 set) \<Rightarrow> (u64 \<times> u64) list \<Rightarrow> bool" where
  "confined v s T ps s' T' ps' \<longleftrightarrow>
     (index 3 v \<noteq> 511 \<longrightarrow> (\<forall>X. isolated s T ps X \<longrightarrow> isolated s' T' ps' X \<and> spares X s s'))"

lemma confinedD: "\<lbrakk>confined v s T ps s' T' ps'; index 3 v \<noteq> 511; isolated s T ps X\<rbrakk> \<Longrightarrow> isolated s' T' ps' X \<and> spares X s s'"
  by (simp add: confined_def)

lemma confined_trans:
  "\<lbrakk>confined v s T ps s' T' ps'; confined v s' T' ps' s'' T'' ps''\<rbrakk> \<Longrightarrow> confined v s T ps s'' T'' ps''"
  unfolding confined_def using spares_trans by blast

lemma confined_table:
  assumes gap: "at_gap s T ((e, f) # ps) v d" and d: "d < 3" and flags: "flags_ok flags"
  shows "confined v s T ((e, f) # ps) (put_entry v d (f OR flags) (after_alloc e s)) (T(2 - d := insert f (T (2 - d)))) ps"
  unfolding confined_def
proof (intro impI allI)
  fix X assume v: "index 3 v \<noteq> 511" and X: "isolated s T ((e, f) # ps) X"
  have inv: "paging_inv s T ((e, f) # ps)" using gap by (simp add: at_gap_def)
  have n: "2 - d \<noteq> 3" by simp
  have f: "is_frame f" "f \<notin> X" using inv X by (auto simp: paging_inv_def blank_def isolated_def)
  note a = isolated_alloc [OF inv n X]
  have "frame (f OR flags) \<notin> X" using f entry_of_frame [OF f(1) flags] by simp
  from isolated_put_entry [OF gap_alloc(1) [OF gap n] a(1) v this] a(2) spares_trans
  show "isolated (put_entry v d (f OR flags) (after_alloc e s)) (T(2 - d := insert f (T (2 - d)))) ps X \<and>
      spares X s (put_entry v d (f OR flags) (after_alloc e s))" by blast
qed

text \<open>A page mapped: the address leads to it, and no earlier translation is lost.\<close>

definition mapped ::
  "u64 \<Rightarrow> u64 \<Rightarrow> 'a paging_scheme \<Rightarrow> (nat \<Rightarrow> u64 set) \<Rightarrow> (u64 \<times> u64) list \<Rightarrow> 'a paging_scheme \<Rightarrow> bool" where
  "mapped p v s T ps s' \<longleftrightarrow> keeps_translations s s' \<and> only_page v s s' \<and> same_globals s s' \<and>
     untouched T ps s s' \<and>
     (\<forall>va. page_of va = page_of v \<longrightarrow> mmu s' (pmem s') va = Some (p OR (va AND 0xfff))) \<and>
     (\<exists>T' used rest. ps = used @ rest \<and> length used \<le> 3 \<and> paging_inv s' T' rest \<and>
        all_tables T' = all_tables T \<union> snd ` set used \<and> confined v s T ps s' T' rest)"

lemma fill_ok:
  assumes v: "canonical v" and p: "is_frame p" and flags: "flags_ok flags"
  shows "\<lbrakk>at_gap s T ps v (3 - n); n \<le> 3; n \<le> length ps\<rbrakk> \<Longrightarrow>
    \<exists>s' T' rest. fill flags p v n s = Some (1, s') \<and> keeps_translations s s' \<and> only_page v s s' \<and> same_globals s s' \<and>
      untouched T ps s s' \<and>
      (\<forall>va. page_of va = page_of v \<longrightarrow> mmu s' (pmem s') va = Some (p OR (va AND 0xfff))) \<and>
      ps = take n ps @ rest \<and> paging_inv s' T' rest \<and>
      all_tables T' = all_tables T \<union> snd ` set (take n ps) \<and> confined v s T ps s' T' rest"
proof (induction n arbitrary: s T ps)
  case 0
  let ?x = "p OR flags" let ?u = "put_entry v 3 ?x s"
  have gap: "at_gap s T ps v 3" using 0 by simp
  have x: "present ?x" "is_valid_page ?x" "frame ?x = p" using entry_of_frame [OF p flags] by simp_all
  have "paging_inv ?u T ps"
    unfolding put_entry_def using gap_slot [OF gap] gap x
    by (intro inv_store [where n = 0]) (simp_all add: at_gap_def good_entry_def)
  moreover have "down ?u v 3" "at_depth ?u v 3 = ?x"
    using put_entry_keeps [OF gap, of ?x] by simp_all
  then have "mmu ?u (pmem ?u) va = Some (p OR (va AND 0xfff))" if "page_of va = page_of v" for va
    using translate_down [of ?u T ps va] gap v x same_page [OF that]
      tab_same_page [OF that, of ?u] \<open>paging_inv ?u T ps\<close> by (simp add: at_gap_def)
  moreover have "only_page v s ?u"
    by (rule put_entry_only_page [OF gap \<open>paging_inv ?u T ps\<close> x(1) v]) simp
  moreover have "confined v s T ps ?u T ps"
    unfolding confined_def using isolated_put_entry [OF gap] by simp
  ultimately show ?case
    using \<open>paging_inv ?u T ps\<close> wr_rec_addr [OF gap] put_entry_keeps(1) [OF gap, of ?x]
      untouched_put_entry [OF gap, of ?x] by auto
next
  case (Suc n)
  then obtain e f ps' where ps: "ps = (e, f) # ps'" by (cases ps) auto
  let ?u = "put_entry v (2 - n) (f OR flags) (after_alloc e s)"
  have d: "3 - Suc n = 2 - n" "2 - n < 3" "Suc (2 - n) = 3 - n" "2 - (2 - n) = n" using Suc.prems(2) by auto
  have gap: "at_gap s T ((e, f) # ps') v (2 - n)" using Suc.prems(1) ps d(1) by simp
  note t = install_table [OF gap d(2) flags]
  let ?T = "T(n := insert f (T n))"
  have "at_gap ?u ?T ps' v (3 - n)" using t(3) d by simp
  moreover have "n \<le> 3" "n \<le> length ps'" using Suc.prems ps by simp_all
  ultimately have "\<exists>s' T' rest. fill flags p v n ?u = Some (1, s') \<and> keeps_translations ?u s' \<and>
      only_page v ?u s' \<and> same_globals ?u s' \<and> untouched ?T ps' ?u s' \<and>
      (\<forall>va. page_of va = page_of v \<longrightarrow> mmu s' (pmem s') va = Some (p OR (va AND 0xfff))) \<and>
      ps' = take n ps' @ rest \<and> paging_inv s' T' rest \<and>
      all_tables T' = all_tables ?T \<union> snd ` set (take n ps') \<and> confined v ?u ?T ps' s' T' rest"
    by (rule Suc.IH)
  then obtain s' T' rest where s': "fill flags p v n ?u = Some (1, s')" "keeps_translations ?u s'"
    "only_page v ?u s'" "same_globals ?u s'" "untouched ?T ps' ?u s'"
    "\<forall>va. page_of va = page_of v \<longrightarrow> mmu s' (pmem s') va = Some (p OR (va AND 0xfff))" "ps' = take n ps' @ rest"
    "paging_inv s' T' rest" "all_tables T' = all_tables ?T \<union> snd ` set (take n ps')"
    "confined v ?u ?T ps' s' T' rest"
    by (elim exE conjE) (rule that)
  have "same_globals s ?u" by (rule same_globals_trans [of _ "after_alloc e s"]) simp_all
  moreover have "confined v s T ps s' T' rest"
    unfolding ps using confined_trans [OF confined_table [OF gap d(2) flags, unfolded d(4)] s'(10)] .
  moreover have T: "all_tables ?T = insert f (all_tables T)" using Suc.prems(2) by (auto simp: all_tables_def)
  moreover have "untouched T ps s s'"
  proof (rule untouched_trans)
    have inv: "paging_inv s T ((e, f) # ps')" using gap by (simp add: at_gap_def)
    have n: "n \<noteq> 3" using Suc.prems(2) by simp
    show "untouched T ps s (after_alloc e s)" unfolding ps by (rule untouched_after_alloc [OF inv])
    show "untouched ?T ps' (after_alloc e s) s'"
    proof (rule untouched_trans)
      show "untouched ?T ps' (after_alloc e s) ?u"
        by (rule untouched_put_entry [OF gap_alloc(1) [OF gap n]])
    qed (rule s'(5))
    show "paging_word T ps a" if "paging_word ?T ps' a" for a
      using that unfolding paging_word_def T ps by auto
  qed
  ultimately show ?case
    using s' t(1,2) keeps_trans [OF t(4) s'(2)] only_page_trans [OF t(5) [OF v] s'(3)] same_globals_trans [of s ?u s'] ps
    by (intro exI [of _ s'] exI [of _ T'] exI [of _ rest]) simp
qed

lemma map_page_ok:
  assumes inv: "paging_inv s T ps" and v: "canonical v" "index 3 v \<noteq> 510"
    and p: "is_frame p" and flags: "flags_ok flags" and enough: "3 \<le> length ps"
  shows "if mmu s (pmem s) v = None then \<exists>s'. map_page flags p v s = Some (1, s') \<and> mapped p v s T ps s'
    else map_page flags p v s = Some (0, s)"
  using gap_or_mapped [OF inv v(2)]
proof
  assume "\<exists>d. at_gap s T ps v d"
  then obtain d where gap: "at_gap s T ps v d" ..
  then have d: "d \<le> 3" "3 - (3 - d) = d" by (simp_all add: at_gap_def)
  have "mmu s (pmem s) v = None"
    using translate_absent [OF inv v(2) d(1)] gap by (simp add: at_gap_def)
  moreover have "\<exists>s'. map_page flags p v s = Some (1, s') \<and> mapped p v s T ps s'"
  proof -
    have n: "3 - d \<le> 3" "3 - d \<le> length ps" "length (take (3 - d) ps) \<le> 3" using enough by simp_all
    have "at_gap s T ps v (3 - (3 - d))" using gap d(2) by simp
    from fill_ok [OF v(1) p flags this n(1,2)] obtain s' T' rest where
      s': "fill flags p v (3 - d) s = Some (1, s')" "keeps_translations s s'" "only_page v s s'"
      "same_globals s s'" "untouched T ps s s'"
      "\<forall>va. page_of va = page_of v \<longrightarrow> mmu s' (pmem s') va = Some (p OR (va AND 0xfff))"
      "ps = take (3 - d) ps @ rest" "paging_inv s' T' rest"
      "all_tables T' = all_tables T \<union> snd ` set (take (3 - d) ps)" "confined v s T ps s' T' rest"
      by (elim exE conjE) (rule that)
    show ?thesis
      unfolding map_page_gap [OF gap] mapped_def
      by (intro exI [of _ s'] exI [of _ T'] exI [of _ "take (3 - d) ps"] exI [of _ rest] conjI s' n(3))
  qed
  ultimately show ?thesis by simp
next
  assume m: "down s v 3 \<and> present (at_depth s v 3)"
  then have "mmu s (pmem s) v \<noteq> None" using translate_down [OF inv v(2,1)] by simp
  moreover have "map_page flags p v s = Some (0, s)"
  proof -
    have k: "rd (mmu s) s (rec_addr k v) = Some (at_depth s v k)" "is_valid_page (at_depth s v k)"
      if "k \<le> 3" for k
    proof -
      have "down s v k" "present (at_depth s v k)" using m that by (auto simp: down_def order.order_iff_strict)
      then show "rd (mmu s) s (rec_addr k v) = Some (at_depth s v k)" "is_valid_page (at_depth s v k)"
        using inv v(2) that by (simp_all add: rd_rec_addr valid_iff_present)
    qed
    note names = rec_addr_def [of 0, simplified, symmetric] rec_addr_def [of 1, simplified, symmetric]
      rec_addr_def [of 2, simplified, symmetric] rec_addr_def [of 3, simplified, symmetric]
    show ?thesis unfolding map_page_def names
      using k [of 0] k [of 1] k [of 2] k [of 3] by (simp add: Let_def)
  qed
  ultimately show ?thesis by simp
qed

section \<open>Properties\<close>

text \<open>
  C29. The recursive slot: when slot 510 of the top table names the table itself, the four
  addresses page_walk computes from \<open>v\<close> lead to the entries of \<open>v\<close> in the tables of the
  four levels, as far as the entries above are present.
\<close>

theorem recursive_addresses:
  assumes "recursive m (frame c)"
  shows "translate c m (pml4_rec_addr v) = Some (slot (frame c) (index 3 v)) \<and>
    (let e4 = load64 m (slot (frame c) (index 3 v)); e3 = load64 m (slot (frame e4) (index 2 v));
         e2 = load64 m (slot (frame e3) (index 1 v))
     in (present e4 \<longrightarrow> translate c m (pdpe_rec_addr v) = Some (slot (frame e4) (index 2 v))) \<and>
        (table_entry e4 \<and> present e3 \<longrightarrow>
           translate c m (pgd_rec_addr v) = Some (slot (frame e3) (index 1 v))) \<and>
        (table_entry e4 \<and> table_entry e3 \<and> present e2 \<longrightarrow>
           translate c m (pte_rec_addr v) = Some (slot (frame e2) (index 0 v))))"
  using translate_recs(1-4) [OF assms, of v] by (simp add: Let_def)

text \<open>
  C8. page_walk on an unmapped address: it returns 1 after taking at most three pages for
  tables; all addresses of that page then lead to the physical page it was given, every
  other address outside the recursive slot translates exactly as before, no translation at
  all is lost, no memory is written but page tables, free pages and descriptors, and the
  paging invariant holds again for the remaining free pages.
\<close>

theorem page_walk_maps:
  assumes "paging_inv s T ps" "canonical v" "index 3 v \<noteq> 510" "mmu s (pmem s) v = None"
    and "is_frame p" "3 \<le> length ps"
  shows "\<exists>s' T' rest. page_walk p v s = Some (1, s') \<and>
    (\<forall>va. page_of va = page_of v \<longrightarrow> mmu s' (pmem s') va = Some (p OR (va AND 0xfff))) \<and>
    (\<forall>va. index 3 va \<noteq> 510 \<and> page_of va \<noteq> page_of v \<longrightarrow> mmu s' (pmem s') va = mmu s (pmem s) va) \<and>
    keeps_translations s s' \<and> untouched T ps s s' \<and> paging_inv s' T' rest \<and> length ps \<le> length rest + 3"
proof -
  have "flags_ok PAGE_KERNEL" by (simp add: flags_ok_def)
  then obtain s' where s': "page_walk p v s = Some (1, s')" "mapped p v s T ps s'"
    using map_page_ok [OF assms(1-3,5) _ assms(6)] assms(4) by (auto simp: page_walk_def)
  have "mmu s' (pmem s') va = mmu s (pmem s) va"
    if "index 3 va \<noteq> 510" "page_of va \<noteq> page_of v" for va
    using s'(2) that unfolding mapped_def only_page_def keeps_translations_def
    by (cases "mmu s (pmem s) va") auto
  with s' show ?thesis unfolding mapped_def by fastforce
qed

text \<open>
  C28. An address that is mapped already is refused: both page_walk and page_walk_user
  return 0 and change nothing.
\<close>

theorem page_walk_refuses_mapped:
  assumes "paging_inv s T ps" "canonical v" "index 3 v \<noteq> 510" "mmu s (pmem s) v = Some pa"
    and "is_frame p" "3 \<le> length ps"
  shows "page_walk p v s = Some (0, s) \<and> page_walk_user p v s = Some (0, s)"
  using map_page_ok [OF assms(1-3,5) _ assms(6), of PAGE_KERNEL]
    map_page_ok [OF assms(1-3,5) _ assms(6), of PAGE_USER] assms(4)
  by (simp add: page_walk_def page_walk_user_def flags_ok_def)

end
