(* ===== verification/Kmalloc.thy ===== *)
theory Kmalloc
  imports PageWalk
begin

text \<open>
  The allocators of virtual memory (sys/paging.c): each takes free pages and maps them one
  after the other; and the creation of a new top table for a process.
\<close>

section \<open>The code\<close>

definition set_top_virtual_address :: "u64 \<Rightarrow> 'a paging_scheme \<Rightarrow> 'a paging_scheme" where
  "set_top_virtual_address v_addr s =
     s\<lparr>top_virtual_address := v_addr, paging_user_stack_top := 0xfffffe0000000000 + 0x1000 - 0x8\<rparr>"

definition no_of_pages :: "u64 \<Rightarrow> u64" where
  "no_of_pages n = (if n mod PAGESIZE \<noteq> 0 then n div PAGESIZE + 1 else n div PAGESIZE)"

text \<open>
  The loop all four allocators share: \<open>walk\<close> maps a page, \<open>bump\<close> says whether the top
  address moves with the pages; the result says whether all pages were mapped.
\<close>

primrec kmalloc_loop ::
  "(u64 \<Rightarrow> u64 \<Rightarrow> 'a paging_scheme \<Rightarrow> (cint \<times> 'a paging_scheme) option) \<Rightarrow> bool \<Rightarrow> nat \<Rightarrow> u64 \<Rightarrow>
    'a paging_scheme \<Rightarrow> (bool \<times> 'a paging_scheme) option" where
  "kmalloc_loop walk_page bump 0 v_addr s = Some (True, s)"
| "kmalloc_loop walk_page bump (Suc n) v_addr s = do {
     (p_addr, s) \<leftarrow> get_next_free_page_kmalloc s;
     if p_addr = 0 then Some (False, s)
     else do {
       (result, s) \<leftarrow> walk_page p_addr v_addr s;
       if result = 0 then Some (False, s)
       else kmalloc_loop walk_page bump n (v_addr + PAGESIZE)
         (if bump then s\<lparr>top_virtual_address := top_virtual_address s + PAGESIZE\<rparr> else s)
     }
   }"

definition kmalloc :: "u64 \<Rightarrow> 'a paging_scheme \<Rightarrow> (u64 \<times> 'a paging_scheme) option" where
  "kmalloc n s =
     (let top = top_virtual_address s
      in do {
        (ok, s) \<leftarrow> kmalloc_loop page_walk True (unat (no_of_pages n)) top s;
        Some (if ok then top else 0, s)
      })"

definition kmalloc_user :: "u64 \<Rightarrow> 'a paging_scheme \<Rightarrow> (u64 \<times> 'a paging_scheme) option" where
  "kmalloc_user n s =
     (let top = top_virtual_address s
      in do {
        (ok, s) \<leftarrow> kmalloc_loop page_walk_user True (unat (no_of_pages n + 1)) top s;
        Some (if ok then top else 0, s)
      })"

definition kmalloc_top_virtual_address_kernel ::
  "u64 \<Rightarrow> u64 \<Rightarrow> 'a paging_scheme \<Rightarrow> (u64 \<times> 'a paging_scheme) option" where
  "kmalloc_top_virtual_address_kernel n new_top_virtual_address s =
     (let top = new_top_virtual_address
      in do {
        (ok, s) \<leftarrow> kmalloc_loop page_walk False (unat (no_of_pages n)) top s;
        Some (if ok then top else 0, s)
      })"

definition kmalloc_top_virtual_address_user ::
  "u64 \<Rightarrow> u64 \<Rightarrow> 'a paging_scheme \<Rightarrow> (u64 \<times> 'a paging_scheme) option" where
  "kmalloc_top_virtual_address_user n user_top_virtual_address s =
     (let top = user_top_virtual_address
      in do {
        (ok, s) \<leftarrow> kmalloc_loop page_walk_user False (unat (no_of_pages n)) top s;
        Some (if ok then top else 0, s)
      })"

text \<open>The result of create_new_kernel_pml4 and create_new_user_pml4; the tables argument is not used.\<close>

definition new_pml4 ::
  "(u64 \<Rightarrow> u64 \<Rightarrow> 'a paging_scheme \<Rightarrow> (cint \<times> 'a paging_scheme) option) \<Rightarrow> u64 \<Rightarrow> u64 \<Rightarrow>
    'a paging_scheme \<Rightarrow> (u64 \<times> 'a paging_scheme) option" where
  "new_pml4 walk_page flags p_addr s =
     (let v_addr = top_virtual_address s
      in do {
        (result, s) \<leftarrow> walk_page p_addr v_addr s;
        if result = 0 then Some (0, s)
        else do {
          let s = s\<lparr>top_virtual_address := top_virtual_address s + PAGESIZE\<rparr>;
          e \<leftarrow> rd (mmu s) s (kernel_pml4_t s + 8 * 511);
          s \<leftarrow> wr (mmu s) s (v_addr + 8 * 511) e;
          s \<leftarrow> wr (mmu s) s (v_addr + 8 * 510) (p_addr OR flags);
          Some (v_addr, s)
        }
      })"

definition create_new_kernel_pml4 ::
  "u64 \<Rightarrow> u64 \<Rightarrow> 'a paging_scheme \<Rightarrow> (u64 \<times> 'a paging_scheme) option" where
  "create_new_kernel_pml4 p_addr pml4_t s = new_pml4 page_walk PAGE_KERNEL p_addr s"

definition create_new_user_pml4 ::
  "u64 \<Rightarrow> u64 \<Rightarrow> 'a paging_scheme \<Rightarrow> (u64 \<times> 'a paging_scheme) option" where
  "create_new_user_pml4 p_addr pml4_t s = new_pml4 page_walk_user PAGE_USER p_addr s"

section \<open>Pages of a range\<close>

lemma page_of_iff: "page_of a = a \<longleftrightarrow> take_bit 12 a = 0"
proof
  have m: "page_of a = a AND NOT (mask 12)" by (simp add: page_of_def mask_eq_exp_minus_1)
  show "take_bit 12 a = 0" if "page_of a = a"
  proof -
    have "take_bit 12 (a AND NOT (mask 12)) = 0" by (rule bit_word_eqI) (simp add: bit_simps)
    with that m show ?thesis by simp
  qed
  show "page_of a = a" if "take_bit 12 a = 0"
  proof (unfold m, rule bit_word_eqI)
    fix n assume "n < LENGTH(64)"
    have "bit (take_bit 12 a) n = bit (0 :: u64) n" using that by (simp only:)
    then show "bit (a AND NOT (mask 12)) n = bit a n"
      using \<open>n < LENGTH(64)\<close> by (auto simp: bit_simps simp del: mask_numeral)
  qed
qed

lemma page_aligned_iff: "page_of a = a \<longleftrightarrow> unat a mod 4096 = 0"
proof -
  have "unat (take_bit 12 a) = unat a mod 4096"
    by (simp only: unsigned_take_bit_eq) (simp add: take_bit_eq_mod)
  then show ?thesis by (metis page_of_iff unat_eq_zero)
qed

lemma page_of_add:
  assumes "page_of a = a"
  shows "page_of (a + 4096 * k) = a + 4096 * k"
proof -
  have sum: "unat (x + y) mod 4096 = (unat x + unat y) mod 4096" for x y :: u64
    by (simp add: unat_word_ariths mod_mod_cancel)
  have "unat (4096 * k) mod 4096 = 0" by (simp add: unat_word_ariths mod_mod_cancel)
  with assms have "4096 dvd unat a + unat (4096 * k)" by (simp add: page_aligned_iff mod_eq_0_iff_dvd)
  then show ?thesis using sum [of a "4096 * k"] by (simp add: page_aligned_iff mod_eq_0_iff_dvd)
qed

lemma page_multiple_nonzero: "\<lbrakk>0 < i; i < 2 ^ 52\<rbrakk> \<Longrightarrow> 4096 * (of_nat i :: u64) \<noteq> 0"
proof
  assume i: "0 < i" "i < 2 ^ 52" and "4096 * (of_nat i :: u64) = 0"
  then have "unat (of_nat (4096 * i) :: u64) = 0" by simp
  then have "(4096 * i) mod 2 ^ 64 = 0" by (simp only: unat_of_nat) simp
  moreover have "4096 * i < 2 ^ 64" using i(2) by simp
  ultimately show False using i(1) by simp
qed

text \<open>
  The interface to page_walk the loop relies on: on a state with enough free pages it maps
  an unmapped address outside the recursive slot, and nothing else changes.
\<close>

definition mappable :: "'a paging_scheme \<Rightarrow> u64 \<Rightarrow> bool" where
  "mappable s v \<longleftrightarrow> canonical v \<and> index 3 v \<noteq> 510 \<and> mmu s (pmem s) v = None"

lemma paging_inv_top [simp]: "paging_inv (s\<lparr>top_virtual_address := x\<rparr>) T ps = paging_inv s T ps"
  by (simp add: paging_inv_def kernel_list_def)

text \<open>The pages of a range of \<open>n\<close> pages from \<open>v\<close>.\<close>

definition page_range :: "u64 \<Rightarrow> nat \<Rightarrow> u64 set" where
  "page_range v n = (\<lambda>i. v + 4096 * of_nat i) ` {..<n}"

lemma page_range_Suc: "page_range v (Suc n) = insert v (page_range (v + 4096) n)"
proof -
  have "{..<Suc n} = insert 0 (Suc ` {..<n})" by (auto simp: less_Suc_eq_0_disj)
  then show ?thesis by (auto simp: page_range_def image_image algebra_simps)
qed

lemma page_range_away: "\<lbrakk>page_of v = v; n < 2 ^ 52\<rbrakk> \<Longrightarrow> v \<notin> page_range (v + 4096) n"
proof
  assume v: "page_of v = v" and n: "n < 2 ^ 52" and "v \<in> page_range (v + 4096) n"
  then obtain i where i: "i < n" "v = v + 4096 + 4096 * of_nat i" by (auto simp: page_range_def)
  then have "4096 * (of_nat (Suc i) :: u64) = 0" by (simp add: algebra_simps)
  with page_multiple_nonzero [of "Suc i"] i(1) n show False by simp
qed

lemma page_range_pages: "\<lbrakk>page_of v = v; va \<in> page_range v n\<rbrakk> \<Longrightarrow> page_of va = va"
  by (auto simp: page_range_def page_of_add)

text \<open>Mapping a range outside the kernel's half leaves the tables of other address spaces alone.\<close>

definition confined_range ::
  "u64 \<Rightarrow> nat \<Rightarrow> 'a paging_scheme \<Rightarrow> (nat \<Rightarrow> u64 set) \<Rightarrow> (u64 \<times> u64) list \<Rightarrow> 'a paging_scheme \<Rightarrow> (nat \<Rightarrow> u64 set) \<Rightarrow> (u64 \<times> u64) list \<Rightarrow> bool" where
  "confined_range v n s T ps s' T' ps' \<longleftrightarrow> ((\<forall>va \<in> page_range v n. index 3 va \<noteq> 511) \<longrightarrow>
     (\<forall>X. isolated s T ps X \<longrightarrow> isolated s' T' ps' X \<and> spares X s s'))"

lemma isolated_top [simp]: "isolated (s\<lparr>top_virtual_address := x\<rparr>) T ps X = isolated s T ps X"
  "spares X (s\<lparr>top_virtual_address := x\<rparr>) s' = spares X s s'"
  "spares X s (s'\<lparr>top_virtual_address := x\<rparr>) = spares X s s'"
  by (simp_all add: isolated_def spares_def)

lemma confined_top [simp]: "confined v s T ps (s'\<lparr>top_virtual_address := x\<rparr>) T' ps' = confined v s T ps s' T' ps'"
  by (simp add: confined_def)

lemma confined_range_Suc:
  assumes "confined v s T ps s1 T1 ps1" "confined_range (v + 4096) n s1 T1 ps1 s' T' ps'"
  shows "confined_range v (Suc n) s T ps s' T' ps'"
  unfolding confined_range_def
proof (intro impI allI)
  fix X assume v: "\<forall>va \<in> page_range v (Suc n). index 3 va \<noteq> 511" and X: "isolated s T ps X"
  have v1: "index 3 v \<noteq> 511" "\<forall>va \<in> page_range (v + 4096) n. index 3 va \<noteq> 511"
    using v unfolding page_range_Suc by blast+
  have "isolated s1 T1 ps1 X \<and> spares X s s1" by (rule confinedD [OF assms(1) v1(1) X])
  moreover from this have "isolated s' T' ps' X \<and> spares X s1 s'"
    using assms(2) v1(2) unfolding confined_range_def by blast
  ultimately show "isolated s' T' ps' X \<and> spares X s s'" using spares_trans by blast
qed

definition range_mapped ::
  "u64 \<Rightarrow> nat \<Rightarrow> u64 list \<Rightarrow> 'a paging_scheme \<Rightarrow> (nat \<Rightarrow> u64 set) \<Rightarrow> (u64 \<times> u64) list \<Rightarrow> 'a paging_scheme \<Rightarrow> bool" where
  "range_mapped v n fs s T ps s' \<longleftrightarrow> length fs = n \<and> distinct fs \<and> set fs \<subseteq> snd ` set ps \<and>
     (\<forall>i<n. \<forall>va. page_of va = v + 4096 * of_nat i \<longrightarrow> mmu s' (pmem s') va = Some (fs ! i OR (va AND 0xfff))) \<and>
     (\<forall>va. index 3 va \<noteq> 510 \<and> page_of va \<notin> page_range v n \<longrightarrow> mmu s' (pmem s') va = mmu s (pmem s) va) \<and>
     keeps_translations s s' \<and> untouched T ps s s' \<and>
     (\<exists>T' rest. paging_inv s' T' rest \<and> set rest \<subseteq> set ps \<and> length ps \<le> length rest + 4 * n \<and>
        all_tables T' \<subseteq> all_tables T \<union> snd ` set ps \<and>
        set fs \<inter> (all_tables T' \<union> snd ` set rest) = {} \<and> confined_range v n s T ps s' T' rest)"

locale page_mapper =
  fixes walk_page :: "u64 \<Rightarrow> u64 \<Rightarrow> 'a paging_scheme \<Rightarrow> (cint \<times> 'a paging_scheme) option"
  assumes walk_maps: "\<lbrakk>paging_inv s T ps; mappable s v; is_frame p; 3 \<le> length ps\<rbrakk> \<Longrightarrow>
      \<exists>s'. walk_page p v s = Some (1, s') \<and> mapped p v s T ps s'"

context page_mapper
begin

text \<open>One round: a free page is taken, mapped at \<open>v\<close>, and the others stay as they are.\<close>

lemma one_round:
  assumes inv: "paging_inv s T ps" and v: "mappable s v" and len: "4 \<le> length ps"
    and nz: "0 \<notin> snd ` set ps"
  obtains p s1 s2 T' rest where "get_next_free_page_kmalloc s = Some (p, s1)" "p \<noteq> 0"
    "walk_page p v s1 = Some (1, s2)" "p \<in> snd ` set ps" "paging_inv s2 T' rest" "set rest \<subseteq> set ps"
    "length ps \<le> length rest + 4" "all_tables T' \<subseteq> all_tables T \<union> snd ` set ps"
    "p \<notin> all_tables T' \<union> snd ` set rest" "(all_tables T' - all_tables T) \<inter> snd ` set rest = {}"
    "keeps_translations s s2" "same_globals s s2"
    "\<And>va. page_of va = page_of v \<Longrightarrow> mmu s2 (pmem s2) va = Some (p OR (va AND 0xfff))"
    "\<And>va. index 3 va \<noteq> 510 \<Longrightarrow> page_of va \<noteq> page_of v \<Longrightarrow> mmu s2 (pmem s2) va = mmu s (pmem s) va"
    "untouched T ps s s2" "confined v s T ps s2 T' rest" "blank (pmem s2) p"
proof -
  obtain e p ps1 where ps: "ps = (e, p) # ps1" using len by (cases ps) auto
  let ?s1 = "after_alloc e s"
  have inv': "paging_inv s T ((e, p) # ps1)" using inv ps by simp
  have four: "(4 :: nat) \<noteq> 3" by simp
  note alloc = inv_alloc [OF inv' four]
  let ?T = "T(4 := insert p (T 4))"
  have T: "all_tables ?T = all_tables T" by (auto simp: all_tables_def)
  have "mappable ?s1 v" using v alloc_translations(2) [OF inv'] by (simp add: mappable_def)
  moreover have p: "is_frame p" "p \<notin> all_tables T" "p \<notin> snd ` set ps1" "p \<noteq> 0"
    using inv' nz ps by (auto simp: paging_inv_def blank_def)
  moreover have "3 \<le> length ps1" using len ps by simp
  ultimately obtain s2 where s2: "walk_page p v ?s1 = Some (1, s2)" "mapped p v ?s1 ?T ps1 s2"
    using walk_maps [OF alloc(2)] by blast
  then obtain T' used rest where m: "keeps_translations ?s1 s2" "only_page v ?s1 s2" "same_globals ?s1 s2"
    "\<forall>va. page_of va = page_of v \<longrightarrow> mmu s2 (pmem s2) va = Some (p OR (va AND 0xfff))"
    "ps1 = used @ rest" "length used \<le> 3" "paging_inv s2 T' rest" "all_tables T' = all_tables T \<union> snd ` set used"
    "untouched ?T ps1 ?s1 s2" "confined v ?s1 ?T ps1 s2 T' rest"
    unfolding mapped_def T by (elim exE conjE) (rule that)
  have d: "distinct (map snd ps1)" "\<forall>f \<in> snd ` set ps1. f \<notin> all_tables T" using inv' by (auto simp: paging_inv_def)
  have other: "mmu s2 (pmem s2) va = mmu s (pmem s) va" if "index 3 va \<noteq> 510" "page_of va \<noteq> page_of v" for va
  proof (cases "mmu ?s1 (pmem ?s1) va")
    case None
    then show ?thesis using m(2) alloc_translations(2) [OF inv' that(1)] that by (simp add: only_page_def)
  next
    case (Some pa)
    then have "mmu s2 (pmem s2) va = Some pa" using m(1) unfolding keeps_translations_def by blast
    then show ?thesis using Some alloc_translations(2) [OF inv' that(1)] by simp
  qed
  have unt: "untouched T ps s s2"
  proof (rule untouched_trans)
    show "untouched T ps s ?s1" unfolding ps by (rule untouched_after_alloc [OF inv'])
    show "untouched ?T ps1 ?s1 s2" by (rule m(9))
    show "paging_word T ps a" if "paging_word ?T ps1 a" for a
      using that unfolding paging_word_def T ps by auto
  qed
  have bl: "blank (pmem s2) p"
  proof -
    have "load64 (pmem s2) (slot p i) = load64 (pmem s) (slot p i)" if i: "i AND 0x1ff = i" for i
    proof -
      have "page_of (slot p i) = p" by (rule slot_frame_parts(1) [OF p(1) i])
      moreover have "page_of w \<noteq> p" if "e \<in> fst ` set ps1" "w \<in> words e" for e w
        using inv' that by (auto simp: paging_inv_def)
      ultimately have "\<not> paging_word ?T ps1 (slot p i)" using p(2,3) T by (auto simp: paging_word_def)
      then have "load64 (pmem s2) (slot p i) = load64 (pmem ?s1) (slot p i)"
        using m(9) slot_frame_parts(3) [OF p(1) i] unfolding untouched_def by blast
      then show ?thesis using alloc(3) [OF _ i, of p] by simp
    qed
    moreover have "blank (pmem s) p" using inv' by (simp add: paging_inv_def)
    ultimately show ?thesis by (simp add: blank_def)
  qed
  show ?thesis
  proof (rule that [OF alloc(1) p(4) s2(1) _ m(7) _ _ _ _ _ _ _ _ _ unt _ bl])
    have "confined v s T ps ?s1 ?T ps1"
      unfolding confined_def using isolated_alloc [OF inv' four] ps by simp
    then show "confined v s T ps s2 T' rest" by (rule confined_trans) (rule m(10))
    show "(all_tables T' - all_tables T) \<inter> snd ` set rest = {}" using m(5,8) d(1) by auto
    show "p \<notin> all_tables T' \<union> snd ` set rest" using m(5,8) p by auto
    show "keeps_translations s s2" by (rule keeps_trans [OF alloc_translations(1) [OF inv'] m(1)])
    show "same_globals s s2" by (rule same_globals_trans [OF _ m(3)]) simp
  qed (use m ps other in \<open>auto\<close>)
qed

lemma kmalloc_loop_ok:
  "\<lbrakk>paging_inv s T ps; page_of v = v; n < 2 ^ 52; \<forall>va \<in> page_range v n. mappable s va;
    4 * n \<le> length ps; 0 \<notin> snd ` set ps\<rbrakk> \<Longrightarrow>
    \<exists>s' fs. kmalloc_loop walk_page bump n v s = Some (True, s') \<and> range_mapped v n fs s T ps s' \<and>
      same_globals (s\<lparr>top_virtual_address := top_virtual_address s + (if bump then 4096 * of_nat n else 0)\<rparr>) s'"
proof (induction n arbitrary: s T ps v)
  case 0
  then have "range_mapped v 0 [] s T ps s" by (auto simp: range_mapped_def page_range_def confined_range_def)
  then show ?case by auto
next
  case (Suc n)
  have v: "mappable s v" using Suc.prems(4) by (simp add: page_range_Suc)
  have "4 \<le> length ps" using Suc.prems(5) by simp
  from one_round [OF Suc.prems(1) v this Suc.prems(6)] obtain p s1 s2 T' rest where
    r: "get_next_free_page_kmalloc s = Some (p, s1)" "p \<noteq> 0" "walk_page p v s1 = Some (1, s2)"
    "p \<in> snd ` set ps" "paging_inv s2 T' rest" "set rest \<subseteq> set ps" "length ps \<le> length rest + 4"
    "all_tables T' \<subseteq> all_tables T \<union> snd ` set ps" "p \<notin> all_tables T' \<union> snd ` set rest"
    "(all_tables T' - all_tables T) \<inter> snd ` set rest = {}"
    "keeps_translations s s2" "same_globals s s2"
    "\<And>va. page_of va = page_of v \<Longrightarrow> mmu s2 (pmem s2) va = Some (p OR (va AND 0xfff))"
    "\<And>va. index 3 va \<noteq> 510 \<Longrightarrow> page_of va \<noteq> page_of v \<Longrightarrow> mmu s2 (pmem s2) va = mmu s (pmem s) va"
    "untouched T ps s s2" "confined v s T ps s2 T' rest" "blank (pmem s2) p"
    by blast
  let ?s = "if bump then s2\<lparr>top_virtual_address := top_virtual_address s2 + PAGESIZE\<rparr> else s2"
  have eq: "mmu ?s (pmem ?s) = mmu s2 (pmem s2)" "cr3_reg ?s = cr3_reg s2" by simp_all
  have away: "v \<notin> page_range (v + 4096) n" by (rule page_range_away) (use Suc.prems in simp_all)
  have v': "page_of (v + 4096) = v + 4096" using page_of_add [OF Suc.prems(2), of 1] by simp
  have "mappable ?s va" if va: "va \<in> page_range (v + 4096) n" for va
  proof -
    have "page_of va \<noteq> page_of v" using page_range_pages [OF v' va] away va Suc.prems(2) by auto
    moreover have "mappable s va" using Suc.prems(4) va by (simp add: page_range_Suc)
    ultimately show ?thesis using r(14) eq by (simp add: mappable_def)
  qed
  moreover have "paging_inv ?s T' rest" using r(5) by simp
  moreover have "4 * n \<le> length rest" "0 \<notin> snd ` set rest" using Suc.prems(5,6) r(6,7) by auto
  ultimately obtain s' fs where s': "kmalloc_loop walk_page bump n (v + 4096) ?s = Some (True, s')"
    "range_mapped (v + 4096) n fs ?s T' rest s'"
    "same_globals (?s\<lparr>top_virtual_address := top_virtual_address ?s + (if bump then 4096 * of_nat n else 0)\<rparr>) s'"
    using Suc.IH [of ?s T' rest "v + 4096"] v' Suc.prems(3) by auto
  from s'(2) obtain T'' rest' where m: "length fs = n" "distinct fs" "set fs \<subseteq> snd ` set rest"
    "\<forall>i<n. \<forall>va. page_of va = v + 4096 + 4096 * of_nat i \<longrightarrow> mmu s' (pmem s') va = Some (fs ! i OR (va AND 0xfff))"
    "\<forall>va. index 3 va \<noteq> 510 \<and> page_of va \<notin> page_range (v + 4096) n \<longrightarrow> mmu s' (pmem s') va = mmu ?s (pmem ?s) va"
    "keeps_translations ?s s'" "paging_inv s' T'' rest'" "set rest' \<subseteq> set rest"
    "length rest \<le> length rest' + 4 * n"
    "all_tables T'' \<subseteq> all_tables T' \<union> snd ` set rest" "set fs \<inter> (all_tables T'' \<union> snd ` set rest') = {}"
    "untouched T' rest ?s s'" "confined_range (v + 4096) n ?s T' rest s' T'' rest'"
    unfolding range_mapped_def by (elim exE conjE) (rule that)
  have keeps: "keeps_translations s2 s'" using m(6) by (cases bump) (auto simp: keeps_translations_def)
  have "range_mapped v (Suc n) (p # fs) s T ps s'"
    unfolding range_mapped_def
  proof (intro conjI allI impI exI [of _ T''] exI [of _ rest'])
    fix i va assume i: "i < Suc n" "page_of va = v + 4096 * of_nat i"
    show "mmu s' (pmem s') va = Some ((p # fs) ! i OR (va AND 0xfff))"
    proof (cases i)
      case 0
      then have "mmu s2 (pmem s2) va = Some (p OR (va AND 0xfff))" using r(13) i Suc.prems(2) by simp
      then show ?thesis using keeps 0 unfolding keeps_translations_def by auto
    next
      case (Suc j)
      then show ?thesis using m(4) i by (simp add: algebra_simps)
    qed
  next
    fix va assume va: "index 3 va \<noteq> 510 \<and> page_of va \<notin> page_range v (Suc n)"
    then show "mmu s' (pmem s') va = mmu s (pmem s) va"
      using m(5) r(14) eq Suc.prems(2) by (simp add: page_range_Suc)
  next
    have "confined v s T ps ?s T' rest" using r(16) by (cases bump) simp_all
    then show "confined_range v (Suc n) s T ps s' T'' rest'" by (rule confined_range_Suc) (rule m(13))
    show "distinct (p # fs)" using m(2,3) r(9) by auto
    show "set (p # fs) \<subseteq> snd ` set ps" using m(3) r(4,6) by auto
    show "keeps_translations s s'" by (rule keeps_trans [OF r(11) keeps])
    show "untouched T ps s s'"
    proof (rule untouched_trans [OF r(15)])
      show "untouched T' rest s2 s'" using m(12) by (simp add: untouched_def)
      show "paging_word T ps a" if "paging_word T' rest a" for a
        using that r(6,8) unfolding paging_word_def by auto
    qed
    show "all_tables T'' \<subseteq> all_tables T \<union> snd ` set ps" using m(10) r(6,8) by auto
    show "length ps \<le> length rest' + 4 * Suc n" using m(9) r(7) by simp
    show "set (p # fs) \<inter> (all_tables T'' \<union> snd ` set rest') = {}" using m(8,10,11) r(9) by auto
  qed (use m r in \<open>auto\<close>)
  moreover have "kmalloc_loop walk_page bump (Suc n) v s = Some (True, s')"
    using r(1-3) s'(1) by simp
  moreover have "same_globals (s\<lparr>top_virtual_address :=
      top_virtual_address s + (if bump then 4096 * of_nat (Suc n) else 0)\<rparr>) s'"
    using s'(3) r(12) by (cases bump) (simp_all add: same_globals_def algebra_simps)
  ultimately show ?case by blast
qed

end

interpretation kernel_mapper: page_mapper page_walk
proof unfold_locales
  fix s :: "'a paging_scheme" and T ps v p
  assume a: "paging_inv s T ps" "mappable s v" "is_frame p" "3 \<le> length ps"
  have "flags_ok PAGE_KERNEL" by (simp add: flags_ok_def)
  from map_page_ok [OF a(1) _ _ a(3) this a(4), of v] a(2)
  show "\<exists>s'. page_walk p v s = Some (1, s') \<and> mapped p v s T ps s'"
    by (simp add: mappable_def page_walk_def)
qed

interpretation user_mapper: page_mapper page_walk_user
proof unfold_locales
  fix s :: "'a paging_scheme" and T ps v p
  assume a: "paging_inv s T ps" "mappable s v" "is_frame p" "3 \<le> length ps"
  have "flags_ok PAGE_USER" by (simp add: flags_ok_def)
  from map_page_ok [OF a(1) _ _ a(3) this a(4), of v] a(2)
  show "\<exists>s'. page_walk_user p v s = Some (1, s') \<and> mapped p v s T ps s'"
    by (simp add: mappable_def page_walk_user_def)
qed

section \<open>A new top table\<close>

lemma page_plus:
  assumes "page_of v = v" "k AND 0xfff = k"
  shows "v + k = v OR k" "page_of (v OR k) = v" "(v OR k) AND 0xfff = k"
proof -
  have m: "(0xfff :: u64) = mask 12" by (simp add: mask_eq_exp_minus_1)
  have v: "\<not> bit v n" if "n < 12" for n
  proof -
    have "bit v n = bit (v AND NOT (mask 12)) n" using assms(1) by (simp only: page_of_def m)
    then show ?thesis using that by (simp add: bit_simps del: mask_numeral)
  qed
  have k: "n < 12" if "bit k n" for n
  proof -
    have "bit k n = bit (k AND mask 12) n" using assms(2) by (simp only: m)
    then show ?thesis using that by (simp add: bit_simps del: mask_numeral)
  qed
  show "v + k = v OR k" by (rule disjunctive_add) (use v k in blast)
  show "page_of (v OR k) = v" "(v OR k) AND 0xfff = k"
    unfolding page_of_def m
    by (rule bit_word_eqI; use v k in \<open>auto simp: bit_simps simp del: mask_numeral\<close>)+
qed

lemma new_pml4_ok:
  assumes walk: "walk_page p v s = Some (1, s2)" and m: "mapped p v s T ps s2" and flags: "flags_ok flags"
    and v: "v = top_virtual_address s" "page_of v = v"
    and p: "is_frame p" "blank (pmem s) p" "p \<notin> all_tables T \<union> snd ` set ps"
      "\<forall>e \<in> fst ` set ps. \<forall>w \<in> words e. page_of w \<noteq> p"
    and K: "is_frame K" "K \<noteq> p" "mmu s (pmem s) (kernel_pml4_t s + 8 * 511) = Some (slot K 511)"
  shows "\<exists>s'. new_pml4 walk_page flags p s = Some (v, s') \<and> keeps_translations s s' \<and>
    top_virtual_address s' = top_virtual_address s + PAGESIZE \<and> recursive (pmem s') p \<and>
    (\<forall>va. index 3 va = 511 \<longrightarrow> translate p (pmem s') va = translate K (pmem s') va) \<and>
    (\<forall>va. index 3 va \<noteq> 510 \<and> index 3 va \<noteq> 511 \<longrightarrow> translate p (pmem s') va = None)"
proof -
  have keeps: "keeps_translations s s2" and glob: "same_globals s s2" and unt: "untouched T ps s s2"
    and at: "\<And>va. page_of va = v \<Longrightarrow> mmu s2 (pmem s2) va = Some (p OR (va AND 0xfff))"
    using m v(2) unfolding mapped_def by auto
  have slots: "v + 8 * 511 = v OR 0xff8" "v + 8 * 510 = v OR 0xff0"
    "p OR 0xff8 = slot p 511" "p OR 0xff0 = slot p 510"
    using page_plus(1) [OF v(2), of "0xff8"] page_plus(1) [OF v(2), of "0xff0"] by (simp_all add: slot_def)
  have al: "aligned8 (slot p i)" if "i AND 0x1ff = i" for i using slot_frame_parts(3) [OF p(1) that] .
  have zero: "load64 (pmem s2) (slot p i) = 0" if i: "i AND 0x1ff = i" for i
  proof -
    have page: "page_of (slot p i) = p" by (rule slot_frame_parts(1) [OF p(1) i])
    then have "\<not> paging_word T ps (slot p i)" using p(3,4) unfolding paging_word_def by auto
    then have "load64 (pmem s2) (slot p i) = load64 (pmem s) (slot p i)"
      using unt al [OF i] unfolding untouched_def by blast
    then show ?thesis using p(2) i by (simp add: blank_def)
  qed
  let ?e = "load64 (pmem s2) (slot K 511)"
  let ?s2 = "s2\<lparr>top_virtual_address := top_virtual_address s2 + PAGESIZE\<rparr>"
  let ?s3 = "?s2\<lparr>pmem := store64 (pmem s2) (slot p 511) ?e\<rparr>"
  let ?s4 = "?s3\<lparr>pmem := store64 (pmem ?s3) (slot p 510) (p OR flags)\<rparr>"
  have g: "cr3_reg s2 = cr3_reg s" "top_virtual_address s2 = top_virtual_address s"
    "kernel_pml4_t s2 = kernel_pml4_t s"
    using same_globals_fields [OF glob] by simp_all
  have rd: "rd (mmu ?s2) ?s2 (kernel_pml4_t ?s2 + 8 * 511) = Some ?e"
    using keeps K(3) g by (simp add: keeps_translations_def rd_def vload64_def)
  have "mmu s2 (pmem s2) (v + 8 * 511) = Some (slot p 511)"
    using at [of "v OR 0xff8"] page_plus(2,3) [OF v(2), of "0xff8"] slots by simp
  then have w1: "wr (mmu ?s2) ?s2 (v + 8 * 511) ?e = Some ?s3"
    using wr_at [of ?s2 "v + 8 * 511" "slot p 511" ?e] by simp
  have k3: "keeps_translations s2 ?s3"
    by (rule keeps_store [OF al [of 511]]) (simp_all add: zero present_def)
  have "mmu s2 (pmem s2) (v + 8 * 510) = Some (slot p 510)"
    using at [of "v OR 0xff0"] page_plus(2,3) [OF v(2), of "0xff0"] slots by simp
  then have "mmu ?s3 (pmem ?s3) (v + 8 * 510) = Some (slot p 510)"
    using k3 unfolding keeps_translations_def by blast
  then have w2: "wr (mmu ?s3) ?s3 (v + 8 * 510) (p OR flags) = Some ?s4" by (rule wr_at)
  have m3: "load64 (pmem ?s3) (slot p j) = (if j = 511 then ?e else 0)" if "j AND 0x1ff = j" for j
    using zero [OF that] load_other_slot [OF p(1,1) _ that, of 511] by (cases "j = 511") auto
  have m4: "load64 (pmem ?s4) (slot p j) = (if j = 510 then p OR flags else if j = 511 then ?e else 0)"
    if "j AND 0x1ff = j" for j
    using m3 [OF that] load_other_slot [OF p(1,1) _ that, of 510 "pmem ?s3"] by (cases "j = 510") auto
  have K4: "load64 (pmem ?s4) (slot K 511) = ?e"
    using load_other_slot [OF p(1) K(1), of 510 511] load_other_slot [OF p(1) K(1), of 511 511] K(2) by simp
  have k4: "keeps_translations ?s3 ?s4"
    by (rule keeps_store [OF al [of 510]]) (simp_all add: m3 [simplified] present_def)
  have fr: "frame p = p" "frame K = K" using p(1) K(1) by (simp_all add: is_frame_def)
  note x = entry_of_frame [OF p(1) flags]
  have "new_pml4 walk_page flags p s = Some (v, ?s4)"
    using walk rd w1 w2 v(1) by (simp add: new_pml4_def Let_def)
  moreover have "keeps_translations s ?s4"
    by (rule keeps_trans [OF keeps keeps_trans [OF k3 k4]])
  moreover have "recursive (pmem ?s4) p" using m4 [of 510] x by (simp add: recursive_def table_entry_def)
  moreover have "translate p (pmem ?s4) va = translate K (pmem ?s4) va" if va: "index 3 va = 511" for va
  proof -
    have "walk (Suc 3) (pmem ?s4) p va = walk (Suc 3) (pmem ?s4) K va"
      unfolding walk.simps va using m4 [of 511] K4 by simp
    then show ?thesis by (simp add: translate_def fr del: walk.simps)
  qed
  moreover have "translate p (pmem ?s4) va = None" if va: "index 3 va \<noteq> 510" "index 3 va \<noteq> 511" for va
  proof -
    have "load64 (pmem ?s4) (slot p (index 3 va)) = 0" using m4 [of "index 3 va"] va by simp
    then have "walk (Suc 3) (pmem ?s4) p va = None" by (intro walk_absent) (simp add: present_def)
    then show ?thesis by (simp add: translate_def fr del: walk.simps)
  qed
  ultimately show ?thesis using g by (intro exI [of _ ?s4]) simp
qed

section \<open>Properties\<close>

lemma free_pages_bound: "paging_inv s T ps \<Longrightarrow> length ps \<le> 2 ^ 31"
proof -
  assume "paging_inv s T ps"
  then have ds: "distinct (map fst ps)" "\<forall>e \<in> set (map fst ps). e < 0x80000000"
    by (auto simp: paging_inv_def kernel_list_def descs_sep_def)
  have "unat ` set (map fst ps) \<subseteq> {..<2 ^ 31}"
    using ds(2) by (auto simp: word_less_nat_alt)
  from card_mono [OF _ this] have "card (unat ` set (map fst ps)) \<le> 2 ^ 31" by simp
  moreover have "card (unat ` set (map fst ps)) = length ps"
    using distinct_card [OF ds(1)] by (subst card_image) (auto simp: inj_on_def word_unat_eq_iff)
  ultimately show ?thesis by simp
qed

text \<open>
  C9. kmalloc: with four free pages for each page of the block it returns the old top of
  the kernel's addresses; the pages of the block then lead to that many distinct physical
  pages that were free, are no page tables and are no longer free; every other address
  outside the recursive slot translates as before, only page tables, free pages and
  descriptors are written, and of the globals of sys/paging.c only the head of the free list
  and the top of the kernel's addresses move, the top behind the block.
\<close>

theorem kmalloc_maps:
  assumes "paging_inv s T ps" "page_of (top_virtual_address s) = top_virtual_address s"
    and "n = unat (no_of_pages size')"
    and "\<forall>va \<in> page_range (top_virtual_address s) n. mappable s va"
    and "4 * n \<le> length ps" "0 \<notin> snd ` set ps"
  shows "\<exists>s' fs. kmalloc size' s = Some (top_virtual_address s, s') \<and>
    range_mapped (top_virtual_address s) n fs s T ps s' \<and>
    same_globals (s\<lparr>top_virtual_address := top_virtual_address s + 4096 * of_nat n\<rparr>) s'"
proof -
  have "n < 2 ^ 52" using assms(5) free_pages_bound [OF assms(1)] by simp
  from kernel_mapper.kmalloc_loop_ok [OF assms(1,2) this assms(4-6), of True] show ?thesis
    by (auto simp: kmalloc_def Let_def assms(3))
qed

text \<open>
  kmalloc_top_virtual_address_user maps a block at the address it is given, in the
  same way, and leaves the top of the kernel's addresses where it is.
\<close>

lemma kmalloc_user_at_maps:
  assumes "paging_inv s T ps" "page_of v = v" "n = unat (no_of_pages size')"
    and "\<forall>va \<in> page_range v n. mappable s va" "4 * n \<le> length ps" "0 \<notin> snd ` set ps"
  shows "\<exists>s' fs. kmalloc_top_virtual_address_user size' v s = Some (v, s') \<and>
    range_mapped v n fs s T ps s' \<and> same_globals s s'"
proof -
  have "n < 2 ^ 52" using assms(5) free_pages_bound [OF assms(1)] by simp
  from user_mapper.kmalloc_loop_ok [OF assms(1,2) this assms(4-6), of False] show ?thesis
    by (auto simp: kmalloc_top_virtual_address_user_def Let_def assms(3))
qed

text \<open>
  C25. A new address space: create_new_user_pml4 on a blank page maps it at the top of the
  kernel's addresses and makes it a top table whose slot 510 names itself; through it every
  address of the kernel's slot 511 translates as through the kernel's own table, and no
  other address outside the recursive slot translates at all. No translation of the running
  address space is lost.
\<close>

theorem create_new_user_pml4_shares_kernel:
  assumes "paging_inv s T ps" "mappable s v" "v = top_virtual_address s" "page_of v = v" "3 \<le> length ps"
    and "is_frame p" "blank (pmem s) p" "p \<notin> all_tables T \<union> snd ` set ps"
    and "\<forall>e \<in> fst ` set ps. \<forall>w \<in> words e. page_of w \<noteq> p"
    and "is_frame K" "K \<noteq> p" "mmu s (pmem s) (kernel_pml4_t s + 8 * 511) = Some (slot K 511)"
  shows "\<exists>s'. create_new_user_pml4 p t s = Some (v, s') \<and> keeps_translations s s' \<and>
    top_virtual_address s' = top_virtual_address s + PAGESIZE \<and> recursive (pmem s') p \<and>
    (\<forall>va. index 3 va = 511 \<longrightarrow> translate p (pmem s') va = translate K (pmem s') va) \<and>
    (\<forall>va. index 3 va \<noteq> 510 \<and> index 3 va \<noteq> 511 \<longrightarrow> translate p (pmem s') va = None)"
proof -
  have flags: "flags_ok PAGE_USER" by (simp add: flags_ok_def)
  obtain s2 where "page_walk_user p v s = Some (1, s2)" "mapped p v s T ps s2"
    using user_mapper.walk_maps [OF assms(1,2,6,5)] by blast
  from new_pml4_ok [where walk_page = page_walk_user, OF this flags assms(3,4,6-12)] show ?thesis
    unfolding create_new_user_pml4_def .
qed

end
