(* ===== verification/PagingExample.thy ===== *)
theory PagingExample
  imports Kmalloc
begin

text \<open>
  A small machine on which the paging code runs: a kernel with one table of each level,
  the recursive slot, and four free pages whose descriptors lie in a page that the kernel
  maps at KERNBASE. It shows that the paging invariant can hold.
\<close>

section \<open>Memory given by its words\<close>

definition mem_of :: "((u64 \<times> u64) \<times> u64) list \<Rightarrow> mem" where
  "mem_of ws = foldr (\<lambda>((f, i), x) m. store64 m (slot f i) x) ws (\<lambda>_. 0)"

lemma load64_mem_of:
  "\<lbrakk>list_all (\<lambda>((f, i), x). is_frame f \<and> i AND 0x1ff = i) ws; is_frame g; j AND 0x1ff = j\<rbrakk> \<Longrightarrow>
    load64 (mem_of ws) (slot g j) = (case map_of ws (g, j) of None \<Rightarrow> 0 | Some x \<Rightarrow> x)"
proof (induction ws)
  case Nil
  then show ?case by (simp add: mem_of_def load64_zero)
next
  case (Cons w ws)
  obtain f i x where w: "w = ((f, i), x)" by (metis prod.exhaust)
  have "mem_of (w # ws) = store64 (mem_of ws) (slot f i) x" by (simp add: mem_of_def w)
  moreover have "is_frame f" "i AND 0x1ff = i" using Cons.prems(1) w by simp_all
  ultimately show ?case
    using Cons load_other_slot [of f g i j] w by auto
qed

section \<open>The machine\<close>

definition kernel_words :: "((u64 \<times> u64) \<times> u64) list" where
  "kernel_words =
     [((0x100000, 510), 0x100003), ((0x100000, 511), 0x101003), ((0x101000, 510), 0x102003),
      ((0x102000, 0), 0x103003), ((0x103000, 0x100), 0x100003), ((0x103000, 0x104), 0x104003),
      ((0x104000, 0), 0x104018), ((0x104000, 2), 0x200000),
      ((0x104000, 3), 0x104030), ((0x104000, 5), 0x201000),
      ((0x104000, 6), 0x104048), ((0x104000, 8), 0x202000),
      ((0x104000, 11), 0x203000)]"

definition small_kernel :: paging where
  "small_kernel = \<lparr>pmem = mem_of kernel_words, cr3_reg = 0x100000, free_list_head = 0x104000,
     free_list_head_kmalloc = KERNBASE + 0x104000, free_list = 0x104000,
     free_list_page_length = 1, free_list_total_pages = 4, kernel_cr3 = 0x100000,
     top_virtual_address = 0xffffffff90000000, kernel_pml4_t = KERNBASE + 0x100000,
     paging_user_stack_top = 0\<rparr>"

definition small_tables :: "nat \<Rightarrow> u64 set" where
  "small_tables n = (if n = 3 then {0x100000} else if n = 2 then {0x101000}
     else if n = 1 then {0x102000} else if n = 0 then {0x103000} else {})"

definition small_free :: "(u64 \<times> u64) list" where
  "small_free = [(0x104000, 0x200000), (0x104018, 0x201000), (0x104030, 0x202000), (0x104048, 0x203000)]"

lemma small_frames:
  "is_frame 0x100000" "is_frame 0x101000" "is_frame 0x102000" "is_frame 0x103000" "is_frame 0x104000"
  "is_frame 0x200000" "is_frame 0x201000" "is_frame 0x202000" "is_frame 0x203000"
  by (simp_all add: is_frame_def frame_def)

lemma kernel_words_ok: "list_all (\<lambda>((f, i), x). is_frame f \<and> i AND 0x1ff = i) kernel_words"
  by (simp add: kernel_words_def small_frames)

lemma load_kernel_words:
  "\<lbrakk>is_frame g; j AND 0x1ff = j\<rbrakk> \<Longrightarrow>
    load64 (mem_of kernel_words) (slot g j) = (case map_of kernel_words (g, j) of None \<Rightarrow> 0 | Some x \<Rightarrow> x)"
  by (rule load64_mem_of [OF kernel_words_ok])

lemma small_kernel_simps [simp]:
  "pmem small_kernel = mem_of kernel_words" "cr3_reg small_kernel = 0x100000"
  "free_list_head_kmalloc small_kernel = KERNBASE + 0x104000"
  "top_virtual_address small_kernel = 0xffffffff90000000"
  "kernel_pml4_t small_kernel = KERNBASE + 0x100000"
  by (simp_all add: small_kernel_def)

lemma small_tables_simps [simp]:
  "small_tables 3 = {0x100000}" "small_tables 2 = {0x101000}" "small_tables 1 = {0x102000}"
  "small_tables (Suc 0) = {0x102000}" "small_tables 0 = {0x103000}"
  by (simp_all add: small_tables_def)

lemma small_all_tables: "all_tables small_tables = {0x100000, 0x101000, 0x102000, 0x103000}"
proof -
  have "{..3 :: nat} = {0, 1, 2, 3}" by auto
  then show ?thesis by (auto simp: all_tables_def)
qed

lemma desc_words:
  "slot 0x104000 0 = 0x104000" "slot 0x104000 1 = 0x104008" "slot 0x104000 2 = 0x104010"
  "slot 0x104000 3 = 0x104018" "slot 0x104000 4 = 0x104020" "slot 0x104000 5 = 0x104028"
  "slot 0x104000 6 = 0x104030" "slot 0x104000 7 = 0x104038" "slot 0x104000 8 = 0x104040"
  "slot 0x104000 9 = 0x104048" "slot 0x104000 10 = 0x104050" "slot 0x104000 11 = 0x104058"
  by (simp_all add: slot_def)

lemma load_desc_slots:
  "load64 (mem_of kernel_words) (slot 0x104000 0) = 0x104018"
  "load64 (mem_of kernel_words) (slot 0x104000 1) = 0"
  "load64 (mem_of kernel_words) (slot 0x104000 2) = 0x200000"
  "load64 (mem_of kernel_words) (slot 0x104000 3) = 0x104030"
  "load64 (mem_of kernel_words) (slot 0x104000 4) = 0"
  "load64 (mem_of kernel_words) (slot 0x104000 5) = 0x201000"
  "load64 (mem_of kernel_words) (slot 0x104000 6) = 0x104048"
  "load64 (mem_of kernel_words) (slot 0x104000 7) = 0"
  "load64 (mem_of kernel_words) (slot 0x104000 8) = 0x202000"
  "load64 (mem_of kernel_words) (slot 0x104000 9) = 0"
  "load64 (mem_of kernel_words) (slot 0x104000 10) = 0"
  "load64 (mem_of kernel_words) (slot 0x104000 11) = 0x203000"
  by (simp_all add: load_kernel_words small_frames) (simp_all add: kernel_words_def)

lemmas load_desc_words [simp] = load_desc_slots [unfolded desc_words]

lemma load_tables:
  "i AND 0x1ff = i \<Longrightarrow> load64 (mem_of kernel_words) (slot 0x100000 i) =
    (if i = 510 then 0x100003 else if i = 511 then 0x101003 else 0)"
  "i AND 0x1ff = i \<Longrightarrow> load64 (mem_of kernel_words) (slot 0x101000 i) = (if i = 510 then 0x102003 else 0)"
  "i AND 0x1ff = i \<Longrightarrow> load64 (mem_of kernel_words) (slot 0x102000 i) = (if i = 0 then 0x103003 else 0)"
  "i AND 0x1ff = i \<Longrightarrow> load64 (mem_of kernel_words) (slot 0x103000 i) =
    (if i = 0x100 then 0x100003 else if i = 0x104 then 0x104003 else 0)"
  by (simp_all add: load_kernel_words small_frames) (simp_all add: kernel_words_def)

lemma small_frame_of:
  "frame 0x100000 = 0x100000" "frame 0x100003 = 0x100000" "frame 0x101003 = 0x101000" "frame 0x102003 = 0x102000"
  "frame 0x103003 = 0x103000" "frame 0x104003 = 0x104000"
  by (simp_all add: frame_def)

text \<open>The kernel maps the page of its top table and the one of the descriptors at KERNBASE.\<close>

lemma translate_low:
  assumes "page_of a = va" "page_of va = va" "canonical va" "index 3 va = 511" "index 2 va = 510" "index 1 va = 0"
  shows "translate 0x100000 (mem_of kernel_words) a = walk 1 (mem_of kernel_words) 0x103000 a"
    "index 0 a = index 0 va"
proof -
  have same: "index n a = index n va" "canonical a" for n
    using same_page [of a va n] assms by simp_all
  then show "index 0 a = index 0 va" by simp
  note facts = same(1) assms load_tables small_frame_of table_entry_def present_def
  have "walk 4 (mem_of kernel_words) 0x100000 a = walk 3 (mem_of kernel_words) 0x101000 a"
    using walk_tables(1) [of "mem_of kernel_words" "0x100000" a] by (simp add: facts assms(6) [unfolded One_nat_def] del: walk.simps)
  also have "\<dots> = walk 2 (mem_of kernel_words) 0x102000 a"
    using walk_tables(2) [of "mem_of kernel_words" "0x101000" a] by (simp add: facts assms(6) [unfolded One_nat_def] del: walk.simps)
  also have "\<dots> = walk 1 (mem_of kernel_words) 0x103000 a"
    using walk_tables(3) [of "mem_of kernel_words" "0x102000" a] by (simp add: facts assms(6) [unfolded One_nat_def] del: walk.simps)
  finally show "translate 0x100000 (mem_of kernel_words) a = walk 1 (mem_of kernel_words) 0x103000 a"
    using same(2) by (simp add: translate_levels small_frame_of del: walk.simps One_nat_def)
qed

lemma translate_desc:
  assumes "page_of a = 0xffffffff80104000"
  shows "translate 0x100000 (mem_of kernel_words) a = Some (0x104000 OR (a AND 0xfff))"
proof -
  have i: "index 0 a = 0x104" using translate_low(2) [OF assms] by (simp add: index_def canonical_def page_of_def)
  have "translate 0x100000 (mem_of kernel_words) a = walk 1 (mem_of kernel_words) 0x103000 a"
    by (rule translate_low(1) [OF assms]) (simp_all add: index_def canonical_def page_of_def)
  also have "\<dots> = Some (0x104000 OR (a AND 0xfff))"
    using walk_leaf [of "mem_of kernel_words" "0x103000" a] by (simp add: i load_tables small_frame_of present_def del: walk.simps)
  finally show ?thesis .
qed

lemma translate_top_table:
  assumes "page_of a = 0xffffffff80100000"
  shows "translate 0x100000 (mem_of kernel_words) a = Some (0x100000 OR (a AND 0xfff))"
proof -
  have i: "index 0 a = 0x100" using translate_low(2) [OF assms] by (simp add: index_def canonical_def page_of_def)
  have "translate 0x100000 (mem_of kernel_words) a = walk 1 (mem_of kernel_words) 0x103000 a"
    by (rule translate_low(1) [OF assms]) (simp_all add: index_def canonical_def page_of_def)
  also have "\<dots> = Some (0x100000 OR (a AND 0xfff))"
    using walk_leaf [of "mem_of kernel_words" "0x103000" a] by (simp add: i load_tables small_frame_of present_def del: walk.simps)
  finally show ?thesis .
qed

section \<open>The invariant holds\<close>

lemma small_words: "\<forall>e \<in> fst ` set small_free. \<forall>w \<in> words e. page_of (KERNBASE + w) = KERNBASE + 0x104000 \<and>
    page_of w = 0x104000 \<and> 0x104000 OR ((KERNBASE + w) AND 0xfff) = w"
  by (simp add: small_free_def words_def page_of_def)

lemma small_kernel_list: "kernel_list small_kernel small_free"
  unfolding kernel_list_def
proof (intro conjI ballI)
  show "descs_sep (map fst small_free)"
    by (simp add: descs_sep_def small_free_def words_def aligned8_def)
  show "page_chain (pmem small_kernel) (free_list_head_kmalloc small_kernel - KERNBASE) small_free"
    by (simp add: small_free_def)
  fix e assume e: "e \<in> fst ` set small_free"
  show "e < 0x80000000" "load64 (pmem small_kernel) (e + 8) = FREE"
    using e by (auto simp: small_free_def)
  fix w assume "w \<in> words e"
  from bspec [OF bspec [OF small_words e] this] have "page_of (KERNBASE + w) = 0xffffffff80104000"
    "0x104000 OR ((KERNBASE + w) AND 0xfff) = w" by simp_all
  with translate_desc show "mmu small_kernel (pmem small_kernel) (KERNBASE + w) = Some w" by simp
qed

lemma small_tables_ok: "tables_ok (mem_of kernel_words) small_tables"
  unfolding tables_ok_def
proof (intro allI impI ballI conjI)
  fix n f assume n: "n \<le> 3" "f \<in> small_tables n"
  then show "is_frame f" by (auto simp: small_tables_def small_frames split: if_splits)
  fix i assume i: "good_slot n i"
  consider "n = 0" | "n = 1" | "n = 2" | "n = 3" using n(1) by linarith
  then show "good_entry small_tables n (load64 (mem_of kernel_words) (slot f i))"
    using n i by cases (auto simp: good_slot_def good_entry_def load_tables small_frame_of
        is_valid_page_def present_def)
qed

lemma small_unshared: "unshared (mem_of kernel_words) small_tables"
  unfolding unshared_def
proof (intro allI impI ballI)
  fix n f g i j
  assume n: "0 < n \<and> n \<le> 3" and f: "f \<in> small_tables n" "g \<in> small_tables n"
    and e: "good_slot n i \<and> good_slot n j \<and> present (load64 (mem_of kernel_words) (slot f i)) \<and>
      present (load64 (mem_of kernel_words) (slot g j)) \<and>
      frame (load64 (mem_of kernel_words) (slot f i)) = frame (load64 (mem_of kernel_words) (slot g j))"
  consider "n = 1" | "n = 2" | "n = 3" using n by linarith
  then show "f = g \<and> i = j"
    using f e by cases (auto simp: good_slot_def load_tables present_def split: if_splits)
qed

lemma small_blank: "f \<in> snd ` set small_free \<Longrightarrow> blank (mem_of kernel_words) f"
  by (auto simp: small_free_def blank_def small_frames load_kernel_words) (simp_all add: kernel_words_def)

lemma small_kernel_inv: "paging_inv small_kernel small_tables small_free"
  unfolding paging_inv_def
proof (intro conjI)
  show "levels_disjoint small_tables" by (auto simp: levels_disjoint_def small_tables_def)
  show "recursive (pmem small_kernel) (root small_kernel)"
    by (simp add: recursive_def load_tables small_frame_of table_entry_def present_def)
  show "\<forall>f \<in> snd ` set small_free. blank (pmem small_kernel) f \<and> f \<notin> all_tables small_tables"
    using small_blank by (simp add: small_all_tables) (simp add: small_free_def)
  show "\<forall>e \<in> fst ` set small_free. \<forall>w \<in> words e. page_of w \<notin> all_tables small_tables \<union> snd ` set small_free"
    using small_words by (simp add: small_all_tables) (simp add: small_free_def)
qed (simp_all add: small_unshared small_frame_of small_tables_ok small_kernel_list, simp add: small_free_def)

section \<open>Witnesses\<close>

lemma small_unmapped: "index 3 v = 511 \<Longrightarrow> index 2 v = 510 \<Longrightarrow> index 1 v \<noteq> 0 \<Longrightarrow> mmu small_kernel (pmem small_kernel) v = None"
proof -
  assume v: "index 3 v = 511" "index 2 v = 510" "index 1 v \<noteq> 0"
  have d: "at_depth small_kernel v 0 = 0x101003"
    by (simp add: v load_tables small_frame_of)
  then have t: "tab small_kernel v (Suc 0) = 0x101000" by (simp add: small_frame_of)
  then have d1: "at_depth small_kernel v (Suc 0) = 0x102003"
    using v(2) by (simp add: load_tables small_frame_of del: tab.simps)
  then have t2: "tab small_kernel v (Suc (Suc 0)) = 0x102000" by (simp add: small_frame_of)
  then have "at_depth small_kernel v 2 = 0"
    using v(3) by (simp add: numeral_2_eq_2 load_tables small_frame_of del: tab.simps)
  moreover have "down small_kernel v 2"
    using d d1 by (simp add: down_Suc numeral_2_eq_2 present_def del: tab.simps)
  ultimately show ?thesis using translate_absent [OF small_kernel_inv, of v 2] v by (simp add: present_def)
qed

lemma small_top:
  "canonical 0xffffffff90000000" "index 3 0xffffffff90000000 = 511" "index 2 0xffffffff90000000 = 510"
  "index 1 0xffffffff90000000 = 0x80"
  by (simp_all add: canonical_def index_def)

lemma small_top_unmapped: "mmu small_kernel (pmem small_kernel) 0xffffffff90000000 = None"
  by (rule small_unmapped) (simp_all only: small_top, simp)

lemma small_length: "length small_free = 4"
  by (simp add: small_free_def)

theorem recursive_addresses_witness:
  "translate 0x100000 (mem_of kernel_words) (pml4_rec_addr 0xffffffff80104000) = Some 0x100ff8"
proof -
  have "recursive (pmem small_kernel) (root small_kernel)"
    using small_kernel_inv unfolding paging_inv_def by (elim conjE)
  then have "recursive (mem_of kernel_words) (frame 0x100000)" by simp
  from recursive_addresses [OF this, of "0xffffffff80104000"] show ?thesis
    by (simp add: small_frame_of index_def slot_def)
qed

theorem page_walk_maps_witness:
  "\<exists>s'. page_walk 0x555000 0xffffffff90000000 small_kernel = Some (1, s') \<and>
    mmu s' (pmem s') 0xffffffff90000123 = Some 0x555123"
proof -
  have p: "is_frame 0x555000" by (simp add: is_frame_def frame_def)
  have "index 3 0xffffffff90000000 \<noteq> 510" "3 \<le> length small_free"
    by (simp_all add: small_top small_length)
  from page_walk_maps [OF small_kernel_inv small_top(1) this(1) small_top_unmapped p this(2)]
  obtain s' where "page_walk 0x555000 0xffffffff90000000 small_kernel = Some (1, s')"
    "\<forall>va. page_of va = page_of 0xffffffff90000000 \<longrightarrow> mmu s' (pmem s') va = Some (0x555000 OR (va AND 0xfff))"
    by blast
  then show ?thesis by (intro exI [of _ s']) (simp add: page_of_def)
qed

theorem page_walk_refuses_mapped_witness:
  "page_walk 0x555000 0xffffffff80104000 small_kernel = Some (0, small_kernel)"
proof -
  have p: "is_frame 0x555000" by (simp add: is_frame_def frame_def)
  have v: "canonical 0xffffffff80104000" "index 3 0xffffffff80104000 \<noteq> 510" "3 \<le> length small_free"
    by (simp_all add: canonical_def index_def small_length)
  have "page_of 0xffffffff80104000 = 0xffffffff80104000" by (simp add: page_of_def)
  from translate_desc [OF this] have "mmu small_kernel (pmem small_kernel) 0xffffffff80104000 = Some 0x104000"
    by simp
  from page_walk_refuses_mapped [OF small_kernel_inv v(1,2) this p v(3)] show ?thesis by simp
qed

theorem kmalloc_maps_witness:
  "\<exists>s'. kmalloc 100 small_kernel = Some (0xffffffff90000000, s') \<and> top_virtual_address s' = 0xffffffff90001000"
proof -
  have n: "(1 :: nat) = unat (no_of_pages 100)" by (simp add: no_of_pages_def)
  have "page_range (top_virtual_address small_kernel) 1 = {0xffffffff90000000}"
    by (auto simp: page_range_def)
  then have "\<forall>va \<in> page_range (top_virtual_address small_kernel) 1. mappable small_kernel va"
    using small_top_unmapped by (simp add: mappable_def small_top)
  moreover have "page_of (top_virtual_address small_kernel) = top_virtual_address small_kernel"
    by (simp add: page_of_def)
  moreover have "4 * 1 \<le> length small_free" "0 \<notin> snd ` set small_free" by (simp_all add: small_free_def)
  ultimately show ?thesis using kmalloc_maps [OF small_kernel_inv _ n] by (auto simp: same_globals_def)
qed

theorem kmalloc_user_at_maps_witness:
  "\<exists>s'. kmalloc_top_virtual_address_user 4096 0xffffffff90000000 small_kernel = Some (0xffffffff90000000, s') \<and>
    top_virtual_address s' = 0xffffffff90000000"
proof -
  have n: "(1 :: nat) = unat (no_of_pages 4096)" by (simp add: no_of_pages_def)
  have "page_range 0xffffffff90000000 1 = {0xffffffff90000000}" by (auto simp: page_range_def)
  then have "\<forall>va \<in> page_range 0xffffffff90000000 1. mappable small_kernel va"
    using small_top_unmapped by (simp add: mappable_def small_top)
  moreover have "page_of 0xffffffff90000000 = 0xffffffff90000000" by (simp add: page_of_def)
  moreover have "4 * 1 \<le> length small_free" "0 \<notin> snd ` set small_free" by (simp_all add: small_free_def)
  ultimately show ?thesis using kmalloc_user_at_maps [OF small_kernel_inv _ n, of "0xffffffff90000000"] by (auto simp: same_globals_def)
qed

theorem create_new_user_pml4_shares_kernel_witness:
  "\<exists>s'. create_new_user_pml4 0x300000 0 small_kernel = Some (0xffffffff90000000, s') \<and> recursive (pmem s') 0x300000 \<and>
    translate 0x300000 (pmem s') 0xffffffff80104008 = translate 0x100000 (pmem s') 0xffffffff80104008"
proof -
  have v: "mappable small_kernel 0xffffffff90000000" "0xffffffff90000000 = top_virtual_address small_kernel"
    "page_of 0xffffffff90000000 = 0xffffffff90000000" "3 \<le> length small_free"
    using small_top_unmapped by (simp_all add: mappable_def small_top page_of_def small_length)
  have p: "is_frame 0x300000" "is_frame 0x100000" "(0x100000 :: u64) \<noteq> 0x300000"
    by (simp_all add: is_frame_def frame_def)
  have "blank (pmem small_kernel) 0x300000"
    using p(1) by (auto simp: blank_def load_kernel_words) (simp add: kernel_words_def)
  moreover have "0x300000 \<notin> all_tables small_tables \<union> snd ` set small_free"
    by (simp add: small_all_tables) (simp add: small_free_def)
  moreover have "\<forall>e \<in> fst ` set small_free. \<forall>w \<in> words e. page_of w \<noteq> 0x300000"
    using small_words by simp
  moreover have "mmu small_kernel (pmem small_kernel) (kernel_pml4_t small_kernel + 8 * 511) = Some (slot 0x100000 511)"
    using translate_top_table [of "0xffffffff80100ff8"] by (simp add: page_of_def slot_def)
  ultimately have "\<exists>s'. create_new_user_pml4 0x300000 0 small_kernel = Some (0xffffffff90000000, s') \<and>
    keeps_translations small_kernel s' \<and>
    top_virtual_address s' = top_virtual_address small_kernel + PAGESIZE \<and> recursive (pmem s') 0x300000 \<and>
    (\<forall>va. index 3 va = 511 \<longrightarrow> translate 0x300000 (pmem s') va = translate 0x100000 (pmem s') va) \<and>
    (\<forall>va. index 3 va \<noteq> 510 \<and> index 3 va \<noteq> 511 \<longrightarrow> translate 0x300000 (pmem s') va = None)"
    using create_new_user_pml4_shares_kernel [OF small_kernel_inv v p(1) _ _ _ p(2,3)] by blast
  moreover have "index 3 0xffffffff80104008 = 511" by (simp add: index_def)
  ultimately show ?thesis by blast
qed

end
