(* ===== verification/BootList.thy ===== *)
theory BootList
  imports Kmalloc
begin

text \<open>
  Building the free list at boot (append_free_list and set_free_list_head of sys/paging.c)
  through the boot loader's mapping, and taking pages from it before the kernel's tables
  are loaded.
\<close>

section \<open>The boot loader's mapping\<close>

text \<open>Below \<open>l\<close> an address is a physical one, and so is its offset from KERNBASE.\<close>

definition boot_mapped :: "pagemap \<Rightarrow> nat \<Rightarrow> bool" where
  "boot_mapped mp l \<longleftrightarrow> l \<le> 2 ^ 31 \<and>
     (\<forall>m a. unat a < l \<longrightarrow> mp m a = Some a \<and> mp m (KERNBASE + a) = Some a)"

text \<open>What clearing 512 bytes does; the code passes PAGESIZE / 8 as the number of bytes.\<close>

definition zero_bytes :: "u64 \<Rightarrow> nat \<Rightarrow> mem \<Rightarrow> mem" where
  "zero_bytes q n m = (\<lambda>b. if b \<in> region q n then 0 else m b)"

lemma memset_loop_zero:
  "\<lbrakk>\<And>j m. j < n \<Longrightarrow> mp m (p + of_nat j) = Some (q + of_nat j); n < 2 ^ 64\<rbrakk> \<Longrightarrow>
    memset_loop mp n m p 0 = Some (zero_bytes q n m)"
proof (induction n arbitrary: m p q)
  case 0
  then show ?case by (simp add: zero_bytes_def region_def)
next
  case (Suc n)
  have "mp m p = Some q" using Suc.prems(1) [of 0 m] by simp
  moreover have "memset_loop mp n (m(q := 0)) (p + 1) 0 = Some (zero_bytes (q + 1) n (m(q := 0)))"
  proof (rule Suc.IH)
    show "mp m' (p + 1 + of_nat j) = Some (q + 1 + of_nat j)" if "j < n" for j m'
      using Suc.prems(1) [of "Suc j" m'] that by (simp add: add.assoc)
    show "n < 2 ^ 64" using Suc.prems(2) by simp
  qed
  moreover have "zero_bytes (q + 1) n (m(q := 0)) = zero_bytes q (Suc n) m"
  proof
    fix b
    show "zero_bytes (q + 1) n (m(q := 0)) b = zero_bytes q (Suc n) m b"
      using offset_Suc [of b q] by (cases "b = q") (auto simp: zero_bytes_def region_def)
  qed
  ultimately show ?case by (simp add: vstore8_def)
qed

lemma clear_boot:
  assumes "boot_mapped mp l" "unat q + 512 \<le> l"
  shows "clear mp s q (PAGESIZE div 8) = Some (s\<lparr>pmem := zero_bytes q 512 (pmem s)\<rparr>)"
    and "clear mp s (KERNBASE + q) (PAGESIZE div 8) = Some (s\<lparr>pmem := zero_bytes q 512 (pmem s)\<rparr>)"
proof -
  have l: "l \<le> 2 ^ 31" using assms(1) by (simp add: boot_mapped_def)
  have lt: "unat (q + of_nat j) < l" if "j < 512" for j
    using that assms(2) l by (subst unat_add_no_wrap) simp_all
  have low: "mp m (q + of_nat j) = Some (q + of_nat j)"
    "mp m (KERNBASE + (q + of_nat j)) = Some (q + of_nat j)" if "j < 512" for j m
    using lt [OF that] assms(1) unfolding boot_mapped_def by simp_all
  have "memset_loop mp 512 (pmem s) q 0 = Some (zero_bytes q 512 (pmem s))"
    by (rule memset_loop_zero) (simp_all add: low)
  moreover have "memset_loop mp 512 (pmem s) (KERNBASE + q) 0 = Some (zero_bytes q 512 (pmem s))"
    by (rule memset_loop_zero) (use low in \<open>simp_all add: add.assoc\<close>)
  ultimately show "clear mp s q (PAGESIZE div 8) = Some (s\<lparr>pmem := zero_bytes q 512 (pmem s)\<rparr>)"
    "clear mp s (KERNBASE + q) (PAGESIZE div 8) = Some (s\<lparr>pmem := zero_bytes q 512 (pmem s)\<rparr>)"
    by (simp_all add: clear_def memset_def)
qed

lemma load64_zero_bytes:
  assumes "unat w + 8 \<le> unat q \<or> unat q + n \<le> unat w" "unat q + n \<le> 2 ^ 64" "unat w + 8 \<le> 2 ^ 64"
  shows "load64 (zero_bytes q n m) w = load64 m w"
proof (rule load64_cong)
  fix b assume "unat (b - w) < 8"
  then have b: "b \<in> region w 8" by (simp add: region_def)
  have "region w 8 \<inter> region q n = {}"
  proof (cases "unat w + 8 \<le> unat q")
    case True
    then show ?thesis using assms(2) by (intro region_disjointI)
  next
    case False
    then show ?thesis using assms(1,3) region_disjointI [of q n w 8] by auto
  qed
  with b show "zero_bytes q n m b = m b" by (auto simp: zero_bytes_def)
qed

lemma rd_boot: "boot_mapped mp l \<Longrightarrow> unat a < l \<Longrightarrow> rd mp s a = Some (load64 (pmem s) a)"
  by (simp add: boot_mapped_def rd_def vload64_def)

lemma wr_boot: "boot_mapped mp l \<Longrightarrow> unat a < l \<Longrightarrow> wr mp s a x = Some (s\<lparr>pmem := store64 (pmem s) a x\<rparr>)"
  by (simp add: boot_mapped_def wr_def vstore64_def)

section \<open>The loop\<close>

text \<open>
  Descriptor \<open>k\<close> is written at \<open>P + 24 k\<close> and describes the page at \<open>P + 4096 k\<close>, for
  the \<open>n\<close> pages of the region from \<open>P\<close>.
\<close>

definition boot_region :: "pagemap \<Rightarrow> u64 \<Rightarrow> nat \<Rightarrow> bool" where
  "boot_region mp P n \<longleftrightarrow> boot_mapped mp (unat P + 4096 * n) \<and> unat P mod 4096 = 0 \<and> P \<noteq> 0"

lemma boot_region_le: "boot_region mp P n \<Longrightarrow> unat P + 4096 * n \<le> 2 ^ 31"
  by (simp add: boot_region_def boot_mapped_def)

lemma at_offset:
  assumes "boot_region mp P n" "x \<le> 4096 * n"
  shows "unat (P + of_nat x) = unat P + x"
  using boot_region_le [OF assms(1)] assms(2) by (subst unat_add_no_wrap) simp_all

lemma aligned_offset:
  assumes "boot_region mp P n" "x \<le> 4096 * n" "8 dvd x"
  shows "aligned8 (P + of_nat x)"
proof -
  have "4096 dvd unat P" using assms(1) by (simp add: boot_region_def mod_eq_0_iff_dvd)
  then have "8 dvd unat P" by (rule dvd_trans [rotated]) simp
  then show ?thesis using at_offset [OF assms(1,2)] assms(3) by (simp add: aligned8_iff mod_eq_0_iff_dvd)
qed

lemma offset_eq_iff:
  assumes "boot_region mp P n" "x \<le> 4096 * n" "y \<le> 4096 * n"
  shows "P + of_nat x = P + of_nat y \<longleftrightarrow> x = y"
  using at_offset [OF assms(1,2)] at_offset [OF assms(1,3)] by (metis add_left_cancel)

lemma offset_step: "P + of_nat x + 8 = P + of_nat (x + 8)" "P + of_nat x + 16 = P + of_nat (x + 16)"
  "P + of_nat x + 24 = P + of_nat (x + 24)" "P + of_nat x + 4096 = P + of_nat (x + 4096)" for P :: u64
  by simp_all

text \<open>The memory after one round.\<close>

definition round_mem :: "u64 \<Rightarrow> nat \<Rightarrow> mem \<Rightarrow> mem" where
  "round_mem P k m = store64 (store64 (zero_bytes (P + of_nat (4096 * k)) 512
     (zero_bytes (P + of_nat (4096 * k)) 512 m)) (P + of_nat (24 * k + 16)) (P + of_nat (4096 * k)))
     (P + of_nat (24 * k)) (P + of_nat (24 * k + 24))"

lemma round_mem_load:
  assumes b: "boot_region mp P n" and k: "k < n"
  shows "load64 (round_mem P k m) (P + of_nat (24 * k + 16)) = P + of_nat (4096 * k)"
    "load64 (round_mem P k m) (P + of_nat (24 * k)) = P + of_nat (24 * (k + 1))"
    "\<lbrakk>x < 24 * k; 8 dvd x\<rbrakk> \<Longrightarrow> load64 (round_mem P k m) (P + of_nat x) = load64 m (P + of_nat x)"
proof -
  have le: "24 * k + 16 \<le> 4096 * n" "24 * k \<le> 4096 * n" "4096 * k + 512 \<le> 4096 * n" using k by simp_all
  have al: "aligned8 (P + of_nat (24 * k + 16))" "aligned8 (P + of_nat (24 * k))"
    by (rule aligned_offset [OF b le(1)], simp) (rule aligned_offset [OF b le(2)], simp)
  have ne: "P + of_nat (24 * k + 16) \<noteq> P + of_nat (24 * k)"
    by (subst offset_eq_iff [OF b le(1,2)]) simp
  have next24: "24 * (k + 1) = 24 * k + 24" by simp
  show "load64 (round_mem P k m) (P + of_nat (24 * k + 16)) = P + of_nat (4096 * k)"
    "load64 (round_mem P k m) (P + of_nat (24 * k)) = P + of_nat (24 * (k + 1))"
    using al ne [symmetric] unfolding round_mem_def next24
    by (simp_all only: load64_store64_aligned if_False if_True simp_thms)
  assume x: "x < 24 * k" "8 dvd x"
  from x(2) obtain y where "x = 8 * y" by (rule dvdE)
  with x(1) have x8: "x + 8 \<le> 24 * k" by simp
  have xn: "x \<le> 4096 * n" "4096 * k \<le> 4096 * n" using x8 le by simp_all
  have ux: "unat (P + of_nat x) = unat P + x" "unat (P + of_nat (4096 * k)) = unat P + 4096 * k"
    by (rule at_offset [OF b xn(1)], rule at_offset [OF b xn(2)])
  have z: "load64 (zero_bytes (P + of_nat (4096 * k)) 512 m') (P + of_nat x) = load64 m' (P + of_nat x)" for m'
    using x8 le(3) boot_region_le [OF b] unfolding ux
    by (intro load64_zero_bytes) (simp_all only: ux, simp_all)
  have nx: "P + of_nat (24 * k + 16) \<noteq> P + of_nat x" "P + of_nat (24 * k) \<noteq> P + of_nat x"
    using x8 by (simp_all only: offset_eq_iff [OF b le(1) xn(1)] offset_eq_iff [OF b le(2) xn(1)])
  have alx: "aligned8 (P + of_nat x)" by (rule aligned_offset [OF b xn(1) x(2)])
  show "load64 (round_mem P k m) (P + of_nat x) = load64 m (P + of_nat x)"
    unfolding round_mem_def using al alx nx z by (simp_all only: load64_store64_aligned if_False)
qed

lemma append_first_step:
  assumes b: "boot_mapped mp l" and i: "i < e" "unat i + 512 \<le> l" and t: "unat (t + 16) < l" "unat t < l"
  shows "append_first mp i e t d s = append_first mp (i + 4096) e (t + 24) t
    (s\<lparr>pmem := store64 (store64 (zero_bytes i 512 (zero_bytes i 512 (pmem s))) (t + 16) i) t (t + 24),
       free_list_total_pages := free_list_total_pages s + 1\<rparr>)"
  by (subst append_first.simps)
    (simp add: i(1) clear_boot [OF b i(2), simplified] wr_boot [OF b t(1)] wr_boot [OF b t(2)] rd_boot [OF b t(2)])

lemma append_first_end: "\<not> i < e \<Longrightarrow> append_first mp i e t d s = Some (d, s)"
  by (subst append_first.simps) simp

lemma append_first_round:
  assumes b: "boot_region mp P n" and k: "k < n"
  shows "append_first mp (P + of_nat (4096 * k)) (P + of_nat (4096 * n)) (P + of_nat (24 * k)) d s =
    append_first mp (P + of_nat (4096 * (k + 1))) (P + of_nat (4096 * n)) (P + of_nat (24 * (k + 1)))
      (P + of_nat (24 * k)) (s\<lparr>pmem := round_mem P k (pmem s),
        free_list_total_pages := free_list_total_pages s + 1\<rparr>)"
proof -
  have le: "4096 * k + 512 \<le> 4096 * n" "4096 * k \<le> 4096 * n" "24 * k + 16 < 4096 * n" "24 * k < 4096 * n"
    "24 * k + 16 \<le> 4096 * n" "24 * k \<le> 4096 * n" "4096 * n \<le> 4096 * n"
    using k by simp_all
  have bm: "boot_mapped mp (unat P + 4096 * n)" using b by (simp add: boot_region_def)
  define q t where "q = P + of_nat (4096 * k)" and "t = P + of_nat (24 * k)"
  have steps: "t + 16 = P + of_nat (24 * k + 16)" "t + 24 = P + of_nat (24 * k + 24)"
    "q + 4096 = P + of_nat (4096 * (k + 1))" "24 * (k + 1) = 24 * k + 24"
    by (simp_all add: q_def t_def algebra_simps)
  have less: "q < P + of_nat (4096 * n)"
    unfolding q_def using k by (simp only: word_less_nat_alt at_offset [OF b le(2)] at_offset [OF b le(7)])
  have "unat q + 512 \<le> unat P + 4096 * n" unfolding q_def using le(1) by (simp only: at_offset [OF b le(2)])
  moreover have "unat (t + 16) < unat P + 4096 * n"
    using le(3) by (simp only: steps at_offset [OF b le(5)])
  moreover have "unat t < unat P + 4096 * n" unfolding t_def using le(4) by (simp only: at_offset [OF b le(6)])
  ultimately show ?thesis
    using append_first_step [OF bm less, of t d s]
    unfolding round_mem_def steps q_def [symmetric] t_def [symmetric] by (simp only: steps)
qed

text \<open>
  All rounds from \<open>k\<close> on: the descriptors from \<open>k\<close> on are written and linked, the words
  below them are kept.
\<close>

lemma append_first_ok:
  assumes b: "boot_region mp P n"
  shows "k \<le> n \<Longrightarrow> \<exists>s'. append_first mp (P + of_nat (4096 * k)) (P + of_nat (4096 * n)) (P + of_nat (24 * k)) d s =
      Some (if k < n then P + of_nat (24 * (n - 1)) else d, s') \<and>
    (\<forall>j. k \<le> j \<and> j < n \<longrightarrow> load64 (pmem s') (P + of_nat (24 * j + 16)) = P + of_nat (4096 * j) \<and>
       load64 (pmem s') (P + of_nat (24 * j)) = P + of_nat (24 * (j + 1))) \<and>
    (\<forall>x. x < 24 * k \<and> 8 dvd x \<longrightarrow> load64 (pmem s') (P + of_nat x) = load64 (pmem s) (P + of_nat x)) \<and>
    s' = s\<lparr>pmem := pmem s', free_list_total_pages := free_list_total_pages s + of_nat (n - k)\<rparr>"
proof (induction "n - k" arbitrary: k d s)
  case 0
  then have "k = n" by simp
  moreover have "\<not> P + of_nat (4096 * n) < P + of_nat (4096 * n)" by simp
  ultimately show ?case by (auto simp: append_first_end)
next
  case (Suc r)
  then have k: "k < n" and r: "r = n - (k + 1)" "k + 1 \<le> n" by simp_all
  let ?s = "s\<lparr>pmem := round_mem P k (pmem s), free_list_total_pages := free_list_total_pages s + 1\<rparr>"
  obtain s' where s': "append_first mp (P + of_nat (4096 * (k + 1))) (P + of_nat (4096 * n)) (P + of_nat (24 * (k + 1)))
      (P + of_nat (24 * k)) ?s = Some (if k + 1 < n then P + of_nat (24 * (n - 1)) else P + of_nat (24 * k), s')"
    "\<forall>j. k + 1 \<le> j \<and> j < n \<longrightarrow> load64 (pmem s') (P + of_nat (24 * j + 16)) = P + of_nat (4096 * j) \<and>
       load64 (pmem s') (P + of_nat (24 * j)) = P + of_nat (24 * (j + 1))"
    "\<forall>x. x < 24 * (k + 1) \<and> 8 dvd x \<longrightarrow> load64 (pmem s') (P + of_nat x) = load64 (pmem ?s) (P + of_nat x)"
    "s' = ?s\<lparr>pmem := pmem s', free_list_total_pages := free_list_total_pages ?s + of_nat (n - (k + 1))\<rparr>"
    using Suc.hyps(1) [OF r, where d = "P + of_nat (24 * k)" and s = ?s] by (elim exE conjE) (rule that)
  have pm: "pmem ?s = round_mem P k (pmem s)" by simp
  note loads = round_mem_load [OF b k, where m = "pmem s"]
  have last: "(if k + 1 < n then P + of_nat (24 * (n - 1)) else P + of_nat (24 * k)) =
      (if k < n then P + of_nat (24 * (n - 1)) else d)"
    using k r by (auto intro: arg_cong [where f = of_nat])
  show ?case
  proof (intro exI [of _ s'] conjI allI impI)
    show "append_first mp (P + of_nat (4096 * k)) (P + of_nat (4096 * n)) (P + of_nat (24 * k)) d s =
        Some (if k < n then P + of_nat (24 * (n - 1)) else d, s')"
      unfolding append_first_round [OF b k] s'(1) last ..
  next
    fix j assume j: "k \<le> j \<and> j < n"
    have "24 * k + 16 < 24 * (k + 1) \<and> 8 dvd 24 * k + 16" "24 * k < 24 * (k + 1) \<and> 8 dvd 24 * k" by simp_all
    with s'(3) have "load64 (pmem s') (P + of_nat (24 * k + 16)) = P + of_nat (4096 * k)"
      "load64 (pmem s') (P + of_nat (24 * k)) = P + of_nat (24 * (k + 1))"
      using loads(1,2) by (simp_all only: pm)
    then show "load64 (pmem s') (P + of_nat (24 * j + 16)) = P + of_nat (4096 * j)"
      "load64 (pmem s') (P + of_nat (24 * j)) = P + of_nat (24 * (j + 1))"
      using s'(2) j by (cases "j = k"; force)+
  next
    fix x assume x: "x < 24 * k \<and> 8 dvd x"
    then have "x < 24 * (k + 1) \<and> 8 dvd x" by simp
    with s'(3) have "load64 (pmem s') (P + of_nat x) = load64 (round_mem P k (pmem s)) (P + of_nat x)"
      by (simp only: pm)
    then show "load64 (pmem s') (P + of_nat x) = load64 (pmem s) (P + of_nat x)" using loads(3) x by simp
  next
    have "of_nat (n - k) = (of_nat (n - (k + 1)) + 1 :: u64)" using k by (simp add: of_nat_diff)
    then show "s' = s\<lparr>pmem := pmem s', free_list_total_pages := free_list_total_pages s + of_nat (n - k)\<rparr>"
      by (subst s'(4)) (simp add: add.commute add.left_commute)
  qed
qed

text \<open>
  Words of the region that hold no part of a descriptor stay zero, and those in the first
  512 bytes of a page become zero in the round of the page.
\<close>

abbreviation (input) cleared :: "nat \<Rightarrow> nat \<Rightarrow> bool" where
  "cleared k x \<equiv> 4096 * k \<le> x \<and> x < 4096 * k + 512"

lemma zero_bytes_word:
  assumes b: "boot_region mp P n" and k: "k < n" and x: "8 dvd x" "x < 4096 * n"
    and z: "\<not> cleared k x \<Longrightarrow> load64 m (P + of_nat x) = 0"
  shows "load64 (zero_bytes (P + of_nat (4096 * k)) 512 m) (P + of_nat x) = 0"
proof -
  have le: "x \<le> 4096 * n" "4096 * k \<le> 4096 * n" "4096 * k + 512 \<le> 4096 * n" using x k by simp_all
  note u = at_offset [OF b le(1)] at_offset [OF b le(2)]
  obtain y where y: "x = 8 * y" using x(1) by (rule dvdE)
  show ?thesis
  proof (cases "512 * k \<le> y \<and> y < 512 * k + 64")
    case True
    then have x8: "4096 * k \<le> x" "x + 8 \<le> 4096 * k + 512" unfolding y by linarith+
    have "load64 (zero_bytes (P + of_nat (4096 * k)) 512 m) (P + of_nat x) = load64 (\<lambda>_. 0) (P + of_nat x)"
    proof (rule load64_cong)
      fix c assume c: "unat (c - (P + of_nat x)) < 8"
      define i where "i = x - 4096 * k + unat (c - (P + of_nat x))"
      have "c = P + of_nat x + of_nat (unat (c - (P + of_nat x)))" by simp
      also have "\<dots> = P + of_nat (4096 * k) + of_nat i" using x8(1) by (simp add: i_def of_nat_diff)
      finally have "c = P + of_nat (4096 * k) + of_nat i" .
      moreover have "i < 512" using c x8 unfolding i_def by linarith
      ultimately show "zero_bytes (P + of_nat (4096 * k)) 512 m c = 0"
        by (simp add: zero_bytes_def region_offset)
    qed
    then show ?thesis by (simp add: load64_zero)
  next
    case False
    then have out: "x + 8 \<le> 4096 * k \<or> 4096 * k + 512 \<le> x" unfolding y by linarith
    then have "\<not> cleared k x" by auto
    note z = z [OF this]
    note out
    moreover have "y < 512 * n" using x(2) unfolding y by linarith
    then have "x + 8 \<le> 4096 * n" unfolding y by linarith
    moreover note boot_region_le [OF b] le(3)
    ultimately have "unat (P + of_nat x) + 8 \<le> unat (P + of_nat (4096 * k)) \<or>
        unat (P + of_nat (4096 * k)) + 512 \<le> unat (P + of_nat x)"
      "unat (P + of_nat (4096 * k)) + 512 \<le> 2 ^ 64" "unat (P + of_nat x) + 8 \<le> 2 ^ 64"
      unfolding u by auto
    then have "load64 (zero_bytes (P + of_nat (4096 * k)) 512 m) (P + of_nat x) = load64 m (P + of_nat x)"
      by (rule load64_zero_bytes)
    then show ?thesis using z by simp
  qed
qed

lemma round_mem_zero:
  assumes b: "boot_region mp P n" and k: "k < n" and x: "8 dvd x" "x < 4096 * n" "x \<noteq> 24 * k" "x \<noteq> 24 * k + 16"
    and z: "\<not> cleared k x \<Longrightarrow> load64 m (P + of_nat x) = 0"
  shows "load64 (round_mem P k m) (P + of_nat x) = 0"
proof -
  have le: "24 * k + 16 \<le> 4096 * n" "24 * k \<le> 4096 * n" "x \<le> 4096 * n" using k x(2) by simp_all
  have al: "aligned8 (P + of_nat (24 * k + 16))" "aligned8 (P + of_nat (24 * k))" "aligned8 (P + of_nat x)"
    by (rule aligned_offset [OF b le(1)], simp) (rule aligned_offset [OF b le(2)], simp, rule aligned_offset [OF b le(3) x(1)])
  have ne: "P + of_nat (24 * k + 16) \<noteq> P + of_nat x" "P + of_nat (24 * k) \<noteq> P + of_nat x"
    using x(3,4) by (simp_all only: offset_eq_iff [OF b le(1,3)] offset_eq_iff [OF b le(2,3)] not_False_eq_True)
  show ?thesis
    unfolding round_mem_def using al ne zero_bytes_word [OF b k x(1,2) zero_bytes_word [OF b k x(1,2) z]]
    by (simp only: load64_store64_aligned if_False simp_thms)
qed

lemma append_first_zero:
  assumes b: "boot_region mp P n" and x: "8 dvd x" "x < 4096 * n" "\<And>j. j < n \<Longrightarrow> x \<noteq> 24 * j \<and> x \<noteq> 24 * j + 16"
  shows "\<lbrakk>k \<le> n; append_first mp (P + of_nat (4096 * k)) (P + of_nat (4096 * n)) (P + of_nat (24 * k)) d s = Some (q, s');
    load64 (pmem s) (P + of_nat x) = 0 \<or> 4096 * k \<le> x \<and> x mod 4096 < 512\<rbrakk> \<Longrightarrow> load64 (pmem s') (P + of_nat x) = 0"
proof (induction "n - k" arbitrary: k d s)
  case 0
  then have "k = n" by simp
  with 0 x(2) show ?case by (simp add: append_first_end)
next
  case (Suc r)
  then have k: "k < n" and r: "r = n - (k + 1)" "k + 1 \<le> n" by simp_all
  let ?s = "s\<lparr>pmem := round_mem P k (pmem s), free_list_total_pages := free_list_total_pages s + 1\<rparr>"
  have "load64 (pmem ?s) (P + of_nat x) = 0 \<or> 4096 * (k + 1) \<le> x \<and> x mod 4096 < 512"
  proof (cases "load64 (pmem s) (P + of_nat x) = 0 \<or> cleared k x")
    case True
    then show ?thesis using round_mem_zero [OF b k x(1,2), of "pmem s"] x(3) [OF k] by auto
  next
    case False
    then have p: "4096 * k + 512 \<le> x" "x mod 4096 < 512" using Suc.prems(3) by auto
    have "k < x div 4096"
    proof (rule ccontr)
      assume "\<not> k < x div 4096"
      then have "4096 * (x div 4096) \<le> 4096 * k" by simp
      then show False using p mult_div_mod_eq [of 4096 x] by linarith
    qed
    then have "4096 * (k + 1) \<le> 4096 * (x div 4096)" by simp
    then show ?thesis using p(2) mult_div_mod_eq [of 4096 x] by linarith
  qed
  moreover have "append_first mp (P + of_nat (4096 * (k + 1))) (P + of_nat (4096 * n)) (P + of_nat (24 * (k + 1)))
      (P + of_nat (24 * k)) ?s = Some (q, s')"
    using Suc.prems(2) append_first_round [OF b k, of d s] by simp
  ultimately show ?case using Suc.hyps(1) [OF r] by blast
qed

section \<open>The list of a region\<close>

definition boot_pages :: "u64 \<Rightarrow> nat \<Rightarrow> nat \<Rightarrow> (u64 \<times> u64) list" where
  "boot_pages P k n = map (\<lambda>j. (P + of_nat (24 * j), P + of_nat (4096 * j))) [k..<n]"

lemma boot_pages_Cons:
  "k < n \<Longrightarrow> boot_pages P k n = (P + of_nat (24 * k), P + of_nat (4096 * k)) # boot_pages P (k + 1) n"
  by (simp add: boot_pages_def upt_conv_Cons)

lemma boot_offset_nonzero:
  assumes "boot_region mp P n" "x \<le> 4096 * n"
  shows "P + of_nat x \<noteq> 0"
proof
  assume "P + of_nat x = 0"
  then have "unat (P + of_nat x) = 0" by simp
  then have "unat P = 0" using at_offset [OF assms] by simp
  then have "P = 0" by (simp only: unat_eq_zero)
  then show False using assms(1) by (simp add: boot_region_def)
qed

lemma page_chain_boot:
  assumes b: "boot_region mp P n"
    and load: "\<And>j. j < n \<Longrightarrow> load64 m (P + of_nat (24 * j + 16)) = P + of_nat (4096 * j)"
      "\<And>j. j < n \<Longrightarrow> load64 m (P + of_nat (24 * j)) = (if j + 1 < n then P + of_nat (24 * (j + 1)) else 0)"
  shows "k \<le> n \<Longrightarrow> page_chain m (if k < n then P + of_nat (24 * k) else 0) (boot_pages P k n)"
proof (induction "n - k" arbitrary: k)
  case 0
  then show ?case by (simp add: boot_pages_def)
next
  case (Suc r)
  then have k: "k < n" "r = n - (k + 1)" "k + 1 \<le> n" by simp_all
  have "P + of_nat (24 * k) \<noteq> 0" by (rule boot_offset_nonzero [OF b]) (use k in simp)
  moreover have "load64 m (P + of_nat (24 * k) + 16) = P + of_nat (4096 * k)"
    using load(1) [OF k(1)] by (simp only: offset_step)
  moreover have "page_chain m (if k + 1 < n then P + of_nat (24 * (k + 1)) else 0) (boot_pages P (k + 1) n)"
    by (rule Suc.hyps(1) [OF k(2,3)])
  ultimately show ?case
    using load(2) [OF k(1)] k(1) unfolding boot_pages_Cons [OF k(1)] page_chain.simps by simp
qed

lemma append_region:
  assumes b: "boot_region mp P n" and n: "0 < n" and s: "free_list s = 0"
    and args: "P = round_up physfree" "round_up end' = P + of_nat (4096 * n)" "round_up start \<le> P"
  shows "\<exists>s'. append_free_list mp start end' physfree s = Some s' \<and>
    s' = s\<lparr>free_list := P, pmem := pmem s', free_list_total_pages := free_list_total_pages s + of_nat n\<rparr> \<and>
    page_chain (pmem s') P (boot_pages P 0 n) \<and>
    (\<forall>x. 8 dvd x \<and> x < 4096 * n \<and> (\<forall>j<n. x \<noteq> 24 * j \<and> x \<noteq> 24 * j + 16) \<and>
       (load64 (pmem s) (P + of_nat x) = 0 \<or> x mod 4096 < 512) \<longrightarrow> load64 (pmem s') (P + of_nat x) = 0)"
proof -
  let ?s = "s\<lparr>free_list := P\<rparr>"
  have le0: "0 \<le> n" by simp
  have bm: "boot_mapped mp (unat P + 4096 * n)" using b by (simp add: boot_region_def)
  obtain s1 where s1: "append_first mp (P + of_nat (4096 * 0)) (P + of_nat (4096 * n)) (P + of_nat (24 * 0)) 0 ?s =
      Some (if 0 < n then P + of_nat (24 * (n - 1)) else 0, s1)"
    "\<forall>j. 0 \<le> j \<and> j < n \<longrightarrow> load64 (pmem s1) (P + of_nat (24 * j + 16)) = P + of_nat (4096 * j) \<and>
       load64 (pmem s1) (P + of_nat (24 * j)) = P + of_nat (24 * (j + 1))"
    "s1 = ?s\<lparr>pmem := pmem s1, free_list_total_pages := free_list_total_pages ?s + of_nat (n - 0)\<rparr>"
    using append_first_ok [OF b le0, where d = 0 and s = ?s] by (elim exE conjE) (rule that)
  let ?t = "P + of_nat (24 * (n - 1))"
  let ?u = "s1\<lparr>pmem := store64 (pmem s1) ?t 0\<rparr>"
  have le: "24 * (n - 1) \<le> 4096 * n" "4096 * n \<le> 4096 * n" "24 * (n - 1) < 4096 * n" using n by simp_all
  have "unat ?t < unat P + 4096 * n" using le(3) by (simp only: at_offset [OF b le(1)])
  then have w: "wr mp s1 (?t + 0) 0 = Some ?u" using wr_boot [OF bm] by simp
  have "P \<le> P + of_nat (4096 * n)" by (simp only: word_le_nat_alt at_offset [OF b le(2)])
  then have run: "append_free_list mp start end' physfree s = Some ?u"
    using s1(1) w s args n by (simp add: append_free_list_def Let_def)
  have al: "aligned8 (P + of_nat (24 * j))" "aligned8 (P + of_nat (24 * j + 16))" if "j < n" for j
    by (rule aligned_offset [OF b]; use that in simp)+
  have pmu: "pmem ?u = store64 (pmem s1) ?t 0" by simp
  have "page_chain (pmem ?u) (if 0 < n then P + of_nat (24 * 0) else 0) (boot_pages P 0 n)"
  proof (rule page_chain_boot [OF b])
    fix j assume j: "j < n"
    have n1: "n - 1 < n" and x: "24 * j + 16 \<le> 4096 * n" "24 * j \<le> 4096 * n" using n j by simp_all
    have "?t \<noteq> P + of_nat (24 * j + 16)"
      unfolding offset_eq_iff [OF b le(1) x(1)] by presburger
    then show "load64 (pmem ?u) (P + of_nat (24 * j + 16)) = P + of_nat (4096 * j)"
      using s1(2) j al(1) [OF n1] al(2) [OF j] unfolding pmu
      by (simp only: load64_store64_aligned if_False) blast
    have "?t = P + of_nat (24 * j) \<longleftrightarrow> \<not> j + 1 < n"
      unfolding offset_eq_iff [OF b le(1) x(2)] using j by auto
    then show "load64 (pmem ?u) (P + of_nat (24 * j)) = (if j + 1 < n then P + of_nat (24 * (j + 1)) else 0)"
      using s1(2) j al(1) [OF n1] al(1) [OF j] unfolding pmu by (simp only: load64_store64_aligned) simp
  qed simp
  then have "page_chain (pmem ?u) P (boot_pages P 0 n)" using n by simp
  moreover have "?u = s\<lparr>free_list := P, pmem := pmem ?u, free_list_total_pages := free_list_total_pages s + of_nat n\<rparr>"
    by (subst s1(3)) simp
  moreover have "load64 (pmem ?u) (P + of_nat x) = 0"
    if x: "8 dvd x" "x < 4096 * n" "\<forall>j<n. x \<noteq> 24 * j \<and> x \<noteq> 24 * j + 16"
      "load64 (pmem s) (P + of_nat x) = 0 \<or> x mod 4096 < 512" for x
  proof -
    have xl: "x \<le> 4096 * n" and n1: "n - 1 < n" using x(2) n by simp_all
    have "load64 (pmem s1) (P + of_nat x) = 0"
      using append_first_zero [OF b x(1,2) _ le0 s1(1)] x(3,4) by simp
    moreover have "?t \<noteq> P + of_nat x" unfolding offset_eq_iff [OF b le(1) xl] using x(3) n1 by metis
    ultimately show ?thesis
      unfolding pmu using al(1) [OF n1] aligned_offset [OF b xl x(1)] by (simp add: load64_store64_aligned)
  qed
  ultimately show ?thesis using run by blast
qed

section \<open>Taking pages at boot\<close>

definition boot_free :: "pagemap \<Rightarrow> 'a paging_scheme \<Rightarrow> (u64 \<times> u64) list \<Rightarrow> bool" where
  "boot_free mp s ps \<longleftrightarrow> page_chain (pmem s) (free_list_head s) ps \<and> descs_sep (map fst ps) \<and>
     (\<forall>e \<in> fst ` set ps. \<forall>w \<in> words e. \<forall>m. mp m w = Some w)"

definition taken :: "u64 \<Rightarrow> 'a paging_scheme \<Rightarrow> 'a paging_scheme" where
  "taken e s = s\<lparr>pmem := store64 (pmem s) (e + 8) ALLOCATED, free_list_head := load64 (pmem s) e\<rparr>"

lemma get_next_free_page_taken:
  assumes "boot_free mp s ((e, p) # ps)"
  shows "get_next_free_page mp s = Some (p, taken e s)" "boot_free mp (taken e s) ps"
proof -
  let ?m = "store64 (pmem s) (e + 8) ALLOCATED"
  have e: "aligned8 e" "\<forall>w \<in> words e. \<forall>m. mp m w = Some w" "free_list_head s = e" "e \<noteq> 0"
    "load64 (pmem s) (e + 16) = p" "page_chain (pmem s) (load64 (pmem s) e) ps"
    using assms by (auto simp: boot_free_def descs_sep_def)
  have al: "aligned8 (e + 8)" "aligned8 (e + 16)" using e(1) by (simp_all add: aligned8_add)
  show "get_next_free_page mp s = Some (p, taken e s)"
    using e al by (simp add: get_next_free_page_def Let_def wr_def rd_def vstore64_def vload64_def words_def
        load64_store64_aligned taken_def)
  have ds: "descs_sep (e # map fst ps)" using assms by (simp add: boot_free_def)
  have "\<forall>e' \<in> fst ` set ps. aligned8 e' \<and> e + 8 \<notin> words e'"
  proof
    fix e' assume "e' \<in> fst ` set ps"
    then have e': "e' \<in> set (map fst ps)" by simp
    then have "words e \<inter> words e' = {}" "descs_sep (map fst ps)" using descs_sep_Cons [OF ds] by blast+
    moreover have "aligned8 e'" using \<open>descs_sep (map fst ps)\<close> e' unfolding descs_sep_def by blast
    moreover have "e + 8 \<in> words e" by (simp add: words_def)
    ultimately show "aligned8 e' \<and> e + 8 \<notin> words e'" by blast
  qed
  then have "page_chain ?m (load64 (pmem s) e) ps" using page_chain_store [OF al(1)] e(6) by blast
  moreover have "descs_sep (map fst ps)" using descs_sep_Cons [OF ds] by blast
  moreover have "\<forall>e \<in> fst ` set ps. \<forall>w \<in> words e. \<forall>m. mp m w = Some w"
    using assms by (simp add: boot_free_def)
  ultimately show "boot_free mp (taken e s) ps" by (simp add: boot_free_def taken_def)
qed

interpretation boot_allocator: page_allocator "get_next_free_page mp"
  "\<lambda>s fs. \<exists>ps. boot_free mp s ps \<and> map snd ps = fs" for mp
proof unfold_locales
  fix s :: "'a paging_scheme" and f fs
  assume "\<exists>ps. boot_free mp s ps \<and> map snd ps = f # fs"
  then obtain e ps where "boot_free mp s ((e, f) # ps)" "map snd ps = fs" by auto
  with get_next_free_page_taken [of mp s e f ps]
  show "\<exists>s'. get_next_free_page mp s = Some (f, s') \<and> (\<exists>ps. boot_free mp s' ps \<and> map snd ps = fs)" by blast
qed

lemma skip_pages_chain:
  "\<lbrakk>page_chain (pmem s) d ps; r \<le> length ps; \<And>e. e \<in> fst ` set ps \<Longrightarrow> rd mp s e = Some (load64 (pmem s) e)\<rbrakk> \<Longrightarrow>
    \<exists>d'. skip_pages mp r s d = Some d' \<and> page_chain (pmem s) d' (drop r ps)"
proof (induction r arbitrary: d ps)
  case (Suc r)
  then obtain e p ps' where ps: "ps = (e, p) # ps'" by (cases ps) auto
  with Suc.prems have "rd mp s e = Some (load64 (pmem s) e)" "d = e" "page_chain (pmem s) (load64 (pmem s) e) ps'"
    by auto
  with Suc.IH [of "load64 (pmem s) e" ps'] Suc.prems ps show ?case by simp
qed simp

text \<open>The pages the descriptors of \<open>n\<close> pages need.\<close>

definition desc_pages :: "nat \<Rightarrow> nat" where
  "desc_pages n = (24 * n + 4095) div 4096"

lemma desc_pages_le: "0 < n \<Longrightarrow> desc_pages n \<le> n" "24 * n \<le> 4096 * desc_pages n"
  unfolding desc_pages_def by linarith+

lemma round_up_count: "(if x mod 4096 \<noteq> 0 then x div 4096 + 1 else x div 4096) = (x + 4095) div 4096" for x :: nat
proof -
  define q r where "q = x div 4096" and "r = x mod 4096"
  have x: "x = 4096 * q + r" and r: "r < 4096" by (simp_all add: q_def r_def)
  have "(x + 4095) div 4096 = q + (r + 4095) div 4096" by (simp add: x)
  moreover have "(r + 4095) div 4096 = (if r \<noteq> 0 then 1 else 0)"
  proof (cases "r = 0")
    case False
    then obtain r' where "r = Suc r'" by (cases r) auto
    then show ?thesis using r by simp
  qed simp
  ultimately show ?thesis unfolding q_def [symmetric] r_def [symmetric] by simp
qed

lemma boot_pages_fst: "e \<in> fst ` set (boot_pages P k n) \<longleftrightarrow> (\<exists>j. k \<le> j \<and> j < n \<and> e = P + of_nat (24 * j))"
  by (auto simp: boot_pages_def image_image)

lemma boot_words:
  assumes b: "boot_region mp P n" and w: "w \<in> words (P + of_nat (24 * j))" "j < n"
  obtains x where "w = P + of_nat x" "24 * j \<le> x" "x \<le> 24 * j + 16" "8 dvd x" "x < 4096 * n"
proof -
  note found = that
  have "w = P + of_nat (24 * j) \<or> w = P + of_nat (24 * j + 8) \<or> w = P + of_nat (24 * j + 16)"
    using w(1) unfolding words_def offset_step by blast
  then show ?thesis
  proof (elim disjE)
    show ?thesis if "w = P + of_nat (24 * j)" by (rule found [OF that]) (use w(2) in simp_all)
    show ?thesis if "w = P + of_nat (24 * j + 8)" by (rule found [OF that]) (use w(2) in simp_all)
    show ?thesis if "w = P + of_nat (24 * j + 16)" by (rule found [OF that]) (use w(2) in simp_all)
  qed
qed

lemma boot_pages_sep:
  assumes b: "boot_region mp P n"
  shows "descs_sep (map fst (boot_pages P k n))"
  unfolding descs_sep_def
proof (intro conjI ballI impI)
  have fst_list: "map fst (boot_pages P k n) = map (\<lambda>j. P + of_nat (24 * j)) [k..<n]"
    by (simp add: boot_pages_def)
  have "inj_on (\<lambda>j. P + of_nat (24 * j)) {k..<n}"
  proof (rule inj_onI)
    fix i j assume ij: "i \<in> {k..<n}" "j \<in> {k..<n}" "P + of_nat (24 * i) = P + of_nat (24 * j)"
    then have "24 * i \<le> 4096 * n" "24 * j \<le> 4096 * n" by simp_all
    from offset_eq_iff [OF b this] ij(3) show "i = j" by simp
  qed
  then show "distinct (map fst (boot_pages P k n))" unfolding fst_list by (simp add: distinct_map)
  fix e assume "e \<in> set (map fst (boot_pages P k n))"
  then have "e \<in> fst ` set (boot_pages P k n)" by simp
  then obtain i where i: "i < n" "e = P + of_nat (24 * i)" using boot_pages_fst by blast
  have "24 * i \<le> 4096 * n" using i(1) by simp
  then show "aligned8 e" unfolding i(2) by (rule aligned_offset [OF b]) simp
  fix e' assume "e' \<in> set (map fst (boot_pages P k n))" and ne: "e \<noteq> e'"
  then have "e' \<in> fst ` set (boot_pages P k n)" by simp
  then obtain j where j: "j < n" "e' = P + of_nat (24 * j)" using boot_pages_fst by blast
  have "i \<noteq> j" using ne i(2) j(2) by auto
  have False if w: "w \<in> words e" "w \<in> words e'" for w
  proof -
    obtain x where x: "w = P + of_nat x" "24 * i \<le> x" "x \<le> 24 * i + 16" "x < 4096 * n"
      using boot_words [OF b] w(1) i by metis
    obtain y where y: "w = P + of_nat y" "24 * j \<le> y" "y \<le> 24 * j + 16" "y < 4096 * n"
      using boot_words [OF b] w(2) j by metis
    have "x = y" using offset_eq_iff [OF b less_imp_le [OF x(4)] less_imp_le [OF y(4)]] x(1) y(1) by simp
    with x(2,3) y(2,3) \<open>i \<noteq> j\<close> show False by linarith
  qed
  then show "words e \<inter> words e' = {}" by blast
qed

lemma boot_pages_mapped:
  assumes b: "boot_region mp P n" and e: "e \<in> fst ` set (boot_pages P k n)" "w \<in> words e"
  shows "mp m w = Some w"
proof -
  obtain j where j: "j < n" "e = P + of_nat (24 * j)" using e(1) boot_pages_fst by blast
  obtain x where x: "w = P + of_nat x" "x < 4096 * n" using boot_words [OF b] e(2) j by metis
  have "unat w < unat P + 4096 * n"
    unfolding x(1) using at_offset [OF b less_imp_le [OF x(2)]] x(2) by simp
  then show ?thesis using b by (simp add: boot_region_def boot_mapped_def)
qed

lemma set_free_list_head_region:
  assumes b: "boot_region mp P n" and n: "0 < n" and s: "free_list s = P" "free_list_total_pages s = of_nat n"
    and chain: "page_chain (pmem s) P (boot_pages P 0 n)"
  shows "\<exists>s'. set_free_list_head mp s = Some s' \<and> boot_free mp s' (boot_pages P (desc_pages n) n) \<and>
    free_list_page_length s' = of_nat (desc_pages n) \<and> pmem s' = pmem s"
proof -
  let ?size = "free_list_total_pages s * sizeof_Page"
  let ?req = "if ?size mod PAGESIZE \<noteq> 0 then ?size div PAGESIZE + 1 else ?size div PAGESIZE"
  have "n \<le> 2 ^ 19" using boot_region_le [OF b] by simp
  then have u: "unat ?size = 24 * n" using s(2) by (simp add: unat_word_ariths unat_of_nat)
  have "unat ?req = (if (24 * n) mod 4096 \<noteq> 0 then (24 * n) div 4096 + 1 else (24 * n) div 4096)"
  proof -
    have "unat (?size div PAGESIZE) = (24 * n) div 4096" "unat (?size mod PAGESIZE) = (24 * n) mod 4096"
      by (simp_all only: unat_div unat_mod u) simp_all
    moreover have "unat (?size div PAGESIZE + 1) = unat (?size div PAGESIZE) + 1"
      using \<open>n \<le> 2 ^ 19\<close> by (simp add: unat_word_ariths calculation(1))
    ultimately show ?thesis by (simp add: unat_eq_zero [symmetric])
  qed
  then have req: "unat ?req = desc_pages n" by (simp only: round_up_count desc_pages_def)
  have rd: "rd mp s e = Some (load64 (pmem s) e)" if "e \<in> fst ` set (boot_pages P 0 n)" for e
    using boot_pages_mapped [OF b that, of e] by (simp add: rd_def vload64_def words_def)
  have "desc_pages n \<le> length (boot_pages P 0 n)" using desc_pages_le(1) [OF n] by (simp add: boot_pages_def)
  from skip_pages_chain [OF chain this rd] obtain d where
    d: "skip_pages mp (desc_pages n) s P = Some d" "page_chain (pmem s) d (drop (desc_pages n) (boot_pages P 0 n))"
    by blast
  have "drop (desc_pages n) (boot_pages P 0 n) = boot_pages P (desc_pages n) n"
    by (simp add: boot_pages_def drop_map)
  with d(2) have chain': "page_chain (pmem s) d (boot_pages P (desc_pages n) n)" by simp
  let ?s = "s\<lparr>free_list_head := d, free_list_page_length := ?req,
    free_list_total_pages := free_list_total_pages s - ?req\<rparr>"
  have "set_free_list_head mp s = Some ?s"
    unfolding set_free_list_head_def Let_def req s(1) d(1) by simp
  moreover have "boot_free mp ?s (boot_pages P (desc_pages n) n)"
    using chain' boot_pages_sep [OF b] boot_pages_mapped [OF b]
    by (simp add: boot_free_def)
  moreover have "free_list_page_length ?s = of_nat (desc_pages n)"
    unfolding req [symmetric] by simp
  moreover have "pmem ?s = pmem s" by simp
  ultimately show ?thesis by blast
qed

section \<open>A further region\<close>

lemma append_more_step:
  assumes b: "boot_mapped mp l" and i: "i \<le> e" "unat i + 512 \<le> l" and t: "unat t < l" "unat (t + 40) < l"
  shows "append_more mp i e t s = append_more mp (i + 4096) e (t + 24)
    (s\<lparr>pmem := store64 (zero_bytes i 512 (zero_bytes i 512 (store64 (pmem s) t (t + 24)))) (t + 40) i,
       free_list_total_pages := free_list_total_pages s + 1\<rparr>)"
  by (subst append_more.simps)
    (simp add: i(1) clear_boot [OF b i(2), simplified] wr_boot [OF b t(1)] wr_boot [OF b t(2)] rd_boot [OF b t(1)]
      add.commute [of 40 t])

text \<open>
  The bound of the loop is inclusive: a region of \<open>k\<close> pages up to \<open>i + 4096 k\<close> adds \<open>k + 1\<close>
  descriptors, the last one for the page behind the region.
\<close>

lemma append_more_ok:
  "\<lbrakk>boot_mapped mp l; unat i + 4096 * k + 512 \<le> l; unat t + 24 * (k + 1) + 16 < l\<rbrakk> \<Longrightarrow>
    \<exists>s'. append_more mp i (i + of_nat (4096 * k)) t s = Some (t + of_nat (24 * (k + 1)), s') \<and>
      load64 (pmem s') (t + of_nat (24 * (k + 1)) + 16) = i + of_nat (4096 * k) \<and>
      s' = s\<lparr>pmem := pmem s', free_list_total_pages := free_list_total_pages s + of_nat (k + 1)\<rparr>"
proof (induction k arbitrary: i t s)
  case 0
  have l: "l \<le> 2 ^ 31" using 0(1) by (simp add: boot_mapped_def)
  have t: "unat (t + 40) = unat t + 40" using unat_add_no_wrap [of t 40] 0(3) l by simp
  have tl: "unat (t + 40) < l" "unat t < l" "unat i + 512 \<le> l" using 0(2,3) unfolding t by simp_all
  have "\<not> i + 4096 \<le> i"
    using unat_add_no_wrap [of i 4096] 0(2) l by (simp add: word_le_nat_alt)
  then have stop: "append_more mp (i + 4096) i t' s' = Some (t', s')" for t' and s' :: "'a paging_scheme"
    by (subst append_more.simps) simp
  have step: "append_more mp i i t s = Some (t + 24, s\<lparr>pmem := store64 (zero_bytes i 512 (zero_bytes i 512
      (store64 (pmem s) t (t + 24)))) (t + 40) i, free_list_total_pages := free_list_total_pages s + 1\<rparr>)"
    unfolding append_more_step [OF 0(1) order_refl tl(3,2,1)] stop ..
  show ?case by (simp add: step add.commute [of 40 t])
next
  case (Suc k)
  have l: "l \<le> 2 ^ 31" using Suc.prems(1) by (simp add: boot_mapped_def)
  let ?e = "i + of_nat (4096 * Suc k)"
  have e: "?e = (i + 4096) + of_nat (4096 * k)" by simp
  have t: "unat (t + 40) = unat t + 40" "unat (t + 24) = unat t + 24"
    using unat_add_no_wrap [of t 40] unat_add_no_wrap [of t 24] Suc.prems(3) l by simp_all
  have tl: "unat (t + 40) < l" "unat t < l" "unat i + 512 \<le> l" using Suc.prems(2,3) unfolding t by simp_all
  have "unat ?e = unat i + 4096 * Suc k" by (rule unat_add_no_wrap) (use Suc.prems(2) l in simp)
  then have le: "i \<le> ?e" by (simp only: word_le_nat_alt)
  have i: "unat (i + 4096) = unat i + 4096" using unat_add_no_wrap [of i 4096] Suc.prems(2) l by simp
  let ?s = "s\<lparr>pmem := store64 (zero_bytes i 512 (zero_bytes i 512 (store64 (pmem s) t (t + 24)))) (t + 40) i,
       free_list_total_pages := free_list_total_pages s + 1\<rparr>"
  have step: "append_more mp i ?e t s = append_more mp (i + 4096) ?e (t + 24) ?s"
    by (rule append_more_step [OF Suc.prems(1) le tl(3,2,1)])
  have "unat (i + 4096) + 4096 * k + 512 \<le> l" "unat (t + 24) + 24 * (k + 1) + 16 < l"
    using Suc.prems(2,3) unfolding i t(2) by simp_all
  from Suc.IH [OF Suc.prems(1) this, where s = ?s]
  obtain s' where s': "append_more mp (i + 4096) (i + 4096 + of_nat (4096 * k)) (t + 24) ?s =
      Some (t + 24 + of_nat (24 * (k + 1)), s')"
    "load64 (pmem s') (t + 24 + of_nat (24 * (k + 1)) + 16) = i + 4096 + of_nat (4096 * k)"
    "s' = ?s\<lparr>pmem := pmem s', free_list_total_pages := free_list_total_pages ?s + of_nat (k + 1)\<rparr>"
    by (elim exE conjE) (rule that)
  have nt: "t + 24 + of_nat (24 * (k + 1)) = t + of_nat (24 * (Suc k + 1))" by simp
  show ?case
  proof (intro exI [of _ s'] conjI)
    show "append_more mp i ?e t s = Some (t + of_nat (24 * (Suc k + 1)), s')"
      unfolding step unfolding e s'(1) nt ..
    show "load64 (pmem s') (t + of_nat (24 * (Suc k + 1)) + 16) = ?e"
      using s'(2) unfolding nt e .
    show "s' = s\<lparr>pmem := pmem s', free_list_total_pages := free_list_total_pages s + of_nat (Suc k + 1)\<rparr>"
      by (subst s'(3)) (simp add: add.commute add.left_commute)
  qed
qed

section \<open>The boot allocator\<close>

lemma get_next_free_page_end: "boot_free mp s [] \<Longrightarrow> get_next_free_page mp s = Some (- 1, s)"
  by (simp add: boot_free_def get_next_free_page_def)

lemma boot_pages_frames: "map snd (boot_pages P k n) = map (\<lambda>j. P + of_nat (4096 * j)) [k..<n]"
  by (simp add: boot_pages_def)

text \<open>
  C5. The free list of one region of \<open>n\<close> pages behind the kernel: append_free_list and
  set_free_list_head build a list from which get_next_free_page hands out, in address order
  and once each, exactly the pages behind the pages that hold the descriptors, and then the
  error value; the descriptors of the region fit in the pages that are held back.
\<close>

theorem boot_list_hands_out_region:
  assumes "boot_region mp P n" "0 < n"
    and "P = round_up physfree" "round_up end' = P + of_nat (4096 * n)" "round_up start \<le> P"
  shows "\<exists>s1 s2 s3. append_free_list mp start end' physfree (initialize_free_list s) = Some s1 \<and>
    set_free_list_head mp s1 = Some s2 \<and>
    alloc_many (get_next_free_page mp) (n - desc_pages n) s2 =
      Some (map (\<lambda>j. P + of_nat (4096 * j)) [desc_pages n..<n], s3) \<and>
    get_next_free_page mp s3 = Some (- 1, s3) \<and> 24 * n \<le> 4096 * desc_pages n"
proof -
  have init: "free_list (initialize_free_list s) = 0" "free_list_total_pages (initialize_free_list s) = 0"
    by (simp_all add: initialize_free_list_def)
  obtain s1 where s1: "append_free_list mp start end' physfree (initialize_free_list s) = Some s1"
    "s1 = initialize_free_list s\<lparr>free_list := P, pmem := pmem s1,
      free_list_total_pages := free_list_total_pages (initialize_free_list s) + of_nat n\<rparr>"
    "page_chain (pmem s1) P (boot_pages P 0 n)"
    using append_region [OF assms(1,2) init(1) assms(3-5)] by (elim exE conjE) (rule that)
  have fl: "free_list s1 = P" "free_list_total_pages s1 = of_nat n"
    by (subst s1(2), simp)+ (simp add: init)
  from set_free_list_head_region [OF assms(1,2) fl s1(3)]
  obtain s2 where s2: "set_free_list_head mp s1 = Some s2" "boot_free mp s2 (boot_pages P (desc_pages n) n)"
    by blast
  let ?fs = "map (\<lambda>j. P + of_nat (4096 * j)) [desc_pages n..<n]"
  have "\<exists>ps. boot_free mp s2 ps \<and> map snd ps = ?fs @ []"
    using s2(2) boot_pages_frames by auto
  from boot_allocator.alloc_many_frames [OF this]
  obtain s3 where s3: "alloc_many (get_next_free_page mp) (length ?fs) s2 = Some (?fs, s3)" "boot_free mp s3 []"
    by auto
  have "length ?fs = n - desc_pages n" by simp
  then show ?thesis
    using s1(1) s2(1) s3(1) get_next_free_page_end [OF s3(2)] desc_pages_le(2) [of n] by metis
qed

text \<open>An identity mapping of the first \<open>l\<close> bytes, at 0 and at KERNBASE.\<close>

definition boot_pagemap :: "nat \<Rightarrow> pagemap" where
  "boot_pagemap l = (\<lambda>m a. if unat a < l then Some a
     else if unat (a - KERNBASE) < l then Some (a - KERNBASE) else None)"

lemma boot_mapped_pagemap: "l \<le> 2 ^ 31 \<Longrightarrow> boot_mapped (boot_pagemap l) l"
proof -
  assume l: "l \<le> 2 ^ 31"
  have "\<not> unat (KERNBASE + a) < l" if "unat a < l" for a :: u64
  proof -
    have "unat (KERNBASE + of_nat (unat a)) = unat KERNBASE + unat a"
      by (rule unat_add_no_wrap) (use that l in simp)
    then have "unat (KERNBASE + a) = unat KERNBASE + unat a" by (simp only: of_nat_unat ucast_id)
    moreover have "l \<le> unat KERNBASE" using l by simp
    ultimately show ?thesis by linarith
  qed
  then show ?thesis using l by (simp add: boot_mapped_def boot_pagemap_def)
qed

definition blank_paging :: paging where
  "blank_paging = \<lparr>pmem = (\<lambda>_. 0), cr3_reg = 0, free_list_head = 0, free_list_head_kmalloc = 0,
     free_list = 0, free_list_page_length = 0, free_list_total_pages = 0, kernel_cr3 = 0,
     top_virtual_address = 0, kernel_pml4_t = 0, paging_user_stack_top = 0\<rparr>"

lemma boot_list_hands_out_region_witness:
  "\<exists>s1 s2 s3. append_free_list (boot_pagemap 0x5000) 0 0x4ff0 0xff0 (initialize_free_list blank_paging) = Some s1 \<and>
    set_free_list_head (boot_pagemap 0x5000) s1 = Some s2 \<and>
    alloc_many (get_next_free_page (boot_pagemap 0x5000)) 3 s2 = Some ([0x2000, 0x3000, 0x4000], s3) \<and>
    get_next_free_page (boot_pagemap 0x5000) s3 = Some (- 1, s3)"
proof -
  have region: "boot_region (boot_pagemap 0x5000) 0x1000 4"
    using boot_mapped_pagemap [of "0x5000"] by (simp add: boot_region_def)
  have ends: "(0x1000 :: u64) = round_up 0xff0" "round_up 0x4ff0 = 0x1000 + of_nat (4096 * 4)" "round_up 0 \<le> 0x1000"
    by (simp_all add: round_up_def)
  have four: "(0 :: nat) < 4" by simp
  have frames: "map (\<lambda>j. 0x1000 + of_nat (4096 * j)) [desc_pages 4..<4] = [0x2000, 0x3000, 0x4000 :: u64]"
    "4 - desc_pages 4 = 3"
    by (simp_all add: desc_pages_def upt_rec)
  from boot_list_hands_out_region [OF region four ends, of blank_paging]
  show ?thesis unfolding frames by blast
qed

text \<open>
  C30. The page behind a further region: append_free_list with a list already built and
  a region from \<open>start\<close> of \<open>k\<close> pages counts \<open>k + 1\<close> pages and ends the list with a
  descriptor of the page at the (rounded) end of the region, which is not part of it.
\<close>

theorem append_free_list_passes_end:
  assumes "boot_mapped mp l" "free_list s \<noteq> 0" "last_page mp s (free_list s) = Some t"
    and "round_up physfree \<le> i" "i = round_up start" "round_up end' = i + of_nat (4096 * k)"
    and "unat i + 4096 * k + 512 \<le> l" "unat t + 24 * (k + 1) + 16 < l"
  shows "\<exists>s'. append_free_list mp start end' physfree s = Some s' \<and>
    load64 (pmem s') (t + of_nat (24 * (k + 1)) + 16) = round_up end' \<and>
    load64 (pmem s') (t + of_nat (24 * (k + 1))) = 0 \<and>
    free_list_total_pages s' = free_list_total_pages s + of_nat (k + 1)"
proof -
  let ?t = "t + of_nat (24 * (k + 1))"
  obtain s' where s': "append_more mp i (i + of_nat (4096 * k)) t s = Some (?t, s')"
    "load64 (pmem s') (?t + 16) = i + of_nat (4096 * k)"
    "s' = s\<lparr>pmem := pmem s', free_list_total_pages := free_list_total_pages s + of_nat (k + 1)\<rparr>"
    using append_more_ok [OF assms(1,7,8), where s = s] by (elim exE conjE) (rule that)
  have l: "l \<le> 2 ^ 31" using assms(1) by (simp add: boot_mapped_def)
  have u: "unat ?t = unat t + 24 * (k + 1)" by (rule unat_add_no_wrap) (use assms(8) l in simp)
  then have "unat ?t < l" using assms(8) by simp
  then have w: "wr mp s' (?t + 0) 0 = Some (s'\<lparr>pmem := store64 (pmem s') ?t 0\<rparr>)"
    using wr_boot [OF assms(1)] by simp
  have "append_free_list mp start end' physfree s = Some (s'\<lparr>pmem := store64 (pmem s') ?t 0\<rparr>)"
    using assms(2,3,4) s'(1) w
    by (simp only: append_free_list_def Let_def assms(6) assms(5) [symmetric] if_False if_True
        bind.bind_lunit prod.case)
  moreover have "load64 (store64 (pmem s') ?t 0) (?t + 16) = load64 (pmem s') (?t + 16)"
    by (rule load64_store64_sep) (simp add: sep8_def)
  moreover have "free_list_total_pages s' = free_list_total_pages s + of_nat (k + 1)"
    by (subst s'(3)) simp
  ultimately show ?thesis using s'(2) assms(6) by (intro exI conjI) (assumption | simp)+
qed

text \<open>A list of one page, and a further region of one page from 0x2000.\<close>

lemma append_free_list_passes_end_witness:
  "\<exists>s'. append_free_list (boot_pagemap 0x5000) 0x2000 0x3000 0x1000 (blank_paging\<lparr>free_list := 0x1000\<rparr>) = Some s' \<and>
    load64 (pmem s') (0x1000 + of_nat (24 * 2) + 16) = 0x3000 \<and> load64 (pmem s') (0x1000 + of_nat (24 * 2)) = 0 \<and>
    free_list_total_pages s' = 2"
proof -
  let ?s = "blank_paging\<lparr>free_list := 0x1000\<rparr>"
  have mapped: "boot_mapped (boot_pagemap 0x5000) 0x5000" by (rule boot_mapped_pagemap) simp
  have "load64 (pmem ?s) 0x1000 = 0" by (simp add: blank_paging_def load64_zero)
  moreover have "rd (boot_pagemap 0x5000) ?s 0x1000 = Some (load64 (pmem ?s) 0x1000)"
    by (rule rd_boot [OF mapped]) simp
  ultimately have last: "last_page (boot_pagemap 0x5000) ?s (free_list ?s) = Some 0x1000"
    by (subst last_page.simps) simp
  have nonempty: "free_list ?s \<noteq> 0" by simp
  have args: "round_up 0x1000 \<le> 0x2000" "(0x2000 :: u64) = round_up 0x2000"
    "round_up 0x3000 = 0x2000 + of_nat (4096 * 1)"
    "unat (0x2000 :: u64) + 4096 * 1 + 512 \<le> 0x5000" "unat (0x1000 :: u64) + 24 * (1 + 1) + 16 < 0x5000"
    by (simp_all add: round_up_def)
  have two: "1 + 1 = (2 :: nat)" "free_list_total_pages ?s + of_nat 2 = 2" "round_up 0x3000 = 0x3000"
    by (simp_all add: blank_paging_def round_up_def)
  from append_free_list_passes_end [OF mapped nonempty last args] show ?thesis unfolding two by blast
qed

end
