(* ===== verification/KernelMap.thy ===== *)
theory KernelMap
  imports BootList
begin

text \<open>
  The kernel's own page tables (create_kernel_pml4 and map_all_kernel_pages of
  sys/paging.c), built at boot through the boot loader's mapping and loaded into cr3 at
  the end of that.
\<close>

section \<open>The code\<close>

text \<open>The address of element \<open>i\<close> of an array of 64-bit words.\<close>

definition elem :: "u64 \<Rightarrow> u64 \<Rightarrow> u64" where
  "elem t i = t + 8 * i"

definition set_cr3 :: "u64 \<Rightarrow> 'a paging_scheme \<Rightarrow> 'a paging_scheme" where
  "set_cr3 pml4_t s = s\<lparr>cr3_reg := pml4_t\<rparr>"

definition get_cr3 :: "'a paging_scheme \<Rightarrow> u64" where
  "get_cr3 s = cr3_reg s"

definition create_kernel_pml4 :: "pagemap \<Rightarrow> 'a paging_scheme \<Rightarrow> (u64 \<times> 'a paging_scheme) option" where
  "create_kernel_pml4 mp s = do {
     (pml4_t, s) \<leftarrow> get_next_free_page mp s;
     let s = s\<lparr>kernel_cr3 := pml4_t\<rparr>;
     let kernel_pml4 = pml4_t + KERNBASE;
     s \<leftarrow> wr mp s (elem kernel_pml4 510) (kernel_cr3 s OR PAGE_KERNEL);
     Some (kernel_pml4, s\<lparr>kernel_pml4_t := kernel_pml4\<rparr>)
   }"

text \<open>The body of the loop of map_all_kernel_pages: the page at \<open>v_addr\<close>.\<close>

definition map_kernel_entry ::
  "pagemap \<Rightarrow> u64 \<Rightarrow> u64 \<Rightarrow> u64 \<Rightarrow> 'a paging_scheme \<Rightarrow> 'a paging_scheme option" where
  "map_kernel_entry mp kernel_pml4 v_addr p_addr s =
     (let pml4_offset = drop_bit 39 v_addr AND 0x1ff;
          pdpe_offset = drop_bit 30 v_addr AND 0x1ff;
          pgd_offset = drop_bit 21 v_addr AND 0x1ff;
          pte_offset = drop_bit 12 v_addr AND 0x1ff
      in do {
        pdpe_base_add \<leftarrow> rd mp s (elem kernel_pml4 pml4_offset);
        if is_valid_page pdpe_base_add then do {
          pgd_base_add \<leftarrow> rd mp s (elem (to_virtual pdpe_base_add) pdpe_offset);
          if is_valid_page pgd_base_add then do {
            pte_base_add \<leftarrow> rd mp s (elem (to_virtual pgd_base_add) pgd_offset);
            if is_valid_page pte_base_add
            then wr mp s (elem (to_virtual pte_base_add) pte_offset) (p_addr OR PAGE_KERNEL)
            else do {
              (pte_base_add, s) \<leftarrow> get_next_free_page mp s;
              s \<leftarrow> wr mp s (elem (to_virtual pgd_base_add) pgd_offset) (pte_base_add OR PAGE_KERNEL);
              wr mp s (elem (to_virtual pte_base_add) pte_offset) (p_addr OR PAGE_KERNEL)
            }
          } else do {
            (pgd_base_add, s) \<leftarrow> get_next_free_page mp s;
            s \<leftarrow> wr mp s (elem (to_virtual pdpe_base_add) pdpe_offset) (pgd_base_add OR PAGE_KERNEL);
            (pte_base_add, s) \<leftarrow> get_next_free_page mp s;
            s \<leftarrow> wr mp s (elem (to_virtual pgd_base_add) pgd_offset) (pte_base_add OR PAGE_KERNEL);
            wr mp s (elem (to_virtual pte_base_add) pte_offset) (p_addr OR PAGE_KERNEL)
          }
        } else do {
          (pdpe_base_add, s) \<leftarrow> get_next_free_page mp s;
          s \<leftarrow> wr mp s (elem kernel_pml4 pml4_offset) (pdpe_base_add OR PAGE_KERNEL);
          (pgd_base_add, s) \<leftarrow> get_next_free_page mp s;
          s \<leftarrow> wr mp s (elem (to_virtual pdpe_base_add) pdpe_offset) (pgd_base_add OR PAGE_KERNEL);
          (pte_base_add, s) \<leftarrow> get_next_free_page mp s;
          s \<leftarrow> wr mp s (elem (to_virtual pgd_base_add) pgd_offset) (pte_base_add OR PAGE_KERNEL);
          wr mp s (elem (to_virtual pte_base_add) pte_offset) (p_addr OR PAGE_KERNEL)
        }
      })"

partial_function (option) map_all_loop ::
  "pagemap \<Rightarrow> u64 \<Rightarrow> u64 \<Rightarrow> u64 \<Rightarrow> u64 \<Rightarrow> 'a paging_scheme \<Rightarrow> 'a paging_scheme option" where
  "map_all_loop mp kernel_pml4 v_addr_end v_addr_start p_addr_start s =
     (if v_addr_start \<le> v_addr_end then do {
        s \<leftarrow> map_kernel_entry mp kernel_pml4 v_addr_start p_addr_start s;
        map_all_loop mp kernel_pml4 v_addr_end (v_addr_start + PAGESIZE) (p_addr_start + PAGESIZE) s
      } else Some s)"

definition map_all_kernel_pages ::
  "pagemap \<Rightarrow> u64 \<Rightarrow> u64 \<Rightarrow> u64 \<Rightarrow> u64 \<Rightarrow> 'a paging_scheme \<Rightarrow> 'a paging_scheme option" where
  "map_all_kernel_pages mp v_addr_start v_addr_end p_addr_start kernel_pml4 s =
     map_all_loop mp kernel_pml4 v_addr_end (page_align v_addr_start) (page_align p_addr_start) s"

section \<open>Addresses of entries\<close>

lemma frame_page_of: "is_frame f \<Longrightarrow> page_of f = f"
proof -
  assume f: "is_frame f"
  then have "f = f AND 0x000ffffffffff000" by (simp add: is_frame_def frame_def)
  then have "page_of f = (f AND 0x000ffffffffff000) AND NOT 0xfff" by (simp only: page_of_def)
  also have "\<dots> = f AND 0x000ffffffffff000" by (simp only: and.assoc) simp
  finally show ?thesis using \<open>f = f AND 0x000ffffffffff000\<close> by simp
qed

lemma word_index_mask: "i AND 0x1ff = i \<Longrightarrow> push_bit 3 i AND 0xfff = push_bit 3 i" for i :: u64
proof -
  assume "i AND 0x1ff = i"
  then have i: "i = i AND 0x1ff" by simp
  show ?thesis by (subst (1 2) i) (rule word64_eqI, simp add: bitblast)
qed

lemma slot_sum: "is_frame f \<Longrightarrow> i AND 0x1ff = i \<Longrightarrow> slot f i = f + 8 * i"
  using page_plus(1) [OF frame_page_of word_index_mask, of f i]
  by (simp add: slot_def push_bit_eq_mult mult.commute)

lemma unat_page_offset: "unat (x :: u64) < 4096" if "x AND 0xfff = x"
proof -
  have "x = x AND mask 12" using that by (simp add: mask_eq_exp_minus_1)
  then have "x = take_bit 12 x" by (simp add: take_bit_eq_mask)
  then have "unat x = take_bit 12 (unat x)" by (metis unsigned_take_bit_eq)
  moreover have "take_bit 12 (unat x) < 2 ^ 12" by (rule take_bit_nat_less_exp)
  ultimately show ?thesis by simp
qed

lemma slot_below:
  assumes "is_frame f" "i AND 0x1ff = i" "unat f + 4096 \<le> l" "l \<le> 2 ^ 31"
  shows "unat (slot f i) < l"
proof -
  have x: "push_bit 3 i AND 0xfff = push_bit 3 i" by (rule word_index_mask [OF assms(2)])
  then have "unat (push_bit 3 i) < 4096" by (rule unat_page_offset)
  moreover have "slot f i = f + push_bit 3 i"
    using page_plus(1) [OF frame_page_of [OF assms(1)] x] by (simp add: slot_def)
  ultimately show ?thesis using unat_add_no_wrap [of f "unat (push_bit 3 i)"] assms(3,4) by simp
qed

lemma page_of_div: "page_of c = c div 4096 * 4096"
proof -
  have "page_of c = push_bit 12 (drop_bit 12 c)"
    unfolding page_of_def by (rule word64_eqI) (simp add: bitblast)
  also have "\<dots> = c div 2 ^ 12 * 2 ^ 12" by (simp only: push_bit_eq_mult drop_bit_eq_div)
  finally show ?thesis by simp
qed

lemma to_virtual_entry:
  assumes "is_frame f" "unat f < 2 ^ 31"
  shows "to_virtual f = KERNBASE + f" "to_virtual (f OR PAGE_KERNEL) = KERNBASE + f"
proof -
  have k: "(3 :: u64) AND 0xfff = 3" by simp
  note or3 = page_plus [OF frame_page_of [OF assms(1)] k]
  have "f < KERNBASE" using assms(2) by (simp add: word_less_nat_alt)
  then show "to_virtual f = KERNBASE + f"
    using frame_page_of [OF assms(1)] by (simp add: to_virtual_def page_of_div [symmetric] add.commute)
  have "unat (f + of_nat 3) = unat f + 3" by (rule unat_add_no_wrap) (use assms(2) in simp)
  then have "f OR 3 < KERNBASE" using assms(2) or3(1) by (simp add: word_less_nat_alt)
  then show "to_virtual (f OR PAGE_KERNEL) = KERNBASE + f"
    using or3(2) by (simp add: to_virtual_def page_of_div [symmetric] add.commute)
qed

section \<open>The tables under construction\<close>

text \<open>
  \<open>view s\<close> is what the processor will see with the new tables in cr3. Its free list is
  empty: the list of \<open>s\<close> is still the one that is used through the boot loader's mapping.
\<close>

definition view :: "'a paging_scheme \<Rightarrow> 'a paging_scheme" where
  "view s = s\<lparr>cr3_reg := kernel_cr3 s, free_list_head_kmalloc := KERNBASE\<rparr>"

text \<open>Every entry of the upper tables is a table's address with the flags of the kernel.\<close>

definition plain :: "mem \<Rightarrow> (nat \<Rightarrow> u64 set) \<Rightarrow> bool" where
  "plain m T \<longleftrightarrow> (\<forall>n. 0 < n \<and> n \<le> 3 \<longrightarrow> (\<forall>f \<in> T n. \<forall>i. good_slot n i \<and> present (load64 m (slot f i)) \<longrightarrow>
     load64 m (slot f i) = frame (load64 m (slot f i)) OR PAGE_KERNEL))"

lemma plainD:
  "\<lbrakk>plain m T; 0 < n \<and> n \<le> 3; f \<in> T n; good_slot n i; present (load64 m (slot f i))\<rbrakk> \<Longrightarrow>
    load64 m (slot f i) = frame (load64 m (slot f i)) OR PAGE_KERNEL"
  unfolding plain_def by blast

text \<open>Free pages and their descriptors, apart from each other and from the tables.\<close>

definition apart :: "mem \<Rightarrow> (nat \<Rightarrow> u64 set) \<Rightarrow> (u64 \<times> u64) list \<Rightarrow> nat \<Rightarrow> bool" where
  "apart m T ps l \<longleftrightarrow> distinct (map snd ps) \<and>
     (\<forall>f \<in> snd ` set ps. blank m f \<and> f \<notin> all_tables T) \<and>
     (\<forall>e \<in> fst ` set ps. load64 m (e + 8) = FREE \<and>
        (\<forall>w \<in> words e. unat w < l \<and> page_of w \<notin> all_tables T \<union> snd ` set ps)) \<and>
     (\<forall>f \<in> all_tables T \<union> snd ` set ps. unat f + 4096 \<le> l)"

definition boot_inv ::
  "pagemap \<Rightarrow> nat \<Rightarrow> 'a paging_scheme \<Rightarrow> (nat \<Rightarrow> u64 set) \<Rightarrow> (u64 \<times> u64) list \<Rightarrow> bool" where
  "boot_inv mp l s T ps \<longleftrightarrow> boot_mapped mp l \<and> paging_inv (view s) T [] \<and> plain (pmem s) T \<and>
     boot_free mp s ps \<and> apart (pmem s) T ps l"

lemma view_simps [simp]:
  "pmem (view s) = pmem s" "cr3_reg (view s) = kernel_cr3 s" "free_list_head_kmalloc (view s) = KERNBASE"
  by (simp_all add: view_def)

text \<open>With no free pages the invariant is about the tables only.\<close>

lemma paging_inv_view:
  "paging_inv (view s) T [] \<longleftrightarrow> levels_disjoint T \<and> unshared (pmem s) T \<and> T 3 = {frame (kernel_cr3 s)} \<and>
    recursive (pmem s) (frame (kernel_cr3 s)) \<and> tables_ok (pmem s) T"
  by (auto simp: paging_inv_def kernel_list_def descs_sep_def)

text \<open>Memories with the same table entries translate alike.\<close>

definition same_entries :: "(nat \<Rightarrow> u64 set) \<Rightarrow> mem \<Rightarrow> mem \<Rightarrow> bool" where
  "same_entries T m m' \<longleftrightarrow> (\<forall>g \<in> all_tables T. \<forall>i. i AND 0x1ff = i \<longrightarrow> load64 m' (slot g i) = load64 m (slot g i))"

lemma tab_cong:
  assumes inv: "paging_inv s T ps" "index 3 v \<noteq> 510" and d: "d \<le> 3" "down s v d"
    and same: "root s' = root s" "same_entries T (pmem s) (pmem s')"
  shows "k \<le> d \<Longrightarrow> tab s' v k = tab s v k \<and> down s' v k \<and> at_depth s' v k = at_depth s v k"
proof (induction k)
  case 0
  have "tab s v 0 \<in> all_tables T" using all_tablesI [of "root s" T 3] inv(1) by (simp add: paging_inv_def)
  then show ?case using same by (simp add: same_entries_def)
next
  case (Suc k)
  then have "down s v (Suc k)" "tab s' v (Suc k) = tab s v (Suc k)" "down s' v k"
    "present (at_depth s' v k)" using d(2) by (auto simp: down_def)
  moreover have "tab s v (Suc k) \<in> all_tables T"
    using tab_table [OF inv _ \<open>down s v (Suc k)\<close>] all_tablesI [of _ T "3 - Suc k"] Suc.prems d(1) by simp
  ultimately show ?case using same(2) unfolding same_entries_def by (simp add: down_Suc)
qed

lemma mmu_same:
  assumes inv: "paging_inv s T ps" "paging_inv s' T' ps'" and v: "index 3 v \<noteq> 510"
    and same: "cr3_reg s' = cr3_reg s" "same_entries T (pmem s) (pmem s')"
  shows "mmu s' (pmem s') v = mmu s (pmem s) v"
proof (cases "canonical v")
  case can: True
  have root: "root s' = root s" using same(1) by simp
  from gap_or_mapped [OF inv(1) v] show ?thesis
  proof
    assume "\<exists>d. at_gap s T ps v d"
    then obtain d where d: "d \<le> 3" "down s v d" "\<not> present (at_depth s v d)" by (auto simp: at_gap_def)
    note t = tab_cong [OF inv(1) v d(1,2) root same(2) order_refl]
    then have "\<not> present (at_depth s' v d)" using d(3) by metis
    with t show ?thesis
      using translate_absent [OF inv(1) v d] translate_absent [OF inv(2) v d(1)] by simp
  next
    assume d: "down s v 3 \<and> present (at_depth s v 3)"
    then have t: "down s' v 3" "at_depth s' v 3 = at_depth s v 3"
      using tab_cong [OF inv(1) v order_refl _ root same(2) order_refl] by blast+
    then have "present (at_depth s' v 3)" using d by metis
    with t d show ?thesis
      using translate_down [OF inv(1) v can] translate_down [OF inv(2) v can] by metis
  qed
qed (simp add: translate_def)

section \<open>Taking a page\<close>

lemma apart_frame: "apart m T ps l \<Longrightarrow> f \<in> snd ` set ps \<Longrightarrow> blank m f \<and> is_frame f \<and> f \<notin> all_tables T"
  unfolding apart_def blank_def by blast

lemma apart_desc:
  "apart m T ps l \<Longrightarrow> e \<in> fst ` set ps \<Longrightarrow> load64 m (e + 8) = FREE"
  "\<lbrakk>apart m T ps l; e \<in> fst ` set ps; w \<in> words e\<rbrakk> \<Longrightarrow>
    unat w < l \<and> page_of w \<notin> all_tables T \<union> snd ` set ps"
  unfolding apart_def by blast+

lemma apartI:
  "\<lbrakk>distinct (map snd ps); \<And>f. f \<in> snd ` set ps \<Longrightarrow> blank m f \<and> f \<notin> all_tables T;
    \<And>e. e \<in> fst ` set ps \<Longrightarrow> load64 m (e + 8) = FREE;
    \<And>e w. \<lbrakk>e \<in> fst ` set ps; w \<in> words e\<rbrakk> \<Longrightarrow> unat w < l \<and> page_of w \<notin> all_tables T \<union> snd ` set ps;
    \<And>f. f \<in> all_tables T \<union> snd ` set ps \<Longrightarrow> unat f + 4096 \<le> l\<rbrakk> \<Longrightarrow> apart m T ps l"
  unfolding apart_def by (intro conjI ballI) metis+

lemma apart_limit: "apart m T ps l \<Longrightarrow> f \<in> all_tables T \<union> snd ` set ps \<Longrightarrow> unat f + 4096 \<le> l"
  unfolding apart_def by blast

lemma apart_taken:
  assumes free: "boot_free mp s ((e, f) # ps)" and ap: "apart (pmem s) T ((e, f) # ps) l"
  shows "\<lbrakk>g \<in> all_tables T \<union> snd ` set ((e, f) # ps); is_frame g; i AND 0x1ff = i\<rbrakk> \<Longrightarrow>
      load64 (pmem (taken e s)) (slot g i) = load64 (pmem s) (slot g i)"
    and "blank (pmem (taken e s)) f"
    and "apart (pmem (taken e s)) (T(n := insert f (T n))) ps l"
proof -
  let ?s = "taken e s" and ?T = "T(n := insert f (T n))"
  have m: "pmem ?s = store64 (pmem s) (e + 8) ALLOCATED" by (simp add: taken_def)
  have f: "f \<notin> snd ` set ps" using ap by (simp add: apart_def)
  have e: "aligned8 (e + 8)" "page_of (e + 8) \<notin> all_tables T \<union> snd ` set ((e, f) # ps)"
    using free ap by (auto simp: boot_free_def descs_sep_def apart_def words_def intro: aligned8_add)
  have same: "load64 (pmem ?s) (slot g i) = load64 (pmem s) (slot g i)"
    if g: "g \<in> all_tables T \<union> snd ` set ((e, f) # ps)" "is_frame g" and i: "i AND 0x1ff = i" for g i
  proof -
    have "page_of (slot g i) = g" by (rule slot_frame_parts(1) [OF g(2) i])
    with e(2) g have "e + 8 \<noteq> slot g i" by metis
    then show ?thesis using e(1) slot_frame_parts(3) [OF g(2) i] by (simp add: m load64_store64_aligned)
  qed
  then show "\<lbrakk>g \<in> all_tables T \<union> snd ` set ((e, f) # ps); is_frame g; i AND 0x1ff = i\<rbrakk> \<Longrightarrow>
      load64 (pmem (taken e s)) (slot g i) = load64 (pmem s) (slot g i)" .
  have blank: "blank (pmem ?s) g" if "g \<in> snd ` set ((e, f) # ps)" for g
    using apart_frame [OF ap that] same [of g] that by (auto simp: blank_def)
  show "blank (pmem ?s) f" by (rule blank) simp
  have all: "all_tables ?T \<subseteq> insert f (all_tables T)" by (auto simp: all_tables_def split: if_splits)
  show "apart (pmem ?s) ?T ps l"
  proof (rule apartI)
    show "distinct (map snd ps)" using ap by (simp add: apart_def)
    show "load64 (pmem ?s) (e' + 8) = FREE" if e': "e' \<in> fst ` set ps" for e'
    proof -
      have ds: "descs_sep (e # map fst ps)" using free by (simp add: boot_free_def)
      have e'': "e' \<in> set (map fst ps)" using e' by simp
      have al: "aligned8 (e' + 8)" using ds e' by (auto simp: descs_sep_def intro: aligned8_add)
      have "words e \<inter> words e' = {}" using descs_sep_Cons [OF ds] e'' by blast
      then have "e + 8 \<noteq> e' + 8" by (auto simp: words_def)
      then have "load64 (pmem ?s) (e' + 8) = load64 (pmem s) (e' + 8)"
        unfolding m by (simp add: load64_store64_aligned [OF e(1) al])
      moreover have "load64 (pmem s) (e' + 8) = FREE" by (rule apart_desc(1) [OF ap]) (use e' in simp)
      ultimately show ?thesis by simp
    qed
    show "blank (pmem ?s) g \<and> g \<notin> all_tables ?T" if "g \<in> snd ` set ps" for g
    proof -
      have g: "g \<in> snd ` set ((e, f) # ps)" using that by simp
      have "g \<noteq> f" using that f by blast
      then show ?thesis using blank [OF g] apart_frame [OF ap g] all by blast
    qed
    show "unat w < l \<and> page_of w \<notin> all_tables ?T \<union> snd ` set ps" if "e' \<in> fst ` set ps" "w \<in> words e'" for e' w
    proof -
      have "unat w < l \<and> page_of w \<notin> all_tables T \<union> snd ` set ((e, f) # ps)"
        by (rule apart_desc(2) [OF ap _ that(2)]) (use that(1) in simp)
      then show ?thesis using all by auto
    qed
    show "unat g + 4096 \<le> l" if "g \<in> all_tables ?T \<union> snd ` set ps" for g
    proof -
      have "g \<in> all_tables T \<union> snd ` set ((e, f) # ps)" using that all by auto
      then show ?thesis by (rule apart_limit [OF ap])
    qed
  qed
qed

text \<open>A write to an entry of a table keeps the free pages and their list.\<close>

lemma apart_store:
  assumes free: "boot_free mp s ps" and ap: "apart (pmem s) T ps l"
    and g: "g \<in> all_tables T" "is_frame g" and i: "i AND 0x1ff = i"
  shows "boot_free mp (s\<lparr>pmem := store64 (pmem s) (slot g i) x\<rparr>) ps"
    and "apart (store64 (pmem s) (slot g i) x) T ps l"
proof -
  let ?a = "slot g i"
  note a = slot_frame_parts(3) [OF g(2) i]
  have away: "?a \<notin> words e" if "e \<in> fst ` set ps" for e
  proof
    assume "?a \<in> words e"
    then have "page_of ?a \<notin> all_tables T" using apart_desc(2) [OF ap that] by simp
    then show False using g(1) slot_frame_parts(1) [OF g(2) i] by simp
  qed
  have al: "aligned8 e" if "e \<in> fst ` set ps" for e
    using free that by (auto simp: boot_free_def descs_sep_def)
  show "boot_free mp (s\<lparr>pmem := store64 (pmem s) ?a x\<rparr>) ps"
    using free page_chain_store [OF a, of ps] away al by (simp add: boot_free_def)
  show "apart (store64 (pmem s) ?a x) T ps l"
  proof (rule apartI)
    show "blank (store64 (pmem s) ?a x) f \<and> f \<notin> all_tables T" if "f \<in> snd ` set ps" for f
    proof -
      have f: "blank (pmem s) f" "f \<notin> all_tables T" using apart_frame [OF ap that] by simp_all
      then have "f \<noteq> g" using g(1) by blast
      then show ?thesis using load_blank_slot [OF f(1) g(2) i] f(2) by simp
    qed
    show "load64 (store64 (pmem s) ?a x) (e + 8) = FREE" if "e \<in> fst ` set ps" for e
    proof -
      have "?a \<noteq> e + 8" using away [OF that] by (auto simp: words_def)
      then show ?thesis
        using apart_desc(1) [OF ap that] load64_store64_aligned [OF a aligned8_add [OF al [OF that]], of 8] by simp
    qed
  qed (use ap in \<open>simp_all only: apart_def, blast+\<close>)
qed

lemma boot_take:
  assumes inv: "boot_inv mp l s T ((e, f) # ps)" and n: "n \<noteq> 3"
  shows "get_next_free_page mp s = Some (f, taken e s)"
    and "boot_inv mp l (taken e s) (T(n := insert f (T n))) ps"
    and "same_entries T (pmem s) (pmem (taken e s))"
    and "blank (pmem (taken e s)) f"
proof -
  let ?s = "taken e s" and ?T = "T(n := insert f (T n))"
  have free: "boot_free mp s ((e, f) # ps)" and ap: "apart (pmem s) T ((e, f) # ps) l"
    and view: "paging_inv (view s) T []" and pl: "plain (pmem s) T" and mp: "boot_mapped mp l"
    using inv by (simp_all add: boot_inv_def)
  note taken = apart_taken [OF free ap]
  show "get_next_free_page mp s = Some (f, ?s)" by (rule get_next_free_page_taken(1) [OF free])
  have t: "tables_ok (pmem s) T" using view by (simp add: paging_inv_view)
  have f: "f \<notin> all_tables T" using apart_frame [OF ap, of f] by simp
  have eq: "load64 (pmem ?s) (slot g i) = load64 (pmem s) (slot g i)" if "g \<in> all_tables T" "i AND 0x1ff = i" for g i
    using taken(1) [of g i] all_tables_frame [OF t] that by simp
  then show "same_entries T (pmem s) (pmem ?s)" by (simp add: same_entries_def)
  show fb: "blank (pmem ?s) f" by (rule taken(2))
  have root: "frame (kernel_cr3 ?s) = frame (kernel_cr3 s)" by (simp add: taken_def)
  have r: "frame (kernel_cr3 s) \<in> all_tables T" using all_tablesI [of _ T 3] view by (simp add: paging_inv_view)
  have "paging_inv (view ?s) ?T []"
    unfolding paging_inv_view root
    using view tables_ok_insert [OF tables_cong(1) [OF eq t] fb] unshared_insert [OF tables_cong(2) [OF eq] fb]
      tables_cong(3) [OF eq r] f n
    by (auto simp: paging_inv_view levels_disjoint_def all_tables_def)
  moreover have "plain (pmem ?s) ?T"
    unfolding plain_def
  proof (intro allI impI ballI)
    fix k g i assume k: "0 < k \<and> k \<le> 3" and g: "g \<in> ?T k"
      and p: "good_slot k i \<and> present (load64 (pmem ?s) (slot g i))"
    have "g \<noteq> f" using p blank_slot [OF fb] by (auto simp: present_def)
    then have gT: "g \<in> T k" using g by (auto split: if_splits)
    then have "load64 (pmem ?s) (slot g i) = load64 (pmem s) (slot g i)"
      using eq [of g i] all_tablesI [of g T k] gT k p by (simp add: good_slot_def)
    then show "load64 (pmem ?s) (slot g i) = frame (load64 (pmem ?s) (slot g i)) OR PAGE_KERNEL"
      using plainD [OF pl k gT] p by simp
  qed
  ultimately show "boot_inv mp l ?s ?T ps"
    using mp taken(3) get_next_free_page_taken(2) [OF free] by (simp add: boot_inv_def)
qed

section \<open>Writing an entry\<close>

definition boot_put :: "u64 \<Rightarrow> nat \<Rightarrow> u64 \<Rightarrow> 'a paging_scheme \<Rightarrow> 'a paging_scheme" where
  "boot_put v d x s = s\<lparr>pmem := pmem (put_entry v d x (view s))\<rparr>"

lemma view_boot_put: "view (boot_put v d x s) = put_entry v d x (view s)"
  by (simp add: view_def boot_put_def put_entry_def)

lemma pmem_boot_put: "pmem (boot_put v d x s) = store64 (pmem s) (slot (tab (view s) v d) (index (3 - d) v)) x"
  by (simp add: boot_put_def put_entry_def)

lemma boot_put_simps [simp]: "kernel_cr3 (boot_put v d x s) = kernel_cr3 s"
  "kernel_pml4_t (boot_put v d x s) = kernel_pml4_t s"
  by (simp_all add: boot_put_def)

text \<open>An entry reached through the boot loader's mapping.\<close>

lemma boot_slot:
  assumes "boot_mapped mp l" "is_frame f" "unat f + 4096 \<le> l" "i AND 0x1ff = i"
  shows "wr mp s (elem (KERNBASE + f) i) x = Some (s\<lparr>pmem := store64 (pmem s) (slot f i) x\<rparr>)"
    "rd mp s (elem (KERNBASE + f) i) = Some (load64 (pmem s) (slot f i))"
proof -
  have l: "l \<le> 2 ^ 31" and mp: "\<And>m a. unat a < l \<Longrightarrow> mp m (KERNBASE + a) = Some a"
    using assms(1) by (simp_all add: boot_mapped_def)
  have "unat (slot f i) < l" by (rule slot_below [OF assms(2,4,3) l])
  moreover have "elem (KERNBASE + f) i = KERNBASE + slot f i"
    by (simp add: elem_def slot_sum [OF assms(2,4)] add.assoc)
  ultimately have "mp m (elem (KERNBASE + f) i) = Some (slot f i)" for m using mp by simp
  then show "wr mp s (elem (KERNBASE + f) i) x = Some (s\<lparr>pmem := store64 (pmem s) (slot f i) x\<rparr>)"
    "rd mp s (elem (KERNBASE + f) i) = Some (load64 (pmem s) (slot f i))"
    by (simp_all add: wr_def rd_def vload64_def vstore64_def)
qed

lemma boot_entry:
  assumes "boot_inv mp l s T ps" "f \<in> all_tables T" "i AND 0x1ff = i"
  shows "wr mp s (elem (KERNBASE + f) i) x = Some (s\<lparr>pmem := store64 (pmem s) (slot f i) x\<rparr>)"
    "rd mp s (elem (KERNBASE + f) i) = Some (load64 (pmem s) (slot f i))"
proof -
  have f: "is_frame f"
    using assms(1,2) all_tables_frame [of "pmem s" T] by (simp add: boot_inv_def paging_inv_view)
  have l: "unat f + 4096 \<le> l" using assms(1,2) apart_limit [of "pmem s" T ps l f] by (simp add: boot_inv_def)
  have mp: "boot_mapped mp l" using assms(1) by (simp add: boot_inv_def)
  show "wr mp s (elem (KERNBASE + f) i) x = Some (s\<lparr>pmem := store64 (pmem s) (slot f i) x\<rparr>)"
    "rd mp s (elem (KERNBASE + f) i) = Some (load64 (pmem s) (slot f i))"
    by (rule boot_slot [OF mp f l assms(3)])+
qed

lemma boot_gap_table: "at_gap (view s) T [] v d \<Longrightarrow> tab (view s) v d \<in> all_tables T"
  using gap_slot(2) [of "view s" T "[]" v d] all_tablesI [of _ T "3 - d"] by simp

lemma boot_write:
  assumes "boot_inv mp l s T ps" "at_gap (view s) T [] v d"
  shows "wr mp s (elem (KERNBASE + tab (view s) v d) (index (3 - d) v)) x = Some (boot_put v d x s)"
  using boot_entry(1) [OF assms(1) boot_gap_table [OF assms(2)], of "index (3 - d) v"]
  by (simp add: boot_put_def put_entry_def)

lemma boot_store:
  assumes inv: "boot_inv mp l s T ps" and gap: "at_gap (view s) T [] v d"
    and x: "good_entry T (3 - d) x" "d < 3 \<Longrightarrow> x = frame x OR PAGE_KERNEL"
    and new: "\<And>g j. \<lbrakk>d < 3; g \<in> T (3 - d); good_slot (3 - d) j; present (load64 (pmem s) (slot g j))\<rbrakk> \<Longrightarrow>
      frame (load64 (pmem s) (slot g j)) \<noteq> frame x"
  shows "boot_inv mp l (boot_put v d x s) T ps"
proof -
  let ?s = "boot_put v d x s" and ?f = "tab (view s) v d" and ?i = "index (3 - d) v"
  let ?a = "slot ?f ?i"
  have m: "pmem ?s = store64 (pmem s) ?a x" by (rule pmem_boot_put)
  have view: "paging_inv (view s) T []" and pl: "plain (pmem s) T" and free: "boot_free mp s ps"
    and ap: "apart (pmem s) T ps l" and mp: "boot_mapped mp l"
    using inv by (simp_all add: boot_inv_def)
  have t: "tables_ok (pmem s) T" and ld: "levels_disjoint T" using view by (simp_all add: paging_inv_view)
  note g = gap_slot [OF gap]
  have fT: "?f \<in> all_tables T" by (rule boot_gap_table [OF gap])
  have "paging_inv (view ?s) T []"
    unfolding view_boot_put put_entry_def
    by (rule inv_store [OF view g(2) _ g(3)]) (use gap x(1) new in \<open>simp_all add: at_gap_def\<close>)
  moreover have "plain (pmem ?s) T"
    unfolding plain_def
  proof (intro allI impI ballI)
    fix k h j assume k: "0 < k \<and> k \<le> 3" and h: "h \<in> T k"
      and p: "good_slot k j \<and> present (load64 (pmem ?s) (slot h j))"
    show "load64 (pmem ?s) (slot h j) = frame (load64 (pmem ?s) (slot h j)) OR PAGE_KERNEL"
    proof (cases "(?f, ?i) = (h, j)")
      case True
      then have "k = 3 - d" using ld g(2) h k unfolding levels_disjoint_def
        by (metis Pair_inject diff_le_self disjoint_iff)
      then have "d < 3" using k by simp
      then show ?thesis using x(2) True by (auto simp: m)
    next
      case False
      have j: "j AND 0x1ff = j" using p by (simp add: good_slot_def)
      have "is_frame h" using tables_okD(1) [OF t h] k by simp
      then have "load64 (pmem ?s) (slot h j) = load64 (pmem s) (slot h j)"
        unfolding m using g(4) False j by (intro load_other_slot) simp_all
      then show ?thesis using pl k h p unfolding plain_def by simp
    qed
  qed
  moreover have "boot_free mp ?s ps" "apart (pmem ?s) T ps l"
    using apart_store [OF free ap fT g(4), of ?i x] by (simp_all add: boot_put_def put_entry_def)
  ultimately show ?thesis using mp by (simp add: boot_inv_def)
qed

section \<open>Creating a table\<close>

lemma boot_gap_take:
  assumes inv: "boot_inv mp l s T ((e, f) # ps)" and gap: "at_gap (view s) T [] v d" and n: "n \<noteq> 3"
  shows "at_gap (view (taken e s)) (T(n := insert f (T n))) [] v d"
    and "tab (view (taken e s)) v d = tab (view s) v d"
    and "keeps_translations (view s) (view (taken e s))"
    and "only_page v (view s) (view (taken e s))"
proof -
  let ?s = "taken e s" and ?T = "T(n := insert f (T n))"
  note take = boot_take [OF inv n]
  have view: "paging_inv (view s) T []" "paging_inv (view ?s) ?T []"
    using inv take(2) by (simp_all add: boot_inv_def)
  have v: "index 3 v \<noteq> 510" and d: "d \<le> 3" "down (view s) v d" using gap by (simp_all add: at_gap_def)
  have cr3: "kernel_cr3 ?s = kernel_cr3 s" by (simp add: taken_def)
  have "root (view ?s) = root (view s)" by (simp add: cr3)
  have "same_entries T (pmem (view s)) (pmem (view ?s))" using take(3) by simp
  from tab_cong [OF view(1) v d \<open>root (view ?s) = root (view s)\<close> this order_refl]
  have t: "tab (view ?s) v d = tab (view s) v d" "down (view ?s) v d" "at_depth (view ?s) v d = at_depth (view s) v d"
    by blast+
  show "tab (view ?s) v d = tab (view s) v d" by (rule t(1))
  have "\<not> present (at_depth (view ?s) v d)" unfolding t(3) using gap by (simp add: at_gap_def)
  then show "at_gap (view ?s) ?T [] v d" using view(2) v d(1) t(2) unfolding at_gap_def by blast
  have a: "aligned8 (e + 8)" "\<not> present (load64 (pmem (view s)) (e + 8))"
    using inv apart_desc(1) [of "pmem s" T "(e, f) # ps" l e]
    by (auto simp: boot_inv_def boot_free_def descs_sep_def intro: aligned8_add)
  show "keeps_translations (view s) (view ?s)"
    by (rule keeps_store [OF a]) (simp_all add: taken_def)
  show "only_page v (view s) (view ?s)"
    unfolding only_page_def using mmu_same [OF view] take(3) cr3 by simp
qed

lemma boot_install:
  assumes inv: "boot_inv mp l s T ((e, f) # ps)" and gap: "at_gap (view s) T [] v d" and d: "d < 3"
  shows "get_next_free_page mp s = Some (f, taken e s)"
    and "wr mp (taken e s) (elem (KERNBASE + tab (view s) v d) (index (3 - d) v)) (f OR PAGE_KERNEL) =
      Some (boot_put v d (f OR PAGE_KERNEL) (taken e s))"
    and "boot_inv mp l (boot_put v d (f OR PAGE_KERNEL) (taken e s)) (T(2 - d := insert f (T (2 - d)))) ps"
    and "at_gap (view (boot_put v d (f OR PAGE_KERNEL) (taken e s))) (T(2 - d := insert f (T (2 - d)))) [] v (Suc d)"
    and "tab (view (boot_put v d (f OR PAGE_KERNEL) (taken e s))) v (Suc d) = f"
    and "keeps_translations (view s) (view (boot_put v d (f OR PAGE_KERNEL) (taken e s)))"
    and "canonical v \<Longrightarrow> only_page v (view s) (view (boot_put v d (f OR PAGE_KERNEL) (taken e s)))"
proof -
  let ?x = "f OR PAGE_KERNEL" and ?s = "taken e s" and ?T = "T(2 - d := insert f (T (2 - d)))"
  let ?u = "boot_put v d ?x ?s"
  have n: "2 - d \<noteq> 3" and d2: "3 - d = Suc (2 - d)" using d by simp_all
  note take = boot_take [OF inv n] and gap' = boot_gap_take [OF inv gap n]
  show "get_next_free_page mp s = Some (f, ?s)" by (rule take(1))
  show "wr mp ?s (elem (KERNBASE + tab (view s) v d) (index (3 - d) v)) ?x = Some ?u"
    using boot_write [OF take(2) gap'(1)] unfolding gap'(2) .
  have ap: "apart (pmem s) T ((e, f) # ps) l" using inv by (simp add: boot_inv_def)
  have f: "blank (pmem s) f" "is_frame f" "f \<notin> all_tables T" using apart_frame [OF ap, of f] by simp_all
  have x: "present ?x" "is_valid_page ?x" "\<not> bit ?x 7" "frame ?x = f"
    using entry_of_frame [OF f(2), of PAGE_KERNEL] by (simp_all add: flags_ok_def)
  have good: "good_entry ?T (3 - d) ?x" using x d2 by (simp add: good_entry_def)
  show inv': "boot_inv mp l ?u ?T ps"
  proof (rule boot_store [OF take(2) gap'(1) good])
    show "?x = frame ?x OR PAGE_KERNEL" by (simp add: x(4))
    fix g j assume g: "g \<in> ?T (3 - d)" "good_slot (3 - d) j" "present (load64 (pmem ?s) (slot g j))"
    have gT: "g \<in> T (3 - d)" using g(1) d2 by simp
    then have "load64 (pmem ?s) (slot g j) = load64 (pmem s) (slot g j)"
      using take(3) g(2) all_tablesI [of g T "3 - d"] by (simp add: good_slot_def same_entries_def)
    moreover have "good_entry T (3 - d) (load64 (pmem s) (slot g j))"
      using inv g(2) gT tables_okD(2) [of "pmem s" T g "3 - d" j] by (simp add: boot_inv_def paging_inv_view)
    ultimately have "frame (load64 (pmem ?s) (slot g j)) \<in> all_tables T"
      using g(3) d all_tablesI [of _ T "2 - d"] d2 by (simp add: good_entry_def)
    then show "frame (load64 (pmem ?s) (slot g j)) \<noteq> frame ?x" using f(3) x(4) by auto
  qed
  have view: "paging_inv (view ?u) ?T []" using inv' by (simp add: boot_inv_def)
  note put = put_entry_keeps [OF gap'(1), of ?x, folded view_boot_put]
  show tab: "tab (view ?u) v (Suc d) = f" using put(4) x(4) by simp
  have blank: "load64 (pmem (view ?u)) (slot f j) = 0" if "j AND 0x1ff = j" for j
  proof -
    have "blank (pmem ?s) f" by (rule take(4))
    moreover have "f \<noteq> tab (view ?s) v d" using boot_gap_table [OF gap] f(3) gap'(2) by auto
    ultimately show ?thesis
      using load_blank_slot [of "pmem ?s" f "tab (view ?s) v d" "index (3 - d) v" ?x] gap_slot(4) [OF gap'(1)] that
      by (simp add: pmem_boot_put blank_def)
  qed
  have "down (view ?u) v (Suc d)" using put(2,4) x(1) by (simp add: down_Suc)
  moreover have "\<not> present (at_depth (view ?u) v (Suc d))" unfolding tab using blank by (simp add: present_def)
  ultimately show "at_gap (view ?u) ?T [] v (Suc d)" using view gap d by (simp add: at_gap_def)
  show "keeps_translations (view s) (view ?u)" by (rule keeps_trans [OF gap'(3) put(1)])
  show "only_page v (view s) (view ?u)" if "canonical v"
  proof (rule only_page_trans [OF gap'(4)])
    show "only_page v (view ?s) (view ?u)"
      unfolding view_boot_put
      by (rule put_entry_only_page [OF gap'(1) _ x(1) that])
        (use view blank x(4) in \<open>simp_all add: view_boot_put [symmetric]\<close>)
  qed
qed

section \<open>Mapping a page\<close>

text \<open>
  The part of map_kernel_entry behind the first missing entry, with \<open>n\<close> tables to create
  below the one at \<open>t\<close>.
\<close>

primrec boot_fill :: "pagemap \<Rightarrow> u64 \<Rightarrow> u64 \<Rightarrow> nat \<Rightarrow> u64 \<Rightarrow> 'a paging_scheme \<Rightarrow> 'a paging_scheme option" where
  "boot_fill mp p v 0 t s = wr mp s (elem t (index 0 v)) (p OR PAGE_KERNEL)"
| "boot_fill mp p v (Suc n) t s = do {
     (f, s') \<leftarrow> get_next_free_page mp s;
     s'' \<leftarrow> wr mp s' (elem t (index (Suc n) v)) (f OR PAGE_KERNEL);
     boot_fill mp p v n (to_virtual f) s''
   }"

definition boot_same :: "'a paging_scheme \<Rightarrow> 'a paging_scheme \<Rightarrow> bool" where
  "boot_same s s' \<longleftrightarrow> s' = s\<lparr>pmem := pmem s', free_list_head := free_list_head s'\<rparr>"

lemma boot_same_simps [simp]: "boot_same s s" "boot_same s (taken e s)" "boot_same s (boot_put v d x s)"
  by (simp_all add: boot_same_def taken_def boot_put_def)

lemma boot_same_trans: "boot_same s s' \<Longrightarrow> boot_same s' s'' \<Longrightarrow> boot_same s s''"
  unfolding boot_same_def by (metis (no_types, lifting) paging.surjective paging.update_convs(1,3))

lemma boot_same_fields: "boot_same s s' \<Longrightarrow> kernel_cr3 s' = kernel_cr3 s \<and> kernel_pml4_t s' = kernel_pml4_t s \<and>
    free_list_page_length s' = free_list_page_length s \<and> cr3_reg s' = cr3_reg s"
  unfolding boot_same_def by (metis (no_types, lifting) paging.surjective paging.select_convs paging.update_convs(1,3))

text \<open>What one page more in the tables means.\<close>

definition boot_mapped_page ::
  "pagemap \<Rightarrow> nat \<Rightarrow> u64 \<Rightarrow> u64 \<Rightarrow> 'a paging_scheme \<Rightarrow> (nat \<Rightarrow> u64 set) \<Rightarrow> (u64 \<times> u64) list \<Rightarrow> 'a paging_scheme \<Rightarrow> bool" where
  "boot_mapped_page mp l p v s T ps s' \<longleftrightarrow> boot_same s s' \<and> keeps_translations (view s) (view s') \<and>
     only_page v (view s) (view s') \<and>
     (\<forall>va. page_of va = page_of v \<longrightarrow> mmu (view s') (pmem s') va = Some (p OR (va AND 0xfff))) \<and>
     (\<exists>T' used rest. ps = used @ rest \<and> length used \<le> 3 \<and> boot_inv mp l s' T' rest \<and>
        all_tables T' = all_tables T \<union> snd ` set used)"

lemma boot_fill_ok:
  assumes v: "canonical v" and p: "is_frame p"
  shows "\<lbrakk>boot_inv mp l s T ps; at_gap (view s) T [] v (3 - n); n \<le> 3; n \<le> length ps\<rbrakk> \<Longrightarrow>
    \<exists>s' T' rest. boot_fill mp p v n (KERNBASE + tab (view s) v (3 - n)) s = Some s' \<and> boot_same s s' \<and>
      keeps_translations (view s) (view s') \<and> only_page v (view s) (view s') \<and>
      (\<forall>va. page_of va = page_of v \<longrightarrow> mmu (view s') (pmem s') va = Some (p OR (va AND 0xfff))) \<and>
      ps = take n ps @ rest \<and> boot_inv mp l s' T' rest \<and> all_tables T' = all_tables T \<union> snd ` set (take n ps)"
proof (induction n arbitrary: s T ps)
  case 0
  let ?x = "p OR PAGE_KERNEL" let ?u = "boot_put v 3 ?x s"
  have gap: "at_gap (view s) T [] v 3" using 0 by simp
  have x: "present ?x" "is_valid_page ?x" "frame ?x = p"
    using entry_of_frame [OF p, of PAGE_KERNEL] by (simp_all add: flags_ok_def)
  have good: "good_entry T (3 - 3) ?x" using x by (simp add: good_entry_def)
  have inv: "boot_inv mp l ?u T ps" by (rule boot_store [OF 0(1) gap good]) simp_all
  have view: "paging_inv (view ?u) T []" using inv by (simp add: boot_inv_def)
  have v3: "index 3 v \<noteq> 510" using gap by (simp add: at_gap_def)
  note put = put_entry_keeps [OF gap, of ?x, folded view_boot_put]
  have "mmu (view ?u) (pmem ?u) va = Some (p OR (va AND 0xfff))" if "page_of va = page_of v" for va
    using translate_down [OF view, of va] put v3 v x same_page [OF that] tab_same_page [OF that, of "view ?u"]
    by simp
  moreover have "only_page v (view s) (view ?u)"
    unfolding view_boot_put
    by (rule put_entry_only_page [OF gap _ x(1) v]) (use view in \<open>simp_all add: view_boot_put\<close>)
  ultimately show ?case using inv boot_write [OF 0(1) gap, of ?x] put(1) by auto
next
  case (Suc n)
  then obtain e f ps' where ps: "ps = (e, f) # ps'" by (cases ps) auto
  have d: "3 - Suc n = 2 - n" "2 - n < 3" "Suc (2 - n) = 3 - n" "2 - (2 - n) = n" "3 - (2 - n) = Suc n"
    using Suc.prems(3) by auto
  let ?u = "boot_put v (2 - n) (f OR PAGE_KERNEL) (taken e s)" and ?T = "T(n := insert f (T n))"
  have inv: "boot_inv mp l s T ((e, f) # ps')" using Suc.prems(1) ps by simp
  have gap: "at_gap (view s) T [] v (2 - n)" using Suc.prems(2) d(1) by simp
  note t = boot_install [OF inv gap d(2), unfolded d]
  have ap: "apart (pmem s) T ((e, f) # ps') l" and l: "l \<le> 2 ^ 31"
    using inv by (simp_all add: boot_inv_def boot_mapped_def)
  have f: "is_frame f" "unat f + 4096 \<le> l" using apart_frame [OF ap, of f] apart_limit [OF ap, of f] by simp_all
  then have "unat f < 2 ^ 31" using l by linarith
  then have tv: "to_virtual f = KERNBASE + tab (view ?u) v (3 - n)" using to_virtual_entry(1) [OF f(1)] t(5) by simp
  have "n \<le> 3" "n \<le> length ps'" using Suc.prems ps by simp_all
  from Suc.IH [OF t(3,4) this] obtain s' T' rest where
    s': "boot_fill mp p v n (KERNBASE + tab (view ?u) v (3 - n)) ?u = Some s'" "boot_same ?u s'"
    "keeps_translations (view ?u) (view s')" "only_page v (view ?u) (view s')"
    "\<forall>va. page_of va = page_of v \<longrightarrow> mmu (view s') (pmem s') va = Some (p OR (va AND 0xfff))"
    "ps' = take n ps' @ rest" "boot_inv mp l s' T' rest" "all_tables T' = all_tables ?T \<union> snd ` set (take n ps')"
    by (elim exE conjE) (rule that)
  have all: "all_tables ?T = insert f (all_tables T)" using Suc.prems(3) by (auto simp: all_tables_def)
  have "boot_same s ?u" by (rule boot_same_trans [of _ "taken e s"]) simp_all
  then have "boot_same s s'" by (rule boot_same_trans [OF _ s'(2)])
  moreover have "boot_fill mp p v (Suc n) (KERNBASE + tab (view s) v (3 - Suc n)) s = Some s'"
    using t(1,2) s'(1) by (simp add: d tv)
  ultimately show ?case
    using s'(5-7) keeps_trans [OF t(6) s'(3)] only_page_trans [OF t(7) [OF v] s'(4)] s'(8) ps
    by (intro exI [of _ s'] exI [of _ T'] exI [of _ rest]) (simp add: all)
qed

text \<open>map_kernel_entry from the first missing entry on.\<close>

lemma boot_entry_gap:
  assumes inv: "boot_inv mp l s T ps" and gap: "at_gap (view s) T [] v d"
  shows "map_kernel_entry mp (KERNBASE + frame (kernel_cr3 s)) v p s =
    boot_fill mp p v (3 - d) (KERNBASE + tab (view s) v d) s"
proof -
  have g: "index 3 v \<noteq> 510" "d \<le> 3" "down (view s) v d" "\<not> present (at_depth (view s) v d)"
    and view: "paging_inv (view s) T []" using gap by (simp_all add: at_gap_def)
  have l: "l \<le> 2 ^ 31" and pl: "plain (pmem s) T" and ap: "apart (pmem s) T ps l"
    using inv by (simp_all add: boot_inv_def boot_mapped_def)
  have t: "tab (view s) v k \<in> all_tables T" "down (view s) v k" if "k \<le> d" for k
  proof -
    show "down (view s) v k" using g(3) that by (simp add: down_def)
    then show "tab (view s) v k \<in> all_tables T"
      using tab_table [OF view g(1), of k] all_tablesI [of _ T "3 - k"] that g(2) by simp
  qed
  have rd: "rd mp s (elem (KERNBASE + tab (view s) v k) (index (3 - k) v)) = Some (at_depth (view s) v k)"
    "is_valid_page (at_depth (view s) v k) \<longleftrightarrow> k \<noteq> d" if "k \<le> d" for k
  proof -
    show "rd mp s (elem (KERNBASE + tab (view s) v k) (index (3 - k) v)) = Some (at_depth (view s) v k)"
      using boot_entry(2) [OF inv t(1) [OF that]] by simp
    have "present (at_depth (view s) v k) \<longleftrightarrow> k \<noteq> d"
      using g(3,4) that by (auto simp: down_def order.order_iff_strict)
    then show "is_valid_page (at_depth (view s) v k) \<longleftrightarrow> k \<noteq> d"
      using valid_iff_present [OF view g(1) _ t(2) [OF that]] that g(2) by simp
  qed
  have tv: "to_virtual (at_depth (view s) v k) = KERNBASE + tab (view s) v (Suc k)" if "k < d" for k
  proof -
    have k: "k \<le> d" "Suc k \<le> d" "0 < 3 - k \<and> 3 - k \<le> 3" using that g(2) by simp_all
    have "present (at_depth (view s) v k)" using g(3) that by (simp add: down_def)
    moreover have "tab (view s) v k \<in> T (3 - k)"
      using tab_table [OF view g(1) _ t(2) [OF k(1)]] k g(2) by simp
    ultimately have e: "at_depth (view s) v k = tab (view s) v (Suc k) OR PAGE_KERNEL"
      using plainD [OF pl k(3) _ good_slot_index [OF g(1)]] by simp
    have "unat (tab (view s) v (Suc k)) < 2 ^ 31" using apart_limit [OF ap, of "tab (view s) v (Suc k)"] t(1) [OF k(2)] l by simp
    then show ?thesis using to_virtual_entry(2) [of "tab (view s) v (Suc k)"] e by simp
  qed
  have root: "frame (kernel_cr3 s) = tab (view s) v 0" by simp
  have idx: "drop_bit 39 v AND 0x1ff = index (3 - 0) v" "drop_bit 30 v AND 0x1ff = index (3 - 1) v"
    "drop_bit 21 v AND 0x1ff = index (3 - 2) v" "drop_bit 12 v AND 0x1ff = index 0 v"
    by (simp_all add: index_def)
  consider "d = 0" | "d = 1" | "d = 2" | "d = 3" using g(2) by linarith
  then show ?thesis
  proof cases
    case 1
    show ?thesis unfolding map_kernel_entry_def Let_def idx root
      using rd [of 0] 1 by (simp add: numeral_3_eq_3 numeral_2_eq_2)
  next
    case 2
    show ?thesis unfolding map_kernel_entry_def Let_def idx root
      using rd [of 0] rd [of 1] tv [of 0] 2 by (simp add: numeral_2_eq_2)
  next
    case 3
    show ?thesis unfolding map_kernel_entry_def Let_def idx root
      using rd [of 0] rd [of 1] rd [of 2] tv [of 0] tv [of 1] 3 by (simp add: numeral_2_eq_2)
  next
    case 4
    show ?thesis unfolding map_kernel_entry_def Let_def idx root
      using rd [of 0] rd [of 1] rd [of 2] tv [of 0] tv [of 1] tv [of 2] 4
      by (simp add: numeral_3_eq_3 numeral_2_eq_2)
  qed
qed

lemma boot_page_ok:
  assumes inv: "boot_inv mp l s T ps" and v: "mappable (view s) v" and p: "is_frame p" and enough: "3 \<le> length ps"
  shows "\<exists>s'. map_kernel_entry mp (KERNBASE + frame (kernel_cr3 s)) v p s = Some s' \<and>
    boot_mapped_page mp l p v s T ps s'"
proof -
  have can: "canonical v" and i: "index 3 v \<noteq> 510" and none: "mmu (view s) (pmem (view s)) v = None"
    using v by (simp_all add: mappable_def)
  have view: "paging_inv (view s) T []" using inv by (simp add: boot_inv_def)
  obtain d where gap: "at_gap (view s) T [] v d"
    using gap_or_mapped [OF view i] translate_down [OF view i can] none by auto
  have d: "3 - (3 - d) = d" using gap by (simp add: at_gap_def)
  have n: "3 - d \<le> 3" "3 - d \<le> length ps" "length (take (3 - d) ps) \<le> 3" using enough by simp_all
  have "at_gap (view s) T [] v (3 - (3 - d))" using gap d by simp
  from boot_fill_ok [OF can p inv this n(1,2), unfolded d] obtain s' T' rest where
    s': "boot_fill mp p v (3 - d) (KERNBASE + tab (view s) v d) s = Some s'" "boot_same s s'"
    "keeps_translations (view s) (view s')" "only_page v (view s) (view s')"
    "\<forall>va. page_of va = page_of v \<longrightarrow> mmu (view s') (pmem s') va = Some (p OR (va AND 0xfff))"
    "ps = take (3 - d) ps @ rest" "boot_inv mp l s' T' rest"
    "all_tables T' = all_tables T \<union> snd ` set (take (3 - d) ps)"
    by (elim exE conjE) (rule that)
  show ?thesis
    unfolding boot_entry_gap [OF inv gap] boot_mapped_page_def
    by (intro exI [of _ s'] exI [of _ T'] exI [of _ "take (3 - d) ps"] exI [of _ rest] conjI s' n(3))
qed

section \<open>Mapping a range\<close>

definition boot_range ::
  "pagemap \<Rightarrow> nat \<Rightarrow> u64 \<Rightarrow> u64 \<Rightarrow> nat \<Rightarrow> 'a paging_scheme \<Rightarrow> (nat \<Rightarrow> u64 set) \<Rightarrow> (u64 \<times> u64) list \<Rightarrow> 'a paging_scheme \<Rightarrow> bool" where
  "boot_range mp l p v n s T ps s' \<longleftrightarrow> boot_same s s' \<and> keeps_translations (view s) (view s') \<and>
     (\<forall>va. index 3 va \<noteq> 510 \<and> page_of va \<notin> page_range v n \<and> mmu (view s) (pmem s) va = None \<longrightarrow>
        mmu (view s') (pmem s') va = None) \<and>
     (\<forall>i<n. \<forall>va. page_of va = v + 4096 * of_nat i \<longrightarrow>
        mmu (view s') (pmem s') va = Some ((p + 4096 * of_nat i) OR (va AND 0xfff))) \<and>
     (\<exists>T' used rest. ps = used @ rest \<and> length used \<le> 3 * n \<and> boot_inv mp l s' T' rest \<and>
        all_tables T' = all_tables T \<union> snd ` set used)"

lemma map_all_loop_ok:
  "\<lbrakk>boot_inv mp l s T ps; page_of v = v; n < 2 ^ 52; \<forall>va \<in> page_range v n. mappable (view s) va;
    \<forall>i<n. is_frame (p + 4096 * of_nat i); \<forall>i<n. v + 4096 * of_nat i \<le> e; \<not> v + 4096 * of_nat n \<le> e;
    3 * n \<le> length ps\<rbrakk> \<Longrightarrow>
    \<exists>s'. map_all_loop mp (KERNBASE + frame (kernel_cr3 s)) e v p s = Some s' \<and> boot_range mp l p v n s T ps s'"
proof (induction n arbitrary: v p s T ps)
  case 0
  then have "map_all_loop mp (KERNBASE + frame (kernel_cr3 s)) e v p s = Some s"
    by (subst map_all_loop.simps) simp
  then show ?case using 0 by (auto simp: boot_range_def page_range_def)
next
  case (Suc n)
  have v: "mappable (view s) v" using Suc.prems(4) by (simp add: page_range_Suc)
  have p: "is_frame p" using Suc.prems(5) by force
  have le: "v \<le> e" using Suc.prems(6) by force
  have "3 \<le> length ps" using Suc.prems(8) by simp
  from boot_page_ok [OF Suc.prems(1) v p this] obtain s1 where
    s1: "map_kernel_entry mp (KERNBASE + frame (kernel_cr3 s)) v p s = Some s1"
    "boot_mapped_page mp l p v s T ps s1" by blast
  from s1(2) obtain T1 used1 rest1 where
    t1: "boot_same s s1" "keeps_translations (view s) (view s1)" "only_page v (view s) (view s1)"
    "\<forall>va. page_of va = page_of v \<longrightarrow> mmu (view s1) (pmem s1) va = Some (p OR (va AND 0xfff))"
    "ps = used1 @ rest1" "length used1 \<le> 3" "boot_inv mp l s1 T1 rest1"
    "all_tables T1 = all_tables T \<union> snd ` set used1"
    unfolding boot_mapped_page_def by (elim exE conjE) (rule that)
  have cr3: "kernel_cr3 s1 = kernel_cr3 s" using boot_same_fields [OF t1(1)] by simp
  have shift: "v + 4096 * of_nat (Suc i) = v + 4096 + 4096 * of_nat i"
    "p + 4096 * of_nat (Suc i) = p + 4096 + 4096 * of_nat i" for i
    by (simp_all add: algebra_simps)
  have map1: "\<forall>va \<in> page_range (v + 4096) n. mappable (view s1) va"
  proof
    fix va assume va: "va \<in> page_range (v + 4096) n"
    have "va \<noteq> v" using va page_range_away [OF Suc.prems(2), of n] Suc.prems(3) by auto
    moreover have va': "va \<in> page_range v (Suc n)" using va by (simp add: page_range_Suc)
    then have "page_of va = va" by (rule page_range_pages [OF Suc.prems(2)])
    ultimately have "page_of va \<noteq> page_of v" using Suc.prems(2) by simp
    moreover have "mappable (view s) va" using Suc.prems(4) va' by blast
    ultimately show "mappable (view s1) va" using t1(3) unfolding mappable_def only_page_def by simp
  qed
  have "page_of (v + 4096) = v + 4096" using page_of_add [OF Suc.prems(2), of 1] by simp
  moreover have "\<forall>i<n. is_frame (p + 4096 + 4096 * of_nat i)"
    unfolding shift [symmetric] using Suc.prems(5) Suc_mono by blast
  moreover have "\<forall>i<n. v + 4096 + 4096 * of_nat i \<le> e"
    unfolding shift [symmetric] using Suc.prems(6) Suc_mono by blast
  moreover have "\<not> v + 4096 + 4096 * of_nat n \<le> e"
    using Suc.prems(7) unfolding shift [symmetric] .
  moreover have "n < 2 ^ 52" "3 * n \<le> length rest1" using Suc.prems(3,8) t1(5,6) by simp_all
  ultimately obtain s' where
    s': "map_all_loop mp (KERNBASE + frame (kernel_cr3 s1)) e (v + 4096) (p + 4096) s1 = Some s'"
    "boot_range mp l (p + 4096) (v + 4096) n s1 T1 rest1 s'"
    using Suc.IH [OF t1(7) _ _ map1] by blast
  from s'(2) obtain T' used rest where
    t': "boot_same s1 s'" "keeps_translations (view s1) (view s')"
    "\<forall>va. index 3 va \<noteq> 510 \<and> page_of va \<notin> page_range (v + 4096) n \<and> mmu (view s1) (pmem s1) va = None \<longrightarrow>
        mmu (view s') (pmem s') va = None"
    "\<forall>i<n. \<forall>va. page_of va = v + 4096 + 4096 * of_nat i \<longrightarrow>
        mmu (view s') (pmem s') va = Some ((p + 4096 + 4096 * of_nat i) OR (va AND 0xfff))"
    "rest1 = used @ rest" "length used \<le> 3 * n" "boot_inv mp l s' T' rest"
    "all_tables T' = all_tables T1 \<union> snd ` set used"
    unfolding boot_range_def by (elim exE conjE) (rule that)
  have "map_all_loop mp (KERNBASE + frame (kernel_cr3 s)) e v p s = Some s'"
    using s'(1) s1(1) by (subst map_all_loop.simps) (simp add: le cr3)
  moreover have "boot_range mp l p v (Suc n) s T ps s'"
    unfolding boot_range_def
  proof (intro conjI)
    show "boot_same s s'" by (rule boot_same_trans [OF t1(1) t'(1)])
    show keeps: "keeps_translations (view s) (view s')" by (rule keeps_trans [OF t1(2) t'(2)])
    show "\<forall>va. index 3 va \<noteq> 510 \<and> page_of va \<notin> page_range v (Suc n) \<and> mmu (view s) (pmem s) va = None \<longrightarrow>
        mmu (view s') (pmem s') va = None"
      using t'(3) t1(3) Suc.prems(2) unfolding only_page_def page_range_Suc by simp
    show "\<forall>i<Suc n. \<forall>va. page_of va = v + 4096 * of_nat i \<longrightarrow>
        mmu (view s') (pmem s') va = Some ((p + 4096 * of_nat i) OR (va AND 0xfff))"
    proof (intro allI impI)
      fix i va assume i: "i < Suc n" and va: "page_of va = v + 4096 * of_nat i"
      show "mmu (view s') (pmem s') va = Some ((p + 4096 * of_nat i) OR (va AND 0xfff))"
      proof (cases i)
        case 0
        then have "mmu (view s1) (pmem s1) va = Some (p OR (va AND 0xfff))" using t1(4) va 0 Suc.prems(2) by simp
        then show ?thesis using keepsD [OF t'(2), of va] 0 by simp
      next
        case (Suc j)
        then show ?thesis using t'(4) i va unfolding Suc shift by simp
      qed
    qed
    show "\<exists>T' used rest. ps = used @ rest \<and> length used \<le> 3 * Suc n \<and> boot_inv mp l s' T' rest \<and>
        all_tables T' = all_tables T \<union> snd ` set used"
      using t'(5-8) t1(5,6,8)
      by (intro exI [of _ T'] exI [of _ "used1 @ used"] exI [of _ rest]) (simp add: Un_assoc image_Un)
  qed
  ultimately show ?case by blast
qed

section \<open>The top table\<close>

definition top_only :: "u64 \<Rightarrow> nat \<Rightarrow> u64 set" where
  "top_only f = (\<lambda>n. if n = 3 then {f} else {})"

lemma create_kernel_pml4_ok:
  assumes mp: "boot_mapped mp l" and free: "boot_free mp s ((e, f) # ps)"
    and ap: "apart (pmem s) (\<lambda>_. {}) ((e, f) # ps) l"
  shows "\<exists>s'. create_kernel_pml4 mp s = Some (KERNBASE + f, s') \<and> kernel_cr3 s' = f \<and> is_frame f \<and>
    kernel_pml4_t s' = KERNBASE + f \<and> free_list_page_length s' = free_list_page_length s \<and>
    boot_inv mp l s' (top_only f) ps \<and> (\<forall>va. index 3 va \<noteq> 510 \<longrightarrow> mmu (view s') (pmem s') va = None)"
proof -
  let ?T = "(\<lambda>_. {} :: u64 set)(3 := insert f {})"
  have T: "?T = top_only f" by (auto simp: top_only_def)
  have tables: "all_tables ?T = {f}" by (auto simp: all_tables_def)
  let ?s1 = "(taken e s)\<lparr>kernel_cr3 := f\<rparr>" and ?x = "f OR PAGE_KERNEL"
  let ?m = "store64 (pmem ?s1) (slot f 510) ?x"
  let ?s = "?s1\<lparr>pmem := ?m, kernel_pml4_t := KERNBASE + f\<rparr>"
  note taken = apart_taken(1,2) [OF free ap] apart_taken(3) [OF free ap, of 3]
  have f: "is_frame f" "unat f + 4096 \<le> l"
    using apart_frame [OF ap, of f] apart_limit [OF ap, of f] by simp_all
  have i: "(510 :: u64) AND 0x1ff = 510" by simp
  have x: "present ?x" "\<not> bit ?x 7" "frame ?x = f"
    using entry_of_frame [OF f(1), of PAGE_KERNEL] by (simp_all add: flags_ok_def)
  have run: "create_kernel_pml4 mp s = Some (KERNBASE + f, ?s)"
    using get_next_free_page_taken(1) [OF free] boot_slot(1) [OF mp f i, of ?s1 ?x]
    by (simp add: create_kernel_pml4_def Let_def add.commute)
  have fr: "boot_free mp ?s1 ps" using get_next_free_page_taken(2) [OF free] by (simp add: boot_free_def)
  have ap1: "apart (pmem ?s1) ?T ps l" using taken(3) by simp
  have fT: "f \<in> all_tables ?T" using tables by simp
  note store = apart_store [OF fr ap1 fT f(1) i, of ?x]
  have zero: "load64 ?m (slot f j) = 0" if "j AND 0x1ff = j" "j \<noteq> 510" for j
    using load_other_slot [OF f(1,1) i that(1)] that taken(2) by (auto simp: blank_def)
  have at510: "load64 ?m (slot f 510) = ?x" by simp
  have fr2: "boot_free mp ?s ps" using store(1) by (simp add: boot_free_def)
  have view: "paging_inv (view ?s) ?T []"
    unfolding paging_inv_view
    using f(1) zero at510 x
    by (auto simp: is_frame_def levels_disjoint_def unshared_def recursive_def table_entry_def tables_ok_def
        good_slot_def good_entry_def present_def split: if_splits)
  have "plain (pmem ?s) ?T"
    using zero by (auto simp: plain_def good_slot_def present_def split: if_splits)
  then have inv: "boot_inv mp l ?s ?T ps" using mp view fr2 store(2) by (simp add: boot_inv_def)
  have "mmu (view ?s) (pmem ?s) va = None" if va: "index 3 va \<noteq> 510" for va
  proof -
    have "\<not> present (at_depth (view ?s) va 0)" using zero [of "index 3 va"] va f(1) by (simp add: present_def is_frame_def)
    then show ?thesis using translate_absent [OF view va _ down_0] by simp
  qed
  then show ?thesis using run f(1) inv unfolding T by (intro exI [of _ ?s]) (simp add: taken_def)
qed

section \<open>Addresses from KERNBASE on\<close>

lemma kern_or:
  assumes "unat c < 2 ^ 31"
  shows "KERNBASE + c = KERNBASE OR c" "31 \<le> n \<Longrightarrow> \<not> bit c n"
proof -
  have c: "c = take_bit 31 c"
  proof -
    have "unat (take_bit 31 c) = unat c" using assms by (simp add: unsigned_take_bit_eq take_bit_nat_eq_self)
    then show ?thesis by (simp only: word_unat_eq_iff)
  qed
  show n: "31 \<le> n \<Longrightarrow> \<not> bit c n" for n by (subst c) (simp add: bit_take_bit_iff)
  have k: "KERNBASE = push_bit 31 0x1ffffffff" by simp
  have "KERNBASE AND c = 0"
    unfolding k by (rule bit_word_eqI) (use n in \<open>auto simp: bit_simps simp del: push_bit_numeral\<close>)
  then show "KERNBASE + c = KERNBASE OR c" by (rule disjunctive_add_eq_or)
qed

lemma kern_index: "unat c < 2 ^ 31 \<Longrightarrow> index 3 (KERNBASE + c) = 511"
  and kern_canonical: "unat c < 2 ^ 31 \<Longrightarrow> canonical (KERNBASE + c)"
proof -
  assume c: "unat c < 2 ^ 31"
  have "drop_bit 39 (KERNBASE + c) = drop_bit 39 KERNBASE" "drop_bit 47 (KERNBASE + c) = drop_bit 47 KERNBASE"
    unfolding kern_or(1) [OF c] by (rule bit_word_eqI; simp add: bit_simps kern_or(2) [OF c])+
  then show "index 3 (KERNBASE + c) = 511" "canonical (KERNBASE + c)"
    by (simp_all add: index_def canonical_def)
qed

lemma kern_unat: "unat c < 2 ^ 31 \<Longrightarrow> unat (KERNBASE + c) = 0xffffffff80000000 + unat c"
  using unat_add_no_wrap [of KERNBASE "unat c"] by simp

lemma page_of_unat: "unat (page_of c) = unat c div 4096 * 4096"
proof -
  have "unat (c div 4096 * 4096) = (unat c div 4096 * 4096) mod 2 ^ 64"
    by (simp only: unat_word_ariths unat_div) (simp add: mod_mult_left_eq)
  moreover have "unat c div 4096 * 4096 < 18446744073709551616"
    using unat_u64_less [of c] div_times_less_eq_dividend [of "unat c" 4096] by linarith
  ultimately show ?thesis unfolding page_of_div by simp
qed

lemma page_of_offset:
  assumes "page_of a = a" "unat a \<le> unat c"
  shows "page_of c = a + 4096 * of_nat ((unat c - unat a) div 4096)"
proof -
  have a: "4096 dvd unat a" using assms(1) by (simp add: page_aligned_iff mod_eq_0_iff_dvd)
  then obtain k where k: "unat a = 4096 * k" ..
  moreover obtain m where "unat c = unat a + m" using assms(2) by (auto simp: le_iff_add)
  ultimately have "unat c div 4096 * 4096 = unat a + 4096 * ((unat c - unat a) div 4096)" by simp
  then have "of_nat (unat (page_of c)) = (of_nat (unat a + 4096 * ((unat c - unat a) div 4096)) :: u64)"
    by (simp only: page_of_unat)
  then show ?thesis by simp
qed

lemma aligned_frame: "page_of p = p \<Longrightarrow> unat p < 2 ^ 52 \<Longrightarrow> is_frame p"
proof -
  assume p: "page_of p = p" and l: "unat p < 2 ^ 52"
  have "p = take_bit 52 p"
  proof -
    have "unat (take_bit 52 p) = unat p" using l by (simp add: unsigned_take_bit_eq take_bit_nat_eq_self)
    then show ?thesis by (simp only: word_unat_eq_iff)
  qed
  then have "p = p AND mask 52" by (simp add: take_bit_eq_mask)
  then have "page_of p = (p AND mask 52) AND NOT 0xfff" by (simp only: page_of_def)
  also have "\<dots> = p AND 0x000ffffffffff000" by (simp only: and.assoc) (simp add: mask_eq_exp_minus_1)
  finally show ?thesis using p by (simp add: is_frame_def frame_def)
qed

lemma page_of_kern: "page_of (KERNBASE + c) = KERNBASE + page_of c" if "unat c < 2 ^ 31"
proof -
  have p: "unat (page_of c) < 2 ^ 31" using that unfolding page_of_unat using div_times_less_eq_dividend [of "unat c" 4096] by linarith
  show ?thesis
    unfolding kern_or(1) [OF that] kern_or(1) [OF p] unfolding page_of_def
    by (rule word64_eqI) (simp add: bitblast)
qed

lemma kern_offset: "(KERNBASE + c) AND 0xfff = c AND 0xfff" if "unat c < 2 ^ 31"
  unfolding kern_or(1) [OF that] by (rule word64_eqI) (simp add: bitblast)

lemma page_and_offset: "page_of c OR (c AND 0xfff) = c"
  unfolding page_of_def by (simp flip: bit.conj_disj_distrib)

section \<open>Mapping a range from KERNBASE on\<close>

text \<open>The number of pages the inclusive loop visits from \<open>a\<close> to \<open>b\<close>.\<close>

definition pages_upto :: "u64 \<Rightarrow> u64 \<Rightarrow> nat" where
  "pages_upto a b = (unat b - unat a) div 4096 + 1"

lemma boot_range_addr:
  assumes "boot_range mp l a (KERNBASE + a) n s T ps s'" "page_of a = a" "unat a \<le> unat c"
    "unat c < unat a + 4096 * n" "unat a + 4096 * n \<le> 2 ^ 31"
  shows "mmu (view s') (pmem s') (KERNBASE + c) = Some c"
proof -
  let ?i = "(unat c - unat a) div 4096"
  have c: "unat c < 2 ^ 31" and i: "?i < n" using assms(3-5) by (simp_all add: less_mult_imp_div_less)
  have p: "page_of c = a + 4096 * of_nat ?i" by (rule page_of_offset [OF assms(2,3)])
  then have "page_of (KERNBASE + c) = KERNBASE + a + 4096 * of_nat ?i"
    by (simp add: page_of_kern [OF c] add.assoc)
  then have "mmu (view s') (pmem s') (KERNBASE + c) = Some ((a + 4096 * of_nat ?i) OR ((KERNBASE + c) AND 0xfff))"
    using assms(1) i unfolding boot_range_def by blast
  then show ?thesis unfolding kern_offset [OF c] using page_and_offset [of c] p by simp
qed

lemma map_all_kernel_ok:
  assumes inv: "boot_inv mp l s T ps" and f: "kernel_cr3 s = f" "is_frame f"
    and a: "page_of a = a" "unat a \<le> unat b" and n: "n = pages_upto a b" and lim: "unat a + 4096 * n < 2 ^ 31"
    and free: "\<forall>va \<in> page_range (KERNBASE + a) n. mmu (view s) (pmem s) va = None" and enough: "3 * n \<le> length ps"
  shows "\<exists>s'. map_all_kernel_pages mp (KERNBASE + a) (KERNBASE + b) a (KERNBASE + f) s = Some s' \<and>
    boot_range mp l a (KERNBASE + a) n s T ps s'"
proof -
  have b: "unat b < unat a + 4096 * n" "n < 2 ^ 19" "0 < n"
    using a(2) n lim unfolding pages_upto_def by (simp_all add: div_mult_mod_eq)
  have c: "unat b < 2 ^ 31" "unat a < 2 ^ 31" using b(1) lim by simp_all
  have at: "unat (a + 4096 * of_nat i) = unat a + 4096 * i" if "i \<le> n" for i
    using unat_add_no_wrap [of a "4096 * i"] that lim by simp
  have align: "page_align x = x" if "page_of x = x" for x
    using that by (simp add: page_align_def page_of_div)
  have ka: "page_of (KERNBASE + a) = KERNBASE + a" using page_of_kern [OF c(2)] a(1) by simp
  have range: "\<forall>va \<in> page_range (KERNBASE + a) n. mappable (view s) va"
  proof
    fix va assume va: "va \<in> page_range (KERNBASE + a) n"
    then obtain i where i: "i < n" "va = KERNBASE + (a + 4096 * of_nat i)" by (auto simp: page_range_def add.assoc)
    then have "unat (a + 4096 * of_nat i) < 2 ^ 31" using at [of i] lim by simp
    then show "mappable (view s) va"
      using kern_index kern_canonical free va i(2) by (simp add: mappable_def)
  qed
  have "\<forall>i<n. is_frame (a + 4096 * of_nat i)"
    using aligned_frame page_of_add [OF a(1)] at lim by simp
  moreover have "\<forall>i<n. KERNBASE + a + 4096 * of_nat i \<le> KERNBASE + b"
  proof (intro allI impI)
    fix i assume i: "i < n"
    have le: "unat (a + 4096 * of_nat i) \<le> unat b"
      using i a(2) n unfolding at [OF less_imp_le [OF i]] pages_upto_def by (simp add: less_Suc_eq_le)
    then have "unat (a + 4096 * of_nat i) < 2 ^ 31" using c(1) by simp
    then show "KERNBASE + a + 4096 * of_nat i \<le> KERNBASE + b"
      using le c(1) kern_unat [of "a + 4096 * of_nat i"] kern_unat [of b]
      by (simp add: word_le_nat_alt add.assoc)
  qed
  moreover have "\<not> KERNBASE + a + 4096 * of_nat n \<le> KERNBASE + b"
    using b(1) c(1) lim at [of n] kern_unat [of "a + 4096 * of_nat n"] kern_unat [of b]
    by (simp add: word_le_nat_alt add.assoc)
  moreover have "n < 2 ^ 52" using b(2) by simp
  ultimately have "\<exists>s'. map_all_loop mp (KERNBASE + frame (kernel_cr3 s)) (KERNBASE + b) (KERNBASE + a) a s = Some s' \<and>
      boot_range mp l a (KERNBASE + a) n s T ps s'"
    using map_all_loop_ok [OF inv ka _ range] enough by blast
  moreover have "frame (kernel_cr3 s) = f" using f by (simp add: is_frame_def)
  ultimately show ?thesis using align [OF ka] align [OF a(1)] by (simp add: map_all_kernel_pages_def)
qed

end
