(* ===== verification/BootPaging.thy ===== *)
theory BootPaging
  imports KernelMap
begin

text \<open>
  From the memory the boot loader leaves to the kernel's own tables: the steps of start in
  sys/main.c that build the free list, create the top table, map the kernel and the video
  memory, load cr3 and set the start of the area kmalloc takes addresses from. They end in a
  state that satisfies the invariant of the paging code.
\<close>

section \<open>The code\<close>

text \<open>
  The steps of start on the state of the paging code, up to set_top_virtual_address. What start
  does between them has other state and is modelled elsewhere: it prints the list
  (print_free_list), moves the console to the mapped video memory (setNewVideoCardAddresses), and
  sets up the segments, the interrupt table and the keyboard (init_gdt, idt_install, init_idt,
  init_keyboard).
\<close>

definition kernel_paging :: "pagemap \<Rightarrow> u64 \<Rightarrow> u64 \<Rightarrow> 'a paging_scheme \<Rightarrow> 'a paging_scheme option" where
  "kernel_paging mp physbase physfree s = do {
     s \<leftarrow> set_free_list_head mp s;
     (pml4_t, s) \<leftarrow> create_kernel_pml4 mp s;
     let free_list_page_length = get_free_list_page_length s;
     s \<leftarrow> map_all_kernel_pages mp (KERNBASE + physbase)
       (KERNBASE + physfree + (free_list_page_length * PAGESIZE + 10 * PAGESIZE)) physbase pml4_t s;
     s \<leftarrow> map_all_kernel_pages mp (KERNBASE + 0xb8000) (KERNBASE + 0xb8000 + PAGESIZE) 0xb8000 pml4_t s;
     let s = set_cr3 (kernel_cr3 s) s;
     let s = set_new_free_list_head s;
     Some (set_top_virtual_address
       (KERNBASE + physfree + free_list_page_length * PAGESIZE + 200 * PAGESIZE) s)
   }"

section \<open>Loading the tables\<close>

text \<open>
  Once cr3 holds the new table and the list is used from KERNBASE on, the tables and the
  list satisfy the invariant, when the descriptors of the free pages are mapped there.
\<close>

lemma boot_loaded:
  assumes inv: "boot_inv mp l s T ps"
    and descs: "\<forall>e \<in> fst ` set ps. \<forall>w \<in> words e. mmu (view s) (pmem s) (KERNBASE + w) = Some w"
  shows "paging_inv (set_new_free_list_head (set_cr3 (kernel_cr3 s) s)) T ps"
proof -
  let ?s = "set_new_free_list_head (set_cr3 (kernel_cr3 s) s)"
  have l: "l \<le> 2 ^ 31" and ap: "apart (pmem s) T ps l" and free: "boot_free mp s ps"
    and view: "paging_inv (view s) T []"
    using inv by (simp_all add: boot_inv_def boot_mapped_def)
  have simps: "pmem ?s = pmem s" "cr3_reg ?s = kernel_cr3 s" "free_list_head_kmalloc ?s = free_list_head s + KERNBASE"
    by (simp_all add: set_new_free_list_head_def set_cr3_def)
  have "e < 0x80000000" if "e \<in> fst ` set ps" for e
    using apart_desc(2) [OF ap that, of e] l by (simp add: words_def word_less_nat_alt)
  then have "kernel_list ?s ps"
    using free descs apart_desc(1) [OF ap] by (simp add: kernel_list_def simps boot_free_def)
  moreover have "\<forall>e \<in> fst ` set ps. \<forall>w \<in> words e. page_of w \<notin> all_tables T \<union> snd ` set ps"
    using apart_desc(2) [OF ap] by blast
  moreover have "\<forall>f \<in> snd ` set ps. blank (pmem s) f \<and> f \<notin> all_tables T" "distinct (map snd ps)"
    using ap by (simp_all add: apart_def)
  ultimately show ?thesis
    using view unfolding paging_inv_view by (simp add: paging_inv_def simps)
qed

text \<open>
  The pages of one region, listed by their descriptors: the list code clears the first 512
  bytes of a page only, so the others have to be zero before.
\<close>

lemma load64_zero_region:
  assumes "\<And>y. x \<le> y \<Longrightarrow> y < x + 8 \<Longrightarrow> m (a + of_nat y) = 0"
  shows "load64 m (a + of_nat x) = 0"
proof -
  have "load64 m (a + of_nat x) = load64 (\<lambda>_. 0) (a + of_nat x)"
  proof (rule load64_cong)
    fix c assume c: "unat (c - (a + of_nat x)) < 8"
    have "c = a + of_nat (x + unat (c - (a + of_nat x)))" by simp
    then show "m c = 0" using assms [of "x + unat (c - (a + of_nat x))"] c by simp
  qed
  then show ?thesis by (simp add: load64_zero)
qed

lemma boot_pages_apart:
  assumes b: "boot_region mp P n" and n: "0 < n"
    and zero: "\<And>x. \<lbrakk>8 dvd x; x < 4096 * n; \<forall>j<n. x \<noteq> 24 * j \<and> x \<noteq> 24 * j + 16\<rbrakk> \<Longrightarrow> load64 m (P + of_nat x) = 0"
  shows "apart m (\<lambda>_. {}) (boot_pages P (desc_pages n) n) (unat P + 4096 * n)"
proof -
  let ?k = "desc_pages n" and ?ps = "boot_pages P (desc_pages n) n"
  have none: "all_tables (\<lambda>_. {}) = ({} :: u64 set)" by (simp add: all_tables_def)
  have k: "24 * n \<le> 4096 * ?k" using desc_pages_le(2) .
  have P: "page_of P = P" using b by (simp add: boot_region_def page_aligned_iff)
  have frames: "f \<in> snd ` set ?ps \<longleftrightarrow> (\<exists>j. ?k \<le> j \<and> j < n \<and> f = P + of_nat (4096 * j))" for f
    by (auto simp: boot_pages_def image_image)
  have frame: "is_frame (P + of_nat (4096 * j))" if "j < n" for j
  proof (rule aligned_frame)
    show "page_of (P + of_nat (4096 * j)) = P + of_nat (4096 * j)" using page_of_add [OF P, of "of_nat j"] by simp
    have "4096 * j \<le> 4096 * n" using that by simp
    from at_offset [OF b this] show "unat (P + of_nat (4096 * j)) < 2 ^ 52" using boot_region_le [OF b] that by simp
  qed
  show ?thesis
  proof (rule apartI, unfold none)
    have "inj_on (\<lambda>j. P + of_nat (4096 * j)) {?k..<n}"
    proof (rule inj_onI)
      fix i j assume ij: "i \<in> {?k..<n}" "j \<in> {?k..<n}" "P + of_nat (4096 * i) = P + of_nat (4096 * j)"
      then have "4096 * i \<le> 4096 * n" "4096 * j \<le> 4096 * n" by simp_all
      from offset_eq_iff [OF b this] ij(3) show "i = j" by simp
    qed
    then show "distinct (map snd ?ps)" unfolding boot_pages_frames by (simp add: distinct_map)
    show "blank m f \<and> f \<notin> {}" if "f \<in> snd ` set ?ps" for f
    proof -
      from that [unfolded frames] obtain j where j: "?k \<le> j" "j < n" "f = P + of_nat (4096 * j)" by blast
      have "load64 m (slot f i) = 0" if i: "i AND 0x1ff = i" for i
      proof -
        have "unat (push_bit 3 i) < 4096" by (rule unat_page_offset [OF word_index_mask [OF i]])
        moreover have s: "slot f i = f + 8 * i" by (rule slot_sum) (use frame [OF j(2)] j(3) i in simp_all)
        have u: "unat i < 512"
        proof -
          have "i = i AND mask 9" using i by (simp add: mask_eq_exp_minus_1)
          then have "i = take_bit 9 i" by (simp add: take_bit_eq_mask)
          then have "unat i = take_bit 9 (unat i)" by (metis unsigned_take_bit_eq)
          moreover have "take_bit 9 (unat i) < 2 ^ 9" by (rule take_bit_nat_less_exp)
          ultimately show ?thesis by simp
        qed
        let ?x = "4096 * j + 8 * unat i"
        have "slot f i = P + of_nat ?x" unfolding s unfolding j(3) by simp
        moreover have "8 dvd ?x" by simp
        moreover have "?x < 4096 * n" using j(2) u by linarith
        moreover have "\<forall>j'<n. ?x \<noteq> 24 * j' \<and> ?x \<noteq> 24 * j' + 16" using k j(1) by auto
        ultimately show ?thesis using zero by metis
      qed
      then show ?thesis using frame [OF j(2)] j(3) by (simp add: blank_def)
    qed
    show "load64 m (e + 8) = FREE" if "e \<in> fst ` set ?ps" for e
    proof -
      from that [unfolded boot_pages_fst] obtain j where j: "j < n" "e = P + of_nat (24 * j)" by blast
      have "e + 8 = P + of_nat (24 * j + 8)" unfolding j(2) offset_step ..
      moreover have "24 * j + 8 < 4096 * n" "8 dvd 24 * j + 8" using j(1) by simp_all
      moreover have "\<forall>j'<n. 24 * j + 8 \<noteq> 24 * j' \<and> 24 * j + 8 \<noteq> 24 * j' + 16" by presburger
      ultimately show ?thesis using zero by metis
    qed
    show "unat w < unat P + 4096 * n \<and> page_of w \<notin> {} \<union> snd ` set ?ps"
      if "e \<in> fst ` set ?ps" "w \<in> words e" for e w
    proof -
      note w = that(2)
      from that(1) [unfolded boot_pages_fst] obtain j where j: "j < n" "e = P + of_nat (24 * j)" by blast
      obtain x where x: "w = P + of_nat x" "x \<le> 24 * j + 16" "x < 4096 * n"
        using boot_words [OF b] w j by metis
      have u: "unat w = unat P + x" unfolding x(1) by (rule at_offset [OF b]) (use x(3) in simp)
      have p: "page_of w = P + of_nat (4096 * (x div 4096))" using page_of_offset [OF P, of w] u by simp
      have "x < 4096 * ?k" using x(2) j(1) k by linarith
      then have lt: "x div 4096 < ?k" by (simp add: less_mult_imp_div_less)
      have "page_of w \<notin> snd ` set ?ps"
      proof
        assume "page_of w \<in> snd ` set ?ps"
        from this [unfolded frames] obtain i where i: "?k \<le> i" "i < n" "page_of w = P + of_nat (4096 * i)" by blast
        have "4096 * (x div 4096) \<le> 4096 * n" "4096 * i \<le> 4096 * n" using lt i by linarith+
        from offset_eq_iff [OF b this] p i(3) lt i(1) show False by simp
      qed
      then show ?thesis using u x(3) by simp
    qed
    show "unat f + 4096 \<le> unat P + 4096 * n" if "f \<in> {} \<union> snd ` set ?ps" for f
    proof -
      from that [unfolded Un_empty_left frames] obtain j where j: "j < n" "f = P + of_nat (4096 * j)" by blast
      have "4096 * j \<le> 4096 * n" using j(1) by simp
      from at_offset [OF b this] show ?thesis unfolding j(2) using j(1) by simp
    qed
  qed
qed

section \<open>The kernel's range and the screen\<close>

text \<open>The list built over a region, ready for the kernel's tables.\<close>

lemma boot_list_ready:
  assumes b: "boot_region mp P n" and n: "0 < n" and zero: "\<forall>x<4096 * n. 512 \<le> x mod 4096 \<longrightarrow> pmem s (P + of_nat x) = 0"
    and ends: "round_up end' = P + of_nat (4096 * n)" "round_up start \<le> P"
  shows "\<exists>s1 s2. append_free_list mp start end' P (initialize_free_list s) = Some s1 \<and>
    set_free_list_head mp s1 = Some s2 \<and> boot_free mp s2 (boot_pages P (desc_pages n) n) \<and>
    free_list_page_length s2 = of_nat (desc_pages n) \<and>
    apart (pmem s2) (\<lambda>_. {}) (boot_pages P (desc_pages n) n) (unat P + 4096 * n)"
proof -
  have init: "free_list (initialize_free_list s) = 0" "pmem (initialize_free_list s) = pmem s"
    "free_list_total_pages (initialize_free_list s) = 0"
    by (simp_all add: initialize_free_list_def)
  have "unat P mod 4096 = 0" using b by (simp add: boot_region_def)
  then have "page_of P = P" by (simp add: page_aligned_iff)
  then have "P div 4096 * 4096 = P" by (simp add: page_of_div)
  moreover have "P mod 4096 = 0" using \<open>unat P mod 4096 = 0\<close> by (simp add: word_unat_eq_iff unat_mod)
  ultimately have P: "P = round_up P" by (simp add: round_up_def)
  obtain s1 where s1: "append_free_list mp start end' P (initialize_free_list s) = Some s1"
    "s1 = initialize_free_list s\<lparr>free_list := P, pmem := pmem s1,
      free_list_total_pages := free_list_total_pages (initialize_free_list s) + of_nat n\<rparr>"
    "page_chain (pmem s1) P (boot_pages P 0 n)"
    "\<forall>x. 8 dvd x \<and> x < 4096 * n \<and> (\<forall>j<n. x \<noteq> 24 * j \<and> x \<noteq> 24 * j + 16) \<and>
       (load64 (pmem s) (P + of_nat x) = 0 \<or> x mod 4096 < 512) \<longrightarrow> load64 (pmem s1) (P + of_nat x) = 0"
    using append_region [OF b n init(1) P ends] unfolding init(2) by (elim exE conjE) (rule that)
  have fl: "free_list s1 = P" "free_list_total_pages s1 = of_nat n"
    by (subst s1(2), simp)+ (simp add: init)
  obtain s2 where s2: "set_free_list_head mp s1 = Some s2" "boot_free mp s2 (boot_pages P (desc_pages n) n)"
    "free_list_page_length s2 = of_nat (desc_pages n)" "pmem s2 = pmem s1"
    using set_free_list_head_region [OF b n fl s1(3)] by blast
  have "apart (pmem s2) (\<lambda>_. {}) (boot_pages P (desc_pages n) n) (unat P + 4096 * n)"
  proof (rule boot_pages_apart [OF b n])
    fix x assume x: "8 dvd x" "x < 4096 * n" "\<forall>j<n. x \<noteq> 24 * j \<and> x \<noteq> 24 * j + 16"
    from x(1) obtain y where y: "x = 8 * y" ..
    have lim: "y < 512 * n" using x(2) unfolding y by linarith
    have "load64 (pmem s) (P + of_nat x) = 0" if hi: "512 \<le> x mod 4096"
    proof (rule load64_zero_region)
      fix z assume z: "x \<le> z" "z < x + 8"
      have q: "x = 4096 * (x div 4096) + x mod 4096" by simp
      have m: "x mod 4096 = 8 * (y mod 512)" using mult_mod_right [of 8 y 512] by (simp add: y)
      have "y mod 512 < 512" by simp
      then have "x mod 4096 + 8 \<le> 4096" unfolding m by linarith
      then have "z - 4096 * (x div 4096) < 4096" "4096 * (x div 4096) \<le> z" "512 \<le> z - 4096 * (x div 4096)"
        using z q hi by linarith+
      then have "512 \<le> z mod 4096" by (metis add_diff_inverse_nat mod_less mod_mult_self4 not_le)
      moreover have "z < 4096 * n" using z(2) lim unfolding y by linarith
      ultimately show "pmem s (P + of_nat z) = 0" using zero by simp
    qed
    then have "load64 (pmem s) (P + of_nat x) = 0 \<or> x mod 4096 < 512" by linarith
    then show "load64 (pmem s2) (P + of_nat x) = 0" using s1(4) x s2(4) by simp
  qed
  then show ?thesis using s1(1) s2(1-3) by blast
qed

lemma pages_upto_aligned:
  assumes "unat a mod 4096 = 0" "unat P mod 4096 = 0" "unat a \<le> unat P" "unat P + 4096 * (k + 11) < 2 ^ 31"
  shows "unat (P + (of_nat k * 4096 + 10 * 4096)) = unat P + 4096 * (k + 10)"
    "pages_upto a (P + (of_nat k * 4096 + 10 * 4096)) = (unat P - unat a) div 4096 + k + 11"
    "unat a + 4096 * ((unat P - unat a) div 4096 + k + 11) = unat P + 4096 * (k + 11)"
proof -
  have eq: "P + (of_nat k * 4096 + 10 * 4096) = P + of_nat (4096 * (k + 10))" by (simp add: algebra_simps)
  show u: "unat (P + (of_nat k * 4096 + 10 * 4096)) = unat P + 4096 * (k + 10)"
    unfolding eq by (rule unat_add_no_wrap) (use assms(4) in simp)
  obtain p q where pq: "unat P = 4096 * p" "unat a = 4096 * q"
    using assms(1,2) by (metis mod_0_imp_dvd dvdE)
  then have "q \<le> p" using assms(3) by simp
  then obtain r where r: "p = q + r" by (auto simp: le_iff_add)
  show "pages_upto a (P + (of_nat k * 4096 + 10 * 4096)) = (unat P - unat a) div 4096 + k + 11"
  proof -
    have "4096 * (q + r) + 4096 * (k + 10) - 4096 * q = 4096 * (r + k + 10)" "4096 * (q + r) - 4096 * q = 4096 * r"
      by simp_all
    then show ?thesis unfolding pages_upto_def u pq r by (simp only: nonzero_mult_div_cancel_left)
  qed
  show "unat a + 4096 * ((unat P - unat a) div 4096 + k + 11) = unat P + 4096 * (k + 11)"
    unfolding pq r by simp
qed

lemma page_rangeD: "va \<in> page_range v n \<Longrightarrow> \<exists>i<n. va = v + 4096 * of_nat i"
  by (auto simp: page_range_def)

lemma video_range: "page_of 0xb8000 = 0xb8000" "unat (0xb8000 :: u64) \<le> unat (0xb9000 :: u64)"
    "pages_upto 0xb8000 0xb9000 = 2" "unat (0xb8000 :: u64) + 4096 * 2 < 2 ^ 31"
  by (simp_all add: page_of_def pages_upto_def)

text \<open>The screen's pages are none of the kernel's.\<close>

lemma video_apart:
  assumes "page_of pb = pb" "0xba000 \<le> unat pb" "unat pb + 4096 * n < 2 ^ 31" "va \<in> page_range (KERNBASE + 0xb8000) 2"
  shows "index 3 va \<noteq> 510 \<and> page_of va \<notin> page_range (KERNBASE + pb) n"
proof -
  obtain c :: u64 where c: "va = KERNBASE + c" "unat c < 0xba000" "page_of c = c"
  proof -
    have "va = KERNBASE + 0xb8000 \<or> va = KERNBASE + 0xb9000"
      using assms(4) by (auto simp: page_range_def numeral_2_eq_2 less_Suc_eq)
    then show ?thesis using that [of "0xb8000"] that [of "0xb9000"] by (auto simp: page_of_def)
  qed
  then have small: "unat c < 2 ^ 31" by simp
  have "KERNBASE + c \<noteq> KERNBASE + pb + 4096 * of_nat i" if "i < n" for i
  proof -
    have "unat (pb + 4096 * of_nat i) = unat pb + 4096 * i"
      using unat_add_no_wrap [of pb "4096 * i"] assms(3) that by simp
    then have "c \<noteq> pb + 4096 * of_nat i" using c(2) assms(2) by auto
    then show ?thesis by (simp add: add.assoc)
  qed
  then show ?thesis
    using kern_index [OF small] page_of_kern [OF small] unfolding c(1) c(3) by (auto simp: page_range_def)
qed

text \<open>
  C6. The kernel's own tables, for one region of free memory behind the kernel with enough
  pages. The list code clears the first 512 bytes of each page only, the other 3584 have to
  be zero before. Then the steps of start from the free list to the start of the kernel's
  heap return, and the state they end in satisfies the paging invariant. From KERNBASE on
  its tables map the kernel, the descriptors, the eleven pages behind them and the two pages
  from 0xb8000 on to themselves, and nothing else but what slot 510, the recursive one, maps;
  the top table is the first page handed out.
\<close>

theorem kernel_paging_establishes_invariant:
  assumes b: "boot_region mp P n" and n: "0 < n" and zero: "\<forall>x<4096 * n. 512 \<le> x mod 4096 \<longrightarrow> pmem s (P + of_nat x) = 0"
    and ends: "round_up end' = P + of_nat (4096 * n)" "round_up start \<le> P"
    and pb: "unat pb mod 4096 = 0" "0xba000 \<le> unat pb" "unat pb \<le> unat P"
    and enough: "3 * ((unat P - unat pb) div 4096 + desc_pages n + 13) + desc_pages n < n"
  shows "\<exists>s1 s' T rest. append_free_list mp start end' P (initialize_free_list s) = Some s1 \<and>
    kernel_paging mp pb P s1 = Some s' \<and> paging_inv s' T rest \<and>
    cr3_reg s' = P + of_nat (4096 * desc_pages n) \<and> kernel_pml4_t s' = KERNBASE + cr3_reg s' \<and>
    (\<forall>c. unat pb \<le> unat c \<and> unat c < unat P + 4096 * (desc_pages n + 11) \<or> 0xb8000 \<le> unat c \<and> unat c < 0xba000 \<longrightarrow>
       mmu s' (pmem s') (KERNBASE + c) = Some c) \<and>
    (\<forall>va. index 3 va \<noteq> 510 \<and> page_of va \<notin> page_range (KERNBASE + pb) ((unat P - unat pb) div 4096 + desc_pages n + 11) \<union>
       page_range (KERNBASE + 0xb8000) 2 \<longrightarrow> mmu s' (pmem s') va = None)"
proof -
  let ?k = "desc_pages n" and ?l = "unat P + 4096 * n" and ?n = "(unat P - unat pb) div 4096 + desc_pages n + 11"
  let ?b = "P + (of_nat ?k * 4096 + 10 * 4096)" and ?f = "P + of_nat (4096 * ?k)"
  have mp: "boot_mapped mp ?l" and P: "unat P mod 4096 = 0" using b by (simp_all add: boot_region_def)
  have small: "unat P + 4096 * (?k + 11) < 2 ^ 31" using boot_region_le [OF b] enough by simp
  note range = pages_upto_aligned [OF pb(1) P pb(3) small]
  obtain s1 s2 where s: "append_free_list mp start end' P (initialize_free_list s) = Some s1"
    "set_free_list_head mp s1 = Some s2" "boot_free mp s2 (boot_pages P ?k n)"
    "free_list_page_length s2 = of_nat ?k" "apart (pmem s2) (\<lambda>_. {}) (boot_pages P ?k n) ?l"
    using boot_list_ready [OF b n zero ends] by blast
  have "?k < n" using enough by simp
  note cons = boot_pages_Cons [OF this]
  let ?ps = "boot_pages P (?k + 1) n"
  have len: "length ?ps = n - (?k + 1)" by (simp add: boot_pages_def)
  obtain s3 where s3: "create_kernel_pml4 mp s2 = Some (KERNBASE + ?f, s3)" "kernel_cr3 s3 = ?f" "is_frame ?f"
    "kernel_pml4_t s3 = KERNBASE + ?f" "free_list_page_length s3 = of_nat ?k" "boot_inv mp ?l s3 (top_only ?f) ?ps"
    "\<forall>va. index 3 va \<noteq> 510 \<longrightarrow> mmu (view s3) (pmem s3) va = None"
    using create_kernel_pml4_ok [OF mp s(3,5) [unfolded cons]] unfolding s(4) by blast
  have pa: "page_of pb = pb" using pb(1) by (simp add: page_aligned_iff)
  have lim: "unat pb + 4096 * ?n < 2 ^ 31" unfolding range(3) by (rule small)
  have ib: "index 3 va \<noteq> 510" if va: "va \<in> page_range (KERNBASE + pb) ?n" for va
  proof -
    obtain i where i: "i < ?n" "va = KERNBASE + pb + 4096 * of_nat i"
      using page_rangeD [OF va] by (elim exE conjE) (rule that)
    have "unat (pb + 4096 * of_nat i) = unat pb + 4096 * i"
      using unat_add_no_wrap [of pb "4096 * i"] lim i(1) by simp
    then have "unat (pb + 4096 * of_nat i) < 2 ^ 31" using i(1) lim by simp
    then show ?thesis unfolding i(2) add.assoc using kern_index by simp
  qed
  have "\<forall>va \<in> page_range (KERNBASE + pb) ?n. mmu (view s3) (pmem s3) va = None" using s3(7) ib by blast
  moreover have "3 * ?n \<le> length ?ps" using enough len by simp
  moreover have "unat pb \<le> unat ?b" unfolding range(1) using pb(3) by simp
  ultimately obtain s4 where s4: "map_all_kernel_pages mp (KERNBASE + pb) (KERNBASE + ?b) pb (KERNBASE + ?f) s3 = Some s4"
    "boot_range mp ?l pb (KERNBASE + pb) ?n s3 (top_only ?f) ?ps s4"
    using map_all_kernel_ok [OF s3(6,2,3) pa _ range(2) [symmetric] lim] by blast
  obtain T4 used4 rest4 where t4: "boot_same s3 s4" "keeps_translations (view s3) (view s4)"
    "\<forall>va. index 3 va \<noteq> 510 \<and> page_of va \<notin> page_range (KERNBASE + pb) ?n \<and> mmu (view s3) (pmem s3) va = None \<longrightarrow>
       mmu (view s4) (pmem s4) va = None"
    "?ps = used4 @ rest4" "length used4 \<le> 3 * ?n" "boot_inv mp ?l s4 T4 rest4"
    using s4(2) unfolding boot_range_def by (elim exE conjE) (rule that)
  have g4: "kernel_cr3 s4 = ?f" "kernel_pml4_t s4 = KERNBASE + ?f" "free_list_page_length s4 = of_nat ?k"
    using boot_same_fields [OF t4(1)] s3(2,4,5) by simp_all
  have "\<forall>va \<in> page_range (KERNBASE + 0xb8000) 2. mmu (view s4) (pmem s4) va = None"
    using t4(3) s3(7) video_apart [OF pa pb(2) lim] by blast
  moreover have "3 * 2 \<le> length rest4"
  proof -
    have "length ?ps = length used4 + length rest4" unfolding t4(4) by simp
    then show ?thesis using t4(5) enough unfolding len by simp
  qed
  ultimately obtain s5 where s5: "map_all_kernel_pages mp (KERNBASE + 0xb8000) (KERNBASE + 0xb9000) 0xb8000 (KERNBASE + ?f) s4 = Some s5"
    "boot_range mp ?l 0xb8000 (KERNBASE + 0xb8000) 2 s4 T4 rest4 s5"
    using map_all_kernel_ok [OF t4(6) g4(1) s3(3) video_range(1,2) video_range(3) [symmetric] video_range(4)] by blast
  obtain T5 used5 rest5 where t5: "boot_same s4 s5" "keeps_translations (view s4) (view s5)"
    "\<forall>va. index 3 va \<noteq> 510 \<and> page_of va \<notin> page_range (KERNBASE + 0xb8000) 2 \<and> mmu (view s4) (pmem s4) va = None \<longrightarrow>
       mmu (view s5) (pmem s5) va = None"
    "rest4 = used5 @ rest5" "boot_inv mp ?l s5 T5 rest5"
    using s5(2) unfolding boot_range_def by (elim exE conjE) (rule that)
  have g5: "kernel_cr3 s5 = ?f" "kernel_pml4_t s5 = KERNBASE + ?f"
    using boot_same_fields [OF t5(1)] g4 by simp_all
  have kern: "mmu (view s5) (pmem s5) (KERNBASE + c) = Some c"
    if c: "unat pb \<le> unat c" "unat c < unat P + 4096 * (?k + 11)" for c
  proof -
    have "unat c < unat pb + 4096 * ?n" unfolding range(3) by (rule c(2))
    from boot_range_addr [OF s4(2) pa c(1) this] lim have "mmu (view s4) (pmem s4) (KERNBASE + c) = Some c" by simp
    then show ?thesis using keepsD [OF t5(2), of "KERNBASE + c"] by simp
  qed
  have video: "mmu (view s5) (pmem s5) (KERNBASE + c) = Some c" if "0xb8000 \<le> unat c" "unat c < 0xba000" for c
    by (rule boot_range_addr [OF s5(2) video_range(1)]) (use that in simp_all)
  have descs: "\<forall>e \<in> fst ` set rest5. \<forall>w \<in> words e. mmu (view s5) (pmem s5) (KERNBASE + w) = Some w"
  proof (intro ballI)
    fix e w assume e: "e \<in> fst ` set rest5" and w: "w \<in> words e"
    have "e \<in> fst ` set (boot_pages P (?k + 1) n)" unfolding t4(4) t5(4) using e by auto
    from this [unfolded boot_pages_fst] obtain j where j: "j < n" "e = P + of_nat (24 * j)" by blast
    obtain x where x: "w = P + of_nat x" "x \<le> 24 * j + 16" "x < 4096 * n" using boot_words [OF b] w j by metis
    have u: "unat w = unat P + x" unfolding x(1) by (rule at_offset [OF b]) (use x(3) in simp)
    have "x < 4096 * ?k" using x(2) j(1) desc_pages_le(2) [of n] by linarith
    then show "mmu (view s5) (pmem s5) (KERNBASE + w) = Some w" using u pb(3) by (intro kern) simp_all
  qed
  let ?loaded = "set_new_free_list_head (set_cr3 (kernel_cr3 s5) s5)"
  let ?top = "KERNBASE + P + free_list_page_length s3 * 4096 + 200 * 4096"
  let ?s = "set_top_virtual_address ?top ?loaded"
  have loaded: "paging_inv ?loaded T5 rest5" by (rule boot_loaded [OF t5(5) descs])
  have simps: "cr3_reg ?s = ?f" "pmem ?s = pmem s5" "kernel_pml4_t ?s = KERNBASE + ?f"
    using g5 by (simp_all add: set_top_virtual_address_def set_new_free_list_head_def set_cr3_def)
  have see: "mmu ?s (pmem ?s) va = mmu (view s5) (pmem s5) va" for va unfolding simps using g5(1) by simp
  have none: "mmu (view s5) (pmem s5) va = None"
    if "index 3 va \<noteq> 510" "page_of va \<notin> page_range (KERNBASE + pb) ?n \<union> page_range (KERNBASE + 0xb8000) 2" for va
    using that s3(7) t4(3) t5(3) by blast
  have args: "KERNBASE + P + (free_list_page_length s3 * 4096 + 10 * 4096) = KERNBASE + ?b"
    "KERNBASE + 0xb8000 + 4096 = KERNBASE + 0xb9000"
    unfolding s3(5) by (simp_all only: add.assoc) simp
  have "kernel_paging mp pb P s1 = Some ?s"
    unfolding kernel_paging_def Let_def get_free_list_page_length_def
    by (simp only: s(2) s3(1) bind.bind_lunit prod.case args s4(1) s5(1))
  moreover have "paging_inv ?s T5 rest5" using loaded by (simp add: set_top_virtual_address_def paging_inv_def kernel_list_def)
  ultimately show ?thesis
    using s(1) simps(1,3) kern video none unfolding see [symmetric]
    by (intro exI [of _ s1] exI [of _ ?s] exI [of _ T5] exI [of _ rest5]) metis
qed

text \<open>A region of 44 pages from 0x200000, whose first bytes are not zero.\<close>

definition used_paging :: paging where
  "used_paging = blank_paging\<lparr>pmem := \<lambda>a. if unat a mod 4096 < 512 then 1 else 0\<rparr>"

lemma kernel_paging_establishes_invariant_witness:
  "\<exists>s1 s' T rest. append_free_list (boot_pagemap 0x22c000) 0 0x22c000 0x200000 (initialize_free_list used_paging) = Some s1 \<and>
    kernel_paging (boot_pagemap 0x22c000) 0x200000 0x200000 s1 = Some s' \<and> paging_inv s' T rest \<and>
    cr3_reg s' = 0x201000 \<and> mmu s' (pmem s') (KERNBASE + 0x201000) = Some 0x201000 \<and>
    mmu s' (pmem s') (KERNBASE + 0xb8000) = Some 0xb8000"
proof -
  have k: "desc_pages 44 = 1" by (simp add: desc_pages_def)
  have region: "boot_region (boot_pagemap 0x22c000) 0x200000 44"
    using boot_mapped_pagemap [of "0x22c000"] by (simp add: boot_region_def)
  have zero: "\<forall>x<4096 * 44. 512 \<le> x mod 4096 \<longrightarrow> pmem used_paging (0x200000 + of_nat x) = 0"
  proof (intro allI impI)
    fix x :: nat assume x: "x < 4096 * 44" "512 \<le> x mod 4096"
    have "unat (0x200000 + of_nat x :: u64) = 0x200000 + x" using unat_add_no_wrap [of "0x200000" x] x(1) by simp
    moreover have "(512 * 4096 + x) mod 4096 = x mod 4096" by (rule mod_mult_self3)
    then have "(0x200000 + x) mod 4096 = x mod 4096" by simp
    ultimately show "pmem used_paging (0x200000 + of_nat x) = 0" using x(2) by (simp add: used_paging_def)
  qed
  have ends: "round_up 0x22c000 = 0x200000 + of_nat (4096 * 44)" "round_up 0 \<le> 0x200000"
    by (simp_all add: round_up_def)
  have pb: "unat (0x200000 :: u64) mod 4096 = 0" "0xba000 \<le> unat (0x200000 :: u64)"
    "unat (0x200000 :: u64) \<le> unat (0x200000 :: u64)" by simp_all
  have pos: "(0 :: nat) < 44" by simp
  have enough: "3 * ((unat (0x200000 :: u64) - unat (0x200000 :: u64)) div 4096 + desc_pages 44 + 13) + desc_pages 44 < 44"
    by (simp add: k)
  obtain s1 s' T rest where r: "append_free_list (boot_pagemap 0x22c000) 0 0x22c000 0x200000 (initialize_free_list used_paging) = Some s1"
    "kernel_paging (boot_pagemap 0x22c000) 0x200000 0x200000 s1 = Some s'" "paging_inv s' T rest"
    "cr3_reg s' = 0x200000 + of_nat (4096 * desc_pages 44)"
    "\<forall>c. unat (0x200000 :: u64) \<le> unat c \<and> unat c < unat (0x200000 :: u64) + 4096 * (desc_pages 44 + 11) \<or>
       0xb8000 \<le> unat c \<and> unat c < 0xba000 \<longrightarrow> mmu s' (pmem s') (KERNBASE + c) = Some c"
    using kernel_paging_establishes_invariant [OF region pos zero ends pb enough] by (elim exE conjE) (rule that)
  have "mmu s' (pmem s') (KERNBASE + 0x201000) = Some 0x201000"
    by (rule r(5) [rule_format]) (simp add: k)
  moreover have "mmu s' (pmem s') (KERNBASE + 0xb8000) = Some 0xb8000"
    by (rule r(5) [rule_format]) simp
  ultimately show ?thesis using r(1-4) unfolding k by (intro exI [of _ s1] exI [of _ s'] exI [of _ T] exI [of _ rest]) simp
qed

end
