(* ===== verification/Idt.thy ===== *)
theory Idt
  imports Timer
begin

text \<open>
  The interrupt descriptor table (sys/idt.c, include/sys/idt.h and isr_install of sys/isr.c),
  and the programming of the two interrupt controllers. The entry points of the handlers
  are symbols of the assembly files; their addresses are arguments.
\<close>

section \<open>The table\<close>

record idt_t =
  low_offset :: u16
  selector :: u16
  ist :: u8
  gate_type :: u8
  mid_offset :: u16
  high_offset :: u32
  zero_field :: u32

definition blank_gate :: idt_t where
  "blank_gate = \<lparr>low_offset = 0, selector = 0, ist = 0, gate_type = 0, mid_offset = 0,
     high_offset = 0, zero_field = 0\<rparr>"

text \<open>The table, the static idtr, and the register that lidt loads.\<close>

record interrupts = kernel +
  idt :: "idt_t list"
  idtr_limit :: u16
  idtr_base :: u64
  cpu_idtr :: "u16 \<times> u64"

text \<open>\<open>None\<close> is an index outside of the table.\<close>

definition idt_set_gate ::
  "int \<Rightarrow> u64 \<Rightarrow> u16 \<Rightarrow> u16 \<Rightarrow> u16 \<Rightarrow> u16 \<Rightarrow> u16 \<Rightarrow> 'a interrupts_scheme \<Rightarrow> 'a interrupts_scheme option" where
  "idt_set_gate idx offset sel i type dpl p s =
     (if 0 \<le> idx \<and> idx < int (length (idt s))
      then let n = nat idx;
               g = (idt s ! n)\<lparr>low_offset := ucast (offset AND 0xffff), selector := sel, ist := ucast i,
                     gate_type := ucast type, mid_offset := ucast (drop_bit 16 offset AND 0xffff),
                     high_offset := ucast (drop_bit 32 offset AND 0xffffffff), zero_field := 0\<rparr>
           in Some (s\<lparr>idt := (idt s)[n := g]\<rparr>)
      else None)"

text \<open>The runs of calls that install one handler after the other.\<close>

primrec set_gates ::
  "(nat \<Rightarrow> u64) \<Rightarrow> u16 \<Rightarrow> nat list \<Rightarrow> 'a interrupts_scheme \<Rightarrow> 'a interrupts_scheme option" where
  "set_gates handler type [] s = Some s"
| "set_gates handler type (n # ns) s = do {
     s \<leftarrow> idt_set_gate (int n) (handler n) 0x08 0 type 0 1 s;
     set_gates handler type ns s
   }"

definition lidt :: "'a interrupts_scheme \<Rightarrow> 'a interrupts_scheme" where
  "lidt s = s\<lparr>cpu_idtr := (idtr_limit s, idtr_base s)\<rparr>"

text \<open>The loop over the bytes of the 256 entries leaves blank entries.\<close>

definition idt_install :: "u64 \<Rightarrow> (nat \<Rightarrow> u64) \<Rightarrow> 'a interrupts_scheme \<Rightarrow> 'a interrupts_scheme option" where
  "idt_install idt_addr isr s = do {
     let s = s\<lparr>idtr_limit := 16 * 256, idtr_base := idt_addr\<rparr>;
     let s = s\<lparr>idt := replicate 256 blank_gate\<rparr>;
     s \<leftarrow> set_gates isr 0x8e [0..<32] s;
     Some (lidt s)
   }"

definition init_idt :: "(nat \<Rightarrow> u64) \<Rightarrow> 'a interrupts_scheme \<Rightarrow> 'a interrupts_scheme option" where
  "init_idt irq s = do {
     let s = outb 0x20 0x11 s;
     let s = outb 0xA0 0x11 s;
     let s = outb 0x21 0x20 s;
     let s = outb 0xA1 0x28 s;
     let s = outb 0x21 0x04 s;
     let s = outb 0xA1 0x02 s;
     let s = outb 0x21 0x01 s;
     let s = outb 0xA1 0x01 s;
     let s = outb 0x21 0x0 s;
     let s = outb 0xA1 0x0 s;
     s \<leftarrow> set_gates (\<lambda>n. irq (n - 32)) 0x8e [32..<48] s;
     idt_set_gate 128 (irq 128) 0x08 0 0xee 0 1 s
   }"

text \<open>The older installation, which the kernel does not call.\<close>

definition isr_install :: "(nat \<Rightarrow> u64) \<Rightarrow> 'a interrupts_scheme \<Rightarrow> 'a interrupts_scheme option" where
  "isr_install isr s = set_gates isr 0x0e [0..<32] s"

section \<open>What the processor reads\<close>

definition handler_of :: "idt_t \<Rightarrow> u64" where
  "handler_of g = ucast (low_offset g) OR push_bit 16 (ucast (mid_offset g)) OR
     push_bit 32 (ucast (high_offset g))"

definition gate_present :: "idt_t \<Rightarrow> bool" where
  "gate_present g \<longleftrightarrow> bit (gate_type g) 7"

definition gate_dpl :: "idt_t \<Rightarrow> u8" where
  "gate_dpl g = drop_bit 5 (gate_type g) AND 3"

text \<open>A 64-bit interrupt gate to kernel code, without a stack of its own.\<close>

definition interrupt_gate :: "idt_t \<Rightarrow> bool" where
  "interrupt_gate g \<longleftrightarrow> gate_present g \<and> gate_type g AND 0x1f = 0x0e \<and> selector g = 0x08 \<and> ist g = 0"

section \<open>Setting gates\<close>

text \<open>What idt_set_gate stores when it is called as all its callers do; for the proofs only.\<close>

definition gate :: "u64 \<Rightarrow> u16 \<Rightarrow> idt_t" where
  "gate offset type = \<lparr>low_offset = ucast offset, selector = 0x08, ist = 0, gate_type = ucast type,
     mid_offset = ucast (drop_bit 16 offset), high_offset = ucast (drop_bit 32 offset), zero_field = 0\<rparr>"

lemma ucast_parts:
  "(ucast (w AND 0xffff) :: u16) = ucast w" "(ucast (w AND 0xffffffff) :: u32) = ucast w" for w :: u64
proof -
  have "(0xffff :: u64) = mask 16" "(0xffffffff :: u64) = mask 32" by (simp_all add: mask_eq_exp_minus_1)
  moreover have "(ucast (w AND mask 16) :: u16) = ucast w" "(ucast (w AND mask 32) :: u32) = ucast w"
    by (rule bit_word_eqI; simp add: bit_simps)+
  ultimately show "(ucast (w AND 0xffff) :: u16) = ucast w" "(ucast (w AND 0xffffffff) :: u32) = ucast w"
    by (simp_all only:)
qed

lemma set_gate_eq:
  "n < length (idt s) \<Longrightarrow>
    idt_set_gate (int n) h 0x08 0 type dpl p s = Some (s\<lparr>idt := (idt s)[n := gate h type]\<rparr>)"
  by (cases "idt s ! n") (simp add: idt_set_gate_def Let_def gate_def ucast_parts)

lemma handler_of_gate: "handler_of (gate h type) = h"
  by (rule word64_eqI) (simp add: handler_of_def gate_def bitblast)

definition install :: "(nat \<Rightarrow> u64) \<Rightarrow> u16 \<Rightarrow> nat set \<Rightarrow> idt_t list \<Rightarrow> idt_t list" where
  "install handler type ns t = map (\<lambda>i. if i \<in> ns then gate (handler i) type else t ! i) [0..<length t]"

lemma length_install [simp]: "length (install handler type ns t) = length t"
  by (simp add: install_def)

lemma nth_install:
  "i < length t \<Longrightarrow> install handler type ns t ! i = (if i \<in> ns then gate (handler i) type else t ! i)"
  by (simp add: install_def)

lemma set_gates_eq:
  "\<forall>n \<in> set ns. n < length (idt s) \<Longrightarrow>
    set_gates handler type ns s = Some (s\<lparr>idt := install handler type (set ns) (idt s)\<rparr>)"
proof (induction ns arbitrary: s)
  case Nil
  have "install handler type {} (idt s) = idt s" by (rule nth_equalityI) (simp_all add: nth_install)
  then show ?case by simp
next
  case (Cons n ns)
  have "install handler type (set ns) ((idt s)[n := gate (handler n) type]) =
    install handler type (set (n # ns)) (idt s)"
    by (rule nth_equalityI) (auto simp: nth_install nth_list_update)
  then show ?case using Cons by (simp add: set_gate_eq)
qed

section \<open>The controllers\<close>

text \<open>
  An 8259 controller: a command byte with bit 4 set starts the initialisation, whose next
  data bytes are the vector base, the wiring and the mode; a data byte outside of the
  initialisation is the interrupt mask.
\<close>

record pic =
  pic_phase :: nat
  pic_base :: u8
  pic_mask :: u8

definition pic_command :: "u8 \<Rightarrow> pic \<Rightarrow> pic" where
  "pic_command v c = (if bit v 4 then c\<lparr>pic_phase := 1, pic_mask := 0\<rparr> else c)"

definition pic_data :: "u8 \<Rightarrow> pic \<Rightarrow> pic" where
  "pic_data v c =
     (if pic_phase c = 0 then c\<lparr>pic_mask := v\<rparr>
      else if pic_phase c = 1 then c\<lparr>pic_phase := 2, pic_base := v AND 0xf8\<rparr>
      else if pic_phase c = 2 then c\<lparr>pic_phase := 3\<rparr>
      else c\<lparr>pic_phase := 0\<rparr>)"

definition pic_run :: "u16 \<Rightarrow> (u16 \<times> u8) list \<Rightarrow> pic \<Rightarrow> pic" where
  "pic_run base = fold (\<lambda>(p, v). if p = base then pic_command v else if p = base + 1 then pic_data v else id)"

section \<open>The installed table\<close>

lemma set_gates_range:
  assumes "b \<le> length (idt s)"
  shows "set_gates handler type [a..<b] s = Some (s\<lparr>idt := install handler type {a..<b} (idt s)\<rparr>)"
  by (subst set_gates_eq) (use assms in simp_all)

lemma idt_install_eq:
  "idt_install a isr s = Some (s\<lparr>idtr_limit := 0x1000, idtr_base := a,
     idt := install isr 0x8e {0..<32} (replicate 256 blank_gate), cpu_idtr := (0x1000, a)\<rparr>)"
proof -
  let ?s = "s\<lparr>idtr_limit := 0x1000, idtr_base := a, idt := replicate 256 blank_gate\<rparr>"
  have "set_gates isr 0x8e [0..<32] ?s = Some (?s\<lparr>idt := install isr 0x8e {0..<32} (idt ?s)\<rparr>)"
    by (rule set_gates_range) simp
  then show ?thesis by (simp add: idt_install_def Let_def lidt_def del: upt_rec_numeral)
qed

definition pic_setup :: "(u16 \<times> u8) list" where
  "pic_setup = [(0x20, 0x11), (0xA0, 0x11), (0x21, 0x20), (0xA1, 0x28), (0x21, 0x04), (0xA1, 0x02),
     (0x21, 0x01), (0xA1, 0x01), (0x21, 0), (0xA1, 0)]"

lemma init_idt_eq:
  assumes "length (idt s) = 256"
  shows "init_idt irq s = Some (s\<lparr>ports := ports s @ pic_setup,
    idt := (install (\<lambda>n. irq (n - 32)) 0x8e {32..<48} (idt s))[128 := gate (irq 128) 0xee]\<rparr>)"
proof -
  let ?s = "s\<lparr>ports := ports s @ pic_setup\<rparr>"
  have "set_gates (\<lambda>n. irq (n - 32)) 0x8e [32..<48] ?s =
      Some (?s\<lparr>idt := install (\<lambda>n. irq (n - 32)) 0x8e {32..<48} (idt ?s)\<rparr>)"
    by (rule set_gates_range) (simp add: assms)
  moreover have "idt_set_gate 128 (irq 128) 0x08 0 0xee 0 1 s' = Some (s'\<lparr>idt := (idt s')[128 := gate (irq 128) 0xee]\<rparr>)"
    if "length (idt s') = 256" for s' :: "'a interrupts_scheme"
    using set_gate_eq [of 128 s'] that by simp
  ultimately show ?thesis
    by (simp add: init_idt_def Let_def outb_def pic_setup_def assms del: upt_rec_numeral)
qed

lemma pic_setup_runs:
  "pic_run 0x20 pic_setup c = \<lparr>pic_phase = 0, pic_base = 0x20, pic_mask = 0\<rparr>"
  "pic_run 0xA0 pic_setup c = \<lparr>pic_phase = 0, pic_base = 0x28, pic_mask = 0\<rparr>"
  by (cases c; simp add: pic_run_def pic_setup_def pic_command_def pic_data_def)+

section \<open>Properties\<close>

lemma gate_fields:
  "gate_present (gate h type) \<longleftrightarrow> bit type 7" "selector (gate h type) = 0x08" "ist (gate h type) = 0"
  "interrupt_gate (gate h 0x8e)" "interrupt_gate (gate h 0xee)" "gate_dpl (gate h 0x8e) = 0" "gate_dpl (gate h 0xee) = 3"
  "\<not> gate_present blank_gate" "gate_present (gate h 0x8e)" "gate_present (gate h 0xee)"
  by (simp_all add: gate_present_def gate_def interrupt_gate_def gate_dpl_def blank_gate_def bit_ucast_iff)

text \<open>The entry that the boot sequence leaves at each vector.\<close>

definition boot_gate :: "(nat \<Rightarrow> u64) \<Rightarrow> (nat \<Rightarrow> u64) \<Rightarrow> nat \<Rightarrow> idt_t" where
  "boot_gate isr irq n = (if n < 32 then gate (isr n) 0x8e else if n < 48 then gate (irq (n - 32)) 0x8e
     else if n = 128 then gate (irq 128) 0xee else blank_gate)"

lemma boot_table:
  assumes "n < 256"
  shows "((install (\<lambda>n. irq (n - 32)) 0x8e {32..<48} (install isr 0x8e {0..<32} (replicate 256 blank_gate)))
    [128 := gate (irq 128) 0xee]) ! n = boot_gate isr irq n"
  using assms by (auto simp: nth_list_update nth_install boot_gate_def)

text \<open>
  C19. After idt_install and init_idt, exactly the vectors 0 to 47 and 128 are present. Each of
  them is an interrupt gate to its own handler, user mode can raise only 128, and a device
  line of either controller arrives at the vector whose gate leads to the handler of the line,
  whatever state the controllers were in.
\<close>

theorem interrupts_routed:
  "\<exists>s1 s2. idt_install a isr s = Some s1 \<and> init_idt irq s1 = Some s2 \<and> cpu_idtr s2 = (0x1000, a) \<and>
    (\<forall>n < 256. let g = idt s2 ! n in
      (gate_present g \<longleftrightarrow> n < 48 \<or> n = 128) \<and> (gate_present g \<longrightarrow> interrupt_gate g) \<and>
      (gate_present g \<and> gate_dpl g = 3 \<longleftrightarrow> n = 128) \<and>
      (n < 32 \<longrightarrow> handler_of g = isr n) \<and> (n = 128 \<longrightarrow> handler_of g = irq 128)) \<and>
    (\<exists>ws. ports s2 = ports s @ ws \<and> (\<forall>c. \<forall>line < 8.
      handler_of (idt s2 ! (unat (pic_base (pic_run 0x20 ws c)) + line)) = irq line \<and>
      handler_of (idt s2 ! (unat (pic_base (pic_run 0xA0 ws c)) + line)) = irq (8 + line) \<and>
      \<not> bit (pic_mask (pic_run 0x20 ws c)) line \<and> \<not> bit (pic_mask (pic_run 0xA0 ws c)) line))"
proof -
  obtain s1 where s1: "idt_install a isr s = Some s1" "length (idt s1) = 256" "ports s1 = ports s"
    "idt s1 = install isr 0x8e {0..<32} (replicate 256 blank_gate)" "cpu_idtr s1 = (0x1000, a)"
    using idt_install_eq [of a isr s] by simp
  obtain s2 where s2: "init_idt irq s1 = Some s2" "ports s2 = ports s @ pic_setup" "cpu_idtr s2 = (0x1000, a)"
    "\<And>n. n < 256 \<Longrightarrow> idt s2 ! n = boot_gate isr irq n"
    using init_idt_eq [OF s1(2), of irq] s1(3-5) boot_table by simp
  have "let g = idt s2 ! n in
      (gate_present g \<longleftrightarrow> n < 48 \<or> n = 128) \<and> (gate_present g \<longrightarrow> interrupt_gate g) \<and>
      (gate_present g \<and> gate_dpl g = 3 \<longleftrightarrow> n = 128) \<and>
      (n < 32 \<longrightarrow> handler_of g = isr n) \<and> (n = 128 \<longrightarrow> handler_of g = irq 128)" if "n < 256" for n
    using s2(4) [OF that] by (simp add: boot_gate_def handler_of_gate gate_fields)
  moreover have "\<forall>c. \<forall>line < 8.
      handler_of (idt s2 ! (unat (pic_base (pic_run 0x20 pic_setup c)) + line)) = irq line \<and>
      handler_of (idt s2 ! (unat (pic_base (pic_run 0xA0 pic_setup c)) + line)) = irq (8 + line) \<and>
      \<not> bit (pic_mask (pic_run 0x20 pic_setup c)) line \<and> \<not> bit (pic_mask (pic_run 0xA0 pic_setup c)) line"
    by (simp add: pic_setup_runs s2(4) boot_gate_def handler_of_gate)
  ultimately show ?thesis using s1(1) s2(1-3) by blast
qed

definition blank_interrupts :: interrupts where
  "blank_interrupts = \<lparr>pcbs = (\<lambda>_. blank_pcb), ready_processes = 0, sleeping_processes = 0, idle_process = 0,
     currently_running_process = 0, pid_count = 0, timer_ticks = 0, first_schedule = 0, cpu_rsp = 0, cpu_cr3 = 0,
     tss_rsp0 = 0, data_seg = 0, ports = [], idt = replicate 256 blank_gate, idtr_limit = 0, idtr_base = 0,
     cpu_idtr = (0, 0)\<rparr>"

lemma interrupts_routed_witness:
  "\<exists>s1 s2. idt_install 0x200000 (\<lambda>n. 0x1000) blank_interrupts = Some s1 \<and> init_idt (\<lambda>n. 0x2000) s1 = Some s2 \<and>
    handler_of (idt s2 ! 128) = 0x2000 \<and> gate_dpl (idt s2 ! 128) = 3 \<and> handler_of (idt s2 ! 14) = 0x1000 \<and>
    \<not> gate_present (idt s2 ! 200)"
proof -
  from interrupts_routed [of "0x200000" "\<lambda>n. 0x1000" blank_interrupts "\<lambda>n. 0x2000"]
  obtain s1 s2 where s: "idt_install 0x200000 (\<lambda>n. 0x1000) blank_interrupts = Some s1"
    "init_idt (\<lambda>n. 0x2000) s1 = Some s2"
    "\<forall>n < 256. let g = idt s2 ! n in
      (gate_present g \<longleftrightarrow> n < 48 \<or> n = 128) \<and> (gate_present g \<longrightarrow> interrupt_gate g) \<and>
      (gate_present g \<and> gate_dpl g = 3 \<longleftrightarrow> n = 128) \<and>
      (n < 32 \<longrightarrow> handler_of g = 0x1000) \<and> (n = 128 \<longrightarrow> handler_of g = 0x2000)"
    by (elim exE conjE) (rule that)
  have "handler_of (idt s2 ! 128) = 0x2000 \<and> gate_dpl (idt s2 ! 128) = 3"
    using spec [OF s(3), of 128] by (simp add: Let_def)
  moreover have "handler_of (idt s2 ! 14) = 0x1000" using spec [OF s(3), of 14] by (simp add: Let_def)
  moreover have "\<not> gate_present (idt s2 ! 200)" using spec [OF s(3), of 200] by (simp add: Let_def)
  ultimately show ?thesis using s(1,2) by blast
qed

text \<open>
  C31. Round trip of a gate: the three parts of the handler's address that idt_set_gate stores
  give the address back, every other entry keeps its contents, and the privilege and
  presence arguments have no effect: both are whatever the type byte says.
\<close>

theorem gate_roundtrip:
  assumes "0 \<le> idx" "idx < int (length (idt s))"
  shows "\<exists>s'. (\<forall>dpl p. idt_set_gate idx offset sel i type dpl p s = Some s') \<and>
    handler_of (idt s' ! nat idx) = offset \<and> selector (idt s' ! nat idx) = sel \<and>
    gate_present (idt s' ! nat idx) = bit type 7 \<and> s' = s\<lparr>idt := idt s'\<rparr> \<and>
    (\<forall>n. n \<noteq> nat idx \<longrightarrow> idt s' ! n = idt s ! n)"
proof -
  let ?g = "(idt s ! nat idx)\<lparr>low_offset := ucast (offset AND 0xffff), selector := sel, ist := ucast i,
     gate_type := ucast type, mid_offset := ucast (drop_bit 16 offset AND 0xffff),
     high_offset := ucast (drop_bit 32 offset AND 0xffffffff), zero_field := 0\<rparr>"
  let ?s = "s\<lparr>idt := (idt s)[nat idx := ?g]\<rparr>"
  have "idt_set_gate idx offset sel i type dpl p s = Some ?s" for dpl p
    using assms by (simp add: idt_set_gate_def Let_def)
  moreover have "handler_of ?g = handler_of (gate offset type)"
    by (simp only: handler_of_def) (simp add: gate_def ucast_parts)
  moreover have "nat idx < length (idt s)" using assms by simp
  ultimately show ?thesis
    by (intro exI [of _ ?s]) (simp add: handler_of_gate gate_present_def bit_ucast_iff)
qed

lemma gate_roundtrip_witness:
  "\<exists>s'. idt_set_gate 128 0xffffffff80201234 0x08 0 0xee 3 0 blank_interrupts = Some s' \<and>
    handler_of (idt s' ! 128) = 0xffffffff80201234 \<and> gate_present (idt s' ! 128) \<and> idt s' ! 129 = blank_gate"
proof -
  have "(0 :: int) \<le> 128" "(128 :: int) < int (length (idt blank_interrupts))" by (simp_all add: blank_interrupts_def)
  from gate_roundtrip [OF this, of "0xffffffff80201234" "0x08" 0 "0xee"]
  obtain s' where s': "idt_set_gate 128 0xffffffff80201234 0x08 0 0xee 3 0 blank_interrupts = Some s'"
    "handler_of (idt s' ! nat 128) = 0xffffffff80201234" "gate_present (idt s' ! nat 128) = bit (0xee :: u16) 7"
    "\<forall>n. n \<noteq> nat 128 \<longrightarrow> idt s' ! n = idt blank_interrupts ! n" by blast
  have "idt s' ! 129 = blank_gate" using spec [OF s'(4), of 129] by (simp add: blank_interrupts_def)
  then show ?thesis using s'(1-3) by simp
qed

text \<open>isr_install gives its gates type 0x0e, without the present bit: every exception would fault.\<close>

lemma isr_install_not_present:
  assumes "length (idt s) = 256"
  shows "\<exists>s'. isr_install isr s = Some s' \<and> (\<forall>n < 32. \<not> gate_present (idt s' ! n) \<and> handler_of (idt s' ! n) = isr n)"
proof -
  have "isr_install isr s = Some (s\<lparr>idt := install isr 0x0e {0..<32} (idt s)\<rparr>)"
    unfolding isr_install_def by (rule set_gates_range) (simp add: assms)
  then show ?thesis by (simp add: nth_install assms handler_of_gate gate_fields)
qed

end
