(* ===== verification/Gdt.thy ===== *)
theory Gdt
  imports Idt
begin

text \<open>
  The segment descriptors and the task state segment (sys/gdt.c). The bit fields of
  sys_segment_descriptor lie in the 128 bits of the entries 6 and 7 of the table. Loading
  the registers is done by assembly code; what it loads is part of the state.
\<close>

section \<open>Descriptors\<close>

abbreviation (input) GDT_CS :: u64 where "GDT_CS \<equiv> 0x00180000000000"
abbreviation (input) GDT_DS :: u64 where "GDT_DS \<equiv> 0x00100000000000"
abbreviation (input) DPL0 :: u64 where "DPL0 \<equiv> 0"
abbreviation (input) DPL3 :: u64 where "DPL3 \<equiv> 0x00600000000000"
abbreviation (input) desc_P :: u64 where "desc_P \<equiv> 0x00800000000000"
abbreviation (input) desc_L :: u64 where "desc_L \<equiv> 0x20000000000000"
abbreviation (input) desc_W :: u64 where "desc_W \<equiv> 0x00020000000000"

text \<open>The initial contents of the 32 entries.\<close>

definition initial_gdt :: "u64 list" where
  "initial_gdt = [0, GDT_CS OR desc_P OR DPL0 OR desc_L, GDT_DS OR desc_P OR desc_W OR DPL0, 0,
     GDT_DS OR desc_P OR desc_W OR DPL3, GDT_CS OR desc_P OR DPL3 OR desc_L, 0, 0] @ replicate 24 0"

record segments = interrupts +
  gdt :: "u64 list"
  cpu_gdtr :: "u16 \<times> u64"
  cpu_cs :: u16
  cpu_ds :: u16
  cpu_tr :: u16

section \<open>Bit fields\<close>

type_synonym u128 = "128 word"

definition get_field :: "nat \<Rightarrow> nat \<Rightarrow> u128 \<Rightarrow> u128" where
  "get_field lo w d = take_bit w (drop_bit lo d)"

definition set_field :: "nat \<Rightarrow> nat \<Rightarrow> u128 \<Rightarrow> u128 \<Rightarrow> u128" where
  "set_field lo w v d = (d AND NOT (push_bit lo (mask w))) OR push_bit lo (take_bit w v)"

definition join :: "u64 \<Rightarrow> u64 \<Rightarrow> u128" where
  "join lo hi = ucast lo OR push_bit 64 (ucast hi)"

text \<open>The descriptor of the task state segment at \<open>tss\<close>, whose size is 104 bytes.\<close>

definition tss_descriptor :: "u64 \<Rightarrow> u128 \<Rightarrow> u128" where
  "tss_descriptor tss sd =
     (let sd = set_field 0 16 (104 - 1) sd;
          sd = set_field 16 24 (ucast tss) sd;
          sd = set_field 40 5 9 sd;
          sd = set_field 45 2 0 sd;
          sd = set_field 47 1 1 sd;
          sd = set_field 48 4 0 sd;
          sd = set_field 55 1 0 sd
      in set_field 56 40 (ucast (drop_bit 24 tss)) sd)"

definition x86_64_asm_lgdt :: "u64 \<Rightarrow> u16 \<Rightarrow> u16 \<Rightarrow> 'a segments_scheme \<Rightarrow> 'a segments_scheme" where
  "x86_64_asm_lgdt gdt_addr cs_idx ds_idx s =
     s\<lparr>cpu_gdtr := (8 * 32, gdt_addr), cpu_cs := cs_idx, cpu_ds := ds_idx\<rparr>"

definition tss_flush :: "'a segments_scheme \<Rightarrow> 'a segments_scheme" where
  "tss_flush s = s\<lparr>cpu_tr := 0x33\<rparr>"

definition init_gdt :: "u64 \<Rightarrow> u64 \<Rightarrow> 'a segments_scheme \<Rightarrow> 'a segments_scheme" where
  "init_gdt gdt_addr tss s =
     (let sd = tss_descriptor tss (join (gdt s ! 6) (gdt s ! 7));
          s = s\<lparr>gdt := (gdt s)[6 := ucast sd, 7 := ucast (drop_bit 64 sd)]\<rparr>;
          s = x86_64_asm_lgdt gdt_addr 8 16 s
      in tss_flush s)"

section \<open>What the processor reads\<close>

text \<open>A selector: the index of the entry above the table bit and the two bits of privilege.\<close>

definition entry_of :: "u64 list \<Rightarrow> u16 \<Rightarrow> u64" where
  "entry_of t sel = t ! unat (drop_bit 3 sel)"

definition rpl :: "u16 \<Rightarrow> u64" where
  "rpl sel = ucast (sel AND 3)"

definition seg_dpl :: "u64 \<Rightarrow> u64" where
  "seg_dpl d = drop_bit 45 d AND 3"

definition code64 :: "u64 \<Rightarrow> bool" where
  "code64 d \<longleftrightarrow> bit d 47 \<and> bit d 44 \<and> bit d 43 \<and> bit d 53 \<and> \<not> bit d 54"

definition writable_data :: "u64 \<Rightarrow> bool" where
  "writable_data d \<longleftrightarrow> bit d 47 \<and> bit d 44 \<and> \<not> bit d 43 \<and> bit d 41"

text \<open>An available 64-bit task state segment: its base and its last byte.\<close>

definition tss_of :: "u64 list \<Rightarrow> u16 \<Rightarrow> (u64 \<times> nat) option" where
  "tss_of t sel =
     (let d = join (t ! unat (drop_bit 3 sel)) (t ! (unat (drop_bit 3 sel) + 1))
      in if get_field 40 5 d = 9 \<and> bit d 47
         then Some (ucast (get_field 16 24 d OR push_bit 24 (get_field 56 40 d)),
                    unat (get_field 0 16 d OR push_bit 16 (get_field 48 4 d)))
         else None)"

section \<open>Fields\<close>

lemma get_set_same: "lo + w \<le> 128 \<Longrightarrow> get_field lo w (set_field lo w v d) = take_bit w v"
  unfolding get_field_def set_field_def by (rule bit_word_eqI) (auto simp: bit_simps)

lemma get_set_other:
  "lo + w \<le> lo' \<or> lo' + w' \<le> lo \<Longrightarrow> get_field lo w (set_field lo' w' v d) = get_field lo w d"
  unfolding get_field_def set_field_def
  by (rule bit_word_eqI) (auto simp: bit_simps dest: bit_imp_le_length)

lemma bit_set_other: "n < lo \<or> lo + w \<le> n \<Longrightarrow> bit (set_field lo w v d) n = bit d n"
  unfolding set_field_def by (auto simp: bit_simps dest: bit_imp_le_length)

lemma bit_set_same: "lo < 128 \<Longrightarrow> 0 < w \<Longrightarrow> bit (set_field lo w v d) lo = bit v 0"
  unfolding set_field_def by (auto simp: bit_simps)

lemma join_split: "join (ucast d) (ucast (drop_bit 64 d)) = d"
  unfolding join_def by (rule bit_word_eqI) (auto simp: bit_simps)

lemma tss_fields:
  "get_field 0 16 (tss_descriptor a d) = 103" "get_field 16 24 (tss_descriptor a d) = take_bit 24 (ucast a)"
  "get_field 40 5 (tss_descriptor a d) = 9" "bit (tss_descriptor a d) 47"
  "get_field 48 4 (tss_descriptor a d) = 0"
  "get_field 56 40 (tss_descriptor a d) = take_bit 40 (ucast (drop_bit 24 a))"
  by (simp_all add: tss_descriptor_def Let_def get_set_same get_set_other bit_set_other bit_set_same)

lemma tss_base:
  "(ucast (take_bit 24 (ucast a) OR push_bit 24 (take_bit 40 (ucast (drop_bit 24 a))) :: u128) :: u64) = a" for a :: u64
  by (rule bit_word_eqI) (auto simp: bit_simps)

lemma init_gdt_simps:
  "gdt (init_gdt g a s) = (gdt s)[6 := ucast (tss_descriptor a (join (gdt s ! 6) (gdt s ! 7))),
     7 := ucast (drop_bit 64 (tss_descriptor a (join (gdt s ! 6) (gdt s ! 7))))]"
  "cpu_tr (init_gdt g a s) = 0x33" "cpu_gdtr (init_gdt g a s) = (256, g)"
  "cpu_cs (init_gdt g a s) = 8" "cpu_ds (init_gdt g a s) = 16"
  by (simp_all add: init_gdt_def Let_def tss_flush_def x86_64_asm_lgdt_def)

section \<open>Properties\<close>

text \<open>
  After init_gdt the task register names a descriptor whose base and limit are those of
  the kernel's task state segment, and the other entries are as they were.
\<close>

theorem tss_descriptor_loaded:
  assumes "length (gdt s) = 32"
  shows "tss_of (gdt (init_gdt g a s)) (cpu_tr (init_gdt g a s)) = Some (a, 103) \<and>
    (\<forall>n. n \<noteq> 6 \<and> n \<noteq> 7 \<longrightarrow> gdt (init_gdt g a s) ! n = gdt s ! n) \<and>
    cpu_gdtr (init_gdt g a s) = (256, g)"
proof -
  let ?d = "tss_descriptor a (join (gdt s ! 6) (gdt s ! 7))"
  have "join (gdt (init_gdt g a s) ! 6) (gdt (init_gdt g a s) ! 7) = ?d"
    using assms by (simp add: init_gdt_simps join_split)
  then have "tss_of (gdt (init_gdt g a s)) 0x33 = Some (a, 103)"
    unfolding tss_of_def Let_def by (simp add: tss_fields tss_base)
  then show ?thesis by (simp add: init_gdt_simps)
qed

text \<open>What a selector in a frame or a gate stands for.\<close>

definition selects_code :: "u64 list \<Rightarrow> u64 \<Rightarrow> u16 \<Rightarrow> bool" where
  "selects_code t k sel \<longleftrightarrow> code64 (entry_of t sel) \<and> seg_dpl (entry_of t sel) = k \<and> rpl sel = k"

definition selects_data :: "u64 list \<Rightarrow> u64 \<Rightarrow> u16 \<Rightarrow> bool" where
  "selects_data t k sel \<longleftrightarrow> writable_data (entry_of t sel) \<and> seg_dpl (entry_of t sel) = k \<and> rpl sel = k"

text \<open>The code and the stack segment in the frame a process starts with.\<close>

definition frame_cs :: "u64 \<Rightarrow> 'a sched_scheme \<Rightarrow> u16" where
  "frame_cs p s = ucast (kstack (pcbs s p) ! 508)"

definition frame_ss :: "u64 \<Rightarrow> 'a sched_scheme \<Rightarrow> u16" where
  "frame_ss p s = ucast (kstack (pcbs s p) ! 511)"

lemma boot_entries:
  assumes "gdt t = initial_gdt"
  shows "selects_code (gdt (init_gdt a tss t)) 0 8" "selects_code (gdt (init_gdt a tss t)) 3 0x2b"
    "selects_data (gdt (init_gdt a tss t)) 0 0x10" "selects_data (gdt (init_gdt a tss t)) 3 0x23"
proof -
  have "gdt (init_gdt a tss t) ! n = initial_gdt ! n" if "n \<noteq> 6" "n \<noteq> 7" for n
    using that by (simp add: init_gdt_simps assms)
  note simps = this initial_gdt_def selects_code_def selects_data_def entry_of_def code64_def writable_data_def
    seg_dpl_def rpl_def
  show "selects_code (gdt (init_gdt a tss t)) 0 8" "selects_code (gdt (init_gdt a tss t)) 3 0x2b"
    "selects_data (gdt (init_gdt a tss t)) 0 0x10" "selects_data (gdt (init_gdt a tss t)) 3 0x23"
    by (simp_all add: simps)
qed

lemma frames_at:
  assumes "length (kstack (pcbs s p)) = 512"
  shows "schedule_user_process irq p s = Some s' \<Longrightarrow> frame_cs p s' = 0x2b \<and> frame_ss p s' = 0x23"
    "schedule_ready_process irq p f s = Some s' \<Longrightarrow> frame_cs p s' = 0x2b \<and> frame_ss p s' = 0x23"
    "frame_cs p (schedule_idle_process irq p f s) = 8" "frame_ss p (schedule_idle_process irq p f s) = 0x10"
proof -
  show "frame_cs p s' = 0x2b \<and> frame_ss p s' = 0x23" if "schedule_user_process irq p s = Some s'"
    using assms by (simp add: frame_cs_def frame_ss_def user_frame(1) [OF that])
  show "frame_cs p s' = 0x2b \<and> frame_ss p s' = 0x23" if "schedule_ready_process irq p f s = Some s'"
    using that assms by (auto simp: frame_cs_def frame_ss_def schedule_ready_process_def Let_def set_next_def split: if_splits bind_splits)
  show "frame_cs p (schedule_idle_process irq p f s) = 8" "frame_ss p (schedule_idle_process irq p f s) = 0x10"
    using assms by (simp_all add: frame_cs_def frame_ss_def schedule_idle_process_def Let_def)
qed

lemma user_data_segment:
  "\<lbrakk>run_ready_process p k = Some k'; process_type (pcbs k' p) = USER\<rbrakk> \<Longrightarrow> data_seg k' = 0x23"
  by (auto simp: run_ready_process_def Let_def set_tss_rsp_def split: bind_splits if_splits)

text \<open>
  C20. The selectors the kernel uses denote the segments they mean in the table of init_gdt. In
  the frames schedule_user_process and schedule_ready_process build, the code segment is the
  64-bit code segment of privilege 3 and the stack segment the writable data segment of
  privilege 3, as is the segment the timer loads when it dispatches a user process. In the frame
  of the idle process and in the registers init_gdt loads they are the kernel's segments of
  privilege 0. All the gates that idt_install and init_idt leave present lead to the code segment
  of the kernel.
\<close>

theorem frame_selectors:
  assumes "gdt (t :: segments) = initial_gdt" "length (kstack (pcbs s p)) = 512"
    and "schedule_user_process irq0 p s = Some s1" "schedule_ready_process irq0 p f s = Some s2"
    and "run_ready_process q k = Some k'" "process_type (pcbs k' q) = USER"
  shows "let g = gdt (init_gdt a tss t) in
    selects_code g 3 (frame_cs p s1) \<and> selects_data g 3 (frame_ss p s1) \<and>
    selects_code g 3 (frame_cs p s2) \<and> selects_data g 3 (frame_ss p s2) \<and>
    selects_code g 0 (frame_cs p (schedule_idle_process irq0 p f s)) \<and>
    selects_data g 0 (frame_ss p (schedule_idle_process irq0 p f s)) \<and>
    selects_data g 3 (ucast (data_seg k')) \<and>
    selects_code g 0 (cpu_cs (init_gdt a tss t)) \<and> selects_data g 0 (cpu_ds (init_gdt a tss t)) \<and>
    (\<exists>t1 t2. idt_install b isr (init_gdt a tss t) = Some t1 \<and> init_idt irq t1 = Some t2 \<and> gdt t2 = g \<and>
      (\<forall>n < 256. (gate_present (idt t2 ! n) \<longleftrightarrow> n < 48 \<or> n = 128) \<and>
        (gate_present (idt t2 ! n) \<longrightarrow> selects_code (gdt t2) 0 (selector (idt t2 ! n)))))"
proof -
  note entries = boot_entries [OF assms(1), of a tss]
  obtain t1 where t1: "idt_install b isr (init_gdt a tss t) = Some t1" "length (idt t1) = 256"
    "gdt t1 = gdt (init_gdt a tss t)" "idt t1 = install isr 0x8e {0..<32} (replicate 256 blank_gate)"
    using idt_install_eq [of b isr "init_gdt a tss t"] by simp
  obtain t2 where t2: "init_idt irq t1 = Some t2" "gdt t2 = gdt (init_gdt a tss t)"
    "\<And>n. n < 256 \<Longrightarrow> idt t2 ! n = boot_gate isr irq n"
    using init_idt_eq [OF t1(2), of irq] t1(3,4) boot_table by simp
  have "(gate_present (idt t2 ! n) \<longleftrightarrow> n < 48 \<or> n = 128) \<and>
      (gate_present (idt t2 ! n) \<longrightarrow> selects_code (gdt t2) 0 (selector (idt t2 ! n)))" if "n < 256" for n
    using t2(3) [OF that] entries(1) by (simp add: t2(2) boot_gate_def gate_fields)
  then show ?thesis
    unfolding Let_def using entries frames_at [OF assms(2)] assms(3,4) user_data_segment [OF assms(5,6)] t1(1) t2(1,2)
    by (simp add: init_gdt_simps(4,5))
qed

section \<open>A concrete state\<close>

definition boot_segments :: segments where
  "boot_segments = \<lparr>pcbs = (\<lambda>_. blank_pcb), ready_processes = 0, sleeping_processes = 0, idle_process = 0,
     currently_running_process = 0, pid_count = 0, timer_ticks = 0, first_schedule = 0, cpu_rsp = 0, cpu_cr3 = 0,
     tss_rsp0 = 0, data_seg = 0, ports = [], idt = replicate 256 blank_gate, idtr_limit = 0, idtr_base = 0,
     cpu_idtr = (0, 0), gdt = initial_gdt, cpu_gdtr = (0, 0), cpu_cs = 0, cpu_ds = 0, cpu_tr = 0\<rparr>"

lemma tss_descriptor_loaded_witness:
  "tss_of (gdt (init_gdt 0xffffffff80205000 0xffffffff80206060 boot_segments))
    (cpu_tr (init_gdt 0xffffffff80205000 0xffffffff80206060 boot_segments)) = Some (0xffffffff80206060, 103)"
proof -
  have "length (gdt boot_segments) = 32" by (simp add: boot_segments_def initial_gdt_def)
  from tss_descriptor_loaded [OF this] show ?thesis by blast
qed

lemma frame_selectors_witness:
  "\<exists>s1 s2 k'. schedule_user_process 0x200000 0x3000 no_processes = Some s1 \<and>
    schedule_ready_process 0x200000 0x3000 0x201000 no_processes = Some s2 \<and>
    run_ready_process 0x3000 boot_segments = Some k' \<and>
    selects_code (gdt (init_gdt 0 0x1000 boot_segments)) 3 (frame_cs 0x3000 s1) \<and>
    selects_code (gdt (init_gdt 0 0x1000 boot_segments)) 3 (frame_cs 0x3000 s2) \<and>
    selects_data (gdt (init_gdt 0 0x1000 boot_segments)) 3 (ucast (data_seg k'))"
proof -
  obtain s1 where s1: "schedule_user_process 0x200000 0x3000 no_processes = Some s1"
    by (simp add: schedule_user_process_def no_processes_def Let_def)
  obtain s2 where s2: "schedule_ready_process 0x200000 0x3000 0x201000 no_processes = Some s2"
    by (simp add: schedule_ready_process_def no_processes_def Let_def)
  obtain k' where k': "run_ready_process 0x3000 boot_segments = Some k'" "process_type (pcbs k' 0x3000) = USER"
    by (simp add: run_ready_process_def save_and_requeue_def boot_segments_def blank_pcb_def set_tss_rsp_def Let_def)
  have "gdt boot_segments = initial_gdt" "length (kstack (pcbs no_processes 0x3000)) = 512"
    by (simp_all add: no_processes_def blank_pcb_def boot_segments_def)
  from frame_selectors [OF this s1 s2 k', of 0 "0x1000"] s1 s2 k'(1) show ?thesis unfolding Let_def by blast
qed

end
