(* ===== verification/Console.thy ===== *)
theory Console
  imports CString Gdt
begin

text \<open>
  The screen output of the kernel (sys/kprintf.c): numbers, formats, newlines and scrolling
  over the memory of the video card. Memory is what the page tables in force show. The
  format of every call is a literal, so it is a list of characters here; the arguments
  are the values va_arg takes, in order.
\<close>

section \<open>Numbers\<close>

text \<open>The digit character and the attribute byte that each of the functions writes.\<close>

definition digit_char :: "cint \<Rightarrow> cint" where
  "digit_char digit = (if 10 \<le> sint digit then digit + 87 else digit + 48)"

definition put_cell :: "u64 \<Rightarrow> cint \<Rightarrow> cint \<Rightarrow> mem \<Rightarrow> mem" where
  "put_cell video ch colour m = m(video := ucast ch, video + 1 := ucast colour)"

lemma word_div_less: "num \<noteq> 0 \<Longrightarrow> unat (num div 16) < unat num" for num :: u64
  by (simp add: unat_div unat_gt_0)

function printPointer :: "mem \<Rightarrow> u64 \<Rightarrow> cint \<Rightarrow> u64 \<Rightarrow> mem \<times> cint" where
  "printPointer m video colour num =
     (if num = 0 then (m, 0)
      else case printPointer m video colour (num div 16) of (m, counter) \<Rightarrow>
        let digit = ucast (num mod 16) :: cint;
            digit = (if sint digit < 0 then - digit else digit)
        in (put_cell (video + scast counter) (digit_char digit) colour m, 2 + counter))"
  by pat_completeness auto
termination
  by (relation "measure (\<lambda>(m, video, colour, num). unat num)") (auto simp: word_div_less)

declare printPointer.simps [simp del]

lemma sint_cint_bound: "\<bar>sint (n :: cint)\<bar> \<le> 2147483648"
  using sint_ge [of n] sint_lt [of n] by auto

lemma sint_cint_div:
  assumes "1 < sint k"
  shows "sint (cint_div n k) = sgn (sint n) * (\<bar>sint n\<bar> div sint k)"
proof -
  have "\<bar>sint n\<bar> div sint k \<le> 2147483648 div 2"
  proof -
    have "\<bar>sint n\<bar> div sint k \<le> 2147483648 div sint k"
      using sint_cint_bound [of n] assms by (intro zdiv_mono1) simp_all
    also have "\<dots> \<le> 2147483648 div 2" using assms by (intro zdiv_mono2) simp_all
    finally show ?thesis .
  qed
  moreover have "0 \<le> \<bar>sint n\<bar> div sint k" using assms by (simp add: pos_imp_zdiv_nonneg_iff)
  ultimately have "\<bar>sgn (sint n) * (\<bar>sint n\<bar> div sint k)\<bar> \<le> 1073741824"
    by (cases "sint n" "0 :: int" rule: linorder_cases) simp_all
  then have r: "- (2 ^ 31) \<le> sgn (sint n) * (\<bar>sint n\<bar> div sint k)" "sgn (sint n) * (\<bar>sint n\<bar> div sint k) < 2 ^ 31"
    by (simp_all only: abs_le_iff) simp_all
  define q where "q = sgn (sint n) * (\<bar>sint n\<bar> div sint k)"
  have "cint_div n k = word_of_int q" using assms by (simp add: cint_div_def q_def)
  moreover have "sint (word_of_int q :: cint) = q"
    using r by (simp add: q_def [symmetric] signed_of_int signed_take_bit_int_eq_self)
  ultimately show ?thesis by (simp add: q_def)
qed

lemma sint_cint_eq_0: "sint (n :: cint) = 0 \<longleftrightarrow> n = 0"
  by (rule signed_eq_0_iff)

lemma cint_div_less:
  assumes "n \<noteq> 0" "1 < sint k"
  shows "\<bar>sint (cint_div n k)\<bar> < \<bar>sint n\<bar>"
proof -
  have "sint n \<noteq> 0" using assms(1) by (simp only: sint_cint_eq_0)  simp
  moreover have "\<bar>sint n\<bar> div sint k < \<bar>sint n\<bar>" using assms(2) calculation by (intro int_div_less_self) simp_all
  moreover have "0 \<le> \<bar>sint n\<bar> div sint k" using assms by (simp add: pos_imp_zdiv_nonneg_iff)
  ultimately show ?thesis by (simp add: sint_cint_div [OF assms(2)] abs_mult abs_sgn_eq)
qed

function printHex :: "mem \<Rightarrow> u64 \<Rightarrow> cint \<Rightarrow> cint \<Rightarrow> mem \<times> cint" where
  "printHex m video colour num =
     (if num = 0 then (m, 0)
      else case printHex m video colour (cint_div num 16) of (m, counter) \<Rightarrow>
        (put_cell (video + scast counter) (digit_char (cint_mod num 16)) colour m, 2 + counter))"
  by pat_completeness auto
termination
  by (relation "measure (\<lambda>(m, video, colour, num). nat \<bar>sint num\<bar>)") (auto simp: cint_div_less nat_less_iff sint_cint_eq_0)

declare printHex.simps [simp del]

text \<open>
  A zero is written but not counted, and the minus sign moves the local pointer only: the
  result is the width of the digits in both cases.
\<close>

lemma sint_minus_abs: "\<bar>sint (- (n :: cint))\<bar> = \<bar>sint n\<bar>"
proof (cases "sint n = - 2147483648")
  case True
  then have "sint n = sint (2147483648 :: cint)" by simp
  then have "n = 2147483648" by (rule signed_word_eqI)
  then show ?thesis by simp
next
  case False
  then have "- 2147483648 \<le> - sint n" "- sint n < 2147483648" using sint_ge [of n] sint_lt [of n] by simp_all
  then have "sint (- n) = - sint n"
    by (simp add: sint_word_ariths signed_take_bit_int_eq_self)
  then show ?thesis by simp
qed

function printInt :: "mem \<Rightarrow> u64 \<Rightarrow> cint \<Rightarrow> cint \<Rightarrow> mem \<times> cint" where
  "printInt m video colour num =
     (if num = 0 then (put_cell video 48 colour m, 0)
      else let (m, video, num') = (if sint num < 0 then (put_cell video 45 colour m, video + 2, - num)
                                   else (m, video, num))
           in case printInt m video colour (cint_div num' 10) of (m, counter) \<Rightarrow>
             (put_cell (video + scast counter) (cint_mod num' 10 + 48) colour m, 2 + counter))"
  by pat_completeness auto
termination
proof (relation "measure (\<lambda>(m, video, colour, num). nat \<bar>sint num\<bar>)", goal_cases)
  case (2 m video colour num x y m' video' num')
  have "num' = num \<or> num' = - num" using 2 by (auto split: if_splits)
  then have n: "\<bar>sint num'\<bar> = \<bar>sint num\<bar>" "num' \<noteq> 0"
    using sint_minus_abs [of num] 2(1) by (elim disjE; simp)+
  have "\<bar>sint (cint_div num' 10)\<bar> < \<bar>sint num'\<bar>" by (rule cint_div_less [OF n(2)]) simp
  then show ?case using n by (simp add: nat_less_iff)
qed simp

declare printInt.simps [simp del]

section \<open>State\<close>

record console = segments +
  vmem :: mem
  videoCardEnd :: u64
  videoCardStart :: u64
  videoCardPosition :: u64
  scrollForNextCall :: cint

definition setNewVideoCardAddresses :: "'a console_scheme \<Rightarrow> 'a console_scheme" where
  "setNewVideoCardAddresses s =
     s\<lparr>videoCardEnd := 0xFFFFFFFF800B8FA0, videoCardStart := 0xFFFFFFFF800B8000,
       videoCardPosition := 0xffffffff80000000 + videoCardPosition s\<rparr>"

text \<open>The loops over screen cells return the memory and the pointer they end with.\<close>

primrec initScreen_loop :: "nat \<Rightarrow> mem \<Rightarrow> u64 \<Rightarrow> mem" where
  "initScreen_loop 0 m p = m"
| "initScreen_loop (Suc n) m p = initScreen_loop n (m(p := 32)) (p + 2)"

definition initScreen :: "'a console_scheme \<Rightarrow> 'a console_scheme" where
  "initScreen s = s\<lparr>vmem := initScreen_loop 4000 (vmem s) (videoCardStart s)\<rparr>"

primrec scroll_rows :: "nat \<Rightarrow> mem \<Rightarrow> u64 \<Rightarrow> mem \<times> u64" where
  "scroll_rows 0 m p = (m, p)"
| "scroll_rows (Suc n) m p = scroll_rows n (m(p := m (p + 160))) (p + 1)"

primrec scroll_blank :: "nat \<Rightarrow> u64 \<Rightarrow> mem \<Rightarrow> u64 \<Rightarrow> mem" where
  "scroll_blank 0 end' m p = m"
| "scroll_blank (Suc n) end' m p =
     (if end' < p then m else scroll_blank n end' (m(p := 32)) (p + 2))"

definition scroll :: "'a console_scheme \<Rightarrow> 'a console_scheme" where
  "scroll s = (case scroll_rows (24 * 160) (vmem s) (videoCardStart s) of (m, p) \<Rightarrow>
     s\<lparr>vmem := scroll_blank 160 (videoCardEnd s) m p\<rparr>)"

section \<open>kprintf\<close>

text \<open>The difference of two pointers modulo the width of a row, with the sign of C.\<close>

definition ptr_mod :: "u64 \<Rightarrow> u64 \<Rightarrow> u64" where
  "ptr_mod a b = word_of_int (sgn (sint (a - b)) * (\<bar>sint (a - b)\<bar> mod 160))"

text \<open>\<open>None\<close> is a string without an end.\<close>

partial_function (option) print_string :: "mem \<Rightarrow> u64 \<Rightarrow> u64 \<Rightarrow> (mem \<times> u64) option" where
  "print_string m video str =
     (if m str \<noteq> 0 then print_string (put_cell video (ucast (m str)) 0 m) (video + 2) (str + 1)
      else Some (m, video))"

text \<open>
  One conversion: it returns the memory, the position and the remaining arguments. \<open>None\<close> is
  also an argument that was not passed.
\<close>

fun conversion :: "u8 \<Rightarrow> mem \<Rightarrow> u64 \<Rightarrow> u64 list \<Rightarrow> (mem \<times> u64 \<times> u64 list) option" where
  "conversion c m video args =
     (if c \<in> {of_char CHR ''s'', of_char CHR ''c'', of_char CHR ''d'', of_char CHR ''x'', of_char CHR ''p''}
      then case args of [] \<Rightarrow> None
        | a # args \<Rightarrow>
          if c = of_char CHR ''s'' then do { (m, video) \<leftarrow> print_string m video a; Some (m, video, args) }
          else if c = of_char CHR ''c'' then Some (put_cell video (ucast a) 0 m, video + 2, args)
          else if c = of_char CHR ''d''
          then (case printInt m video 0 (ucast a) of (m, n) \<Rightarrow> Some (m, video + scast n, args))
          else if c = of_char CHR ''x''
          then (case printHex m video 0 (ucast a) of (m, n) \<Rightarrow> Some (m, video + scast n, args))
          else (let m = put_cell video (of_char CHR ''0'') 0 m;
                    m = put_cell (video + 2) (of_char CHR ''x'') 0 m
                in case printPointer m (video + 4) 0 a of (m, n) \<Rightarrow> Some (m, video + 4 + scast n, args))
      else Some (m, video, args))"

declare conversion.simps [simp del]

definition pending_scroll :: "u64 \<Rightarrow> 'a console_scheme \<Rightarrow> u64 \<times> 'a console_scheme" where
  "pending_scroll video s =
     (if scrollForNextCall s \<noteq> 0
      then (video - 160, (scroll s)\<lparr>videoCardPosition := videoCardPosition s - 160, scrollForNextCall := 0\<rparr>)
      else (video, s))"

definition check_end :: "u64 \<Rightarrow> 'a console_scheme \<Rightarrow> 'a console_scheme" where
  "check_end video s = (if videoCardEnd s \<le> video then s\<lparr>scrollForNextCall := 1\<rparr> else s)"

definition newline :: "u64 \<Rightarrow> 'a console_scheme \<Rightarrow> u64" where
  "newline video s =
     (if ptr_mod (videoCardPosition s) (videoCardStart s) \<noteq> 0
      then video + (160 - ptr_mod video (videoCardStart s))
      else video + (160 - ptr_mod video (videoCardPosition s)))"

text \<open>\<open>None\<close> is also a format that ends behind a percent sign: the code would read on.\<close>

fun kprintf_loop :: "u8 list \<Rightarrow> u64 list \<Rightarrow> u64 \<Rightarrow> 'a console_scheme \<Rightarrow> (u64 \<times> 'a console_scheme) option" where
  "kprintf_loop [] args video s = Some (video, s)"
| "kprintf_loop (c # fmt) args video s =
     (case pending_scroll video s of (video, s) \<Rightarrow>
        if c = of_char CHR ''%''
        then (case fmt of [] \<Rightarrow> None
          | d # fmt' \<Rightarrow> do {
              (m, video, args) \<leftarrow> conversion d (vmem s) video args;
              kprintf_loop fmt' args video (check_end video (s\<lparr>vmem := m\<rparr>))
            })
        else if c = 10
        then (let video = newline video s in kprintf_loop fmt args video (check_end video s))
        else kprintf_loop fmt args (video + 2)
               (check_end (video + 2) (s\<lparr>vmem := put_cell video (ucast c) 0 (vmem s)\<rparr>)))"

definition kprintf :: "string \<Rightarrow> u64 list \<Rightarrow> 'a console_scheme \<Rightarrow> 'a console_scheme option" where
  "kprintf fmt args s = do {
     (video, s) \<leftarrow> kprintf_loop (map of_char fmt) args (videoCardPosition s) s;
     Some (check_end video (s\<lparr>videoCardPosition := video\<rparr>))
   }"

section \<open>Numbers as text\<close>

primrec put_cells :: "u64 \<Rightarrow> cint \<Rightarrow> cint list \<Rightarrow> mem \<Rightarrow> mem" where
  "put_cells video colour [] m = m"
| "put_cells video colour (c # cs) m = put_cells (video + 2) colour cs (put_cell video c colour m)"

lemma put_cells_append:
  "put_cells video colour (cs @ ds) m =
    put_cells (video + of_nat (2 * length cs)) colour ds (put_cells video colour cs m)"
  by (induction cs arbitrary: video m) (simp_all add: algebra_simps)

lemma put_cells_snoc:
  "put_cells video colour (cs @ [c]) m =
    put_cell (video + of_nat (2 * length cs)) c colour (put_cells video colour cs m)"
  by (simp only: put_cells_append put_cells.simps)

fun digits :: "nat \<Rightarrow> nat \<Rightarrow> nat list" where
  "digits b n = (if n = 0 \<or> b \<le> 1 then [] else digits b (n div b) @ [n mod b])"

declare digits.simps [simp del]

lemma digits_0 [simp]: "digits b 0 = []"
  by (subst digits.simps) simp

lemma digits_step: "\<lbrakk>n \<noteq> 0; 1 < b\<rbrakk> \<Longrightarrow> digits b n = digits b (n div b) @ [n mod b]"
  by (subst digits.simps) simp

definition digits_value :: "nat \<Rightarrow> nat list \<Rightarrow> nat" where
  "digits_value b ds = foldl (\<lambda>a d. b * a + d) 0 ds"

lemma digits_value_digits: "1 < b \<Longrightarrow> digits_value b (digits b n) = n"
proof (induction b n rule: digits.induct)
  case (1 b n)
  then show ?case
    by (cases "n = 0") (simp_all add: digits_step digits_value_def)
qed

lemma digits_less: "1 < b \<Longrightarrow> d \<in> set (digits b n) \<Longrightarrow> d < b"
  by (induction b n rule: digits.induct) (subst (asm) (2) digits.simps, auto split: if_splits)

lemma length_digits: "\<lbrakk>n < b ^ k; 1 < b\<rbrakk> \<Longrightarrow> length (digits b n) \<le> k"
proof (induction k arbitrary: n)
  case (Suc k)
  show ?case
  proof (cases "n = 0")
    case False
    have "n div b < b ^ k" using Suc.prems by (simp add: div_less_iff_less_mult mult.commute)
    with Suc.IH [of "n div b"] Suc.prems False show ?thesis by (simp add: digits_step)
  qed simp
qed simp

definition digit_text :: "nat list \<Rightarrow> cint list" where
  "digit_text = map (\<lambda>d. digit_char (of_nat d))"

text \<open>The value of a digit character.\<close>

definition char_value :: "cint \<Rightarrow> nat" where
  "char_value c = (if 97 \<le> unat c then unat c - 87 else unat c - 48)"

lemma char_value_digit: "d < 16 \<Longrightarrow> char_value (digit_char (of_nat d)) = d"
proof -
  assume "d < 16"
  then have "d \<in> set [0..<16]" by simp
  moreover have "list_all (\<lambda>d. char_value (digit_char (of_nat d)) = d) [0..<16]"
    by (simp add: upt_rec char_value_def digit_char_def)
  ultimately show ?thesis unfolding list_all_iff by blast
qed

lemma char_values_digits: "map char_value (digit_text (digits 16 n)) = digits 16 n"
  unfolding digit_text_def map_map by (rule map_idI) (simp add: char_value_digit digits_less [of 16])

lemma scast_double: "n < 2 ^ 30 \<Longrightarrow> (scast (2 * of_nat n :: cint) :: u64) = of_nat (2 * n)"
  using scast_cint_of_nat [of "2 * n"] by simp

lemma printPointer_eq:
  "printPointer m video colour num =
    (put_cells video colour (digit_text (digits 16 (unat num))) m, 2 * of_nat (length (digits 16 (unat num))))"
proof (induction m video colour num rule: printPointer.induct)
  case (1 m video colour num)
  show ?case
  proof (cases "num = 0")
    case False
    let ?ds = "digits 16 (unat (num div 16))"
    have "unat (num div 16) < 16 ^ 16" using unat_u64_less [of "num div 16"] by simp
    then have len: "length ?ds \<le> 16" by (rule length_digits) simp
    have ds: "digits 16 (unat num) = ?ds @ [unat num mod 16]"
      using False by (subst digits_step) (simp_all add: unat_div unat_eq_zero)
    have "of_nat (unat (num mod 16)) = (ucast (num mod 16) :: cint)" by (rule of_nat_unat)
    then have d: "(ucast (num mod 16) :: cint) = of_nat (unat num mod 16)" by (simp add: unat_mod)
    have "\<not> sint (of_nat (unat num mod 16) :: cint) < 0"
      using sint_cint_of_nat [of "unat num mod 16"] by simp
    then show ?thesis
      using False len "1.IH" [OF False]
      by (subst printPointer.simps)
        (simp add: Let_def d ds digit_text_def put_cells_snoc scast_double algebra_simps)
  qed (simp add: printPointer.simps digit_text_def)
qed

lemma cint_div_of_nat:
  assumes "k < 2 ^ 31" "0 < b" "b < 2 ^ 31"
  shows "cint_div (of_nat k) (of_nat b) = of_nat (k div b)"
proof -
  have "\<bar>int k\<bar> div \<bar>int b\<bar> = int (k div b)" by (simp add: zdiv_int)
  then show ?thesis
    using assms by (cases "k = 0") (simp_all add: cint_div_def sint_cint_of_nat)
qed

lemma cint_mod_of_nat:
  assumes "k < 2 ^ 31" "0 < b" "b < 2 ^ 31"
  shows "cint_mod (of_nat k) (of_nat b) = of_nat (k mod b)"
proof -
  have "(of_nat k :: cint) = of_nat (k div b) * of_nat b + of_nat (k mod b)"
    by (simp only: of_nat_mult [symmetric] of_nat_add [symmetric] div_mult_mod_eq)
  then show ?thesis unfolding cint_mod_def cint_div_of_nat [OF assms] by (metis add_diff_cancel_left')
qed

lemma length_digits_int: "\<lbrakk>k < 2 ^ 31; 1 < b\<rbrakk> \<Longrightarrow> length (digits b k) \<le> 31"
proof -
  assume "k < 2 ^ 31" "1 < b"
  moreover have "(2 :: nat) ^ 31 \<le> b ^ 31" using \<open>1 < b\<close> by (intro power_mono) simp_all
  ultimately show ?thesis by (intro length_digits) linarith
qed

lemma of_nat_cint_eq_0: "k < 2 ^ 31 \<Longrightarrow> (of_nat k :: cint) = 0 \<longleftrightarrow> k = 0"
  using sint_cint_of_nat [of k] by (auto simp flip: sint_cint_eq_0)

lemma printHex_eq:
  "k < 2 ^ 31 \<Longrightarrow> printHex m video colour (of_nat k) =
    (put_cells video colour (digit_text (digits 16 k)) m, 2 * of_nat (length (digits 16 k)))"
proof (induction k arbitrary: m rule: less_induct)
  case (less k)
  show ?case
  proof (cases "k = 0")
    case False
    let ?ds = "digits 16 (k div 16)"
    have len: "length ?ds \<le> 31" by (rule length_digits_int) (use less.prems in simp_all)
    have parts: "cint_div (of_nat k) 16 = of_nat (k div 16)" "cint_mod (of_nat k) 16 = of_nat (k mod 16)"
      using cint_div_of_nat [of k 16] cint_mod_of_nat [of k 16] less.prems by simp_all
    have "printHex m video colour (of_nat (k div 16)) =
        (put_cells video colour (digit_text ?ds) m, 2 * of_nat (length ?ds))"
      by (rule less.IH) (use False less.prems in simp_all)
    then show ?thesis
      using False len less.prems
      by (subst printHex.simps)
        (simp add: of_nat_cint_eq_0 parts digits_step digit_text_def put_cells_snoc scast_double algebra_simps)
  qed (simp add: printHex.simps digit_text_def)
qed

definition decimal_digits :: "nat \<Rightarrow> cint list" where
  "decimal_digits k = map (\<lambda>d. of_nat d + 48) (digits 10 k)"

lemma decimal_digits_0 [simp]: "decimal_digits 0 = []"
  by (simp add: decimal_digits_def)

lemma put_cell_twice: "put_cell video c colour (put_cell video d colour m) = put_cell video c colour m"
  by (rule ext) (simp add: put_cell_def)

lemma printInt_eq:
  "\<lbrakk>0 < k; k < 2 ^ 31\<rbrakk> \<Longrightarrow> printInt m video colour (of_nat k) =
    (put_cells video colour (decimal_digits k) m, 2 * of_nat (length (decimal_digits k)))"
proof (induction k arbitrary: m rule: less_induct)
  case (less k)
  let ?ds = "decimal_digits (k div 10)"
  have len: "length ?ds \<le> 31"
    unfolding decimal_digits_def length_map by (rule length_digits_int) (use less.prems in simp_all)
  have parts: "cint_div (of_nat k) 10 = of_nat (k div 10)" "cint_mod (of_nat k) 10 = of_nat (k mod 10)"
    using cint_div_of_nat [of k 10] cint_mod_of_nat [of k 10] less.prems by simp_all
  have dd: "decimal_digits k = ?ds @ [of_nat (k mod 10) + 48]"
    using less.prems by (simp add: decimal_digits_def digits_step)
  have nonneg: "\<not> sint (of_nat k :: cint) < 0" using less.prems by (simp add: sint_cint_of_nat)
  show ?case
  proof (cases "k div 10 = 0")
    case True
    then show ?thesis
      using less.prems nonneg
      by (subst printInt.simps)
        (simp add: of_nat_cint_eq_0 parts dd put_cell_twice printInt.simps [of _ _ _ 0])
  next
    case False
    have "printInt m video colour (of_nat (k div 10)) = (put_cells video colour ?ds m, 2 * of_nat (length ?ds))"
      by (rule less.IH) (use False less.prems in simp_all)
    then show ?thesis
      using less.prems nonneg len
      by (subst printInt.simps)
        (simp add: of_nat_cint_eq_0 parts dd put_cells_snoc scast_double algebra_simps)
  qed
qed

lemma printInt_negative:
  assumes "0 < k" "k < 2 ^ 31"
  shows "printInt m video colour (- of_nat k) = printInt (put_cell video 45 colour m) (video + 2) colour (of_nat k)"
proof -
  have "sint (- of_nat k :: cint) = - int k"
    using assms by (simp add: sint_word_ariths sint_cint_of_nat signed_take_bit_int_eq_self)
  then show ?thesis
    using assms by (subst (1 2) printInt.simps) (simp add: of_nat_cint_eq_0 sint_cint_of_nat)
qed

text \<open>The decimal text of a number.\<close>

definition decimal :: "int \<Rightarrow> cint list" where
  "decimal k = (if k = 0 then [48] else if k < 0 then 45 # decimal_digits (nat (- k)) else decimal_digits (nat k))"

section \<open>Properties of the printed numbers\<close>

text \<open>
  C32. Round trip of printPointer: it writes at most sixteen cells whose characters, read as a
  hexadecimal number, give the value back, and returns their width in bytes. Zero prints
  no digit at all.
\<close>

theorem printPointer_roundtrip:
  "\<exists>cs. printPointer m video colour num = (put_cells video colour cs m, 2 * of_nat (length cs)) \<and>
    digits_value 16 (map char_value cs) = unat num \<and> length cs \<le> 16 \<and> (cs = [] \<longleftrightarrow> num = 0)"
proof (intro exI conjI)
  show "printPointer m video colour num = (put_cells video colour (digit_text (digits 16 (unat num))) m,
      2 * of_nat (length (digit_text (digits 16 (unat num)))))"
    by (simp add: printPointer_eq digit_text_def)
  show "digits_value 16 (map char_value (digit_text (digits 16 (unat num)))) = unat num"
    by (simp add: char_values_digits digits_value_digits)
  show "length (digit_text (digits 16 (unat num))) \<le> 16"
    unfolding digit_text_def length_map by (rule length_digits) (use unat_u64_less [of num] in simp_all)
  show "digit_text (digits 16 (unat num)) = [] \<longleftrightarrow> num = 0"
    by (subst digits.simps) (simp add: digit_text_def unat_eq_zero)
qed

lemma printInt_cells:
  assumes "sint num \<noteq> - 2147483648"
  shows "\<exists>n. printInt m video colour num = (put_cells video colour (decimal (sint num)) m, n) \<and>
    sint n = 2 * int (length (digits 10 (nat \<bar>sint num\<bar>))) \<and>
    (sint n = 2 * int (length (decimal (sint num))) \<longleftrightarrow> 0 < sint num)"
proof (cases "sint num = 0")
  case True
  then have "num = 0" by (simp only: sint_cint_eq_0)
  then show ?thesis by (simp add: printInt.simps decimal_def)
next
  case False
  define k where "k = nat \<bar>sint num\<bar>"
  have k: "0 < k" "k < 2 ^ 31" using False assms sint_ge [of num] sint_lt [of num] by (simp_all add: k_def nat_less_iff)
  have len: "length (digits 10 k) \<le> 31" by (rule length_digits_int) (use k in simp_all)
  have width: "sint (2 * of_nat (length (digits 10 k)) :: cint) = 2 * int (length (digits 10 k))"
    using sint_cint_of_nat [of "2 * length (digits 10 k)"] len by simp
  show ?thesis
  proof (cases "0 < sint num")
    case True
    then have "sint num = sint (of_nat k :: cint)" using k by (simp add: sint_cint_of_nat k_def)
    then have "num = of_nat k" by (rule signed_word_eqI)
    moreover have "decimal (sint num) = decimal_digits k" using True by (simp add: decimal_def k_def)
    ultimately show ?thesis
      using True k printInt_eq [OF k] width by (simp add: decimal_digits_def sint_cint_of_nat)
  next
    case neg: False
    have sint: "sint (- of_nat k :: cint) = - int k"
      using k by (simp add: sint_word_ariths sint_cint_of_nat signed_take_bit_int_eq_self)
    with neg False have "sint num = sint (- of_nat k :: cint)" by (simp add: k_def)
    then have "num = - of_nat k" by (rule signed_word_eqI)
    moreover have "decimal (sint num) = 45 # decimal_digits k" using neg False by (simp add: decimal_def k_def)
    ultimately show ?thesis
      using neg sint k printInt_negative [OF k] printInt_eq [OF k] width by (simp add: decimal_digits_def)
  qed
qed


text \<open>
  C33. printInt writes the decimal text of its argument, but the width it returns is that of
  the digits of the absolute value: it is the width of the text exactly for the positive
  numbers, so what is printed next overwrites a zero, or the last digit of a negative
  number.
\<close>

theorem printInt_text:
  assumes "sint num \<noteq> - 2147483648"
  shows "\<exists>n. printInt m video colour num = (put_cells video colour (decimal (sint num)) m, n) \<and>
    sint n = 2 * int (length (digits 10 (nat \<bar>sint num\<bar>))) \<and>
    (sint n = 2 * int (length (decimal (sint num))) \<longleftrightarrow> 0 < sint num)"
  by (rule printInt_cells [OF assms])
lemma printInt_text_witness:
  "\<exists>n. printInt (\<lambda>_. 0) 0xb8000 7 (- 42) = (put_cells 0xb8000 7 (decimal (- 42)) (\<lambda>_. 0), n) \<and> sint n = 4 \<and>
    length (decimal (- 42)) = 3"
proof -
  have "sint (- 42 :: cint) \<noteq> - 2147483648" by simp
  from printInt_text [OF this, of "\<lambda>_. 0" "0xb8000" 7]
  show ?thesis by (auto simp: digits_step decimal_def decimal_digits_def)
qed

end
