(* ===== verification/Screen.thy ===== *)
theory Screen
  imports Console
begin

text \<open>
  The screen as a terminal of 25 rows of 80 characters: kprintf of plain text refines
  writing to it character by character, scrolling included.
\<close>

section \<open>The terminal\<close>

text \<open>
  The characters by position and the cursor. At the end of the screen the next character
  first scrolls by one row.
\<close>

type_synonym terminal = "(nat \<Rightarrow> u8) \<times> nat"

definition scroll_term :: "(nat \<Rightarrow> u8) \<Rightarrow> nat \<Rightarrow> u8" where
  "scroll_term g = (\<lambda>i. if i < 1920 then g (i + 80) else 32)"

fun term_put :: "u8 \<Rightarrow> terminal \<Rightarrow> terminal" where
  "term_put c (g, n) =
     (let (g, n) = (if n = 2000 then (scroll_term g, n - 80) else (g, n))
      in if c = 10 then (g, (n div 80 + 1) * 80) else (g(n := c), n + 1))"

lemma term_put_le: "snd t \<le> 2000 \<Longrightarrow> snd (term_put c t) \<le> 2000"
proof (cases t)
  case (Pair g n)
  assume "snd t \<le> 2000"
  moreover have "(n' div 80 + 1) * 80 \<le> 2000" if "n' < 2000" for n' :: nat
  proof -
    have "n' div 80 < 25" using that by (simp add: div_less_iff_less_mult)
    then show ?thesis by simp
  qed
  ultimately show ?thesis by (auto simp: Pair Let_def)
qed

lemma fold_term_put_le: "snd t \<le> 2000 \<Longrightarrow> snd (fold term_put cs t) \<le> 2000"
  by (induction cs arbitrary: t) (simp_all add: term_put_le)

section \<open>Scrolling the memory\<close>

lemma offset_add: "unat (b - p) + n < 2 ^ 64 \<Longrightarrow> unat (b + of_nat n - p) = unat (b - p) + n" for b p :: u64
  using unat_add_no_wrap [of "b - p" n] by (simp add: algebra_simps)

lemma scroll_rows_eq:
  "n + 160 < 2 ^ 64 \<Longrightarrow> scroll_rows n m p =
    (\<lambda>b. if b \<in> region p n then m (b + 160) else m b, p + of_nat n)"
proof (induction n arbitrary: m p)
  case 0
  then show ?case by (simp add: region_def)
next
  case (Suc n)
  have "scroll_rows (Suc n) m p =
      (\<lambda>b. if b \<in> region (p + 1) n then (m(p := m (p + 160))) (b + 160) else (m(p := m (p + 160))) b, p + 1 + of_nat n)"
    using Suc by simp
  moreover have "(if b \<in> region (p + 1) n then (m(p := m (p + 160))) (b + 160) else (m(p := m (p + 160))) b) =
      (if b \<in> region p (Suc n) then m (b + 160) else m b)" for b
  proof (cases "b = p")
    case True
    have "unat (p - (p + 1)) = 2 ^ 64 - 1" by (simp add: unsigned_minus_1_eq_mask mask_eq_exp_minus_1)
    then show ?thesis using True Suc.prems by (simp add: region_def)
  next
    case False
    then have o: "unat (b - p) = Suc (unat (b - (p + 1)))" by (simp add: offset_Suc)
    have "b + 160 \<noteq> p" if "unat (b - (p + 1)) < n"
    proof
      assume "b + 160 = p"
      moreover have "unat (b + of_nat 160 - p) = unat (b - p) + 160"
        by (rule offset_add) (use o that Suc.prems in simp)
      ultimately show False by simp
    qed
    then show ?thesis using False by (simp add: region_def o)
  qed
  ultimately show ?case by (simp add: add.assoc)
qed

text \<open>The last row is blanked up to and including the character behind the end.\<close>

lemma scroll_blank_eq:
  "\<lbrakk>j < k; unat p + 2 * j + 2 < 2 ^ 64\<rbrakk> \<Longrightarrow> scroll_blank k (p + of_nat (2 * j)) m p =
    (\<lambda>b. if \<exists>i \<le> j. b = p + of_nat (2 * i) then 32 else m b)"
proof (induction k arbitrary: j m p)
  case (Suc k)
  have "unat (p + of_nat (2 * j)) = unat p + 2 * j" by (rule unat_add_no_wrap) (use Suc.prems in simp)
  then have le: "\<not> p + of_nat (2 * j) < p" by (simp add: word_less_nat_alt)
  show ?case
  proof (cases j)
    case 0
    have "p < p + 2" using unat_add_no_wrap [of p 2] Suc.prems 0 by (simp add: word_less_nat_alt)
    then have "scroll_blank k p m' (p + 2) = m'" for m' by (cases k) simp_all
    then show ?thesis using 0 by (auto simp: fun_eq_iff)
  next
    case (Suc j')
    have u: "unat (p + 2) = unat p + 2" using unat_add_no_wrap [of p 2] Suc.prems Suc by simp
    have "scroll_blank k (p + 2 + of_nat (2 * j')) (m(p := 32)) (p + 2) =
        (\<lambda>b. if \<exists>i \<le> j'. b = p + 2 + of_nat (2 * i) then 32 else (m(p := 32)) b)"
      by (rule Suc.IH) (use Suc.prems Suc u in simp_all)
    moreover have "(\<exists>i \<le> Suc j'. b = p + of_nat (2 * i)) \<longleftrightarrow> b = p \<or> (\<exists>i \<le> j'. b = p + 2 + of_nat (2 * i))" for b
    proof -
      have "(\<exists>i \<le> Suc j'. b = p + of_nat (2 * i)) \<longleftrightarrow> (b = p + of_nat (2 * 0)) \<or> (\<exists>i \<le> j'. b = p + of_nat (2 * Suc i))"
        by (metis le0 not0_implies_Suc Suc_le_mono)
      then show ?thesis by (simp add: add.assoc [symmetric])
    qed
    ultimately show ?thesis using le Suc by (auto simp: fun_eq_iff algebra_simps)
  qed
qed simp

section \<open>Refinement\<close>

text \<open>The memory shows a terminal: its characters, its cursor, and whether a scroll is due.\<close>

definition shows_terminal :: "u64 \<Rightarrow> u64 \<Rightarrow> 'a console_scheme \<Rightarrow> terminal \<Rightarrow> bool" where
  "shows_terminal st video s t \<longleftrightarrow> (case t of (g, n) \<Rightarrow> n \<le> 2000 \<and> video = st + of_nat (2 * n) \<and>
     videoCardStart s = st \<and> videoCardEnd s = st + 4000 \<and>
     (\<forall>i < 2000. vmem s (st + of_nat (2 * i)) = g i) \<and>
     scrollForNextCall s = (if n = 2000 then 1 else 0))"

text \<open>The position at which the call began, which scrolling moves with the text.\<close>

definition began :: "int \<Rightarrow> u64 \<Rightarrow> 'a console_scheme \<Rightarrow> nat \<Rightarrow> bool" where
  "began l st s n \<longleftrightarrow> (\<exists>k. videoCardPosition s = st + word_of_int (2 * k) \<and> k \<le> int n \<and> int n - k \<le> l)"

definition screen_only :: "u64 \<Rightarrow> 'a console_scheme \<Rightarrow> 'a console_scheme \<Rightarrow> bool" where
  "screen_only st s s' \<longleftrightarrow> (\<forall>b. b \<notin> region st 4001 \<longrightarrow> vmem s' b = vmem s b)"

lemma screen_only_trans: "\<lbrakk>screen_only st s s'; screen_only st s' s''\<rbrakk> \<Longrightarrow> screen_only st s s''"
  by (simp add: screen_only_def)

lemma at_screen: "\<lbrakk>unat st + 4096 < 2 ^ 64; i \<le> 4001\<rbrakk> \<Longrightarrow> unat (st + of_nat i) = unat st + i" for st :: u64
  by (rule unat_add_no_wrap) linarith

lemma screen_eq_iff:
  "\<lbrakk>unat st + 4096 < 2 ^ 64; i \<le> 4001; j \<le> 4001\<rbrakk> \<Longrightarrow> st + of_nat i = st + of_nat j \<longleftrightarrow> i = j" for st :: u64
  by (metis add_left_cancel at_screen)

lemma scroll_vmem:
  assumes st: "videoCardStart s = st" "videoCardEnd s = st + 4000" "unat st + 4096 < 2 ^ 64"
  shows "vmem (scroll s) = (\<lambda>b. if \<exists>i \<le> 80. b = st + 3840 + of_nat (2 * i) then 32
      else if b \<in> region st 3840 then vmem s (b + 160) else vmem s b)"
    and "scroll s = s\<lparr>vmem := vmem (scroll s)\<rparr>"
proof -
  have u: "unat (st + 3840) = unat st + 3840" using at_screen [OF st(3), of 3840] by simp
  have "scroll_rows (24 * 160) (vmem s) st =
      (\<lambda>b. if b \<in> region st 3840 then vmem s (b + 160) else vmem s b, st + 3840)"
    using scroll_rows_eq [of "24 * 160" "vmem s" st] by (simp del: scroll_rows.simps)
  moreover have end': "st + 3840 + of_nat (2 * 80) = st + 4000" by simp
  have "scroll_blank 160 (st + 3840 + of_nat (2 * 80)) m (st + 3840) =
      (\<lambda>b. if \<exists>i \<le> 80. b = st + 3840 + of_nat (2 * i) then 32 else m b)" for m
    by (rule scroll_blank_eq) (use st(3) u in simp_all)
  then have "scroll_blank 160 (st + 4000) m (st + 3840) =
      (\<lambda>b. if \<exists>i \<le> 80. b = st + 3840 + of_nat (2 * i) then 32 else m b)" for m
    unfolding end' .
  ultimately show "vmem (scroll s) = (\<lambda>b. if \<exists>i \<le> 80. b = st + 3840 + of_nat (2 * i) then 32
      else if b \<in> region st 3840 then vmem s (b + 160) else vmem s b)"
    by (simp add: scroll_def st(1,2) del: scroll_blank.simps scroll_rows.simps)
  show "scroll s = s\<lparr>vmem := vmem (scroll s)\<rparr>"
    by (simp add: scroll_def split: prod.split)
qed

lemma scroll_shows:
  assumes sh: "shows_terminal st video s (g, 2000)" and st: "unat st + 4096 < 2 ^ 64"
    and s': "pending_scroll video s = (video', s')"
  shows "shows_terminal st video' s' (scroll_term g, 1920)" "screen_only st s s'"
    "began l st s 2000 \<Longrightarrow> began l st s' 1920"
proof -
  have c: "videoCardStart s = st" "videoCardEnd s = st + 4000" "video = st + 4000" "scrollForNextCall s = 1"
    "\<And>i. i < 2000 \<Longrightarrow> vmem s (st + of_nat (2 * i)) = g i"
    using sh by (simp_all add: shows_terminal_def)
  note v = scroll_vmem [OF c(1,2) st]
  have "s' = (scroll s)\<lparr>videoCardPosition := videoCardPosition s - 160, scrollForNextCall := 0\<rparr>" "video' = st + 3840"
    using s' by (auto simp: pending_scroll_def c)
  moreover have "(scroll s)\<lparr>videoCardPosition := videoCardPosition s - 160, scrollForNextCall := 0\<rparr> =
      s\<lparr>vmem := vmem (scroll s), videoCardPosition := videoCardPosition s - 160, scrollForNextCall := 0\<rparr>"
    by (subst v(2)) simp
  ultimately have s'': "video' = st + 3840"
      "s' = s\<lparr>vmem := vmem (scroll s), videoCardPosition := videoCardPosition s - 160, scrollForNextCall := 0\<rparr>"
    by simp_all
  have "vmem (scroll s) (st + of_nat (2 * i)) = scroll_term g i" if i: "i < 2000" for i
  proof (cases "i < 1920")
    case True
    have "st + of_nat (2 * i) \<noteq> st + of_nat (3840 + 2 * j)" if "j \<le> 80" for j
      by (subst screen_eq_iff [OF st]) (use True that in simp_all)
    then have "\<not> (\<exists>j \<le> 80. st + of_nat (2 * i) = st + 3840 + of_nat (2 * j))" by (simp add: add.assoc)
    moreover have "st + of_nat (2 * i) \<in> region st 3840" using True region_offset [of "2 * i" st 3840] by simp
    moreover have "st + of_nat (2 * i) + 160 = st + of_nat (2 * (i + 80))" by simp
    ultimately have "vmem (scroll s) (st + of_nat (2 * i)) = vmem s (st + of_nat (2 * (i + 80)))"
      unfolding v(1) by (simp only: if_False if_True)
    then show ?thesis using c(5) [of "i + 80"] True by (simp add: scroll_term_def)
  next
    case False
    have "st + of_nat (2 * i) = st + 3840 + of_nat (2 * (i - 1920))" using False by (simp add: of_nat_diff)
    then have "\<exists>j \<le> 80. st + of_nat (2 * i) = st + 3840 + of_nat (2 * j)" using i by (intro exI [of _ "i - 1920"]) simp
    then have "vmem (scroll s) (st + of_nat (2 * i)) = 32" unfolding v(1) by (simp only: if_True)
    then show ?thesis using False by (simp add: scroll_term_def)
  qed
  then show "shows_terminal st video' s' (scroll_term g, 1920)"
    by (simp add: shows_terminal_def s'' c(1,2))
  have "b \<in> region st 4001" if "b = st + 3840 + of_nat (2 * i)" "i \<le> 80" for b i
  proof -
    have "b - st = of_nat (3840 + 2 * i)" using that(1) by simp
    then show ?thesis using that(2) by (simp only: region_def mem_Collect_eq unat_of_nat) simp
  qed
  moreover have "region st 3840 \<subseteq> region st 4001" by (auto simp: region_def)
  ultimately show "screen_only st s s'"
    by (auto simp: screen_only_def s'' v(1))
  assume "began l st s 2000"
  then obtain k where "videoCardPosition s = st + word_of_int (2 * k)" "k \<le> 2000" "2000 - k \<le> l"
    by (auto simp: began_def)
  then show "began l st s' 1920"
    unfolding began_def by (intro exI [of _ "k - 80"]) (simp add: s'' algebra_simps)
qed

lemma sint_small: "\<bar>a\<bar> < 2 ^ 62 \<Longrightarrow> sint (word_of_int a :: u64) = a"
  by (simp add: signed_of_int signed_take_bit_int_eq_self)

lemma ptr_mod_eq:
  "\<lbrakk>p = q + word_of_int a; \<bar>a\<bar> < 2 ^ 62\<rbrakk> \<Longrightarrow> ptr_mod p q = word_of_int (sgn a * (\<bar>a\<bar> mod 160))"
  using sint_small [of a] by (simp add: ptr_mod_def)

lemma row_end: "2 * n + 160 - 2 * n mod 160 = 2 * ((n div 80 + 1) * 80)" for n :: nat
proof -
  define q r where "q = n div 80" and "r = n mod 80"
  have "2 * n mod 160 = 2 * r" using mult_mod_right [of 2 n 80] by (simp add: r_def)
  moreover have "n = q * 80 + r" by (simp add: q_def r_def)
  ultimately show ?thesis unfolding q_def [symmetric] by simp
qed

lemma newline_ok:
  assumes sh: "shows_terminal st video s (g, n)" and b: "began l st s n" and l: "l < 2 ^ 60"
  shows "newline video s = st + of_nat (2 * ((n div 80 + 1) * 80))"
proof -
  have c: "video = st + of_nat (2 * n)" "videoCardStart s = st" "n \<le> 2000"
    using sh by (simp_all add: shows_terminal_def)
  obtain k where k: "videoCardPosition s = st + word_of_int (2 * k)" "k \<le> int n" "int n - k \<le> l"
    using b by (auto simp: began_def)
  have small: "\<bar>2 * k\<bar> < 2 ^ 62" using k(2,3) l c(3) by (simp add: abs_less_iff)
  have row: "ptr_mod video st = of_nat (2 * n mod 160)"
  proof -
    have "ptr_mod video st = word_of_int (sgn (int (2 * n)) * (\<bar>int (2 * n)\<bar> mod 160))"
      by (rule ptr_mod_eq) (use c in simp_all)
    also have "sgn (int (2 * n)) * (\<bar>int (2 * n)\<bar> mod 160) = int (2 * n mod 160)"
      by (cases n) (simp_all add: zmod_int)
    finally show ?thesis by (simp only: of_int_of_nat_eq)
  qed
  have aligned: "ptr_mod video (videoCardPosition s) = of_nat (2 * n mod 160)"
    if zero: "ptr_mod (videoCardPosition s) st = 0"
  proof -
    have "ptr_mod (videoCardPosition s) st = word_of_int (sgn (2 * k) * (\<bar>2 * k\<bar> mod 160))"
      by (rule ptr_mod_eq [OF k(1) small])
    moreover have r: "\<bar>sgn (2 * k) * (\<bar>2 * k\<bar> mod 160)\<bar> < 160"
      by (simp add: abs_mult abs_sgn_eq)
    ultimately have "sgn (2 * k) * (\<bar>2 * k\<bar> mod 160) = 0"
      using zero sint_small [of "sgn (2 * k) * (\<bar>2 * k\<bar> mod 160)"] by simp
    then have "\<bar>2 * k\<bar> mod 160 = 0" by (auto simp: sgn_0_0)
    then have "160 dvd 2 * k" by (simp only: mod_eq_0_iff_dvd dvd_abs_iff)
    then obtain j where j: "2 * k = 160 * j" by (rule dvdE)
    have "ptr_mod video (videoCardPosition s) =
        word_of_int (sgn (2 * int n - 2 * k) * (\<bar>2 * int n - 2 * k\<bar> mod 160))"
      by (rule ptr_mod_eq) (use c(1) k l in \<open>simp_all add: abs_less_iff\<close>)
    also have "sgn (2 * int n - 2 * k) * (\<bar>2 * int n - 2 * k\<bar> mod 160) = (2 * int n - 2 * k) mod 160"
      using k(2) by (cases "int n = k") simp_all
    also have "\<dots> = int (2 * n mod 160)"
      unfolding j by (simp add: zmod_int mod_diff_eq [symmetric])
    finally show ?thesis by (simp only: of_int_of_nat_eq)
  qed
  have le: "2 * n mod 160 \<le> 160" by simp
  have "newline video s = video + (160 - of_nat (2 * n mod 160))"
    using row aligned by (simp add: newline_def c(2))
  also have "\<dots> = st + of_nat (2 * n + 160 - 2 * n mod 160)"
    using le by (simp add: c(1) of_nat_diff)
  finally show ?thesis by (simp only: row_end)
qed

lemma put_shows:
  fixes c :: u8
  assumes sh: "shows_terminal st video s (g, n)" and n: "n < 2000" and st: "unat st + 4096 < 2 ^ 64"
  defines "s' \<equiv> s\<lparr>vmem := put_cell video (ucast c) 0 (vmem s)\<rparr>"
  shows "shows_terminal st (video + 2) (check_end (video + 2) s') (g(n := c), n + 1)"
    "screen_only st s (check_end (video + 2) s')"
    "began l st s n \<Longrightarrow> began (l + 80) st (check_end (video + 2) s') (n + 1)"
proof -
  have c: "video = st + of_nat (2 * n)" "videoCardStart s = st" "videoCardEnd s = st + 4000"
    "scrollForNextCall s = 0" "\<And>i. i < 2000 \<Longrightarrow> vmem s (st + of_nat (2 * i)) = g i"
    using sh n by (simp_all add: shows_terminal_def)
  have cu: "(ucast (ucast c :: cint) :: u8) = c" by (rule bit_word_eqI) (simp add: bit_simps)
  have upd: "vmem s' = (vmem s)(st + of_nat (2 * n) := c, st + of_nat (2 * n + 1) := 0)"
    by (simp add: s'_def put_cell_def c(1) cu add.commute add.left_commute)
  have "vmem s' (st + of_nat (2 * i)) = (g(n := c)) i" if i: "i < 2000" for i
  proof -
    have "st + of_nat (2 * i) \<noteq> st + of_nat (2 * n + 1)"
      by (subst screen_eq_iff [OF st]) (use i n in \<open>simp_all, presburger\<close>)
    moreover have "st + of_nat (2 * i) = st + of_nat (2 * n) \<longleftrightarrow> i = n"
      by (subst screen_eq_iff [OF st]) (use i n in simp_all)
    ultimately show ?thesis using c(5) [OF i] by (simp add: upd)
  qed
  moreover have "st + 4000 \<le> video + 2 \<longleftrightarrow> n + 1 = 2000"
  proof -
    have "video + 2 = st + of_nat (2 * n + 2)" by (simp add: c(1))
    moreover have "unat (st + of_nat (2 * n + 2)) = unat st + (2 * n + 2)"
      "unat (st + of_nat 4000) = unat st + 4000" by (rule at_screen [OF st]; use n in simp)+
    ultimately have "unat (video + 2) = unat st + (2 * n + 2)" by (simp only:)
    moreover have "unat (st + 4000) = unat st + 4000" using at_screen [OF st, of 4000] by simp
    ultimately show ?thesis using n by (simp only: word_le_nat_alt) linarith
  qed
  moreover have "check_end (video + 2) s' = s'\<lparr>scrollForNextCall := if st + 4000 \<le> video + 2 then 1 else 0\<rparr>"
    by (simp add: check_end_def s'_def c(3,4))
  ultimately show "shows_terminal st (video + 2) (check_end (video + 2) s') (g(n := c), n + 1)"
    using n by (simp add: shows_terminal_def c(1) s'_def c(2,3))
  have "st + of_nat (2 * n) \<in> region st 4001" "st + of_nat (2 * n + 1) \<in> region st 4001"
    using region_offset [of "2 * n" st 4001] region_offset [of "2 * n + 1" st 4001] n by simp_all
  then show "screen_only st s (check_end (video + 2) s')"
    by (auto simp: screen_only_def check_end_def upd simp del: of_nat_add of_nat_Suc of_nat_mult)
  show "began (l + 80) st (check_end (video + 2) s') (n + 1)" if "began l st s n"
    using that by (force simp: began_def check_end_def s'_def)
qed

lemma newline_shows:
  assumes sh: "shows_terminal st video s (g, n)" and n: "n < 2000" and st: "unat st + 4096 < 2 ^ 64"
    and b: "began l st s n" and l: "l < 2 ^ 60"
  defines "video' \<equiv> newline video s" and "n' \<equiv> (n div 80 + 1) * 80"
  shows "shows_terminal st video' (check_end video' s) (g, n')" "screen_only st s (check_end video' s)"
    "began (l + 80) st (check_end video' s) n'"
proof -
  have v: "video' = st + of_nat (2 * n')" unfolding video'_def n'_def by (rule newline_ok [OF sh b l])
  have "n div 80 < 25" using n by (simp add: div_less_iff_less_mult)
  then have le: "n' \<le> 2000" by (simp add: n'_def)
  have "unat video' = unat st + 2 * n'" "unat (st + of_nat 4000) = unat st + 4000"
    unfolding v by (rule at_screen [OF st]; use le in simp)+
  then have "st + 4000 \<le> video' \<longleftrightarrow> n' = 2000" using le by (auto simp: word_le_nat_alt)
  then show "shows_terminal st video' (check_end video' s) (g, n')"
    using sh n le v by (simp add: shows_terminal_def check_end_def)
  show "screen_only st s (check_end video' s)" by (simp add: screen_only_def check_end_def)
  define q r where "q = n div 80" and "r = n mod 80"
  have "n = q * 80 + r" "r < 80" "n' = q * 80 + 80" by (simp_all add: q_def r_def n'_def)
  then have "n < n'" "n' \<le> n + 80" by linarith+
  then show "began (l + 80) st (check_end video' s) n'"
    using b by (force simp: began_def check_end_def)
qed

lemma pending_shows:
  assumes sh: "shows_terminal st video s t" and st: "unat st + 4096 < 2 ^ 64"
    and p: "pending_scroll video s = (v0, s0)"
  obtains g n where "shows_terminal st v0 s0 (g, n)" "screen_only st s s0" "n < 2000"
    "\<And>l. began l st s (snd t) \<Longrightarrow> began l st s0 n"
    "\<And>c. term_put c t = (if c = 10 then (g, (n div 80 + 1) * 80) else (g(n := c), n + 1))"
proof (cases "snd t = 2000")
  case True
  then obtain g where t: "t = (g, 2000)" by (cases t) simp
  show thesis
    by (rule that [of "scroll_term g" 1920])
      (use scroll_shows [OF sh [unfolded t] st p] in \<open>simp_all add: t Let_def\<close>)
next
  case False
  obtain g n where t: "t = (g, n)" by (cases t)
  have "scrollForNextCall s = 0" "n < 2000" using sh False by (simp_all add: shows_terminal_def t)
  moreover have "v0 = video" "s0 = s" using p calculation(1) by (simp_all add: pending_scroll_def)
  ultimately show thesis
    by (intro that [of g n]) (use sh in \<open>simp_all add: t Let_def screen_only_def\<close>)
qed

lemma kprintf_char:
  assumes sh: "shows_terminal st video s t" and st: "unat st + 4096 < 2 ^ 64" and c: "c \<noteq> of_char CHR ''%''"
    and b: "began l st s (snd t)" and l: "l < 2 ^ 60"
  obtains video' s' where "kprintf_loop (c # fmt) args video s = kprintf_loop fmt args video' s'"
    "shows_terminal st video' s' (term_put c t)" "screen_only st s s'" "began (l + 80) st s' (snd (term_put c t))"
proof -
  obtain v0 s0 where p: "pending_scroll video s = (v0, s0)" by (cases "pending_scroll video s")
  from pending_shows [OF sh st p] obtain g n where s0: "shows_terminal st v0 s0 (g, n)" "screen_only st s s0" "n < 2000"
    "began l st s0 n" "term_put c t = (if c = 10 then (g, (n div 80 + 1) * 80) else (g(n := c), n + 1))"
    using b by metis
  show thesis
  proof (cases "c = 10")
    case True
    note found = newline_shows [OF s0(1,3) st s0(4) l]
    show thesis
    proof (rule that)
      show "kprintf_loop (c # fmt) args video s =
          kprintf_loop fmt args (newline v0 s0) (check_end (newline v0 s0) s0)"
        using c True by (simp add: p Let_def)
    qed (use found True s0(5) screen_only_trans [OF s0(2)] in auto)
  next
    case False
    note found = put_shows [OF s0(1,3) st, where c = c]
    show thesis
    proof (rule that)
      show "kprintf_loop (c # fmt) args video s =
          kprintf_loop fmt args (v0 + 2) (check_end (v0 + 2) (s0\<lparr>vmem := put_cell v0 (ucast c) 0 (vmem s0)\<rparr>))"
        using c False by (simp add: p)
    qed (use found s0(4,5) False screen_only_trans [OF s0(2)] in auto)
  qed
qed

lemma kprintf_text_append:
  "\<lbrakk>shows_terminal st video s t; unat st + 4096 < 2 ^ 64; of_char CHR ''%'' \<notin> set fmt; began l st s (snd t);
    0 \<le> l; l + 80 * int (length fmt) < 2 ^ 60\<rbrakk> \<Longrightarrow>
    \<exists>video' s'. kprintf_loop (fmt @ rest) args video s = kprintf_loop rest args video' s' \<and>
      shows_terminal st video' s' (fold term_put fmt t) \<and> screen_only st s s' \<and>
      began (l + 80 * int (length fmt)) st s' (snd (fold term_put fmt t))"
proof (induction fmt arbitrary: video s t l)
  case Nil
  then show ?case by (auto simp: screen_only_def)
next
  case (Cons c fmt)
  have "c \<noteq> of_char CHR ''%''" "l < 2 ^ 60" using Cons.prems by auto
  from kprintf_char [OF Cons.prems(1,2) this(1) Cons.prems(4) this(2)]
  obtain video' s' where s': "kprintf_loop (c # fmt @ rest) args video s = kprintf_loop (fmt @ rest) args video' s'"
    "shows_terminal st video' s' (term_put c t)" "screen_only st s s'" "began (l + 80) st s' (snd (term_put c t))"
    by blast
  have "\<exists>video'' s''. kprintf_loop (fmt @ rest) args video' s' = kprintf_loop rest args video'' s'' \<and>
      shows_terminal st video'' s'' (fold term_put fmt (term_put c t)) \<and> screen_only st s' s'' \<and>
      began (l + 80 + 80 * int (length fmt)) st s'' (snd (fold term_put fmt (term_put c t)))"
    by (rule Cons.IH [OF s'(2) Cons.prems(2) _ s'(4)]) (use Cons.prems in simp_all)
  then show ?case using s'(1,3) screen_only_trans by (fastforce simp: algebra_simps)
qed

lemma began_0: "shows_terminal st (videoCardPosition s) s t \<Longrightarrow> began 0 st s (snd t)"
  unfolding began_def by (rule exI [of _ "int (snd t)"]) (auto simp: shows_terminal_def split: prod.splits)

text \<open>Leaving kprintf at the position the text ends at.\<close>

lemma kprintf_leave:
  assumes sh: "shows_terminal st video s t" and st: "unat st + 4096 < 2 ^ 64"
  defines "s' \<equiv> check_end video (s\<lparr>videoCardPosition := video\<rparr>)"
  shows "shows_terminal st (videoCardPosition s') s' t" "screen_only st s s'"
proof -
  obtain g n where t: "t = (g, n)" by (cases t)
  have c: "n \<le> 2000" "video = st + of_nat (2 * n)" "videoCardEnd s = st + 4000"
    using sh by (simp_all add: shows_terminal_def t)
  have "unat video = unat st + 2 * n" "unat (st + of_nat 4000) = unat st + 4000"
    unfolding c(2) by (rule at_screen [OF st]; use c(1) in simp)+
  then have "st + 4000 \<le> video \<longleftrightarrow> n = 2000" using c(1) by (auto simp: word_le_nat_alt)
  then show "shows_terminal st (videoCardPosition s') s' t" "screen_only st s s'"
    using sh by (simp_all add: s'_def shows_terminal_def t check_end_def screen_only_def)
qed

lemma u8_of_char_eq_iff: "(of_char a :: u8) = of_char b \<longleftrightarrow> a = b"
proof
  assume "(of_char a :: u8) = of_char b"
  then have "unat (of_nat (of_char a) :: u8) = unat (of_nat (of_char b) :: u8)" by (simp only: of_nat_of_char)
  then have "(of_char a :: nat) mod 256 = of_char b mod 256" by (simp only: unat_of_nat) simp
  then show "a = b" by simp
qed simp

section \<open>What kprintf changes\<close>

definition only_console :: "'a console_scheme \<Rightarrow> 'a console_scheme \<Rightarrow> bool" where
  "only_console s s' \<longleftrightarrow> (\<exists>m v f. s' = s\<lparr>vmem := m, videoCardPosition := v, scrollForNextCall := f\<rparr>)"

lemma only_consoleI: "s' = s\<lparr>vmem := m, videoCardPosition := v, scrollForNextCall := f\<rparr> \<Longrightarrow> only_console s s'"
  by (auto simp: only_console_def)

lemma only_console_refl [simp]: "only_console s s"
  by (rule only_consoleI [where m = "vmem s" and v = "videoCardPosition s" and f = "scrollForNextCall s"]) simp

lemma only_console_trans: "\<lbrakk>only_console s s'; only_console s' s''\<rbrakk> \<Longrightarrow> only_console s s''"
  by (fastforce simp: only_console_def)

lemma only_console_step:
  "only_console s (s\<lparr>vmem := m\<rparr>)" "only_console s (s\<lparr>videoCardPosition := v\<rparr>)" "only_console s (check_end w s)"
  "only_console s (snd (pending_scroll w s))"
  by (rule only_consoleI [where v = "videoCardPosition s" and f = "scrollForNextCall s"], simp)
    (rule only_consoleI [where m = "vmem s" and f = "scrollForNextCall s"], simp,
     rule only_consoleI [where m = "vmem s" and v = "videoCardPosition s"
        and f = "if videoCardEnd s \<le> w then 1 else scrollForNextCall s"], simp add: check_end_def,
     rule only_consoleI [where m = "if scrollForNextCall s \<noteq> 0 then vmem (scroll s) else vmem s"
        and v = "if scrollForNextCall s \<noteq> 0 then videoCardPosition s - 160 else videoCardPosition s" and f = 0],
     simp add: pending_scroll_def scroll_def split: prod.splits)

lemma kprintf_loop_only: "kprintf_loop fmt args video s = Some (video', s') \<Longrightarrow> only_console s s'"
proof (induction fmt args video s rule: kprintf_loop.induct)
  case (2 c fmt args video s)
  obtain v0 s0 where p: "pending_scroll video s = (v0, s0)" by (cases "pending_scroll video s")
  have s0: "only_console s s0" using only_console_step(4) [of s video] by (simp add: p)
  have upd: "only_console s (check_end v (s0\<lparr>vmem := m\<rparr>))" "only_console s (check_end v s0)" for v m
    using s0 only_console_step(1,3) only_console_trans by metis+
  show ?case
  proof (cases "c = of_char CHR ''%''")
    case True
    obtain d fmt' m video1 args1 where e: "fmt = d # fmt'" "conversion d (vmem s0) v0 args = Some (m, video1, args1)"
      "kprintf_loop fmt' args1 video1 (check_end video1 (s0\<lparr>vmem := m\<rparr>)) = Some (video', s')"
      using "2.prems" True by (auto simp: p split: list.splits bind_splits prod.splits)
    have "only_console (check_end video1 (s0\<lparr>vmem := m\<rparr>)) s'"
      by (rule "2.IH"(1) [OF p [symmetric] True e(1,2) refl refl e(3)])
    then show ?thesis by (rule only_console_trans [OF upd(1)])
  next
    case False
    show ?thesis
    proof (cases "c = 10")
      case True
      have "only_console (check_end (newline v0 s0) s0) s'"
        by (rule "2.IH"(2) [OF p [symmetric] False True refl]) (use "2.prems" False True p in \<open>simp add: Let_def\<close>)
      then show ?thesis by (rule only_console_trans [OF upd(2)])
    next
      case other: False
      have "only_console (check_end (v0 + 2) (s0\<lparr>vmem := put_cell v0 (ucast c) 0 (vmem s0)\<rparr>)) s'"
        by (rule "2.IH"(3) [OF p [symmetric] False other]) (use "2.prems" False other p in simp)
      then show ?thesis by (rule only_console_trans [OF upd(1)])
    qed
  qed
qed simp

lemma kprintf_only:
  assumes "kprintf fmt args s = Some s'"
  shows "only_console s s'"
proof -
  obtain video s1 where s1: "kprintf_loop (map of_char fmt) args (videoCardPosition s) s = Some (video, s1)"
    "s' = check_end video (s1\<lparr>videoCardPosition := video\<rparr>)"
    using assms by (auto simp: kprintf_def split: bind_splits)
  show ?thesis
    unfolding s1(2)
    by (rule only_console_trans [OF kprintf_loop_only [OF s1(1)] only_console_trans [OF only_console_step(2,3)]])
qed

lemma kprintf_refines:
  assumes "shows_terminal st (videoCardPosition s) s t" "unat st + 4096 < 2 ^ 64"
    and "CHR ''%'' \<notin> set fmt" "length fmt < 2 ^ 50"
  shows "\<exists>s'. kprintf fmt args s = Some s' \<and>
    shows_terminal st (videoCardPosition s') s' (fold term_put (map of_char fmt) t) \<and>
    (\<forall>b. b \<notin> region st 4001 \<longrightarrow> vmem s' b = vmem s b)"
proof -
  have "of_char CHR ''%'' \<notin> set (map (of_char :: char \<Rightarrow> u8) fmt)"
    using assms(3) by (auto simp: u8_of_char_eq_iff [of _ "CHR ''%''", simplified])
  then obtain video s' where s': "kprintf_loop (map of_char fmt) args (videoCardPosition s) s = Some (video, s')"
    "shows_terminal st video s' (fold term_put (map of_char fmt) t)" "screen_only st s s'"
    using kprintf_text_append [OF assms(1,2) _ began_0 [OF assms(1)], of "map of_char fmt" "[]" args] assms(4) by auto
  note left = kprintf_leave [OF s'(2) assms(2)]
  have "kprintf fmt args s = Some (check_end video (s'\<lparr>videoCardPosition := video\<rparr>))"
    by (simp add: kprintf_def s'(1))
  then show ?thesis using left screen_only_trans [OF s'(3) left(2)] by (auto simp: screen_only_def)
qed

section \<open>Properties\<close>

text \<open>
  C21. kprintf of a text without conversions refines the terminal: from a memory that shows a
  terminal it returns, its memory shows the terminal after the characters of the text, with
  newlines and scrolling, and it writes nothing but the screen and the one byte behind it.
\<close>

theorem kprintf_refines_terminal:
  assumes "shows_terminal st (videoCardPosition s) s t" "unat st + 4096 < 2 ^ 64"
    and "CHR ''%'' \<notin> set fmt" "length fmt < 2 ^ 50"
  shows "\<exists>s'. kprintf fmt args s = Some s' \<and>
    shows_terminal st (videoCardPosition s') s' (fold term_put (map of_char fmt) t) \<and>
    (\<forall>b. b \<notin> region st 4001 \<longrightarrow> vmem s' b = vmem s b)"
  by (rule kprintf_refines [OF assms])

text \<open>One character argument.\<close>

lemma kprintf_c:
  fixes c :: u8
  assumes sh: "shows_terminal st (videoCardPosition s) s t" and st: "unat st + 4096 < 2 ^ 64" and c: "c \<noteq> 10"
  obtains s' where "kprintf ''%c'' [ucast c] s = Some s'" "shows_terminal st (videoCardPosition s') s' (term_put c t)"
    "screen_only st s s'"
proof -
  obtain v0 s0 where p: "pending_scroll (videoCardPosition s) s = (v0, s0)" by (cases "pending_scroll (videoCardPosition s) s")
  from pending_shows [OF sh st p] obtain g n where s0: "shows_terminal st v0 s0 (g, n)" "screen_only st s s0" "n < 2000"
    "term_put c t = (g(n := c), n + 1)"
    using c by metis
  let ?s1 = "check_end (v0 + 2) (s0\<lparr>vmem := put_cell v0 (ucast c) 0 (vmem s0)\<rparr>)"
  let ?s2 = "check_end (v0 + 2) (?s1\<lparr>videoCardPosition := v0 + 2\<rparr>)"
  note found = put_shows [OF s0(1,3) st, where c = c]
  note left = kprintf_leave [OF found(1) st]
  have "(ucast (ucast c :: u64) :: cint) = ucast c" by (rule bit_word_eqI) (simp add: bit_simps)
  then have run: "kprintf ''%c'' [ucast c] s = Some ?s2"
    by (simp add: kprintf_def p conversion.simps)
  have "screen_only st s ?s2"
    by (rule screen_only_trans [OF s0(2) screen_only_trans [OF found(2) left(2)]])
  then show thesis by (rule that [OF run, rotated]) (simp only: s0(4) left(1))
qed

section \<open>Strings\<close>

lemma put_cells_at:
  "\<lbrakk>i < length cs; 2 * length cs < 2 ^ 64\<rbrakk> \<Longrightarrow>
    put_cells video colour cs m (video + of_nat (2 * i)) = ucast (cs ! i)"
proof (induction cs rule: rev_induct)
  case (snoc c cs)
  have ne: "video + of_nat (2 * i) \<noteq> video + of_nat (2 * length cs + 1)"
    using snoc.prems by (simp only: add_left_cancel) (subst of_nat_u64_eq_iff; simp; presburger)
  have eq: "video + of_nat (2 * i) = video + of_nat (2 * length cs) \<longleftrightarrow> i = length cs"
    using snoc.prems by (simp only: add_left_cancel) (subst of_nat_u64_eq_iff; simp)
  show ?case
  proof (cases "i = length cs")
    case True
    then show ?thesis by (simp add: put_cells_snoc put_cell_def)
  next
    case False
    then have "put_cells video colour cs m (video + of_nat (2 * i)) = ucast (cs ! i)"
      using snoc by simp
    then show ?thesis
      using False eq ne snoc.prems(1) by (simp add: put_cells_snoc put_cell_def nth_append add.commute add.left_commute)
  qed
qed simp

lemma put_cells_frame:
  "\<lbrakk>b \<notin> region video (2 * length cs); 2 * length cs < 2 ^ 64\<rbrakk> \<Longrightarrow> put_cells video colour cs m b = m b"
proof (induction cs rule: rev_induct)
  case (snoc c cs)
  have "b \<noteq> video + of_nat (2 * length cs)" "b \<noteq> video + of_nat (2 * length cs + 1)"
    using snoc.prems region_offset [of "2 * length cs" video "2 * length (cs @ [c])"]
      region_offset [of "2 * length cs + 1" video "2 * length (cs @ [c])"] by auto
  moreover have "b \<notin> region video (2 * length cs)" using snoc.prems(1) by (simp add: region_def)
  ultimately show ?case using snoc by (simp add: put_cells_snoc put_cell_def add.commute add.left_commute)
qed simp

lemma print_string_prefix:
  "\<lbrakk>cstr m p (xs @ ys); region p (Suc (length (xs @ ys))) \<inter> region video (2 * length (xs @ ys)) = {};
    length (xs @ ys) < 2 ^ 60\<rbrakk> \<Longrightarrow>
    print_string (put_cells video 0 (map ucast xs) m) (video + of_nat (2 * length xs)) (p + of_nat (length xs)) =
      Some (put_cells video 0 (map ucast (xs @ ys)) m, video + of_nat (2 * length (xs @ ys)))"
proof (induction ys arbitrary: xs)
  case (Cons y ys)
  let ?m = "put_cells video 0 (map ucast xs) m"
  have inside: "p + of_nat (length xs) \<in> region p (Suc (length (xs @ y # ys)))"
    by (subst region_offset) (use Cons.prems(3) in simp_all)
  have "region video (2 * length xs) \<subseteq> region video (2 * length (xs @ y # ys))" by (auto simp: region_def)
  with inside Cons.prems(2) have "p + of_nat (length xs) \<notin> region video (2 * length xs)" by blast
  then have "?m (p + of_nat (length xs)) = m (p + of_nat (length xs))"
    by (intro put_cells_frame) (use Cons.prems(3) in simp_all)
  then have y: "?m (p + of_nat (length xs)) = y" "y \<noteq> 0"
    using cstr_nth [OF Cons.prems(1), of "length xs"] by simp_all
  have "print_string (put_cell (video + of_nat (2 * length xs)) (ucast y) 0 ?m)
      (video + of_nat (2 * length xs) + 2) (p + of_nat (length xs) + 1) =
      print_string (put_cells video 0 (map ucast (xs @ [y])) m)
        (video + of_nat (2 * length (xs @ [y]))) (p + of_nat (length (xs @ [y])))"
    by (simp add: put_cells_snoc algebra_simps)
  also have "\<dots> = Some (put_cells video 0 (map ucast ((xs @ [y]) @ ys)) m, video + of_nat (2 * length ((xs @ [y]) @ ys)))"
    by (rule Cons.IH) (use Cons.prems in simp_all)
  finally show ?case using y by (subst print_string.simps) simp
next
  case Nil
  have "p + of_nat (length xs) \<in> region p (Suc (length (xs @ [])))"
    by (subst region_offset) (use Nil.prems(3) in simp_all)
  with Nil.prems(2) have "p + of_nat (length xs) \<notin> region video (2 * length xs)" by auto
  then have "put_cells video 0 (map ucast xs) m (p + of_nat (length xs)) = m (p + of_nat (length xs))"
    by (intro put_cells_frame) (use Nil.prems(3) in simp_all)
  then have "put_cells video 0 (map ucast xs) m (p + of_nat (length xs)) = 0"
    using cstr_end [of m p xs] Nil.prems(1) by simp
  then show ?case by (subst print_string.simps) simp
qed

lemma kprintf_string_at:
  assumes sh: "shows_terminal st (videoCardPosition s) s (g, n)" "n < 2000"
    and str: "cstr (vmem s) p str" "unat st + 4000 + 2 * length str < 2 ^ 64" "length str < 2 ^ 60"
    and dis: "region p (Suc (length str)) \<inter> region (videoCardPosition s) (2 * length str) = {}"
  shows "\<exists>s'. kprintf ''%s'' [p] s = Some s' \<and> videoCardPosition s' = st + of_nat (2 * (n + length str)) \<and>
    (\<forall>i < length str. vmem s' (st + of_nat (2 * (n + i))) = str ! i) \<and>
    (scrollForNextCall s' = 1 \<longleftrightarrow> 2000 \<le> n + length str) \<and>
    (2000 < n + length str \<longrightarrow> st + of_nat (2 * (n + (length str - 1))) \<notin> region st 4000)"
proof -
  have c: "videoCardPosition s = st + of_nat (2 * n)" "videoCardEnd s = st + 4000" "scrollForNextCall s = 0"
    using sh by (simp_all add: shows_terminal_def)
  let ?v = "videoCardPosition s + of_nat (2 * length str)"
  let ?m = "put_cells (videoCardPosition s) 0 (map ucast str) (vmem s)"
  let ?s = "check_end ?v (check_end ?v (s\<lparr>vmem := ?m\<rparr>)\<lparr>videoCardPosition := ?v\<rparr>)"
  have "print_string (vmem s) (videoCardPosition s) p = Some (?m, ?v)"
    using print_string_prefix [of "vmem s" p "[]" str "videoCardPosition s"] str dis by simp
  then have run: "kprintf ''%s'' [p] s = Some ?s"
    by (simp add: kprintf_def pending_scroll_def c(3) conversion.simps)
  have v: "?v = st + of_nat (2 * (n + length str))" by (simp add: c(1))
  have "unat ?v = unat st + 2 * (n + length str)" "unat (st + of_nat 4000) = unat st + 4000"
    unfolding v by (rule unat_add_no_wrap; use str(2) sh(2) in simp)+
  then have le: "st + 4000 \<le> ?v \<longleftrightarrow> 2000 \<le> n + length str"
    using sh(2) by (simp only: word_le_nat_alt) (simp, linarith)
  have chars: "vmem ?s (st + of_nat (2 * (n + i))) = str ! i" if i: "i < length str" for i
  proof -
    have "?m (videoCardPosition s + of_nat (2 * i)) = ucast (map ucast str ! i :: cint)"
      by (rule put_cells_at) (use i str(2) in simp_all)
    moreover have "(ucast (ucast (str ! i) :: cint) :: u8) = str ! i" by (rule bit_word_eqI) (simp add: bit_simps)
    ultimately have "?m (st + of_nat (2 * (n + i))) = str ! i" using i by (simp add: c(1) algebra_simps)
    then show ?thesis by (simp add: check_end_def)
  qed
  have "st + of_nat (2 * (n + (length str - 1))) \<notin> region st 4000" if "2000 < n + length str"
    by (subst region_offset) (use that str(2) sh(2) in simp_all)
  then show ?thesis
    using run v le chars by (intro exI [of _ ?s]) (simp add: check_end_def c(2,3))
qed

text \<open>
  C34. A string argument is copied to the screen without any look at its end: all its
  characters are stored behind the cursor, so a string that does not fit on the rest of the
  screen is stored beyond the video memory, and the next call scrolls by one row only.
\<close>

theorem kprintf_string_unbounded:
  assumes sh: "shows_terminal st (videoCardPosition s) s (g, n)" "n < 2000"
    and str: "cstr (vmem s) p str" "unat st + 4000 + 2 * length str < 2 ^ 64" "length str < 2 ^ 60"
    and dis: "region p (Suc (length str)) \<inter> region (videoCardPosition s) (2 * length str) = {}"
  shows "\<exists>s'. kprintf ''%s'' [p] s = Some s' \<and> videoCardPosition s' = st + of_nat (2 * (n + length str)) \<and>
    (\<forall>i < length str. vmem s' (st + of_nat (2 * (n + i))) = str ! i) \<and>
    (scrollForNextCall s' = 1 \<longleftrightarrow> 2000 \<le> n + length str) \<and>
    (2000 < n + length str \<longrightarrow> st + of_nat (2 * (n + (length str - 1))) \<notin> region st 4000)"
  by (rule kprintf_string_at [OF assms])

text \<open>A string of at most 256 characters between texts disturbs nothing far from the screen.\<close>

lemma pending_scroll_frame:
  assumes "videoCardStart s = st" "videoCardEnd s = st + 4000" "unat st + 4096 < 2 ^ 64" "b \<notin> region st 4001"
  shows "vmem (snd (pending_scroll v s)) b = vmem s b"
proof -
  have "b \<noteq> st + 3840 + of_nat (2 * i)" if "i \<le> 80" for i
    using assms(4) region_offset [of "3840 + 2 * i" st 4001] that by (auto simp: add.assoc)
  moreover have "b \<notin> region st 3840" using assms(4) by (simp add: region_def)
  ultimately show ?thesis by (auto simp: pending_scroll_def scroll_vmem(1) [OF assms(1-3)])
qed

lemma kprintf_string_frame:
  assumes sh: "shows_terminal st (videoCardPosition s) s t" and st: "unat st + 4096 < 2 ^ 64"
    and pre: "CHR ''%'' \<notin> set pre" "length pre < 2 ^ 50"
    and str: "cstr (vmem s) p str" "length str \<le> 256" "region p (Suc (length str)) \<inter> region st 4600 = {}"
  shows "\<exists>s'. kprintf (pre @ ''%s'' @ [CHR 0x0A]) [p] s = Some s' \<and>
    (\<forall>b. b \<notin> region st 4600 \<longrightarrow> vmem s' b = vmem s b)"
proof -
  have "of_char CHR ''%'' \<notin> set (map (of_char :: char \<Rightarrow> u8) pre)"
    using pre(1) by (auto simp: u8_of_char_eq_iff [of _ "CHR ''%''", simplified])
  then obtain v1 s1 where s1: "kprintf_loop (map of_char pre @ [37, 115, 10]) [p] (videoCardPosition s) s =
      kprintf_loop [37, 115, 10] [p] v1 s1" "shows_terminal st v1 s1 (fold term_put (map of_char pre) t)" "screen_only st s s1"
    using kprintf_text_append [OF sh st _ began_0 [OF sh], of "map of_char pre" "[37, 115, 10]" "[p]"] pre(2) by auto
  obtain v0 s0 where p0: "pending_scroll v1 s1 = (v0, s0)" by (cases "pending_scroll v1 s1")
  from pending_shows [OF s1(2) st p0] obtain g n where
    s0: "shows_terminal st v0 s0 (g, n)" "screen_only st s1 s0" "n < 2000" by metis
  have v0: "v0 = st + of_nat (2 * n)" and ends: "videoCardStart s0 = st" "videoCardEnd s0 = st + 4000"
    using s0(1) by (simp_all add: shows_terminal_def)
  have small: "region st 4001 \<subseteq> region st 4600" by (rule region_mono) simp
  have cells: "region v0 (2 * length str) \<subseteq> region st 4600"
    unfolding v0 by (rule region_shift) (use s0(3) str(2) in simp_all)
  have "vmem s0 b = vmem s b" if "b \<notin> region st 4600" for b
    using s0(2) s1(3) small that by (auto simp: screen_only_def)
  note same = this
  have "cstr (vmem s0) p str"
    by (rule cstr_region_cong [OF str(1)]) (use str(2,3) same in auto)
  then have print: "print_string (vmem s0) v0 p = Some (put_cells v0 0 (map ucast str) (vmem s0), v0 + of_nat (2 * length str))"
    using print_string_prefix [of "vmem s0" p "[]" str v0] str(2,3) cells by auto
  define v2 where "v2 = v0 + of_nat (2 * length str)"
  define s2 where "s2 = check_end v2 (s0\<lparr>vmem := put_cells v0 0 (map ucast str) (vmem s0)\<rparr>)"
  have s2: "videoCardStart s2 = st" "videoCardEnd s2 = st + 4000" "vmem s2 = put_cells v0 0 (map ucast str) (vmem s0)"
    using ends by (simp_all add: s2_def check_end_def)
  obtain v3 s3 where p3: "pending_scroll v2 s2 = (v3, s3)" by (cases "pending_scroll v2 s2")
  let ?v = "newline v3 s3"
  let ?s = "check_end ?v ((check_end ?v s3)\<lparr>videoCardPosition := ?v\<rparr>)"
  have "kprintf (pre @ ''%s'' @ [CHR 0x0A]) [p] s = Some ?s"
    using p0 p3 [unfolded s2_def v2_def, simplified] print s1(1) by (simp add: kprintf_def conversion.simps Let_def)
  moreover have "vmem ?s b = vmem s b" if b: "b \<notin> region st 4600" for b
  proof -
    have "vmem s3 b = vmem s2 b"
      using pending_scroll_frame [OF s2(1,2) st, of b v2] b small p3 by auto
    moreover have "vmem s2 b = vmem s0 b"
      unfolding s2(3) by (rule put_cells_frame) (use b cells str(2) in auto)
    ultimately show ?thesis using same [OF b] by (simp add: check_end_def)
  qed
  ultimately show ?thesis by blast
qed

section \<open>The initial screen\<close>

lemma initScreen_loop_eq:
  "2 * n < 2 ^ 64 \<Longrightarrow> initScreen_loop n m p = (\<lambda>b. if \<exists>i < n. b = p + of_nat (2 * i) then 32 else m b)"
proof (induction n arbitrary: m p)
  case (Suc n)
  have "(\<exists>i < Suc n. b = p + of_nat (2 * i)) \<longleftrightarrow> b = p \<or> (\<exists>i < n. b = p + 2 + of_nat (2 * i))" for b
  proof -
    have "(\<exists>i < Suc n. b = p + of_nat (2 * i)) \<longleftrightarrow> b = p + of_nat (2 * 0) \<or> (\<exists>i < n. b = p + of_nat (2 * Suc i))"
      by (metis less_Suc_eq_0_disj)
    then show ?thesis by (simp add: add.assoc)
  qed
  then show ?case using Suc by (auto simp: fun_eq_iff)
qed simp

text \<open>
  initScreen blanks the screen: afterwards the memory shows the empty terminal. It
  also stores 2000 more blanks behind the 4000 bytes of the screen, for it counts the
  cells as if they were bytes.
\<close>

lemma initScreen_blanks:
  assumes "videoCardPosition s = videoCardStart s" "videoCardEnd s = videoCardStart s + 4000"
    and "scrollForNextCall s = 0"
  shows "shows_terminal (videoCardStart s) (videoCardPosition s) (initScreen s) (\<lambda>_. 32, 0) \<and>
    (\<forall>i. 2000 \<le> i \<and> i < 4000 \<longrightarrow> vmem (initScreen s) (videoCardStart s + of_nat (2 * i)) = 32 \<and>
      videoCardStart s + of_nat (2 * i) \<notin> region (videoCardStart s) 4000)"
proof -
  have cell: "vmem (initScreen s) (videoCardStart s + of_nat (2 * i)) = 32" if "i < 4000" for i
    using that by (auto simp: initScreen_def initScreen_loop_eq simp del: initScreen_loop.simps of_nat_mult)
  have out: "videoCardStart s + of_nat (2 * i) \<notin> region (videoCardStart s) 4000" if "2000 \<le> i" "i < 4000" for i
    by (subst region_offset) (use that in simp_all)
  have "shows_terminal (videoCardStart s) (videoCardPosition s) (initScreen s) (\<lambda>_. 32, 0)"
    using cell assms by (simp add: shows_terminal_def initScreen_def del: initScreen_loop.simps of_nat_mult)
  then show ?thesis using cell out by blast
qed

section \<open>A concrete screen\<close>

definition blank_console :: console where
  "blank_console = segments.extend boot_segments
     (console.fields (\<lambda>b. if b < 0x1000 then 65 else if b < 0x1008 then 0 else 32) 0xB8FA0 0xB8000 0xB8000 0)"

lemma blank_console_simps [simp]:
  "vmem blank_console = (\<lambda>b. if b < 0x1000 then 65 else if b < 0x1008 then 0 else 32)"
  "videoCardEnd blank_console = 0xB8FA0" "videoCardStart blank_console = 0xB8000"
  "videoCardPosition blank_console = 0xB8000" "scrollForNextCall blank_console = 0"
  by (simp_all add: blank_console_def segments.defs console.defs)

lemma blank_console_shows: "shows_terminal 0xB8000 (videoCardPosition blank_console) blank_console (\<lambda>_. 32, 0)"
proof -
  have "vmem blank_console (0xB8000 + of_nat (2 * i)) = 32" if "i < 2000" for i
  proof -
    have "unat (0xB8000 + of_nat (2 * i) :: u64) = 0xB8000 + 2 * i"
      using at_screen [of "0xB8000" "2 * i"] that by simp
    then show ?thesis by (simp add: word_less_nat_alt del: of_nat_mult)
  qed
  then show ?thesis by (simp add: shows_terminal_def)
qed

lemma initScreen_blanks_witness:
  "shows_terminal 0xB8000 0xB8000 (initScreen blank_console) (\<lambda>_. 32, 0) \<and>
    vmem (initScreen blank_console) 0xB8FA0 = 32"
proof -
  have "videoCardPosition blank_console = videoCardStart blank_console"
    "videoCardEnd blank_console = videoCardStart blank_console + 4000" "scrollForNextCall blank_console = 0" by simp_all
  from initScreen_blanks [OF this] have "shows_terminal 0xB8000 0xB8000 (initScreen blank_console) (\<lambda>_. 32, 0)"
    "\<forall>i. 2000 \<le> i \<and> i < 4000 \<longrightarrow> vmem (initScreen blank_console) (0xB8000 + of_nat (2 * i)) = 32"
    unfolding blank_console_simps by blast+
  with spec [OF this(2), of 2000] show ?thesis by simp
qed

lemma kprintf_refines_terminal_witness:
  "\<exists>s'. kprintf ''hi'' [] blank_console = Some s' \<and> vmem s' 0xB8000 = 104 \<and> vmem s' 0xB8002 = 105 \<and>
    videoCardPosition s' = 0xB8004"
proof -
  have "unat (0xB8000 :: u64) + 4096 < 2 ^ 64" "CHR ''%'' \<notin> set ''hi''" "length ''hi'' < 2 ^ 50" by simp_all
  from kprintf_refines_terminal [OF blank_console_shows this, of "[]"]
  obtain s' where s': "kprintf ''hi'' [] blank_console = Some s'"
    "shows_terminal 0xB8000 (videoCardPosition s') s' (fold term_put (map of_char ''hi'') (\<lambda>_. 32, 0))" by blast
  have t: "fold term_put (map of_char ''hi'') (\<lambda>_. 32, 0) = ((\<lambda>_. 32)(0 := 104, 1 := 105), 2)" by simp
  have "vmem s' (0xB8000 + of_nat (2 * i)) = ((\<lambda>_. 32)(0 := 104, 1 := 105)) i" if "i < 2000" for i
    using s'(2) that unfolding t by (simp add: shows_terminal_def)
  from this [of 0] this [of 1] have "vmem s' 0xB8000 = 104" "vmem s' 0xB8002 = 105" by simp_all
  moreover have "videoCardPosition s' = 0xB8004" using s'(2) unfolding t by (simp add: shows_terminal_def)
  ultimately show ?thesis using s'(1) by blast
qed

lemma kprintf_string_unbounded_witness:
  "\<exists>s'. kprintf ''%s'' [0xfff] blank_console = Some s' \<and> videoCardPosition s' = 0xB8002 \<and> vmem s' 0xB8000 = 65"
proof -
  have str: "cstr (vmem blank_console) 0xfff [65]" by simp
  have pos: "videoCardPosition blank_console = 0xB8000" by simp
  have "region 0xfff (Suc (length [65 :: u8])) \<inter> region (videoCardPosition blank_console) (2 * length [65 :: u8]) = {}"
    unfolding pos by (rule region_disjointI) simp_all
  from kprintf_string_unbounded [OF blank_console_shows _ str _ _ this]
  show ?thesis by auto
qed

end
