(* ===== verification/Lines.thy ===== *)
theory Lines
  imports Screen
begin

text \<open>
  Lines of text with one conversion: when the line fits into the row of the cursor, kprintf
  refines the terminal for them too. A zero is printed with the width 0, but the end of the
  line hides that.
\<close>

section \<open>Rows\<close>

lemma term_put_fits:
  "\<lbrakk>n + length cs \<le> 2000; 10 \<notin> set cs\<rbrakk> \<Longrightarrow>
    fold term_put cs (g, n) = (\<lambda>i. if n \<le> i \<and> i < n + length cs then cs ! (i - n) else g i, n + length cs)"
proof (induction cs arbitrary: g n)
  case (Cons c cs)
  have "fold term_put (c # cs) (g, n) = fold term_put cs (g(n := c), n + 1)"
    using Cons.prems by (simp add: Let_def)
  also have "\<dots> = (\<lambda>i. if n + 1 \<le> i \<and> i < n + 1 + length cs then cs ! (i - (n + 1)) else (g(n := c)) i, n + 1 + length cs)"
    by (rule Cons.IH) (use Cons.prems in simp_all)
  also have "\<dots> = (\<lambda>i. if n \<le> i \<and> i < n + length (c # cs) then (c # cs) ! (i - n) else g i, n + length (c # cs))"
    by (auto simp: fun_eq_iff nth_Cons')
  finally show ?case .
qed (auto simp: fun_eq_iff)

lemma term_put_column:
  "\<lbrakk>c \<noteq> 10; snd t \<le> 2000; snd t mod 80 + 1 < 80\<rbrakk> \<Longrightarrow> snd (term_put c t) mod 80 = snd t mod 80 + 1"
  by (cases t) (auto simp: Let_def mod_Suc)

lemma fold_term_put_column:
  "\<lbrakk>10 \<notin> set cs; snd t \<le> 2000; snd t mod 80 + length cs < 80\<rbrakk> \<Longrightarrow>
    snd (fold term_put cs t) mod 80 = snd t mod 80 + length cs"
proof (induction cs arbitrary: t)
  case (Cons c cs)
  have "snd (term_put c t) mod 80 = snd t mod 80 + 1" by (rule term_put_column) (use Cons.prems in auto)
  moreover have "snd (term_put c t) \<le> 2000" by (rule term_put_le [OF Cons.prems(2)])
  ultimately show ?case using Cons.IH [of "term_put c t"] Cons.prems by simp
qed simp

lemma term_newline_column: "snd (term_put 10 t) mod 80 = 0"
  by (cases t) (simp add: Let_def)

lemma row_room:
  fixes n :: nat
  assumes "n < 2000" "n mod 80 + k < 80"
  shows "n + k < 2000" "(n + k) div 80 = n div 80"
proof -
  define q r where "q = n div 80" and "r = n mod 80"
  have n: "n = q * 80 + r" by (simp add: q_def r_def)
  have r: "r + k < 80" using assms(2) by (simp add: r_def)
  have "q < 25" using assms(1) by (simp add: q_def div_less_iff_less_mult)
  then show "n + k < 2000" using r unfolding n by linarith
  have "(q * 80 + (r + k)) div 80 = q" using r by simp
  then show "(n + k) div 80 = n div 80" unfolding q_def [symmetric] unfolding n by (simp only: add.assoc)
qed

section \<open>Conversions\<close>

text \<open>
  A conversion prints the characters \<open>cs\<close> and advances by \<open>w\<close> of them, wherever on the screen
  and whatever was written there before.
\<close>

definition prints :: "u64 \<Rightarrow> mem \<Rightarrow> u8 \<Rightarrow> u64 \<Rightarrow> cint list \<Rightarrow> nat \<Rightarrow> bool" where
  "prints st m d a cs w \<longleftrightarrow> w \<le> length cs \<and> (\<forall>video m' args. region video (2 * length cs) \<subseteq> region st 4001 \<and>
     (\<forall>b. b \<notin> region st 4001 \<longrightarrow> m' b = m b) \<longrightarrow>
     conversion d m' video (a # args) = Some (put_cells video 0 cs m', video + of_nat (2 * w), args))"

lemma prints_cong:
  assumes "prints st m d a cs w" "\<And>b. b \<notin> region st 4001 \<Longrightarrow> m' b = m b"
  shows "prints st m' d a cs w"
  using assms by (simp add: prints_def)

lemma prints_decimal:
  assumes "k < 2 ^ 31"
  shows "prints st m (of_char CHR ''d'') (of_nat k) (decimal (int k)) (if k = 0 then 0 else length (decimal (int k)))"
proof (cases "k = 0")
  case True
  then show ?thesis by (simp add: prints_def conversion.simps printInt.simps decimal_def)
next
  case False
  have k: "0 < k" "decimal (int k) = decimal_digits k" using False by (simp_all add: decimal_def)
  have "length (decimal_digits k) \<le> 31"
    unfolding decimal_digits_def length_map by (rule length_digits_int) (use assms in simp_all)
  then have "scast (2 * of_nat (length (decimal_digits k)) :: cint) = (of_nat (2 * length (decimal_digits k)) :: u64)"
    by (intro scast_double) simp
  moreover have "(ucast (of_nat k :: u64) :: cint) = of_nat k" by (rule bit_word_eqI) (simp add: bit_simps)
  ultimately show ?thesis
    using False k printInt_eq [OF k(1) assms] by (simp add: prints_def conversion.simps)
qed

definition pointer_text :: "u64 \<Rightarrow> cint list" where
  "pointer_text a = [48, 120] @ digit_text (digits 16 (unat a))"

lemma length_pointer_text: "length (pointer_text a) \<le> 18"
proof -
  have "length (digits 16 (unat a)) \<le> 16" by (rule length_digits) (use unat_u64_less [of a] in simp_all)
  then show ?thesis by (simp add: pointer_text_def digit_text_def)
qed

lemma prints_pointer: "prints st m (of_char CHR ''p'') a (pointer_text a) (length (pointer_text a))"
proof -
  have "length (digits 16 (unat a)) \<le> 16" by (rule length_digits) (use unat_u64_less [of a] in simp_all)
  then have "scast (2 * of_nat (length (digits 16 (unat a))) :: cint) = (of_nat (2 * length (digits 16 (unat a))) :: u64)"
    by (intro scast_double) simp
  then show ?thesis
    by (simp add: prints_def conversion.simps printPointer_eq Let_def pointer_text_def digit_text_def add.assoc)
qed

lemma prints_string:
  assumes "cstr m a str" "length str < 2 ^ 32" "region a (Suc (length str)) \<inter> region st 4001 = {}"
  shows "prints st m (of_char CHR ''s'') a (map ucast str) (length str)"
  unfolding prints_def
proof (intro conjI allI impI)
  fix video m' and args :: "u64 list"
  assume v: "region video (2 * length (map ucast str :: cint list)) \<subseteq> region st 4001 \<and> (\<forall>b. b \<notin> region st 4001 \<longrightarrow> m' b = m b)"
  have "cstr m' a str" by (rule cstr_region_cong [OF assms(1)]) (use assms(2,3) v in auto)
  then have "print_string m' video a = Some (put_cells video 0 (map ucast str) m', video + of_nat (2 * length str))"
    using print_string_prefix [of m' a "[]" str video] assms(2,3) v by auto
  then show "conversion (of_char CHR ''s'') m' video (a # args) =
      Some (put_cells video 0 (map ucast str) m', video + of_nat (2 * length str), args)"
    by (simp add: conversion.simps)
qed simp

section \<open>The screen\<close>

lemma u8_cint_u8: "(ucast (ucast (c :: u8) :: cint) :: u8) = c"
  by (rule bit_word_eqI) (simp add: bit_simps)

text \<open>The cells of a conversion that ends within the row, with the cursor \<open>w\<close> characters on.\<close>

lemma cells_shown:
  fixes cs :: "cint list"
  assumes sh: "shows_terminal st video s (g, n)" and st: "unat st + 4096 < 2 ^ 64" and n: "n + length cs < 2000"
    and w: "w \<le> length cs" and c: "10 \<notin> set (map ucast cs :: u8 list)"
  defines "s' \<equiv> s\<lparr>vmem := put_cells video 0 cs (vmem s)\<rparr>"
  shows "shows_terminal st (video + of_nat (2 * w)) s' (fst (fold term_put (map ucast cs) (g, n)), n + w)"
    "screen_only st s s'" "check_end (video + of_nat (2 * w)) s' = s'" "region video (2 * length cs) \<subseteq> region st 4001"
    "began l st s n \<Longrightarrow> l + 80 < 2 ^ 60 \<Longrightarrow> w \<le> 80 \<Longrightarrow> began (l + 80) st s' (n + w)"
proof -
  have v: "video = st + of_nat (2 * n)" "videoCardStart s = st" "videoCardEnd s = st + 4000" "scrollForNextCall s = 0"
    "\<And>i. i < 2000 \<Longrightarrow> vmem s (st + of_nat (2 * i)) = g i"
    using sh n by (simp_all add: shows_terminal_def)
  show sub: "region video (2 * length cs) \<subseteq> region st 4001"
    unfolding v(1) by (rule region_shift) (use n in simp_all)
  have t: "fold term_put (map ucast cs) (g, n) =
      (\<lambda>i. if n \<le> i \<and> i < n + length cs then map ucast cs ! (i - n) else g i, n + length cs)"
    using term_put_fits [of n "map ucast cs" g] n c by simp
  have cell: "vmem s' (st + of_nat (2 * i)) = fst (fold term_put (map ucast cs) (g, n)) i" if i: "i < 2000" for i
  proof (cases "n \<le> i \<and> i < n + length cs")
    case True
    have at: "video + of_nat (2 * (i - n)) = st + of_nat (2 * i)" using True by (simp add: v(1) of_nat_diff)
    have "put_cells video 0 cs (vmem s) (video + of_nat (2 * (i - n))) = ucast (cs ! (i - n))"
      by (rule put_cells_at) (use True n in auto)
    then have "vmem s' (st + of_nat (2 * i)) = ucast (cs ! (i - n))" unfolding at s'_def by simp
    moreover have "i - n < length cs" using True by linarith
    ultimately show ?thesis using True by (simp add: t)
  next
    case False
    have "st + of_nat (2 * i) \<notin> region video (2 * length cs)"
    proof
      assume "st + of_nat (2 * i) \<in> region video (2 * length cs)"
      then obtain x where x: "x < 2 * length cs" "st + of_nat (2 * i) = video + of_nat x" by (rule regionE)
      then have "st + of_nat (2 * i) = st + of_nat (2 * n + x)" by (simp add: v(1))
      then have "2 * i = 2 * n + x" by (subst (asm) screen_eq_iff [OF st]) (use i x(1) n in simp_all)
      then show False using False x(1) by linarith
    qed
    then have "vmem s' (st + of_nat (2 * i)) = vmem s (st + of_nat (2 * i))"
      unfolding s'_def using put_cells_frame [of "st + of_nat (2 * i)" video cs 0 "vmem s"] n by simp
    moreover have "fst (fold term_put (map ucast cs) (g, n)) i = g i" unfolding t using False by auto
    ultimately show ?thesis using v(5) [OF i] by simp
  qed
  have v': "video + of_nat (2 * w) = st + of_nat (2 * (n + w))" by (simp add: v(1))
  show "shows_terminal st (video + of_nat (2 * w)) s' (fst (fold term_put (map ucast cs) (g, n)), n + w)"
    unfolding shows_terminal_def using cell v(2-4) v' n w by (simp add: s'_def del: of_nat_mult of_nat_add)
  show "screen_only st s s'"
    unfolding screen_only_def s'_def using sub n by (auto intro!: put_cells_frame)
  have "unat (st + of_nat (2 * (n + w))) = unat st + 2 * (n + w)" "unat (st + of_nat 4000) = unat st + 4000"
    by (rule at_screen [OF st]; use n w in simp)+
  then have "\<not> st + 4000 \<le> video + of_nat (2 * w)" unfolding v' using n w by (simp add: word_le_nat_alt)
  then show "check_end (video + of_nat (2 * w)) s' = s'" using v(3) by (simp add: check_end_def s'_def)
  show "began (l + 80) st s' (n + w)" if "began l st s n" "w \<le> 80"
    using that by (force simp: began_def s'_def)
qed

lemma pending_row:
  assumes sh: "shows_terminal st video s t" and st: "unat st + 4096 < 2 ^ 64"
    and p: "pending_scroll video s = (v0, s0)" and b: "began l st s (snd t)"
  obtains g n where "shows_terminal st v0 s0 (g, n)" "screen_only st s s0" "n < 2000" "began l st s0 n"
    "\<And>c. term_put c t = term_put c (g, n)" "n mod 80 = snd t mod 80"
proof -
  obtain g n where s0: "shows_terminal st v0 s0 (g, n)" "screen_only st s s0" "n < 2000" "began l st s0 n"
    "\<And>c. term_put c t = (if c = 10 then (g, (n div 80 + 1) * 80) else (g(n := c), n + 1))"
    using pending_shows [OF sh st p] b by metis
  have put: "term_put c t = term_put c (g, n)" for c using s0(3,5) by (simp add: Let_def)
  have "snd (term_put 0 t) = n + 1" unfolding s0(5) by simp
  then have "n = (if snd t = 2000 then 1920 else snd t)" by (cases t) (auto simp: Let_def split: if_splits)
  then have "n mod 80 = snd t mod 80" by simp
  then show thesis using that s0(1-4) put by blast
qed

text \<open>A line with one conversion, whose text ends within the row of the cursor.\<close>

lemma kprintf_line:
  assumes sh: "shows_terminal st (videoCardPosition s) s t" and st: "unat st + 4096 < 2 ^ 64"
    and pre: "CHR ''%'' \<notin> set pre" "CHR 0x0A \<notin> set pre"
    and p: "prints st (vmem s) (of_char d) a cs w" and c: "10 \<notin> set (map ucast cs :: u8 list)"
    and room: "snd t mod 80 + length pre + length cs < 80"
  shows "\<exists>s'. kprintf (pre @ CHR ''%'' # d # [CHR 0x0A]) [a] s = Some s' \<and>
    shows_terminal st (videoCardPosition s') s' (fold term_put (map of_char pre @ map ucast cs @ [10]) t) \<and>
    screen_only st s s'"
proof -
  let ?t = "fold term_put (map of_char pre) t"
  have plain: "of_char CHR ''%'' \<notin> set (map (of_char :: char \<Rightarrow> u8) pre)" "10 \<notin> set (map (of_char :: char \<Rightarrow> u8) pre)"
    using pre by (auto simp: u8_of_char_eq_iff [of _ "CHR ''%''", simplified] u8_of_char_eq_iff [of _ "CHR 0x0A", simplified])
  have le: "snd t \<le> 2000" using sh by (simp add: shows_terminal_def split: prod.splits)
  have col: "snd ?t mod 80 = snd t mod 80 + length pre"
    using fold_term_put_column [OF plain(2) le] room by simp
  have short: "length pre < 80" "length cs < 80" using room by simp_all
  obtain v1 s1 where s1: "kprintf_loop (map of_char pre @ [37, of_char d, 10]) [a] (videoCardPosition s) s =
      kprintf_loop [37, of_char d, 10] [a] v1 s1" "shows_terminal st v1 s1 ?t" "screen_only st s s1"
    "began (80 * int (length pre)) st s1 (snd ?t)"
    using kprintf_text_append [OF sh st plain(1) began_0 [OF sh], of "[37, of_char d, 10]" "[a]"] short by auto
  obtain v0 s0 where p0: "pending_scroll v1 s1 = (v0, s0)" by (cases "pending_scroll v1 s1")
  from pending_row [OF s1(2) st p0 s1(4)] obtain g n where
    s0: "shows_terminal st v0 s0 (g, n)" "screen_only st s1 s0" "n < 2000" "began (80 * int (length pre)) st s0 n"
    "\<And>c. term_put c ?t = term_put c (g, n)" and n: "n mod 80 = snd ?t mod 80" by blast
  have room': "n mod 80 + length cs < 80" using room col n by simp
  note fit = row_room [OF s0(3) room']
  have w: "w \<le> length cs" using p by (simp add: prints_def)
  note shown = cells_shown [OF s0(1) st fit(1) w c]
  let ?s2 = "s0\<lparr>vmem := put_cells v0 0 cs (vmem s0)\<rparr>" and ?v2 = "v0 + of_nat (2 * w)"
    and ?g = "fst (fold term_put (map ucast cs) (g, n))"
  have "prints st (vmem s0) (of_char d) a cs w"
    by (rule prints_cong [OF p]) (use s0(2) s1(3) in \<open>simp add: screen_only_def\<close>)
  then have conv: "conversion (of_char d) (vmem s0) v0 [a] = Some (put_cells v0 0 cs (vmem s0), ?v2, [])"
    using shown(4) by (simp add: prints_def)
  have b: "began (80 * int (length pre) + 80) st ?s2 (n + w)"
    by (rule shown(5) [OF s0(4)]) (use short w in simp_all)
  have nw: "n + w < 2000" using fit(1) w by simp
  have "(n + w) div 80 = n div 80" by (rule row_room [OF s0(3)]) (use room' w in simp)
  then have row: "((n + w) div 80 + 1) * 80 = ((n + length cs) div 80 + 1) * 80" using fit(2) by simp
  have pend: "pending_scroll ?v2 ?s2 = (?v2, ?s2)"
    using shown(1) nw by (simp add: pending_scroll_def shows_terminal_def)
  note line = newline_shows [OF shown(1) nw st b]
  let ?v3 = "newline ?v2 ?s2"
  let ?s3 = "check_end ?v3 ?s2"
  let ?s' = "check_end ?v3 (?s3\<lparr>videoCardPosition := ?v3\<rparr>)"
  have loop: "kprintf_loop [37, of_char d, 10] [a] v1 s1 = Some (?v3, ?s3)"
    using p0 conv shown(3) pend by (simp add: Let_def)
  have "map of_char (pre @ CHR ''%'' # d # [CHR 0x0A]) = map of_char pre @ [37, of_char d, 10 :: u8]" by simp
  then have run: "kprintf (pre @ CHR ''%'' # d # [CHR 0x0A]) [a] s = Some ?s'"
    unfolding kprintf_def using s1(1) loop by simp
  have short80: "80 * int (length pre) + 80 < 2 ^ 60" using short by simp
  note leave = kprintf_leave [OF line(1) [OF short80] st]
  have final: "fold term_put (map of_char pre @ map ucast cs @ [10]) t = (?g, ((n + w) div 80 + 1) * 80)"
  proof -
    have "fold term_put (map ucast cs @ [10]) ?t = fold term_put (map ucast cs @ [10]) (g, n)"
      using s0(5) by (cases cs) simp_all
    moreover have cells: "fold term_put (map ucast cs) (g, n) = (?g, n + length cs)"
      using term_put_fits [of n "map ucast cs" g] fit(1) c by simp
    moreover have "term_put 10 (?g, n + length cs) = (?g, ((n + length cs) div 80 + 1) * 80)"
      using fit(1) by (simp add: Let_def)
    ultimately have "fold term_put (map ucast cs @ [10]) ?t = (?g, ((n + length cs) div 80 + 1) * 80)"
      by (simp only: fold_append comp_apply fold_simps)
    then show ?thesis unfolding row by (simp only: fold_append comp_apply)
  qed
  have "screen_only st s ?s'"
    using s1(3) s0(2) shown(2) line(2) [OF short80] leave(2) screen_only_trans by blast
  then show ?thesis using run leave(1) unfolding final by blast
qed

text \<open>A step that puts text on the terminal and changes nothing else but the screen.\<close>

definition says :: "u64 \<Rightarrow> 'a console_scheme \<Rightarrow> terminal \<Rightarrow> u8 list \<Rightarrow> 'a console_scheme \<Rightarrow> bool" where
  "says st s t txt s' \<longleftrightarrow> shows_terminal st (videoCardPosition s') s' (fold term_put txt t) \<and>
     screen_only st s s' \<and> ports s' = ports s"

lemma only_console_ports: "only_console s s' \<Longrightarrow> ports s' = ports s"
  by (auto simp: only_console_def)

lemma saysI:
  "\<lbrakk>kprintf fmt args s = Some s'; shows_terminal st (videoCardPosition s') s' (fold term_put txt t); screen_only st s s'\<rbrakk> \<Longrightarrow>
    says st s t txt s'"
  by (simp add: says_def only_console_ports [OF kprintf_only])

lemma says_shows: "says st s t txt s' \<Longrightarrow> shows_terminal st (videoCardPosition s') s' (fold term_put txt t)"
  by (simp add: says_def)

lemma says_trans: "\<lbrakk>says st s t xs s'; says st s' (fold term_put xs t) ys s''\<rbrakk> \<Longrightarrow> says st s t (xs @ ys) s''"
  by (auto simp: says_def screen_only_def)

lemma says_line:
  assumes "shows_terminal st (videoCardPosition s) s t" "unat st + 4096 < 2 ^ 64"
    and "CHR ''%'' \<notin> set pre" "CHR 0x0A \<notin> set pre" "prints st (vmem s) (of_char d) a cs w"
    and "10 \<notin> set (map ucast cs :: u8 list)" "snd t mod 80 + length pre + length cs < 80"
  shows "\<exists>s'. kprintf (pre @ CHR ''%'' # d # [CHR 0x0A]) [a] s = Some s' \<and>
    says st s t (map of_char pre @ map ucast cs @ [10]) s'"
  using kprintf_line [OF assms] saysI by blast

lemma says_plain:
  assumes "shows_terminal st (videoCardPosition s) s t" "unat st + 4096 < 2 ^ 64"
    and "CHR ''%'' \<notin> set fmt" "length fmt < 2 ^ 50"
  shows "\<exists>s'. kprintf fmt [] s = Some s' \<and> says st s t (map of_char fmt) s'"
  using kprintf_refines [OF assms, of "[]"] saysI unfolding screen_only_def by blast

lemma line_column: "snd (fold term_put (xs @ [10]) t) mod 80 = 0"
  by (simp add: term_newline_column del: term_put.simps)

end
