(* ===== verification/Keyboard.thy ===== *)
theory Keyboard
  imports Screen
begin

text \<open>
  The keyboard (sys/keyboard.c): scan codes to characters, the line buffer that the
  interrupt fills and echoes, and getstring, which waits for a line and hands it out.
\<close>

section \<open>Scan codes (include/sys/keyboard.h)\<close>

abbreviation (input) KB_1 :: u8 where "KB_1 \<equiv> 0x02"
abbreviation (input) KB_0 :: u8 where "KB_0 \<equiv> 0x0b"
abbreviation (input) KB_Q :: u8 where "KB_Q \<equiv> 0x10"
abbreviation (input) KB_BRACES_CLOSE :: u8 where "KB_BRACES_CLOSE \<equiv> 0x1b"
abbreviation (input) KB_ENTER :: u8 where "KB_ENTER \<equiv> 0x1c"
abbreviation (input) KB_A :: u8 where "KB_A \<equiv> 0x1e"
abbreviation (input) KB_INVERTED_COMMA :: u8 where "KB_INVERTED_COMMA \<equiv> 0x28"
abbreviation (input) KB_Z :: u8 where "KB_Z \<equiv> 0x2c"
abbreviation (input) KB_F_SLASH_QUESTION :: u8 where "KB_F_SLASH_QUESTION \<equiv> 0x35"
abbreviation (input) KB_SPACE :: u8 where "KB_SPACE \<equiv> 0x39"
abbreviation (input) KB_KEYPAD_7 :: u8 where "KB_KEYPAD_7 \<equiv> 0x47"
abbreviation (input) KB_KEYPAD_DOT :: u8 where "KB_KEYPAD_DOT \<equiv> 0x53"

definition key_at :: "string \<Rightarrow> u8 \<Rightarrow> u8" where
  "key_at keys i = of_char (keys ! unat i)"

definition hex_to_char :: "u8 \<Rightarrow> u8" where
  "hex_to_char key =
     (if KB_1 \<le> key \<and> key \<le> KB_0 then key_at ''1234567890'' (key - KB_1)
      else if KB_Q \<le> key \<and> key \<le> KB_BRACES_CLOSE then key_at ''qwertyuiop[]'' (key - KB_Q)
      else if KB_A \<le> key \<and> key \<le> KB_INVERTED_COMMA then key_at (''asdfghjkl;'' @ [CHR 0x27]) (key - KB_A)
      else if KB_Z \<le> key \<and> key \<le> KB_F_SLASH_QUESTION then key_at ''zxcvbnm,./'' (key - KB_Z)
      else if KB_KEYPAD_7 \<le> key \<and> key \<le> KB_KEYPAD_DOT then key_at ''789-456+1230.'' (key - KB_KEYPAD_7)
      else if key = KB_SPACE then of_char CHR '' ''
      else if key = KB_ENTER then KB_ENTER
      else 0)"

section \<open>State\<close>

record keyboard = console +
  keyboard_flag :: cint
  key_count :: cint
  kb_buffer :: "u8 list"

section \<open>Operations\<close>

text \<open>Copying the empty string into the buffer stores its terminator; \<open>None\<close> is a store outside of the buffer.\<close>

definition buffer_put :: "int \<Rightarrow> u8 \<Rightarrow> 'a keyboard_scheme \<Rightarrow> 'a keyboard_scheme option" where
  "buffer_put i c s =
     (if 0 \<le> i \<and> i < int (length (kb_buffer s)) then Some (s\<lparr>kb_buffer := (kb_buffer s)[nat i := c]\<rparr>) else None)"

definition init_keyboard :: "'a keyboard_scheme \<Rightarrow> 'a keyboard_scheme option" where
  "init_keyboard s = do {
     s \<leftarrow> buffer_put 0 0 (s\<lparr>keyboard_flag := 0\<rparr>);
     Some (s\<lparr>key_count := 0\<rparr>)
   }"

text \<open>\<open>key\<close> is what port 0x60 gives.\<close>

definition keyboard_interrupt :: "u8 \<Rightarrow> 'a keyboard_scheme \<Rightarrow> 'a keyboard_scheme option" where
  "keyboard_interrupt key s = do {
     let s = outb 0x20 0x20 s;
     let character = hex_to_char key;
     if character \<noteq> 0
     then if character = KB_ENTER
       then do {
         s \<leftarrow> buffer_put (sint (key_count s)) 0 s;
         let s = s\<lparr>key_count := key_count s + 1\<rparr>;
         let s = s\<lparr>keyboard_flag := 1\<rparr>;
         kprintf [CHR 0x0A] [] s
       }
       else if sint (key_count s) < 256
       then do {
         s \<leftarrow> buffer_put (sint (key_count s)) character s;
         let s = s\<lparr>key_count := key_count s + 1\<rparr>;
         kprintf ''%c'' [ucast character] s
       }
       else Some s
     else Some s
   }"

text \<open>The interrupts that arrive while getstring waits, oldest first.\<close>

fun wait_for_line :: "u8 list \<Rightarrow> 'a keyboard_scheme \<Rightarrow> (u8 list \<times> 'a keyboard_scheme) option" where
  "wait_for_line keys s =
     (if keyboard_flag s = 1 then Some (keys, s)
      else case keys of [] \<Rightarrow> None
        | key # keys \<Rightarrow> do { s \<leftarrow> keyboard_interrupt key s; wait_for_line keys s })"

text \<open>The bytes of the buffer up to its terminator; \<open>None\<close> when there is none in it.\<close>

primrec buffer_string :: "u8 list \<Rightarrow> u8 list option" where
  "buffer_string [] = None"
| "buffer_string (c # cs) = (if c = 0 then Some [] else map_option (Cons c) (buffer_string cs))"

text \<open>
  getstring with the keys that are pressed while it waits: it returns the keys that are
  left; \<open>None\<close> when they end before the line does. The line buffer is an object of its own,
  not part of the memory at \<open>p\<close>, so its strcpy(s, buffer) stores the bytes of the buffer up to
  the terminator at \<open>p\<close>. The pointer the C function returns is its argument \<open>p\<close>.
\<close>

definition getstring :: "u64 \<Rightarrow> u8 list \<Rightarrow> 'a keyboard_scheme \<Rightarrow> (u8 list \<times> 'a keyboard_scheme) option" where
  "getstring p keys s = do {
     s \<leftarrow> init_keyboard s;
     (keys, s) \<leftarrow> wait_for_line keys s;
     str \<leftarrow> buffer_string (kb_buffer s);
     let s = s\<lparr>vmem := put_bytes p (str @ [0]) (vmem s)\<rparr>;
     s \<leftarrow> kprintf (CHR 0x0A # ''typed string is: %s'' @ [CHR 0x0A]) [p] s;
     Some (keys, s)
   }"

section \<open>Characters\<close>

lemma key_at_in: "unat i < length keys \<Longrightarrow> \<exists>c \<in> set keys. key_at keys i = of_char c"
  by (auto simp: key_at_def)

lemma key_at_range:
  assumes "a \<le> key" "key \<le> b" "unat b < unat a + length keys"
  shows "\<exists>c \<in> set keys. key_at keys (key - a) = of_char c"
proof -
  have "unat (key - a) = unat key - unat a" using assms(1) by (rule unat_sub)
  moreover have "unat a \<le> unat key" "unat key \<le> unat b" using assms(1,2) by (simp_all only: word_le_nat_alt)
  ultimately show ?thesis using assms(3) by (intro key_at_in) linarith
qed

definition printable :: "u8 \<Rightarrow> bool" where
  "printable c \<longleftrightarrow> 32 \<le> c \<and> c < 127"

lemma hex_to_char_cases: "hex_to_char key = 0 \<or> hex_to_char key = KB_ENTER \<or> printable (hex_to_char key)"
proof -
  have "list_all (\<lambda>c. printable (of_char c)) (''1234567890'' @ ''qwertyuiop[]'' @ ''asdfghjkl;'' @ [CHR 0x27] @
      ''zxcvbnm,./'' @ ''789-456+1230.'')"
    by (simp add: printable_def)
  then have row: "printable (key_at keys (key - a))"
    if "a \<le> key" "key \<le> b" "unat b < unat a + length keys"
      "keys \<in> {''1234567890'', ''qwertyuiop[]'', ''asdfghjkl;'' @ [CHR 0x27], ''zxcvbnm,./'', ''789-456+1230.''}"
    for keys a b
    using key_at_range [OF that(1-3)] that(4) by (auto simp: list_all_iff)
  show ?thesis
    unfolding hex_to_char_def
    using row [of KB_1 KB_0 "''1234567890''"] row [of KB_Q KB_BRACES_CLOSE "''qwertyuiop[]''"]
      row [of KB_A KB_INVERTED_COMMA "''asdfghjkl;'' @ [CHR 0x27]"] row [of KB_Z KB_F_SLASH_QUESTION "''zxcvbnm,./''"]
      row [of KB_KEYPAD_7 KB_KEYPAD_DOT "''789-456+1230.''"]
    by (simp add: printable_def)
qed

text \<open>
  C36. Every scan code gives no character, the code of the enter key, or a printable ASCII
  character: each index into a row of keys is inside of the row.
\<close>

theorem hex_to_char_range: "hex_to_char key = 0 \<or> hex_to_char key = KB_ENTER \<or> printable (hex_to_char key)"
  by (rule hex_to_char_cases)

section \<open>The line editor\<close>

text \<open>What typing means: the characters of the line and the terminal that echoes them.\<close>

fun type_key :: "u8 \<Rightarrow> u8 list \<times> terminal \<Rightarrow> u8 list \<times> terminal" where
  "type_key key (line, t) =
     (let c = hex_to_char key
      in if c = 0 then (line, t)
         else if c = KB_ENTER then (line @ [0], term_put 10 t)
         else (line @ [c], term_put c t))"

definition kb_shows :: "u64 \<Rightarrow> 'a keyboard_scheme \<Rightarrow> u8 list \<times> terminal \<Rightarrow> bool" where
  "kb_shows st s lt \<longleftrightarrow> (case lt of (line, t) \<Rightarrow>
     length (kb_buffer s) = 256 \<and> length line \<le> 256 \<and> key_count s = of_nat (length line) \<and>
     take (length line) (kb_buffer s) = line \<and> shows_terminal st (videoCardPosition s) s t)"

lemma only_console_keyboard:
  "only_console s s' \<Longrightarrow> kb_buffer s' = kb_buffer s \<and> key_count s' = key_count s \<and>
    keyboard_flag s' = keyboard_flag s \<and> ports s' = ports s" for s :: "'a keyboard_scheme"
  by (auto simp: only_console_def)

lemma take_update_snoc: "n < length xs \<Longrightarrow> take (Suc n) (xs[n := x]) = take n xs @ [x]"
  by (simp add: take_Suc_conv_app_nth)

lemma shows_terminal_cong:
  "\<lbrakk>vmem s' = vmem s; videoCardStart s' = videoCardStart s; videoCardEnd s' = videoCardEnd s;
    scrollForNextCall s' = scrollForNextCall s\<rbrakk> \<Longrightarrow> shows_terminal st v s' t = shows_terminal st v s t"
  by (simp add: shows_terminal_def)

text \<open>Storing a character at the end of the line and echoing it as \<open>fmt\<close> does.\<close>

lemma store_and_echo:
  fixes s :: "'a keyboard_scheme"
  assumes inv: "kb_shows st s (line, t)" "length line < 256"
    and echo: "\<And>s1 :: 'a keyboard_scheme. shows_terminal st (videoCardPosition s1) s1 t \<Longrightarrow>
      \<exists>s'. kprintf fmt args s1 = Some s' \<and> shows_terminal st (videoCardPosition s') s' t' \<and> screen_only st s1 s'"
  shows "\<exists>s'. (do { s1 \<leftarrow> buffer_put (sint (key_count s)) c (s\<lparr>ports := ps\<rparr>);
      kprintf fmt args (s1\<lparr>key_count := key_count s1 + 1, keyboard_flag := f\<rparr>) }) = Some s' \<and>
    kb_shows st s' (line @ [c], t') \<and> screen_only st s s' \<and> keyboard_flag s' = f \<and> ports s' = ps"
proof -
  have i: "length (kb_buffer s) = 256" "key_count s = of_nat (length line)" "take (length line) (kb_buffer s) = line"
    "shows_terminal st (videoCardPosition s) s t"
    using inv(1) by (simp_all add: kb_shows_def)
  have k: "sint (key_count s) = int (length line)" using inv(2) by (simp add: i(2) sint_cint_of_nat)
  let ?s = "s\<lparr>ports := ps, kb_buffer := (kb_buffer s)[length line := c], key_count := key_count s + 1, keyboard_flag := f\<rparr>"
  have "shows_terminal st (videoCardPosition ?s) ?s t" using i(4) by (simp add: shows_terminal_def)
  from echo [OF this] obtain s' where s': "kprintf fmt args ?s = Some s'"
    "shows_terminal st (videoCardPosition s') s' t'" "screen_only st ?s s'" by blast
  note kept = only_console_keyboard [OF kprintf_only [OF s'(1)]]
  have "kb_shows st s' (line @ [c], t')"
    using i kept s'(2) inv(2) by (simp add: kb_shows_def take_update_snoc)
  moreover have "screen_only st s s'" using s'(3) by (simp add: screen_only_def)
  ultimately show ?thesis
    using kept s'(1) k i(1) inv(2) by (simp add: buffer_put_def)
qed

lemma keyboard_interrupt_step:
  fixes s :: "'a keyboard_scheme"
  assumes inv: "kb_shows st s (line, t)" "length line < 256" and st: "unat st + 4096 < 2 ^ 64"
  shows "\<exists>s'. keyboard_interrupt key s = Some s' \<and> kb_shows st s' (type_key key (line, t)) \<and> screen_only st s s' \<and>
    keyboard_flag s' = (if hex_to_char key = KB_ENTER then 1 else keyboard_flag s) \<and>
    ports s' = ports s @ [(0x20, 0x20)]"
proof -
  let ?c = "hex_to_char key" and ?ps = "ports s @ [(0x20, 0x20)]"
  have k: "sint (key_count s) < 256" using inv by (simp add: kb_shows_def sint_cint_of_nat)
  have nl: "\<exists>s'. kprintf [CHR 0x0A] [] s1 = Some s' \<and> shows_terminal st (videoCardPosition s') s' (term_put 10 t) \<and>
      screen_only st s1 s'" if "shows_terminal st (videoCardPosition s1) s1 t" for s1 :: "'a keyboard_scheme"
    using kprintf_refines [OF that st, of "[CHR 0x0A]" "[]"] by (simp add: screen_only_def)
  have ch: "\<exists>s'. kprintf ''%c'' [ucast ?c] s1 = Some s' \<and> shows_terminal st (videoCardPosition s') s' (term_put ?c t) \<and>
      screen_only st s1 s'" if "shows_terminal st (videoCardPosition s1) s1 t" "?c \<noteq> 10" for s1 :: "'a keyboard_scheme"
    using kprintf_c [OF that(1) st that(2)] by metis
  consider "?c = 0" | "?c = KB_ENTER" | "?c \<noteq> 0" "?c \<noteq> KB_ENTER" "?c \<noteq> 10"
    using hex_to_char_cases [of key] by (fastforce simp: printable_def)
  then show ?thesis
  proof cases
    case 1
    then show ?thesis using inv by (simp add: keyboard_interrupt_def outb_def kb_shows_def shows_terminal_def screen_only_def)
  next
    case 2
    from store_and_echo [OF inv nl, of 0 ?ps 1] obtain s' where
      s': "(do { s1 \<leftarrow> buffer_put (sint (key_count s)) 0 (s\<lparr>ports := ?ps\<rparr>);
        kprintf [CHR 0x0A] [] (s1\<lparr>key_count := key_count s1 + 1, keyboard_flag := 1\<rparr>) }) = Some s'"
      "kb_shows st s' (line @ [0], term_put 10 t)" "screen_only st s s'" "keyboard_flag s' = 1" "ports s' = ?ps" by blast
    have "keyboard_interrupt key s = Some s'"
      unfolding s'(1) [symmetric] using 2 by (simp add: keyboard_interrupt_def outb_def Let_def)
    then show ?thesis using s'(2-5) 2 by simp
  next
    case 3
    from store_and_echo [OF inv ch [OF _ 3(3)], of ?c ?ps "keyboard_flag s"] obtain s' where
      s': "(do { s1 \<leftarrow> buffer_put (sint (key_count s)) ?c (s\<lparr>ports := ?ps\<rparr>);
        kprintf ''%c'' [ucast ?c] (s1\<lparr>key_count := key_count s1 + 1, keyboard_flag := keyboard_flag s\<rparr>) }) = Some s'"
      "kb_shows st s' (line @ [?c], term_put ?c t)" "screen_only st s s'" "keyboard_flag s' = keyboard_flag s"
      "ports s' = ?ps" by blast
    have "keyboard_interrupt key s = Some s'"
      unfolding s'(1) [symmetric] using 3 k by (simp add: keyboard_interrupt_def outb_def Let_def buffer_put_def)
    then show ?thesis using s'(2-5) 3 by (simp add: Let_def)
  qed
qed

section \<open>Typing\<close>

primrec keyboard_interrupts :: "u8 list \<Rightarrow> 'a keyboard_scheme \<Rightarrow> 'a keyboard_scheme option" where
  "keyboard_interrupts [] s = Some s"
| "keyboard_interrupts (k # ks) s = do { s \<leftarrow> keyboard_interrupt k s; keyboard_interrupts ks s }"

lemma type_key_length: "length (fst (type_key k lt)) \<le> length (fst lt) + 1"
  by (cases lt) (simp add: Let_def)

lemma keyboard_interrupts_ok:
  "\<lbrakk>kb_shows st s lt; length (fst lt) + length keys \<le> 256; unat st + 4096 < 2 ^ 64\<rbrakk> \<Longrightarrow>
    \<exists>s'. keyboard_interrupts keys s = Some s' \<and> kb_shows st s' (fold type_key keys lt) \<and> screen_only st s s' \<and>
      keyboard_flag s' = (if KB_ENTER \<in> hex_to_char ` set keys then 1 else keyboard_flag s) \<and>
      ports s' = ports s @ replicate (length keys) (0x20, 0x20)"
proof (induction keys arbitrary: s lt)
  case Nil
  then show ?case by (simp add: screen_only_def)
next
  case (Cons k ks)
  obtain line t where lt: "lt = (line, t)" by (cases lt)
  have "length line < 256" using Cons.prems(2) by (simp add: lt)
  from keyboard_interrupt_step [OF Cons.prems(1) [unfolded lt] this Cons.prems(3), of k]
  obtain s1 where s1: "keyboard_interrupt k s = Some s1" "kb_shows st s1 (type_key k lt)" "screen_only st s s1"
    "keyboard_flag s1 = (if hex_to_char k = KB_ENTER then 1 else keyboard_flag s)" "ports s1 = ports s @ [(0x20, 0x20)]"
    unfolding lt by blast
  have "length (fst (type_key k lt)) + length ks \<le> 256"
    using type_key_length [of k lt] Cons.prems(2) by simp
  from Cons.IH [OF s1(2) this Cons.prems(3)] obtain s' where
    "keyboard_interrupts ks s1 = Some s'" "kb_shows st s' (fold type_key ks (type_key k lt))" "screen_only st s1 s'"
    "keyboard_flag s' = (if KB_ENTER \<in> hex_to_char ` set ks then 1 else keyboard_flag s1)"
    "ports s' = ports s1 @ replicate (length ks) (0x20, 0x20)" by blast
  then show ?case using s1 screen_only_trans [OF s1(3)] by auto
qed

text \<open>
  C24. The interrupt handler refines the line editor: while the line fits, every sequence of
  keys is accepted, the buffer holds the characters typed, the screen shows the terminal
  that echoes them, the flag is set once enter was pressed, and each interrupt is
  acknowledged once.
\<close>

theorem keyboard_refines_editor:
  assumes "kb_shows st s lt" "length (fst lt) + length keys \<le> 256" "unat st + 4096 < 2 ^ 64"
  shows "\<exists>s'. keyboard_interrupts keys s = Some s' \<and> kb_shows st s' (fold type_key keys lt) \<and>
    keyboard_flag s' = (if KB_ENTER \<in> hex_to_char ` set keys then 1 else keyboard_flag s) \<and>
    ports s' = ports s @ replicate (length keys) (0x20, 0x20)"
  using keyboard_interrupts_ok [OF assms] by blast

text \<open>
  C35. A full buffer: after 256 characters without enter, further characters are dropped, but
  enter stores its terminator behind the end of the buffer.
\<close>

theorem enter_overflows_full_buffer:
  assumes "length (kb_buffer s) = 256" "key_count s = 256"
  shows "keyboard_interrupt KB_ENTER s = None \<and>
    (hex_to_char key \<noteq> KB_ENTER \<longrightarrow> keyboard_interrupt key s = Some (outb 0x20 0x20 s))"
  using assms by (simp add: keyboard_interrupt_def Let_def outb_def buffer_put_def hex_to_char_def)

lemma wait_for_line_eq:
  "\<lbrakk>keyboard_interrupts (ks @ [k]) s = Some s'; hex_to_char k = KB_ENTER; KB_ENTER \<notin> hex_to_char ` set ks;
    keyboard_flag s = 0; keyboard_flag s' = 1;
    \<And>j s1. \<lbrakk>j \<le> length ks; keyboard_interrupts (take j ks) s = Some s1\<rbrakk> \<Longrightarrow> keyboard_flag s1 = 0\<rbrakk> \<Longrightarrow>
    wait_for_line (ks @ k # rest) s = Some (rest, s')"
proof (induction ks arbitrary: s)
  case Nil
  then show ?case by (auto split: bind_splits)
next
  case (Cons a ks)
  obtain s1 where s1: "keyboard_interrupt a s = Some s1" "keyboard_interrupts (ks @ [k]) s1 = Some s'"
    using Cons.prems(1) by (auto split: bind_splits)
  have f: "keyboard_flag s2 = 0" if "j \<le> length ks" "keyboard_interrupts (take j ks) s1 = Some s2" for j s2
    using Cons.prems(6) [of "Suc j" s2] that s1(1) by simp
  have "wait_for_line (ks @ k # rest) s1 = Some (rest, s')"
    by (rule Cons.IH [OF s1(2) Cons.prems(2) _ _ Cons.prems(5) f]) (use Cons.prems(3) f [of 0 s1] in auto)
  then show ?case using Cons.prems(4) s1(1) by simp
qed

lemma type_keys_line:
  "KB_ENTER \<notin> hex_to_char ` set ks \<Longrightarrow>
    fst (fold type_key ks (line, t)) = line @ filter (\<lambda>c. c \<noteq> 0) (map hex_to_char ks)"
proof (induction ks arbitrary: line t)
  case (Cons k ks)
  obtain line' t' where e: "type_key k (line, t) = (line', t')" by (cases "type_key k (line, t)")
  have "line' = line @ filter (\<lambda>c. c \<noteq> 0) [hex_to_char k]" using e Cons.prems by (auto simp: Let_def split: if_splits)
  moreover have "fst (fold type_key ks (line', t')) = line' @ filter (\<lambda>c. c \<noteq> 0) (map hex_to_char ks)"
    by (rule Cons.IH) (use Cons.prems in auto)
  ultimately show ?case by (simp add: e del: type_key.simps)
qed simp

lemma buffer_string_prefix: "\<lbrakk>take (Suc (length str)) xs = str @ [0]; 0 \<notin> set str\<rbrakk> \<Longrightarrow> buffer_string xs = Some str"
proof (induction str arbitrary: xs)
  case Nil
  then show ?case by (cases xs) auto
next
  case (Cons c str)
  then show ?case by (cases xs) auto
qed

text \<open>
  C23. getstring returns the line: after it clears the buffer, the keys typed up to enter, at
  most 255 of them, are consumed, their characters are stored as a string at the caller's
  address, the keys after enter are left, and it returns.
\<close>

theorem getstring_reads_line:
  fixes s :: "'a keyboard_scheme"
  assumes "length (kb_buffer s) = 256" "shows_terminal st (videoCardPosition s) s t" "unat st + 4096 < 2 ^ 64"
    and "KB_ENTER \<notin> hex_to_char ` set ks" "length ks < 256" "region p 256 \<inter> region st 4600 = {}"
  shows "\<exists>s'. getstring p (ks @ KB_ENTER # rest) s = Some (rest, s') \<and>
    cstr (vmem s') p (filter (\<lambda>c. c \<noteq> 0) (map hex_to_char ks))"
proof -
  let ?s0 = "s\<lparr>keyboard_flag := 0, kb_buffer := (kb_buffer s)[0 := 0], key_count := 0\<rparr>"
  let ?str = "filter (\<lambda>c. c \<noteq> 0) (map hex_to_char ks)"
  have enter: "hex_to_char KB_ENTER = KB_ENTER" by (simp add: hex_to_char_def)
  have init: "init_keyboard s = Some ?s0" using assms(1) by (simp add: init_keyboard_def buffer_put_def)
  have inv: "kb_shows st ?s0 ([], t)" using assms(1,2) by (simp add: kb_shows_def shows_terminal_def)
  obtain s1 where s1: "keyboard_interrupts (ks @ [KB_ENTER]) ?s0 = Some s1"
    "kb_shows st s1 (fold type_key (ks @ [KB_ENTER]) ([], t))" "screen_only st ?s0 s1" "keyboard_flag s1 = 1"
    using keyboard_interrupts_ok [OF inv _ assms(3), of "ks @ [KB_ENTER]"] assms(5) enter by auto
  have "keyboard_flag s2 = 0" if "keyboard_interrupts (take j ks) ?s0 = Some s2" for j s2
  proof -
    have "KB_ENTER \<notin> hex_to_char ` set (take j ks)" using assms(4) set_take_subset [of j ks] by blast
    then show ?thesis using keyboard_interrupts_ok [OF inv _ assms(3), of "take j ks"] assms(5) that by auto
  qed
  then have wait: "wait_for_line (ks @ KB_ENTER # rest) ?s0 = Some (rest, s1)"
    by (intro wait_for_line_eq [OF s1(1) enter assms(4) _ s1(4)]) simp_all
  obtain t1 where t1: "fold type_key ks ([], t) = (?str, t1)"
    using type_keys_line [OF assms(4), of "[]" t] by (cases "fold type_key ks ([], t)") simp
  have line: "take (Suc (length ?str)) (kb_buffer s1) = ?str @ [0]"
    and sh1: "shows_terminal st (videoCardPosition s1) s1 (term_put 10 t1)"
    using s1(2) by (simp_all add: t1 kb_shows_def enter Let_def)
  then have buf: "buffer_string (kb_buffer s1) = Some ?str" by (intro buffer_string_prefix) auto
  have len: "length ?str < 256" by (rule le_less_trans [OF length_filter_le]) (use assms(5) in simp)
  let ?m = "put_bytes p (?str @ [0]) (vmem s1)"
  have "region p (Suc (length ?str)) \<subseteq> region p 256" by (rule region_mono) (use len in simp)
  with assms(6) have far: "region p (Suc (length ?str)) \<inter> region st 4600 = {}" by blast
  have str: "cstr ?m p ?str"
  proof (rule cstrI)
    show "?m (p + of_nat i) = ?str ! i" if "i < length ?str" for i
      using put_bytes_nth [of i "?str @ [0]" p "vmem s1"] that len by (simp add: nth_append)
    show "?m (p + of_nat (length ?str)) = 0"
      using put_bytes_nth [of "length ?str" "?str @ [0]" p "vmem s1"] len by (simp add: nth_append)
  qed simp
  have sh2: "shows_terminal st (videoCardPosition s1) (s1\<lparr>vmem := ?m\<rparr>) (term_put 10 t1)"
  proof -
    have "?m (st + of_nat (2 * i)) = vmem s1 (st + of_nat (2 * i))" if "i < 2000" for i
    proof (rule put_bytes_frame)
      have "st + of_nat (2 * i) \<in> region st 4600" by (subst region_offset) (use that in simp_all)
      then show "st + of_nat (2 * i) \<notin> region p (length (?str @ [0]))" using far by auto
    qed (use len in simp)
    then show ?thesis using sh1 by (simp add: shows_terminal_def split: prod.splits)
  qed
  have "CHR ''%'' \<notin> set (CHR 0x0A # ''typed string is: '')" "length (CHR 0x0A # ''typed string is: '') < 2 ^ 50" by simp_all
  note fmt_ok = this
  let ?s1 = "s1\<lparr>vmem := ?m\<rparr>"
  have "shows_terminal st (videoCardPosition ?s1) ?s1 (term_put 10 t1)" "cstr (vmem ?s1) p ?str" "length ?str \<le> 256"
    using sh2 str len by simp_all
  from kprintf_string_frame [OF this(1) assms(3) fmt_ok this(2,3) far]
  obtain s' where s': "kprintf (CHR 0x0A # ''typed string is: %s'' @ [CHR 0x0A]) [p] ?s1 = Some s'"
    "\<forall>b. b \<notin> region st 4600 \<longrightarrow> vmem s' b = ?m b"
    by auto
  have "cstr (vmem s') p ?str"
    by (rule cstr_region_cong [OF str]) (use s'(2) far len in auto)
  moreover have "getstring p (ks @ KB_ENTER # rest) s = Some (rest, s')"
    using s'(1) by (simp add: getstring_def init wait buf del: wait_for_line.simps)
  ultimately show ?thesis by blast
qed

section \<open>A concrete keyboard\<close>

definition blank_keyboard :: keyboard where
  "blank_keyboard = console.extend blank_console (keyboard.fields 0 0 (replicate 256 0))"

lemma blank_keyboard_simps [simp]:
  "vmem blank_keyboard = vmem blank_console" "videoCardEnd blank_keyboard = 0xB8FA0"
  "videoCardStart blank_keyboard = 0xB8000" "videoCardPosition blank_keyboard = 0xB8000"
  "scrollForNextCall blank_keyboard = 0" "keyboard_flag blank_keyboard = 0" "key_count blank_keyboard = 0"
  "kb_buffer blank_keyboard = replicate 256 0"
  by (simp_all add: blank_keyboard_def blank_console_def console.defs keyboard.defs segments.defs)

lemma blank_keyboard_shows:
  "shows_terminal 0xB8000 (videoCardPosition blank_keyboard) blank_keyboard (\<lambda>_. 32, 0)"
  using blank_console_shows by (simp add: shows_terminal_def del: blank_console_simps(1))

lemma keyboard_refines_editor_witness:
  "\<exists>s'. keyboard_interrupts [0x26, 0xa6, 0x1f, 0x1c] blank_keyboard = Some s' \<and> keyboard_flag s' = 1 \<and>
    take 3 (kb_buffer s') = [108, 115, 0]"
proof -
  have "kb_shows 0xB8000 blank_keyboard ([], (\<lambda>_. 32, 0))"
    using blank_keyboard_shows by (simp add: kb_shows_def)
  moreover have "length (fst ([] :: u8 list, (\<lambda>_. 32, 0) :: terminal)) + length [0x26, 0xa6, 0x1f, 0x1c :: u8] \<le> 256"
    "unat (0xB8000 :: u64) + 4096 < 2 ^ 64" by simp_all
  ultimately obtain s' where s': "keyboard_interrupts [0x26, 0xa6, 0x1f, 0x1c] blank_keyboard = Some s'"
    "kb_shows 0xB8000 s' (fold type_key [0x26, 0xa6, 0x1f, 0x1c] ([], (\<lambda>_. 32, 0)))"
    "keyboard_flag s' = (if KB_ENTER \<in> hex_to_char ` set [0x26, 0xa6, 0x1f, 0x1c] then 1 else keyboard_flag blank_keyboard)"
    using keyboard_refines_editor by blast
  have "fst (fold type_key [0x26, 0xa6, 0x1f, 0x1c] ([], (\<lambda>_. 32, 0))) = [108, 115, 0]"
    by (simp add: hex_to_char_def key_at_def Let_def del: term_put.simps)
  then have "take 3 (kb_buffer s') = [108, 115, 0]" using s'(2) by (auto simp: kb_shows_def numeral_3_eq_3 split: prod.splits simp del: type_key.simps)
  moreover have "keyboard_flag s' = 1" using s'(3) by (simp add: hex_to_char_def)
  ultimately show ?thesis using s'(1) by blast
qed

lemma enter_overflows_full_buffer_witness:
  "keyboard_interrupt 0x1c (blank_keyboard\<lparr>key_count := 256\<rparr>) = None"
  using enter_overflows_full_buffer [of "blank_keyboard\<lparr>key_count := 256\<rparr>" 0] by simp

lemma getstring_reads_line_witness:
  "\<exists>s'. getstring 0x4000 [0x26, 0x1f, 0x1c, 0x39] blank_keyboard = Some ([0x39], s') \<and> cstr (vmem s') 0x4000 [108, 115]"
proof -
  have "region (0x4000 :: u64) 256 \<inter> region 0xB8000 4600 = {}" by (rule region_disjointI) simp_all
  moreover have "KB_ENTER \<notin> hex_to_char ` set [0x26, 0x1f]" by (simp add: hex_to_char_def key_at_def)
  ultimately obtain s' where s': "getstring 0x4000 ([0x26, 0x1f] @ KB_ENTER # [0x39]) blank_keyboard = Some ([0x39], s')"
    "cstr (vmem s') 0x4000 (filter (\<lambda>c. c \<noteq> 0) (map hex_to_char [0x26, 0x1f]))"
    using getstring_reads_line [OF _ blank_keyboard_shows, of "[0x26, 0x1f]" "0x4000" "[0x39]"] by auto
  have "filter (\<lambda>c. c \<noteq> 0) (map hex_to_char [0x26, 0x1f]) = [108, 115]" by (simp add: hex_to_char_def key_at_def)
  with s' show ?thesis by auto
qed

end
