(* ===== verification/ScreenFrame.thy ===== *)
theory ScreenFrame
  imports Screen
begin

text \<open>
  What kprintf leaves alone, for any format: strings and numbers are stored without a look at
  the end of the screen, so the position runs a little beyond it, and each call brings it
  back by one row per character. A bound of the excess is computed from the format.
\<close>

section \<open>The bound\<close>

text \<open>The width in bytes of what a conversion prints, strings of at most \<open>l\<close> characters.\<close>

definition width :: "nat \<Rightarrow> u8 \<Rightarrow> nat" where
  "width l d = (if d = of_char CHR ''s'' then 2 * l else 36)"

text \<open>
  Printing a format with the position at most \<open>e\<close> bytes behind the screen leaves it at most
  \<open>e'\<close> bytes behind, and at most \<open>m\<close> on the way.
\<close>

fun fits :: "nat \<Rightarrow> nat \<Rightarrow> u8 list \<Rightarrow> nat \<Rightarrow> nat \<Rightarrow> bool" where
  "fits l m [] e e' = (e \<le> e' \<and> e' \<le> m)"
| "fits l m (c # fmt) e e' =
     (e \<le> m \<and>
      (if c = of_char CHR ''%''
       then (case fmt of [] \<Rightarrow> False | d # fmt' \<Rightarrow> fits l m fmt' (e - 160 + width l d) e')
       else if c = 10 then fits l m fmt (e - 160 + 320) e'
       else fits l m fmt (e - 160 + 2) e'))"

text \<open>An argument: strings lie apart from the screen.\<close>

definition arg_ok :: "nat \<Rightarrow> u64 set \<Rightarrow> mem \<Rightarrow> u8 \<Rightarrow> u64 \<Rightarrow> bool" where
  "arg_ok l w m d a \<longleftrightarrow>
     (if d = of_char CHR ''s''
      then \<exists>str. cstr m a str \<and> length str \<le> l \<and> region a (Suc (length str)) \<inter> w = {}
      else d \<in> {of_char CHR ''c'', of_char CHR ''d'', of_char CHR ''x'', of_char CHR ''p''})"

fun args_ok :: "nat \<Rightarrow> u64 set \<Rightarrow> mem \<Rightarrow> u8 list \<Rightarrow> u64 list \<Rightarrow> bool" where
  "args_ok l w m [] args = True"
| "args_ok l w m (c # fmt) args =
     (if c = of_char CHR ''%''
      then (case fmt of [] \<Rightarrow> False
        | d # fmt' \<Rightarrow> (case args of [] \<Rightarrow> False | a # args \<Rightarrow> arg_ok l w m d a \<and> args_ok l w m fmt' args))
      else args_ok l w m fmt args)"

lemma arg_ok_cong:
  assumes "arg_ok l w m d a" "\<And>b. b \<notin> w \<Longrightarrow> m' b = m b" "l < 2 ^ 32"
  shows "arg_ok l w m' d a"
proof (cases "d = of_char CHR ''s''")
  case True
  then obtain str where str: "cstr m a str" "length str \<le> l" "region a (Suc (length str)) \<inter> w = {}"
    using assms(1) by (auto simp: arg_ok_def)
  have "cstr m' a str"
    by (rule cstr_region_cong [OF str(1)]) (use str assms(2,3) in auto)
  then show ?thesis using str True by (auto simp: arg_ok_def)
next
  case False
  then show ?thesis using assms(1) by (simp add: arg_ok_def)
qed

lemma args_ok_cong:
  "\<lbrakk>args_ok l w m fmt args; \<And>b. b \<notin> w \<Longrightarrow> m' b = m b; l < 2 ^ 32\<rbrakk> \<Longrightarrow> args_ok l w m' fmt args"
  by (induction l w m fmt args rule: args_ok.induct) (auto split: list.splits if_splits intro: arg_ok_cong)

section \<open>Conversions\<close>

definition writes :: "u64 \<Rightarrow> nat \<Rightarrow> mem \<Rightarrow> mem \<Rightarrow> bool" where
  "writes video n m m' \<longleftrightarrow> (\<forall>b. b \<notin> region video n \<longrightarrow> m' b = m b)"

lemma region_apart_offset:
  "\<lbrakk>i + n \<le> j; j + k < 2 ^ 64\<rbrakk> \<Longrightarrow> region (a + of_nat i) n \<inter> region (a + of_nat j) k = {}"
proof -
  assume ij: "i + n \<le> j" "j + k < 2 ^ 64"
  have False if "b \<in> region (a + of_nat i) n" "b \<in> region (a + of_nat j) k" for b
  proof -
    from that(1) obtain x where x: "x < n" "b = a + of_nat i + of_nat x" by (rule regionE)
    from that(2) obtain y where y: "y < k" "b = a + of_nat j + of_nat y" by (rule regionE)
    have "(of_nat (i + x) :: u64) = of_nat (j + y)" using x(2) y(2) by (simp add: add.assoc)
    then have "i + x = j + y" using x(1) y(1) ij by (simp only: of_nat_u64_eq_iff)
    then show False using x(1) ij by simp
  qed
  then show ?thesis by auto
qed

lemma writes_load_bytes:
  assumes "writes a n m m'" "region b k \<inter> region a n = {}" "k < 2 ^ 64"
  shows "load_bytes k m' b = load_bytes k m b"
proof (rule load_bytes_cong [OF _ assms(3)])
  fix x assume "unat (x - b) < k"
  then have "x \<notin> region a n" using assms(2) by (auto simp: region_def)
  then show "m' x = m x" using assms(1) by (simp add: writes_def)
qed

lemma writes_cstr:
  assumes "writes a n m m'" "cstr m b str" "region b (Suc (length str)) \<inter> region a n = {}" "length str < 2 ^ 32"
  shows "cstr m' b str"
  by (rule cstr_region_cong [OF assms(2)]) (use assms in \<open>auto simp: writes_def\<close>)

lemma writes_store:
  "writes a 4 m (store32 m a v)" "writes a 8 m (store64 m a w)"
  by (simp_all add: writes_def store32_def store64_def store_bytes_frame region_def)

lemma writes_mono: "\<lbrakk>writes (a + of_nat i) n m m'; i + n \<le> k; k < 2 ^ 64\<rbrakk> \<Longrightarrow> writes a k m m'"
  unfolding writes_def using region_shift [of i n k a] by blast

lemma writes_put_cells: "\<lbrakk>2 * length cs \<le> n; n < 2 ^ 64\<rbrakk> \<Longrightarrow> writes video n m (put_cells video colour cs m)"
  unfolding writes_def using region_mono [of "2 * length cs" n video] by (auto intro!: put_cells_frame)

lemma put_cells_Cons: "put_cells video 0 [c] m = put_cell video c 0 m"
  by simp

lemma length_digits_16: "length (digits 16 (unat (a :: u64))) \<le> 16"
  by (rule length_digits) (use unat_u64_less [of a] in simp_all)

lemma length_decimal_digits: "k < 2 ^ 31 \<Longrightarrow> length (digits 10 k) \<le> 10"
  by (rule length_digits) simp_all

lemma nat_abs_div: "1 < sint k \<Longrightarrow> nat \<bar>sint (cint_div n k)\<bar> = nat \<bar>sint n\<bar> div nat (sint k)"
proof -
  assume k: "1 < sint k"
  have "\<bar>sint (cint_div n k)\<bar> = \<bar>sint n\<bar> div sint k"
    unfolding sint_cint_div [OF k] using k by (cases "sint n = 0") (simp_all add: abs_mult abs_sgn_eq pos_imp_zdiv_nonneg_iff)
  then show ?thesis using k by (simp add: nat_div_distrib)
qed

lemma printHex_cells:
  "\<exists>cs. printHex m video colour num = (put_cells video colour cs m, 2 * of_nat (length cs)) \<and>
    length cs = length (digits 16 (nat \<bar>sint num\<bar>))"
proof (induction m video colour num rule: printHex.induct)
  case (1 m video colour num)
  show ?case
  proof (cases "num = 0")
    case True
    then show ?thesis by (intro exI [of _ "[]"]) (subst printHex.simps, simp)
  next
    case False
    then have nz: "nat \<bar>sint num\<bar> \<noteq> 0" by (simp add: sint_cint_eq_0)
    obtain cs where cs: "printHex m video colour (cint_div num 16) = (put_cells video colour cs m, 2 * of_nat (length cs))"
      "length cs = length (digits 16 (nat \<bar>sint num\<bar> div 16))"
      using 1 [OF False] nat_abs_div [of 16 num] by auto
    have "length (digits 16 (nat \<bar>sint num\<bar> div 16)) \<le> 8"
      by (rule length_digits) (use sint_ge [of num] sint_lt [of num] in auto)
    then have "scast (2 * of_nat (length cs) :: cint) = (of_nat (2 * length cs) :: u64)"
      using cs(2) by (intro scast_double) simp
    then have "printHex m video colour num =
        (put_cells video colour (cs @ [digit_char (cint_mod num 16)]) m, 2 + 2 * of_nat (length cs))"
      using False cs(1) by (subst printHex.simps) (simp add: put_cells_snoc)
    moreover have "length (digits 16 (nat \<bar>sint num\<bar>)) = Suc (length cs)" using cs(2) nz by (simp add: digits_step)
    ultimately show ?thesis by (intro exI [of _ "cs @ [digit_char (cint_mod num 16)]"]) simp
  qed
qed

text \<open>The least \<open>int\<close> has no negative: it is printed with two signs.\<close>

lemma printInt_least:
  "printInt m video 0 (- 2147483648) = (put_cells video 0 (45 # 45 # decimal_digits 21474836 @ [40]) m, 20)"
proof -
  have d: "cint_div 2147483648 10 = - of_nat 214748364" "cint_mod 2147483648 10 + 48 = 40"
    by (simp_all add: cint_mod_def cint_div_def)
  have len: "length (decimal_digits 21474836) = 8" "decimal_digits 214748364 = decimal_digits 21474836 @ [52]"
    by (simp_all add: decimal_digits_def digits_step)
  have "printInt m' (video + 2) 0 (- of_nat 214748364) =
      (put_cells (video + 4) 0 (decimal_digits 214748364) (put_cell (video + 2) 45 0 m'), 18)" for m'
    using printInt_negative [of 214748364 m' "video + 2" 0] printInt_eq [of 214748364 "put_cell (video + 2) 45 0 m'" "video + 4" 0]
    by (simp add: len add.commute [of 4])
  then have "printInt m video 0 (- 2147483648) =
      (put_cell (video + 20) 40 0 (put_cells (video + 4) 0 (decimal_digits 21474836 @ [52])
        (put_cell (video + 2) 45 0 (put_cell video 45 0 m))), 20)"
    by (subst printInt.simps) (simp add: d len(2) add.commute [of 20])
  also have "\<dots> = (put_cells (video + 4) 0 (decimal_digits 21474836 @ [40])
        (put_cell (video + 2) 45 0 (put_cell video 45 0 m)), 20)"
    by (simp add: put_cells_snoc len(1) put_cell_twice add.commute [of 20])
  finally show ?thesis by (simp add: add.commute [of 4])
qed

lemma printInt_text_cells:
  "\<exists>cs n. printInt m video 0 num = (put_cells video 0 cs m, of_nat (2 * n)) \<and> length cs \<le> 11 \<and> n \<le> 10"
proof (cases "sint num = - 2147483648")
  case True
  then have "sint num = sint (- 2147483648 :: cint)" by simp
  then have "num = - 2147483648" by (rule signed_word_eqI)
  moreover have "length (decimal_digits 21474836) = 8" by (simp add: decimal_digits_def digits_step)
  ultimately show ?thesis
    using printInt_least [of m video] by (intro exI [of _ "45 # 45 # decimal_digits 21474836 @ [40]"] exI [of _ 10]) simp
next
  case False
  let ?d = "digits 10 (nat \<bar>sint num\<bar>)"
  obtain n where n: "printInt m video 0 num = (put_cells video 0 (decimal (sint num)) m, n)" "sint n = 2 * int (length ?d)"
    using printInt_cells [OF False, of m video 0] by blast
  have len: "length ?d \<le> 10"
    by (rule length_decimal_digits) (use False sint_ge [of num] sint_lt [of num] in \<open>simp add: nat_less_iff\<close>)
  have "sint n = sint (of_nat (2 * length ?d) :: cint)" using n(2) len by (subst sint_cint_of_nat) simp_all
  then have "n = of_nat (2 * length ?d)" by (rule signed_word_eqI)
  moreover have "length (decimal (sint num)) \<le> 11"
    using len by (auto simp: decimal_def decimal_digits_def split: if_splits)
  ultimately show ?thesis using n(1) len by blast
qed

lemma conversion_frame:
  assumes ok: "arg_ok l w m d a" "l < 2 ^ 32" and sub: "region video (width l d) \<subseteq> w"
  shows "\<exists>m' n. conversion d m video (a # args) = Some (m', video + of_nat n, args) \<and>
    n \<le> width l d \<and> writes video (width l d) m m'"
proof -
  consider "d = of_char CHR ''s''" | "d = of_char CHR ''d''" | "d = of_char CHR ''x''" | "d = of_char CHR ''c''" | "d = of_char CHR ''p''"
    using ok(1) by (auto simp: arg_ok_def split: if_splits)
  then show ?thesis
  proof cases
    case 1
    obtain str where str: "cstr m a str" "length str \<le> l" "region a (Suc (length str)) \<inter> w = {}"
      using ok(1) 1 by (auto simp: arg_ok_def)
    have "region video (2 * length str) \<subseteq> w"
      using sub region_mono [of "2 * length str" "width l d" video] str(2) 1 by (auto simp: width_def)
    then have "region a (Suc (length str)) \<inter> region video (2 * length str) = {}" using str(3) by blast
    then have "print_string m video a = Some (put_cells video 0 (map ucast str) m, video + of_nat (2 * length str))"
      using print_string_prefix [of m a "[]" str video] str(1,2) ok(2) by simp
    moreover have "writes video (width l d) m (put_cells video 0 (map ucast str) m)"
      by (rule writes_put_cells) (use 1 str(2) ok(2) in \<open>simp_all add: width_def\<close>)
    ultimately show ?thesis
      using 1 str(2) by (intro exI [of _ "put_cells video 0 (map ucast str) m"] exI [of _ "2 * length str"])
        (simp add: conversion.simps width_def)
  next
    case 2
    have w: "width l d = 36" using 2 by (simp add: width_def)
    obtain cs n where n: "printInt m video 0 (ucast a) = (put_cells video 0 cs m, of_nat (2 * n))" "length cs \<le> 11" "n \<le> 10"
      using printInt_text_cells by blast
    have wr: "writes video (width l d) m (put_cells video 0 cs m)" by (rule writes_put_cells) (use n(2) w in simp_all)
    have "scast (of_nat (2 * n) :: cint) = (of_nat (2 * n) :: u64)" by (rule scast_cint_of_nat) (use n(3) in simp)
    then show ?thesis
      using 2 n(1,3) wr w by (intro exI [of _ "put_cells video 0 cs m"] exI [of _ "2 * n"]) (simp add: conversion.simps)
  next
    case 3
    have w: "width l d = 36" using 3 by (simp add: width_def)
    obtain cs where cs: "printHex m video 0 (ucast a) = (put_cells video 0 cs m, 2 * of_nat (length cs))"
      "length cs = length (digits 16 (nat \<bar>sint (ucast a :: cint)\<bar>))"
      using printHex_cells by blast
    have len: "length cs \<le> 8"
      unfolding cs(2) by (rule length_digits) (use sint_ge [of "ucast a :: cint"] sint_lt [of "ucast a :: cint"] in auto)
    then have wr: "writes video (width l d) m (put_cells video 0 cs m)" by (intro writes_put_cells) (simp_all add: w)
    have "scast (2 * of_nat (length cs) :: cint) = (of_nat (2 * length cs) :: u64)" by (rule scast_double) (use len in simp)
    then show ?thesis
      using 3 cs(1) wr len w
      by (intro exI [of _ "put_cells video 0 cs m"] exI [of _ "2 * length cs"]) (simp add: conversion.simps)
  next
    case 4
    have w: "width l d = 36" using 4 by (simp add: width_def)
    have "writes video (width l d) m (put_cells video 0 [ucast a] m)" by (rule writes_put_cells) (simp_all add: w)
    then show ?thesis
      using 4 w by (intro exI [of _ "put_cell video (ucast a) 0 m"] exI [of _ 2]) (simp add: conversion.simps)
  next
    case 5
    have w: "width l d = 36" using 5 by (simp add: width_def)
    let ?cs = "[48, 120] @ digit_text (digits 16 (unat a))"
    have len: "length ?cs \<le> 18" using length_digits_16 [of a] by (simp add: digit_text_def)
    have wr: "writes video (width l d) m (put_cells video 0 ?cs m)"
      by (rule writes_put_cells) (use len w in simp_all)
    have "scast (2 * of_nat (length (digits 16 (unat a))) :: cint) = (of_nat (2 * length (digits 16 (unat a))) :: u64)"
      by (rule scast_double) (use length_digits_16 [of a] in simp)
    then show ?thesis
      using 5 wr len w by (intro exI [of _ "put_cells video 0 ?cs m"] exI [of _ "4 + 2 * length (digits 16 (unat a))"])
        (simp add: conversion.simps printPointer_eq Let_def digit_text_def add.assoc)
  qed
qed

lemma fits_bound: "fits l m fmt e e' \<Longrightarrow> e' \<le> m"
proof (induction l m fmt e e' rule: fits.induct)
  case (2 l m c fmt e e')
  show ?case
  proof (cases "c = of_char CHR ''%''")
    case True
    then obtain d fmt' where "fmt = d # fmt'" "fits l m fmt' (e - 160 + width l d) e'"
      using "2.prems" by (cases fmt) simp_all
    then show ?thesis using "2.IH"(1) [OF True] by blast
  next
    case False
    then show ?thesis using "2.IH"(2,3) "2.prems" by (cases "c = 10") simp_all
  qed
qed simp

section \<open>The position\<close>

text \<open>The position is on the screen or at most \<open>e\<close> bytes behind it, and then a scroll is due.\<close>

definition near :: "u64 \<Rightarrow> nat \<Rightarrow> u64 \<Rightarrow> 'a console_scheme \<Rightarrow> bool" where
  "near st e video s \<longleftrightarrow> videoCardStart s = st \<and> videoCardEnd s = st + 4000 \<and>
     (\<exists>k. video = st + of_nat k \<and> k \<le> 4000 + e \<and> (scrollForNextCall s \<noteq> 0 \<longleftrightarrow> 4000 \<le> k))"

lemma near_mono: "\<lbrakk>near st e video s; e \<le> e'\<rbrakk> \<Longrightarrow> near st e' video s"
  by (fastforce simp: near_def)

text \<open>The memory the screen and what may follow it take.\<close>

definition screen_area :: "u64 \<Rightarrow> u64 set" where
  "screen_area st = region st 6000"

lemma screen_area_end: "\<lbrakk>unat st + 6000 < 2 ^ 64; k \<le> 6000\<rbrakk> \<Longrightarrow> unat (st + of_nat k) = unat st + k" for st :: u64
  by (rule unat_add_no_wrap) linarith

lemma near_pending:
  assumes n: "near st e video s" and st: "unat st + 6000 < 2 ^ 64" and p: "pending_scroll video s = (v0, s0)"
  obtains k where "v0 = st + of_nat k" "k < 4000 \<or> k \<le> 4000 + (e - 160)" "videoCardStart s0 = st"
    "videoCardEnd s0 = st + 4000" "scrollForNextCall s0 = 0" "writes st 6000 (vmem s) (vmem s0)"
proof -
  obtain k where k: "video = st + of_nat k" "k \<le> 4000 + e" "scrollForNextCall s \<noteq> 0 \<longleftrightarrow> 4000 \<le> k"
    and c: "videoCardStart s = st" "videoCardEnd s = st + 4000"
    using n by (auto simp: near_def)
  have st': "unat st + 4096 < 2 ^ 64" using st by simp
  have wr: "writes st 6000 (vmem s) (vmem s0)"
    unfolding writes_def
  proof (intro allI impI)
    fix b assume "b \<notin> region st 6000"
    then have "b \<notin> region st 4001" using region_mono [of 4001 6000 st] by auto
    from pending_scroll_frame [OF c st' this, of video] show "vmem s0 b = vmem s b" by (simp add: p)
  qed
  show thesis
  proof (cases "4000 \<le> k")
    case True
    then have "v0 = st + of_nat (k - 160)" using p k by (auto simp: pending_scroll_def of_nat_diff)
    moreover have "videoCardStart s0 = st" "videoCardEnd s0 = st + 4000" "scrollForNextCall s0 = 0"
      using p k True c scroll_vmem(2) [OF c st'] by (auto simp: pending_scroll_def scroll_def split: prod.splits)
    moreover have "k - 160 < 4000 \<or> k - 160 \<le> 4000 + (e - 160)" using k(2) by auto
    ultimately show thesis using wr that by blast
  next
    case False
    then have "v0 = st + of_nat k" "s0 = s" using p k by (auto simp: pending_scroll_def)
    moreover have "k < 4000" using False by simp
    ultimately show thesis using wr that [of k] k False c by simp
  qed
qed

text \<open>Storing at the position and advancing.\<close>

lemma near_advance:
  assumes "k < 4000 \<or> k \<le> 4000 + e" "videoCardStart s0 = st" "videoCardEnd s0 = st + 4000" "scrollForNextCall s0 = 0"
    and st: "unat st + 6000 < 2 ^ 64" and n: "n \<le> w" "e + w \<le> 1900"
    and v: "v = st + of_nat k + of_nat n" and s: "s = check_end v (s0\<lparr>vmem := m\<rparr>)"
  shows "near st (e + w) v s"
proof -
  have kn: "k + n \<le> 4000 + (e + w)" using assms(1) n by auto
  have "unat (st + of_nat (k + n)) = unat st + (k + n)" "unat (st + of_nat 4000) = unat st + 4000"
    by (rule screen_area_end [OF st]; use kn n in simp)+
  then have "st + 4000 \<le> v \<longleftrightarrow> 4000 \<le> k + n" by (simp add: v word_le_nat_alt add.assoc)
  then show ?thesis
    using assms(2-4) kn unfolding near_def s v
    by (intro conjI exI [of _ "k + n"]) (simp_all add: check_end_def add.assoc)
qed

lemma abs_mod_160: "\<bar>sgn (a :: int) * (\<bar>a\<bar> mod 160)\<bar> < 160"
  by (simp add: abs_mult abs_sgn_eq)

lemma newline_advance: "\<exists>n. newline video s = video + of_nat n \<and> n \<le> 320"
proof -
  have "\<exists>n. video + (160 - ptr_mod a b) = video + of_nat n \<and> n \<le> 320" for a b
  proof (intro exI conjI)
    let ?d = "sgn (sint (a - b)) * (\<bar>sint (a - b)\<bar> mod 160)"
    have b: "\<bar>?d\<bar> < 160" by (rule abs_mod_160)
    then have "of_nat (nat (160 - ?d)) = (word_of_int (160 - ?d) :: u64)" by simp
    also have "\<dots> = 160 - ptr_mod a b" by (simp add: ptr_mod_def)
    finally show "video + (160 - ptr_mod a b) = video + of_nat (nat (160 - ?d))" by simp
    show "nat (160 - ?d) \<le> 320" using b by simp
  qed
  then show ?thesis by (simp add: newline_def)
qed

lemma writes_trans: "\<lbrakk>writes v n m m'; writes v n m' m''\<rbrakk> \<Longrightarrow> writes v n m m''"
  by (simp add: writes_def)

lemma writes_at_screen:
  "\<lbrakk>writes (st + of_nat k) n m m'; k + n \<le> 6000\<rbrakk> \<Longrightarrow> writes st 6000 m m'"
  unfolding writes_def using region_shift [of k n 6000 st] by auto

section \<open>The frame of kprintf\<close>

lemma kprintf_loop_frame:
  "\<lbrakk>fits l 1000 fmt e e'; args_ok l (screen_area st) (vmem s) fmt args; near st e video s;
    unat st + 6000 < 2 ^ 64; l \<le> 256\<rbrakk> \<Longrightarrow>
    \<exists>video' s'. kprintf_loop fmt args video s = Some (video', s') \<and> near st e' video' s' \<and>
      writes st 6000 (vmem s) (vmem s')"
proof (induction fmt args video s arbitrary: e rule: kprintf_loop.induct)
  case (1 args video s)
  then show ?case using near_mono by (fastforce simp: writes_def)
next
  case (2 c fmt args video s)
  note st = "2.prems"(4)
  obtain v0 s0 where p: "pending_scroll video s = (v0, s0)" by (cases "pending_scroll video s")
  from near_pending [OF "2.prems"(3) st p] obtain k where
    k: "v0 = st + of_nat k" "k < 4000 \<or> k \<le> 4000 + (e - 160)" "videoCardStart s0 = st" "videoCardEnd s0 = st + 4000"
    "scrollForNextCall s0 = 0" and w0: "writes st 6000 (vmem s) (vmem s0)" .
  have e: "e \<le> 1000" using "2.prems"(1) by simp
  have keep: "args_ok l (screen_area st) m' fmt' args'"
    if "args_ok l (screen_area st) (vmem s) fmt' args'" "writes st 6000 (vmem s) m'" for fmt' args' m'
    by (rule args_ok_cong [OF that(1)]) (use that(2) "2.prems"(5) in \<open>simp_all add: writes_def screen_area_def\<close>)
  show ?case
  proof (cases "c = of_char CHR ''%''")
    case True
    obtain d fmt' a args' where f: "fmt = d # fmt'" "args = a # args'" "fits l 1000 fmt' (e - 160 + width l d) e'"
      "arg_ok l (screen_area st) (vmem s) d a" "args_ok l (screen_area st) (vmem s) fmt' args'"
      using "2.prems"(1,2) True by (cases fmt; cases args) auto
    have wd: "width l d \<le> 512" using "2.prems"(5) by (simp add: width_def)
    have kw: "k + width l d \<le> 6000" using k(2) wd e by auto
    have "arg_ok l (screen_area st) (vmem s0) d a"
      by (rule arg_ok_cong [OF f(4)]) (use w0 "2.prems"(5) in \<open>simp_all add: writes_def screen_area_def\<close>)
    moreover have "l < 2 ^ 32" using "2.prems"(5) by simp
    moreover have "region v0 (width l d) \<subseteq> screen_area st"
      unfolding screen_area_def k(1) by (rule region_shift [OF kw]) simp
    ultimately obtain m n where m: "conversion d (vmem s0) v0 (a # args') = Some (m, v0 + of_nat n, args')"
      "n \<le> width l d" "writes v0 (width l d) (vmem s0) m" using conversion_frame by blast
    have wm: "writes st 6000 (vmem s) m"
      using writes_trans [OF w0] writes_at_screen [OF m(3) [unfolded k(1)] kw] .
    let ?s = "check_end (v0 + of_nat n) (s0\<lparr>vmem := m\<rparr>)"
    have vm: "vmem ?s = m" by (simp add: check_end_def)
    have "near st (e - 160 + width l d) (v0 + of_nat n) ?s"
      by (rule near_advance [OF k(2-5) st m(2)]) (use e wd k(1) in simp_all)
    from "2.IH"(1) [OF p [symmetric] True f(1) m(1) [folded f(2)] refl refl f(3) _ this st "2.prems"(5)]
    obtain video' s' where s': "kprintf_loop fmt' args' (v0 + of_nat n) ?s = Some (video', s')" "near st e' video' s'"
      "writes st 6000 m (vmem s')"
      using keep [OF f(5) wm] unfolding vm by blast
    then show ?thesis using m(1) writes_trans [OF wm s'(3)] by (auto simp: p True f(1,2))
  next
    case False
    note nc = this
    show ?thesis
    proof (cases "c = 10")
      case True
      obtain n where n: "newline v0 s0 = v0 + of_nat n" "n \<le> 320" using newline_advance by blast
      let ?s = "check_end (v0 + of_nat n) s0"
      have vm: "vmem ?s = vmem s0" by (simp add: check_end_def)
      have fits: "fits l 1000 fmt (e - 160 + 320) e'" and args: "args_ok l (screen_area st) (vmem s) fmt args"
        using "2.prems"(1,2) nc True by simp_all
      have "near st (e - 160 + 320) (v0 + of_nat n) ?s"
        by (rule near_advance [OF k(2-5) st n(2), where m = "vmem s0"]) (use e k(1) in simp_all)
      from "2.IH"(2) [OF p [symmetric] nc True n(1) [symmetric], OF fits _ this st "2.prems"(5)]
      obtain video' s' where s': "kprintf_loop fmt args (v0 + of_nat n) ?s = Some (video', s')" "near st e' video' s'"
        "writes st 6000 (vmem s0) (vmem s')"
        using keep [OF args w0] unfolding vm by blast
      then show ?thesis using writes_trans [OF w0 s'(3)] nc True n(1) by (auto simp: p Let_def)
    next
      case False
      let ?m = "put_cell v0 (ucast c) 0 (vmem s0)"
      let ?s = "check_end (v0 + 2) (s0\<lparr>vmem := ?m\<rparr>)"
      have vm: "vmem ?s = ?m" by (simp add: check_end_def)
      have "writes v0 2 (vmem s0) (put_cells v0 0 [ucast c] (vmem s0))" by (rule writes_put_cells) simp_all
      then have wm: "writes st 6000 (vmem s) ?m"
        using writes_trans [OF w0 writes_at_screen [of st k 2]] k(1,2) e by auto
      have fits: "fits l 1000 fmt (e - 160 + 2) e'" and args: "args_ok l (screen_area st) (vmem s) fmt args"
        using "2.prems"(1,2) nc False by simp_all
      have "near st (e - 160 + 2) (v0 + of_nat 2) ?s"
        by (rule near_advance [OF k(2-5) st, where m = ?m and n = 2]) (use e k(1) in simp_all)
      then have "near st (e - 160 + 2) (v0 + 2) ?s" by simp
      from "2.IH"(3) [OF p [symmetric] nc False fits _ this st "2.prems"(5)]
      obtain video' s' where s': "kprintf_loop fmt args (v0 + 2) ?s = Some (video', s')" "near st e' video' s'"
        "writes st 6000 ?m (vmem s')"
        using keep [OF args wm] unfolding vm by blast
      then show ?thesis using writes_trans [OF wm s'(3)] nc False by (auto simp: p)
    qed
  qed
qed

lemma kprintf_frame:
  assumes "near st e (videoCardPosition s) s" "fits l 1000 (map of_char fmt) e e'"
    and "args_ok l (screen_area st) (vmem s) (map of_char fmt) args" "unat st + 6000 < 2 ^ 64" "l \<le> 256"
  obtains s' where "kprintf fmt args s = Some s'" "near st e' (videoCardPosition s') s'"
    "writes st 6000 (vmem s) (vmem s')" "only_console s s'"
proof -
  obtain video s1 where s1: "kprintf_loop (map of_char fmt) args (videoCardPosition s) s = Some (video, s1)"
    "near st e' video s1" "writes st 6000 (vmem s) (vmem s1)"
    using kprintf_loop_frame [OF assms(2,3,1,4,5)] by blast
  let ?s = "check_end video (s1\<lparr>videoCardPosition := video\<rparr>)"
  have k: "kprintf fmt args s = Some ?s" using s1(1) by (simp add: kprintf_def)
  have e': "e' \<le> 1000" by (rule fits_bound [OF assms(2)])
  obtain k where kk: "video = st + of_nat k" "k \<le> 4000 + e'" "scrollForNextCall s1 \<noteq> 0 \<longleftrightarrow> 4000 \<le> k" "videoCardEnd s1 = st + 4000"
    using s1(2) by (auto simp: near_def)
  have "unat (st + of_nat k) = unat st + k" "unat (st + of_nat 4000) = unat st + 4000"
    by (rule screen_area_end [OF assms(4)]; use kk(2) e' in simp)+
  then have "st + 4000 \<le> video \<longleftrightarrow> 4000 \<le> k" by (simp add: kk(1) word_le_nat_alt)
  then have "scrollForNextCall ?s \<noteq> 0 \<longleftrightarrow> scrollForNextCall s1 \<noteq> 0" using kk(3,4) by (simp add: check_end_def)
  then have "near st e' (videoCardPosition ?s) ?s"
    using s1(2) by (simp add: near_def check_end_def)
  then show thesis using that k s1(3) kprintf_only [OF k] by (simp add: check_end_def)
qed

section \<open>Formats without strings\<close>

text \<open>Formats with \<open>n\<close> numbers or characters to print and no string: kprintf always returns.\<close>

fun numbers_format :: "u8 list \<Rightarrow> nat \<Rightarrow> bool" where
  "numbers_format [] n = True"
| "numbers_format (c # fmt) n =
     (if c = of_char CHR ''%''
      then (case fmt of [] \<Rightarrow> False
        | d # fmt' \<Rightarrow> d \<in> {of_char CHR ''c'', of_char CHR ''d'', of_char CHR ''x'', of_char CHR ''p''} \<and>
            0 < n \<and> numbers_format fmt' (n - 1))
      else numbers_format fmt n)"

lemma conversion_number:
  assumes "d \<in> {of_char CHR ''c'', of_char CHR ''d'', of_char CHR ''x'', of_char CHR ''p''}"
  shows "\<exists>m' video'. conversion d m video (a # args) = Some (m', video', args)"
  using assms by (auto simp: conversion.simps split: prod.splits)

lemma kprintf_loop_numbers:
  "numbers_format fmt (length args) \<Longrightarrow> \<exists>r. kprintf_loop fmt args video s = Some r"
proof (induction fmt args video s rule: kprintf_loop.induct)
  case (2 c fmt args video s)
  obtain v0 s0 where p: "pending_scroll video s = (v0, s0)" by (cases "pending_scroll video s")
  show ?case
  proof (cases "c = of_char CHR ''%''")
    case True
    then obtain d fmt' a as where f: "fmt = d # fmt'" "args = a # as" "numbers_format fmt' (length as)"
      "d \<in> {of_char CHR ''c'', of_char CHR ''d'', of_char CHR ''x'', of_char CHR ''p''}"
      using 2(4) by (cases fmt; cases args) auto
    obtain m v where c: "conversion d (vmem s0) v0 (a # as) = Some (m, v, as)"
      using conversion_number [OF f(4)] by blast
    have "\<exists>r. kprintf_loop fmt' as v (check_end v (s0\<lparr>vmem := m\<rparr>)) = Some r"
      using 2(1) [OF p [symmetric] True f(1) c [folded f(2)] refl refl f(3)] .
    then show ?thesis using c by (simp add: p True f(1,2))
  next
    case False
    then have n: "numbers_format fmt (length args)" using 2(4) by simp
    show ?thesis
      using 2(2) [OF p [symmetric] False] 2(3) [OF p [symmetric] False] n False
      by (cases "c = 10") (simp_all add: p Let_def)
  qed
qed simp

lemma kprintf_numbers:
  assumes "numbers_format (map of_char fmt) (length args)"
  obtains s' where "kprintf fmt args s = Some s'" "only_console s s'"
proof -
  obtain video s1 where "kprintf_loop (map of_char fmt) args (videoCardPosition s) s = Some (video, s1)"
    using kprintf_loop_numbers [OF assms] by (metis surj_pair)
  then have k: "kprintf fmt args s = Some (check_end video (s1\<lparr>videoCardPosition := video\<rparr>))"
    by (simp add: kprintf_def)
  then show ?thesis using kprintf_only that by blast
qed

end
