(* ===== verification/Handlers.thy ===== *)
theory Handlers
  imports Keyboard ScreenFrame Lines
begin

text \<open>
  The C side of the interrupt stubs (sys/isr.c): device interrupts, exceptions and system
  calls. The stubs of sys/isr.s and sys/irq.s save the registers, push the number of the
  interrupt and call these functions.
\<close>

section \<open>The code\<close>

text \<open>What the stubs leave on the stack for the handlers (include/sys/isr.h).\<close>

record registers =
  r15 :: u64
  r14 :: u64
  r13 :: u64
  r12 :: u64
  r11 :: u64
  r10 :: u64
  r9 :: u64
  r8 :: u64
  rsi :: u64
  rbp :: u64
  rdx :: u64
  rcx :: u64
  rbx :: u64
  rax :: u64
  rdi :: u64
  int_no :: u64
  err_code :: u64
  rip :: u64
  cs :: u64
  rflags :: u64
  useresp :: u64
  ss :: u64

text \<open>A handler that ends in an endless loop halts with the state it loops in.\<close>

datatype 's outcome = Returned 's | Halted 's

text \<open>\<open>cr2\<close> is what the processor left in that register.\<close>

definition page_fault_handler :: "u64 \<Rightarrow> 'a console_scheme \<Rightarrow> 'a console_scheme option" where
  "page_fault_handler cr2 s = do {
     s \<leftarrow> kprintf (''page fault'' @ [CHR 0x0A]) [] s;
     kprintf (''cr2 = %p'' @ [CHR 0x0A]) [cr2] s
   }"

text \<open>The table of messages, and \<open>messages\<close>, the addresses in it.\<close>

definition exception_messages :: "string list" where
  "exception_messages = [''Divide by Zero Exception'', ''Debug Exception'', ''NMI Exception'', ''Breakpoint Exception'',
     ''Into Detected Overflow Exception'', ''Out of bounds Exception'', ''Invalid Opcode Exception'',
     ''No Coprocessor Exception'', ''Double Fault Exception'', ''Coprocessor Segment Overrun Exception'',
     ''Bad TSS Exception'', ''Segment Not Present Exception'', ''Stack Fault Exception'',
     ''General Protection Fault Exception'', ''Page Fault Exception'', ''Unknown Interrupt Exception'',
     ''Coprocessor Fault Exception'', ''Alignment Check Exception (486+)'',
     ''Machine Check Exception (Pentium/586+)''] @ replicate 13 ''Reserved Exceptions''"

definition fault_handler ::
  "u64 \<Rightarrow> (nat \<Rightarrow> u64) \<Rightarrow> registers \<Rightarrow> 'a console_scheme \<Rightarrow> 'a console_scheme outcome option" where
  "fault_handler cr2 messages r s = do {
     s \<leftarrow> kprintf (''r->int_no = %d'' @ [CHR 0x0A]) [int_no r] s;
     if int_no r = 14 then do {
       s \<leftarrow> page_fault_handler cr2 s;
       Some (Returned (outb 0x20 0x20 s))
     } else if int_no r < 32 then do {
       s \<leftarrow> kprintf (''%s'' @ [CHR 0x0A]) [messages (unat (int_no r))] s;
       s \<leftarrow> (if int_no r = 13 then kprintf (''cr2 = %p'' @ [CHR 0x0A]) [cr2] s else Some s);
       s \<leftarrow> kprintf ('' Exception. System Halted!'' @ [CHR 0x0A]) [] s;
       Some (Halted s)
     } else Some (Returned (outb 0x20 0x20 s))
   }"

text \<open>\<open>key\<close> is what port 0x60 gives.\<close>

definition irq_handler :: "u8 \<Rightarrow> registers \<Rightarrow> 'a keyboard_scheme \<Rightarrow> 'a keyboard_scheme option" where
  "irq_handler key r s =
     (if int_no r = 32 then Some (outb 0x20 0x20 s)
      else do {
        s \<leftarrow> (if 40 \<le> int_no r then do {
                s \<leftarrow> kprintf ('' Exception. System Halted!'' @ [CHR 0x0A]) [] s;
                Some (outb 0xA0 0x20 s)
              } else Some s);
        s \<leftarrow> (if int_no r = 33 then keyboard_interrupt key s else Some s);
        Some (outb 0x20 0x20 s)
      })"

text \<open>
  System calls. \<open>exec_new_binary\<close> is the loader of sys/task.c, \<open>ls\<close> and \<open>bin_ls\<close> are the
  addresses of the literals, \<open>keys\<close> are the keys pressed while a line is awaited; those left
  are returned. The assembler statements behind the calls 2 and 5 move rax into a local
  variable and change nothing else.
\<close>

definition syscall_handler ::
  "(u64 \<Rightarrow> 'a keyboard_scheme \<Rightarrow> 'a keyboard_scheme option) \<Rightarrow> u64 \<Rightarrow> u64 \<Rightarrow> u8 list \<Rightarrow> registers \<Rightarrow>
    'a keyboard_scheme \<Rightarrow> (u8 list \<times> 'a keyboard_scheme) option" where
  "syscall_handler exec_new_binary ls bin_ls keys r s = do {
     let syscall_no = rax r;
     (keys, s) \<leftarrow>
       (if syscall_no = 1 then do { s \<leftarrow> kprintf ''%s'' [rdi r] s; Some (keys, s) }
        else if syscall_no = 2 then getstring (rdi r) keys s
        else if syscall_no = 3 then do {
          s \<leftarrow> kprintf (''in isr'' @ [CHR 0x0A, CHR 0x0A]) [] s;
          n \<leftarrow> strcmp (vmem s) (rdi r) ls;
          s \<leftarrow> (if n = 0 then exec_new_binary bin_ls s else Some s);
          Some (keys, s)
        }
        else if syscall_no = 5 then do { s \<leftarrow> kprintf ''/rootfs/bin/sbush'' [] s; Some (keys, s) }
        else Some (keys, s));
     Some (keys, outb 0x20 0x20 s)
   }"

section \<open>Device interrupts\<close>

lemma outb_ports [simp]: "ports (outb p v s) = ports s @ [(p, v)]"
  by (simp add: outb_def)

lemma kb_shows_outb [simp]: "kb_shows st (outb p v s) lt = kb_shows st s lt"
  by (simp add: kb_shows_def shows_terminal_def outb_def split: prod.splits)

text \<open>
  C26. Every device interrupt returns, and the controllers are told: the first one after each
  interrupt, the second one before that for its own lines. The keyboard's interrupt, which
  keyboard_interrupt has acknowledged already, is acknowledged twice, and its key goes to
  the line editor; the other lines leave the buffer of the keyboard alone.
\<close>

theorem device_interrupts_acknowledged:
  fixes s :: "'a keyboard_scheme"
  assumes "kb_shows st s (line, t)" "length line < 256" "unat st + 4096 < 2 ^ 64"
    and "32 \<le> int_no r" "int_no r < 48"
  shows "\<exists>s'. irq_handler key r s = Some s' \<and>
    ports s' = ports s @ (if int_no r = 33 then [(0x20, 0x20), (0x20, 0x20)]
      else if int_no r < 40 then [(0x20, 0x20)] else [(0xA0, 0x20), (0x20, 0x20)]) \<and>
    (if int_no r = 33 then kb_shows st s' (type_key key (line, t))
     else kb_buffer s' = kb_buffer s \<and> key_count s' = key_count s \<and> keyboard_flag s' = keyboard_flag s)"
proof -
  consider "int_no r = 33" | "int_no r = 32" | "int_no r \<noteq> 32" "int_no r \<noteq> 33" "int_no r < 40" | "40 \<le> int_no r"
    by fastforce
  then show ?thesis
  proof cases
    case 1
    obtain s' where "keyboard_interrupt key s = Some s'" "kb_shows st s' (type_key key (line, t))"
      "ports s' = ports s @ [(0x20, 0x20)]"
      using keyboard_interrupt_step [OF assms(1-3)] by blast
    then show ?thesis using 1 by (simp add: irq_handler_def kb_shows_outb)
  next
    case 4
    have "numbers_format (map of_char ('' Exception. System Halted!'' @ [CHR 0x0A])) (length ([] :: u64 list))"
      by simp
    then obtain s1 where s1: "kprintf ('' Exception. System Halted!'' @ [CHR 0x0A]) [] s = Some s1" "only_console s s1"
      by (rule kprintf_numbers)
    have "int_no r \<noteq> 32" "int_no r \<noteq> 33" using 4 by auto
    then show ?thesis
      using 4 s1(1) only_console_keyboard [OF s1(2)] by (simp add: irq_handler_def outb_def)
  next
    case 3
    then have "\<not> 40 \<le> int_no r" by simp
    then show ?thesis using 3 by (simp add: irq_handler_def outb_def)
  qed (simp add: irq_handler_def outb_def)
qed

definition blank_registers :: registers where
  "blank_registers = \<lparr>r15 = 0, r14 = 0, r13 = 0, r12 = 0, r11 = 0, r10 = 0, r9 = 0, r8 = 0, rsi = 0, rbp = 0,
     rdx = 0, rcx = 0, rbx = 0, rax = 0, rdi = 0, int_no = 0, err_code = 0, rip = 0, cs = 0, rflags = 0,
     useresp = 0, ss = 0\<rparr>"

lemma device_interrupts_acknowledged_witness:
  "\<exists>s'. irq_handler 0x1e (blank_registers\<lparr>int_no := 33\<rparr>) blank_keyboard = Some s' \<and>
    ports s' = ports blank_keyboard @ [(0x20, 0x20), (0x20, 0x20)] \<and> take 1 (kb_buffer s') = [97]"
proof -
  have "kb_shows 0xB8000 blank_keyboard ([], (\<lambda>_. 32, 0))"
    using blank_keyboard_shows by (simp add: kb_shows_def)
  then obtain s' where s': "irq_handler 0x1e (blank_registers\<lparr>int_no := 33\<rparr>) blank_keyboard = Some s'"
    "ports s' = ports blank_keyboard @ [(0x20, 0x20), (0x20, 0x20)]"
    "kb_shows 0xB8000 s' (type_key 0x1e ([], (\<lambda>_. 32, 0)))"
    using device_interrupts_acknowledged [of "0xB8000" blank_keyboard "[]" "(\<lambda>_. 32, 0)" "blank_registers\<lparr>int_no := 33\<rparr>" "0x1e"]
    by auto
  have "hex_to_char 0x1e = 97" by (simp add: hex_to_char_def key_at_def)
  then have "take 1 (kb_buffer s') = [97]" using s'(3) by (simp add: kb_shows_def split: prod.splits del: term_put.simps)
  then show ?thesis using s'(1,2) by blast
qed

section \<open>Exceptions\<close>

text \<open>The text an exception leaves on the terminal.\<close>

definition cr2_line :: "u64 \<Rightarrow> u8 list" where
  "cr2_line cr2 = map of_char ''cr2 = '' @ map ucast (pointer_text cr2) @ [10]"

definition fault_report :: "u64 \<Rightarrow> nat \<Rightarrow> u8 list" where
  "fault_report cr2 n = map of_char ''r->int_no = '' @ map ucast (decimal (int n)) @ [10] @
     (if n = 14 then map of_char (''page fault'' @ [CHR 0x0A]) @ cr2_line cr2
      else map of_char (exception_messages ! n) @ [10] @ (if n = 13 then cr2_line cr2 else []) @
        map of_char ('' Exception. System Halted!'' @ [CHR 0x0A]))"

lemma vector_text:
  assumes "k < 32"
  shows "length (decimal (int k)) \<le> 2" "10 \<notin> set (map ucast (decimal (int k)) :: u8 list)"
proof -
  have "list_all (\<lambda>k. length (decimal (int k)) \<le> 2 \<and> 10 \<notin> set (map ucast (decimal (int k)) :: u8 list)) [0..<32]"
    by (simp add: upt_rec decimal_def decimal_digits_def digits_step)
  then show "length (decimal (int k)) \<le> 2" "10 \<notin> set (map ucast (decimal (int k)) :: u8 list)"
    using assms by (auto simp: list_all_iff)
qed

lemma pointer_text_line: "10 \<notin> set (map ucast (pointer_text a) :: u8 list)"
proof -
  have "list_all (\<lambda>d. ucast (digit_char (of_nat d)) \<noteq> (10 :: u8)) [0..<16]"
    by (simp add: upt_rec digit_char_def)
  then have "ucast (digit_char (of_nat d)) \<noteq> (10 :: u8)" if "d < 16" for d using that by (auto simp: list_all_iff)
  then show ?thesis using digits_less [of 16 _ "unat a"] by (force simp: pointer_text_def digit_text_def)
qed

lemma message_line:
  "n < 32 \<Longrightarrow> length (exception_messages ! n) < 80 \<and> 10 \<notin> set (map of_char (exception_messages ! n) :: u8 list)"
proof -
  assume "n < 32"
  then have "exception_messages ! n \<in> set exception_messages" by (intro nth_mem) (simp add: exception_messages_def)
  moreover have "\<forall>m \<in> set exception_messages. length m < 80 \<and> 10 \<notin> set (map of_char m :: u8 list)"
    by (simp add: exception_messages_def)
  ultimately show ?thesis by blast
qed

text \<open>The lines of the report, each from a cursor that leaves room for it.\<close>

lemma says_vector:
  assumes sh: "shows_terminal st (videoCardPosition s) s t" "unat st + 4096 < 2 ^ 64"
    and col: "snd t mod 80 < 66" and n: "n < 32"
  shows "\<exists>s'. kprintf (''r->int_no = %d'' @ [CHR 0x0A]) [of_nat n] s = Some s' \<and>
    says st s t (map of_char ''r->int_no = '' @ map ucast (decimal (int n)) @ [10]) s'"
proof -
  have "''r->int_no = %d'' @ [CHR 0x0A] = ''r->int_no = '' @ CHR ''%'' # CHR ''d'' # [CHR 0x0A]" by simp
  moreover have "prints st (vmem s) (of_char CHR ''d'') (of_nat n) (decimal (int n))
      (if n = 0 then 0 else length (decimal (int n)))"
    by (rule prints_decimal) (use n in simp)
  moreover have "snd t mod 80 + length ''r->int_no = '' + length (decimal (int n)) < 80"
    using col vector_text(1) [OF n] by simp
  ultimately show ?thesis
    by (simp only:) (rule says_line [OF sh _ _ _ vector_text(2) [OF n]], simp_all)
qed

lemma says_cr2:
  assumes sh: "shows_terminal st (videoCardPosition s) s t" "unat st + 4096 < 2 ^ 64" and "snd t mod 80 = 0"
  shows "\<exists>s'. kprintf (''cr2 = %p'' @ [CHR 0x0A]) [cr2] s = Some s' \<and> says st s t (cr2_line cr2) s'"
proof -
  have "''cr2 = %p'' @ [CHR 0x0A] = ''cr2 = '' @ CHR ''%'' # CHR ''p'' # [CHR 0x0A]" by simp
  moreover have "snd t mod 80 + length ''cr2 = '' + length (pointer_text cr2) < 80"
    using assms(3) length_pointer_text [of cr2] by simp
  ultimately show ?thesis
    unfolding cr2_line_def by (simp only:) (rule says_line [OF sh _ _ prints_pointer pointer_text_line], simp_all)
qed

lemma says_message:
  assumes sh: "shows_terminal st (videoCardPosition s) s t" "unat st + 4096 < 2 ^ 64" and "snd t mod 80 = 0"
    and n: "n < 32" and str: "cstr (vmem s) p (map of_char (exception_messages ! n))"
      "region p (Suc (length (exception_messages ! n))) \<inter> region st 4001 = {}"
  shows "\<exists>s'. kprintf (''%s'' @ [CHR 0x0A]) [p] s = Some s' \<and>
    says st s t (map of_char (exception_messages ! n) @ [10]) s'"
proof -
  let ?m = "map of_char (exception_messages ! n) :: u8 list"
  have len: "length ?m < 80" and nl: "10 \<notin> set ?m" using message_line [OF n] by simp_all
  have p: "prints st (vmem s) (of_char CHR ''s'') p (map ucast ?m) (length ?m)"
    by (rule prints_string [OF str(1)]) (use len str(2) in simp_all)
  have u: "map ucast (map ucast ?m :: cint list) = ?m" by (simp add: u8_cint_u8)
  have "snd t mod 80 + length [] + length (map ucast ?m :: cint list) < 80" using assms(3) len by simp
  from says_line [OF sh _ _ p _ this] nl show ?thesis unfolding u by simp
qed

lemma page_fault_says:
  assumes sh: "shows_terminal st (videoCardPosition s) s t" and st: "unat st + 4096 < 2 ^ 64"
  shows "\<exists>s'. page_fault_handler cr2 s = Some s' \<and>
    says st s t (map of_char (''page fault'' @ [CHR 0x0A]) @ cr2_line cr2) s'"
proof -
  obtain s1 where s1: "kprintf (''page fault'' @ [CHR 0x0A]) [] s = Some s1"
    "says st s t (map of_char (''page fault'' @ [CHR 0x0A])) s1"
    using says_plain [OF sh st, of "''page fault'' @ [CHR 0x0A]"] by auto
  have "map of_char (''page fault'' @ [CHR 0x0A]) = map of_char ''page fault'' @ [10 :: u8]" by simp
  then have "snd (fold term_put (map of_char (''page fault'' @ [CHR 0x0A])) t) mod 80 = 0" by (simp only: line_column)
  from says_cr2 [OF says_shows [OF s1(2)] st this] obtain s2 where
    s2: "kprintf (''cr2 = %p'' @ [CHR 0x0A]) [cr2] s1 = Some s2"
    "says st s1 (fold term_put (map of_char (''page fault'' @ [CHR 0x0A])) t) (cr2_line cr2) s2" by blast
  have "page_fault_handler cr2 s = Some s2" unfolding page_fault_handler_def s1(1) using s2(1) by simp
  then show ?thesis using says_trans [OF s1(2) s2(2)] by blast
qed

lemma halt_says:
  assumes sh: "shows_terminal st (videoCardPosition s) s t" and st: "unat st + 4096 < 2 ^ 64" and col: "snd t mod 80 = 0"
  shows "\<exists>s1 s2. (if v = 13 then kprintf (''cr2 = %p'' @ [CHR 0x0A]) [cr2] s else Some s) = Some s1 \<and>
    kprintf ('' Exception. System Halted!'' @ [CHR 0x0A]) [] s1 = Some s2 \<and>
    says st s t ((if v = (13 :: u64) then cr2_line cr2 else []) @ map of_char ('' Exception. System Halted!'' @ [CHR 0x0A])) s2"
proof -
  obtain s1 where s1: "(if v = 13 then kprintf (''cr2 = %p'' @ [CHR 0x0A]) [cr2] s else Some s) = Some s1"
    "says st s t (if v = 13 then cr2_line cr2 else []) s1"
  proof (cases "v = 13")
    case True
    then show ?thesis using says_cr2 [OF sh st col, of cr2] that by auto
  next
    case False
    have "says st s t [] s" using sh by (simp add: says_def screen_only_def)
    then show ?thesis using False that by simp
  qed
  obtain s2 where "kprintf ('' Exception. System Halted!'' @ [CHR 0x0A]) [] s1 = Some s2"
    "says st s1 (fold term_put (if v = 13 then cr2_line cr2 else []) t) (map of_char ('' Exception. System Halted!'' @ [CHR 0x0A])) s2"
    using says_plain [OF says_shows [OF s1(2)] st, of "'' Exception. System Halted!'' @ [CHR 0x0A]"] by auto
  then show ?thesis using s1(1) says_trans [OF s1(2)] by blast
qed

lemma fault_handler_says:
  assumes sh: "shows_terminal st (videoCardPosition s) s t" and st: "unat st + 4096 < 2 ^ 64" and col: "snd t mod 80 < 66"
    and n: "int_no r = of_nat n" "n < 32"
    and str: "n \<noteq> 14 \<Longrightarrow> cstr (vmem s) (messages n) (map of_char (exception_messages ! n))"
      "n \<noteq> 14 \<Longrightarrow> region (messages n) (Suc (length (exception_messages ! n))) \<inter> region st 4001 = {}"
  shows "\<exists>s'. fault_handler cr2 messages r s = Some (if n = 14 then Returned (outb 0x20 0x20 s') else Halted s') \<and>
    says st s t (fault_report cr2 n) s'"
proof -
  have iff: "int_no r = of_nat k \<longleftrightarrow> n = k" if "k < 32" for k
    unfolding n(1) by (rule of_nat_u64_eq_iff) (use that n(2) in simp_all)
  have u: "unat (int_no r) = n" unfolding n(1) using n(2) by (simp add: unat_of_nat)
  let ?l1 = "map of_char ''r->int_no = '' @ map ucast (decimal (int n)) @ [10] :: u8 list"
  obtain s1 where s1: "kprintf (''r->int_no = %d'' @ [CHR 0x0A]) [int_no r] s = Some s1" "says st s t ?l1 s1"
    using says_vector [OF sh st col n(2)] unfolding n(1) by blast
  note sh1 = says_shows [OF s1(2)]
  have c1: "snd (fold term_put ?l1 t) mod 80 = 0" unfolding append_assoc [symmetric] by (rule line_column)
  show ?thesis
  proof (cases "n = 14")
    case True
    obtain s2 where s2: "page_fault_handler cr2 s1 = Some s2"
      "says st s1 (fold term_put ?l1 t) (map of_char (''page fault'' @ [CHR 0x0A]) @ cr2_line cr2) s2"
      using page_fault_says [OF sh1 st] by blast
    have "fault_handler cr2 messages r s = Some (Returned (outb 0x20 0x20 s2))"
      unfolding fault_handler_def s1(1) using iff [of 14] True s2(1) by simp
    moreover have "fault_report cr2 n = ?l1 @ map of_char (''page fault'' @ [CHR 0x0A]) @ cr2_line cr2"
      unfolding fault_report_def by (simp only: True refl if_True append_assoc)
    ultimately show ?thesis using says_trans [OF s1(2) s2(2)] True by auto
  next
    case False
    let ?l2 = "map of_char (exception_messages ! n) @ [10] :: u8 list"
    note m = str [OF False]
    have "cstr (vmem s1) (messages n) (map of_char (exception_messages ! n))"
      by (rule cstr_region_cong [OF m(1)])
        (use m(2) s1(2) message_line [OF n(2)] in \<open>auto simp: says_def screen_only_def\<close>)
    from says_message [OF sh1 st c1 n(2) this m(2)] obtain s2 where
      s2: "kprintf (''%s'' @ [CHR 0x0A]) [messages n] s1 = Some s2" "says st s1 (fold term_put ?l1 t) ?l2 s2" by blast
    from halt_says [OF says_shows [OF s2(2)] st line_column, of "int_no r" cr2] obtain s3 s4 where
      s4: "(if int_no r = 13 then kprintf (''cr2 = %p'' @ [CHR 0x0A]) [cr2] s2 else Some s2) = Some s3"
      "kprintf ('' Exception. System Halted!'' @ [CHR 0x0A]) [] s3 = Some s4"
      "says st s2 (fold term_put ?l2 (fold term_put ?l1 t)) ((if int_no r = 13 then cr2_line cr2 else []) @
         map of_char ('' Exception. System Halted!'' @ [CHR 0x0A])) s4" by (elim exE conjE) (rule that)
    have "int_no r < 32" unfolding word_less_nat_alt u using n(2) by simp
    then have "fault_handler cr2 messages r s = Some (Halted s4)"
      unfolding fault_handler_def s1(1) u using iff [of 14] False s2(1) s4(1,2) by simp
    moreover have "fault_report cr2 n = ?l1 @ ?l2 @ (if int_no r = 13 then cr2_line cr2 else []) @
        map of_char ('' Exception. System Halted!'' @ [CHR 0x0A])"
      using iff [of 13] unfolding fault_report_def by (simp only: False if_False append_assoc) simp
    ultimately show ?thesis using says_trans [OF s1(2) says_trans [OF s2(2) s4(3)]] False by auto
  qed
qed

text \<open>
  C27. Exceptions, on a screen whose row has room for the first line and with the table of messages
  in memory: fault_handler has a result for every exception, and writes its report, the text of
  \<open>fault_report\<close>, on the screen, all that it changes in memory but for the one byte behind the
  screen. A page fault is reported with the address in cr2 and the handler returns to
  the instruction that faulted after one acknowledgement to the first controller, which did
  not ask for it. Every other exception is reported with its message, a general protection
  fault also with cr2, and halts in the endless loop without touching a port.
\<close>

theorem exceptions_halt_but_page_faults:
  fixes s :: "'a console_scheme"
  assumes "int_no r < 32" and sh: "shows_terminal st (videoCardPosition s) s t" "unat st + 4096 < 2 ^ 64"
    and col: "snd t mod 80 < 66"
    and msg: "m = exception_messages ! unat (int_no r)" and p: "p = messages (unat (int_no r))"
    and str: "int_no r \<noteq> 14 \<Longrightarrow> cstr (vmem s) p (map of_char m) \<and> region p (Suc (length m)) \<inter> region st 4001 = {}"
  shows "\<exists>s'. fault_handler cr2 messages r s = Some (if int_no r = 14 then Returned s' else Halted s') \<and>
    ports s' = ports s @ (if int_no r = 14 then [(0x20, 0x20)] else []) \<and>
    shows_terminal st (videoCardPosition s') s' (fold term_put (fault_report cr2 (unat (int_no r))) t) \<and>
    (\<forall>b. b \<notin> region st 4001 \<longrightarrow> vmem s' b = vmem s b)"
proof -
  let ?n = "unat (int_no r)"
  have n: "int_no r = of_nat ?n" "?n < 32" using assms(1) by (simp_all add: word_less_nat_alt)
  have iff: "?n = 14 \<longleftrightarrow> int_no r = 14" by (simp add: word_unat_eq_iff)
  obtain s' where s': "fault_handler cr2 messages r s =
      Some (if int_no r = 14 then Returned (outb 0x20 0x20 s') else Halted s')" "says st s t (fault_report cr2 ?n) s'"
    using fault_handler_says [OF sh col n, of messages cr2] str unfolding msg p iff by auto
  have sh': "shows_terminal st (videoCardPosition (outb v w s')) (outb v w s') = shows_terminal st (videoCardPosition s') s'" for v w
    by (simp add: fun_eq_iff shows_terminal_def outb_def)
  have keep: "vmem (outb v w s') = vmem s'" for v w by (simp add: outb_def)
  show ?thesis
    by (intro exI [of _ "if int_no r = 14 then outb 0x20 0x20 s' else s'"])
      (cases "int_no r = 14"; use s' keep in \<open>simp add: says_def screen_only_def sh'\<close>)
qed

text \<open>A console whose memory has the message of a general protection fault at 0x5000.\<close>

definition fault_console :: console where
  "fault_console = blank_console\<lparr>vmem := put_bytes 0x5000 (map of_char (exception_messages ! 13) @ [0]) (vmem blank_console)\<rparr>"

lemma fault_console_simps [simp]:
  "videoCardEnd fault_console = 0xB8FA0" "videoCardStart fault_console = 0xB8000"
  "videoCardPosition fault_console = 0xB8000" "scrollForNextCall fault_console = 0" "ports fault_console = []"
  by (simp_all add: fault_console_def blank_console_def boot_segments_def segments.defs console.defs)

lemma fault_message:
  "length (map of_char (exception_messages ! 13) @ [0 :: u8]) = 35" "length (exception_messages ! 13) = 34"
  by (simp_all add: exception_messages_def)

lemma fault_console_shows: "shows_terminal 0xB8000 (videoCardPosition fault_console) fault_console (\<lambda>_. 32, 0)"
proof -
  have "vmem fault_console (0xB8000 + of_nat (2 * i)) = 32" if "i < 2000" for i
  proof -
    have u: "unat (0xB8000 + of_nat (2 * i) :: u64) = 0xB8000 + 2 * i" using at_screen [of "0xB8000" "2 * i"] that by simp
    have "0xB8000 + of_nat (2 * i) \<notin> region 0x5000 35"
    proof
      assume "0xB8000 + of_nat (2 * i) \<in> region 0x5000 35"
      then obtain j where j: "j < 35" "0xB8000 + of_nat (2 * i) = (0x5000 + of_nat j :: u64)" by (rule regionE)
      have "unat (0x5000 + of_nat j :: u64) = 0x5000 + j" using unat_add_no_wrap [of "0x5000" j] j(1) by simp
      moreover have "unat (0xB8000 + of_nat (2 * i) :: u64) = unat (0x5000 + of_nat j :: u64)" by (rule arg_cong [OF j(2)])
      ultimately show False using j(1) unfolding u by linarith
    qed
    then have "vmem fault_console (0xB8000 + of_nat (2 * i)) = vmem blank_console (0xB8000 + of_nat (2 * i))"
      using put_bytes_frame [of _ "0x5000" "map of_char (exception_messages ! 13) @ [0]"] fault_message(1)
      by (simp add: fault_console_def del: of_nat_mult)
    then show ?thesis using u by (simp add: word_less_nat_alt del: of_nat_mult)
  qed
  then show ?thesis by (simp add: shows_terminal_def del: of_nat_mult)
qed

lemma exceptions_halt_but_page_faults_witness:
  "(\<exists>s'. fault_handler 0xdead000 (\<lambda>_. 0x5000) (blank_registers\<lparr>int_no := 14\<rparr>) fault_console = Some (Returned s') \<and>
      ports s' = [(0x20, 0x20)]) \<and>
    (\<exists>s'. fault_handler 0xdead000 (\<lambda>_. 0x5000) (blank_registers\<lparr>int_no := 13\<rparr>) fault_console = Some (Halted s') \<and>
      ports s' = [] \<and> shows_terminal 0xB8000 (videoCardPosition s') s' (fold term_put (fault_report 0xdead000 13) (\<lambda>_. 32, 0)))"
proof (intro conjI)
  have st: "unat (0xB8000 :: u64) + 4096 < 2 ^ 64" by simp
  have thirteen: "int_no (blank_registers\<lparr>int_no := 13\<rparr>) < 32" and fourteen: "int_no (blank_registers\<lparr>int_no := 14\<rparr>) < 32"
    by simp_all
  show "\<exists>s'. fault_handler 0xdead000 (\<lambda>_. 0x5000) (blank_registers\<lparr>int_no := 14\<rparr>) fault_console = Some (Returned s') \<and>
      ports s' = [(0x20, 0x20)]"
    using exceptions_halt_but_page_faults [OF fourteen fault_console_shows st _ refl refl, of "\<lambda>_. 0x5000" "0xdead000"] by auto
  have "cstr (vmem fault_console) 0x5000 (map of_char (exception_messages ! 13))"
    unfolding fault_console_def by (simp add: exception_messages_def)
  moreover have "region 0x5000 (Suc (length (exception_messages ! 13))) \<inter> region 0xB8000 4001 = {}"
    unfolding fault_message by (rule region_disjointI) simp_all
  ultimately show "\<exists>s'. fault_handler 0xdead000 (\<lambda>_. 0x5000) (blank_registers\<lparr>int_no := 13\<rparr>) fault_console = Some (Halted s') \<and>
      ports s' = [] \<and> shows_terminal 0xB8000 (videoCardPosition s') s' (fold term_put (fault_report 0xdead000 13) (\<lambda>_. 32, 0))"
    using exceptions_halt_but_page_faults [OF thirteen fault_console_shows st _ refl refl, of "\<lambda>_. 0x5000" "0xdead000"]
    by (auto simp del: term_put.simps)
qed

end
