(* ===== verification/Tarfs.thy ===== *)
theory Tarfs
  imports CString MathLib Screen
begin

text \<open>
  The archive of sys/tarfs.c: a tar file linked into the kernel, the table \<open>vfs\<close> that
  tarfs_init builds of its entries, and the searches of both. Opening a file, which
  allocates memory, is with the loader.

  The archive, the table, the string literals and the local arrays of the functions are all
  objects in the kernel's memory, the memory kprintf writes the screen in. Their addresses
  are chosen by the linker and the compiler, so the functions take them as an argument.
\<close>

section \<open>Addresses\<close>

text \<open>
  \<open>root_directory\<close> is the address of the literal of that variable, an empty string, and
  \<open>root_directory_name\<close> the one of ''/rootfs/''.
\<close>

record places =
  binary_tarfs_start :: u64
  binary_tarfs_end :: u64
  vfs :: u64
  slash :: u64
  root_directory :: u64
  root_directory_name :: u64
  fname :: u64
  local_name :: u64

text \<open>The fields of a tar header, 512 bytes long, that the code uses (include/sys/tarfs.h).\<close>

definition header_size :: "u64 \<Rightarrow> u64" where "header_size p = p + 124"
definition header_typeflag :: "u64 \<Rightarrow> u64" where "header_typeflag p = p + 156"

text \<open>An element of \<open>vfs\<close>: 168 bytes, the name first.\<close>

definition slot_at :: "places \<Rightarrow> cint \<Rightarrow> u64" where "slot_at l i = vfs l + 168 * scast i"
definition slot_parent :: "u64 \<Rightarrow> u64" where "slot_parent a = a + 128"
definition slot_size :: "u64 \<Rightarrow> u64" where "slot_size a = a + 136"
definition slot_type :: "u64 \<Rightarrow> u64" where "slot_type a = a + 144"
definition slot_address :: "u64 \<Rightarrow> u64" where "slot_address a = a + 152"
definition slot_index :: "u64 \<Rightarrow> u64" where "slot_index a = a + 160"
definition slot_offset :: "u64 \<Rightarrow> u64" where "slot_offset a = a + 164"

record archive = console +
  vfs_pointer :: cint

section \<open>The table\<close>

definition assign_vfs_slot ::
  "places \<Rightarrow> cint \<Rightarrow> u64 \<Rightarrow> cint \<Rightarrow> u64 \<Rightarrow> cint \<Rightarrow> u64 \<Rightarrow> cint \<Rightarrow> mem \<Rightarrow> mem option" where
  "assign_vfs_slot l nindex nname nparent nsize ntype naddress noffset m = do {
     m \<leftarrow> strcpy m (slot_at l nindex) nname;
     let a = slot_at l nindex;
     let m = store32 m (slot_parent a) nparent;
     let m = store64 m (slot_size a) nsize;
     let m = store32 m (slot_type a) ntype;
     let m = store64 m (slot_address a) naddress;
     let m = store32 m (slot_index a) nindex;
     Some (store32 m (slot_offset a) noffset)
   }"

text \<open>The index runs from below the length of the name, an \<open>int\<close>, down to -1.\<close>

function slice_loop :: "mem \<Rightarrow> u64 \<Rightarrow> int \<Rightarrow> cint \<Rightarrow> int" where
  "slice_loop m file_name i slice_count =
     (if 0 \<le> i \<and> slice_count \<noteq> 0
      then slice_loop m file_name (i - 1)
        (if m (file_name + of_int i) = of_char CHR ''/'' then slice_count - 1 else slice_count)
      else i)"
  by pat_completeness auto
termination
  by (relation "measure (\<lambda>(m, file_name, i, slice_count). nat (i + 1))") auto

declare slice_loop.simps [simp del]

lemma cint_Suc_closer: "sint (i :: cint) < sint (n :: cint) \<Longrightarrow> nat (sint n - sint (i + 1)) < nat (sint n - sint i)"
proof -
  assume "sint i < sint n"
  moreover have "sint n < 2 ^ 31" "- (2 ^ 31) \<le> sint i" using sint_lt [of n] sint_ge [of i] by simp_all
  ultimately have "sint (i + 1) = sint i + 1"
    by (simp add: sint_word_ariths signed_take_bit_int_eq_self)
  with \<open>sint i < sint n\<close> show ?thesis by simp
qed

function parent_loop :: "places \<Rightarrow> mem \<Rightarrow> cint \<Rightarrow> cint \<Rightarrow> cint option" where
  "parent_loop l m n i =
     (if sint i < sint n
      then do {
        c \<leftarrow> strcmp m (fname l) (slot_at l i);
        if c = 0 then Some i else parent_loop l m n (i + 1)
      }
      else Some (- 2))"
  by pat_completeness auto
termination
  by (relation "measure (\<lambda>(l, m, n, i). nat (sint n - sint i))") (auto simp: cint_Suc_closer simp del: zless_nat_conj)

declare parent_loop.simps [simp del]

definition get_parent_index ::
  "places \<Rightarrow> u64 \<Rightarrow> cint \<Rightarrow> 'a archive_scheme \<Rightarrow> (cint \<times> 'a archive_scheme) option" where
  "get_parent_index l file_name slice_count s = do {
     length \<leftarrow> strlen (vmem s) file_name;
     let i = slice_loop (vmem s) file_name (sint length - 1) slice_count;
     let i = (if slice_count = 1 \<or> slice_count = 2 then i + 1 else i);
     if i \<le> - 1 then Some (- 1, s)
     else do {
       let m = strsubcpy (vmem s) (fname l) file_name 0 (word_of_int (i + 1));
       let m = m(fname l + of_int (i + 1) := 0);
       r \<leftarrow> parent_loop l m (vfs_pointer s) 0;
       Some (r, s\<lparr>vmem := m\<rparr>)
     }
   }"

text \<open>The name of an entry with /rootfs/ before it, in the local array.\<close>

definition rooted_name :: "places \<Rightarrow> u64 \<Rightarrow> mem \<Rightarrow> mem option" where
  "rooted_name l name m = do {
     m \<leftarrow> strcpy m (local_name l) name;
     m \<leftarrow> strrevcat m (local_name l) (root_directory l);
     strcpy m (local_name l) (root_directory l)
   }"

text \<open>
  One round of the loop of tarfs_init: what it leaves for the next round is the state,
  the offset and the header.
\<close>

definition tarfs_entry ::
  "places \<Rightarrow> cint \<Rightarrow> u64 \<Rightarrow> 'a archive_scheme \<Rightarrow> (cint \<times> u64 \<times> 'a archive_scheme) option" where
  "tarfs_entry l offset p s = do {
     m \<leftarrow> strcpy (vmem s) (root_directory l) (root_directory_name l);
     let file_size = (scast (oct2bin m (header_size p) 11) :: u64);
     let file_typeflag = m (header_typeflag p);
     m \<leftarrow> rooted_name l p m;
     let s = s\<lparr>vmem := m\<rparr>;
     s \<leftarrow> kprintf '' name=%s '' [local_name l] s;
     s \<leftarrow> kprintf (''size = %d'' @ [CHR 0x0A]) [file_size] s;
     let address = p + file_size;
     let offset = (if file_size = 0 \<or> file_size mod 512 = 0
       then ucast (scast offset + (file_size + 512))
       else ucast (scast offset + (file_size + (512 - file_size mod 512) + 512)) :: cint);
     s \<leftarrow>
       (if file_typeflag = of_char CHR ''0'' then do {
          (parent_index, s) \<leftarrow> get_parent_index l (local_name l) 1 s;
          m \<leftarrow> assign_vfs_slot l (vfs_pointer s) (local_name l) parent_index file_size (scast file_typeflag) address offset (vmem s);
          Some (s\<lparr>vmem := m, vfs_pointer := vfs_pointer s + 1\<rparr>)
        }
        else if file_typeflag = of_char CHR ''5'' then do {
          (parent_index, s) \<leftarrow> get_parent_index l (local_name l) 2 s;
          m \<leftarrow> assign_vfs_slot l (vfs_pointer s) (local_name l) parent_index file_size (scast file_typeflag) address offset (vmem s);
          Some (s\<lparr>vmem := m, vfs_pointer := vfs_pointer s + 1\<rparr>)
        }
        else Some s);
     let file_number = (ucast ((file_size + 511) div 512 + 1) :: cint);
     let file_number = (if file_typeflag = 0 then file_number + 1 else file_number);
     Some (offset, p + 512 * scast file_number, s)
   }"

partial_function (option) tarfs_loop ::
  "places \<Rightarrow> cint \<Rightarrow> u64 \<Rightarrow> 'a archive_scheme \<Rightarrow> 'a archive_scheme option" where
  "tarfs_loop l offset p s =
     (if p < binary_tarfs_end l
      then do {
        n \<leftarrow> strlen (vmem s) p;
        if n \<noteq> 0
        then do {
          (offset, p, s) \<leftarrow> tarfs_entry l offset p s;
          tarfs_loop l offset p s
        }
        else Some s
      }
      else Some s)"

definition tarfs_init :: "places \<Rightarrow> 'a archive_scheme \<Rightarrow> 'a archive_scheme option" where
  "tarfs_init l s = do {
     m \<leftarrow> assign_vfs_slot l 0 (slash l) (- 1) 0 5 0 0 (vmem s);
     m \<leftarrow> assign_vfs_slot l 1 (root_directory_name l) 0 0 5 0 512 m;
     tarfs_loop l 512 (binary_tarfs_start l) (s\<lparr>vmem := m, vfs_pointer := 2\<rparr>)
   }"

section \<open>Searching the table\<close>

text \<open>The loop of print_vfs before this one has an empty body.\<close>

function print_vfs_loop :: "places \<Rightarrow> cint \<Rightarrow> 'a archive_scheme \<Rightarrow> cint \<Rightarrow> 'a archive_scheme option" where
  "print_vfs_loop l n s i =
     (if sint i < sint n
      then do {
        let a = slot_at l i;
        s \<leftarrow> kprintf (''Name = %s, offset = %d, size = %d'' @ [CHR 0x0A])
          [a, ucast (load32 (vmem s) (slot_offset a)), load64 (vmem s) (slot_size a)] s;
        print_vfs_loop l n s (i + 1)
      }
      else Some s)"
  by pat_completeness auto
termination
  by (relation "measure (\<lambda>(l, n, s, i). nat (sint n - sint i))") (auto simp: cint_Suc_closer simp del: zless_nat_conj)

declare print_vfs_loop.simps [simp del]

definition print_vfs :: "places \<Rightarrow> 'a archive_scheme \<Rightarrow> 'a archive_scheme option" where
  "print_vfs l s = print_vfs_loop l (vfs_pointer s) s 0"

text \<open>The comparison comes before the check of the index.\<close>

function lookup_loop :: "places \<Rightarrow> mem \<Rightarrow> u64 \<Rightarrow> cint \<Rightarrow> cint \<Rightarrow> cint option" where
  "lookup_loop l m filename n index = do {
     c \<leftarrow> strcmp m (slot_at l index) filename;
     if c \<noteq> 0 \<and> sint index < sint n then lookup_loop l m filename n (index + 1) else Some index
   }"
  by pat_completeness auto
termination
  by (relation "measure (\<lambda>(l, m, filename, n, index). nat (sint n - sint index))")
    (auto simp: cint_Suc_closer simp del: zless_nat_conj)

declare lookup_loop.simps [simp del]

definition tar_lookup :: "places \<Rightarrow> u64 \<Rightarrow> 'a archive_scheme \<Rightarrow> u64 option" where
  "tar_lookup l filename s = do {
     index \<leftarrow> lookup_loop l (vmem s) filename (vfs_pointer s) 0;
     if sint index < sint (vfs_pointer s) then Some (load64 (vmem s) (slot_address (slot_at l index))) else Some 0
   }"

definition tar_get_index :: "places \<Rightarrow> u64 \<Rightarrow> 'a archive_scheme \<Rightarrow> cint option" where
  "tar_get_index l filename s = do {
     index \<leftarrow> lookup_loop l (vmem s) filename (vfs_pointer s) 0;
     if sint index < sint (vfs_pointer s) then Some index else Some (- 1)
   }"

function ls_loop ::
  "places \<Rightarrow> cint \<Rightarrow> cint \<Rightarrow> cint \<Rightarrow> 'a archive_scheme \<Rightarrow> cint \<Rightarrow> (cint \<times> 'a archive_scheme) option" where
  "ls_loop l n parent_index file_count s index =
     (if sint index < sint n
      then do {
        (file_count, s) \<leftarrow>
          (if load32 (vmem s) (slot_parent (slot_at l index)) = parent_index
           then do {
             s \<leftarrow> kprintf (''%d %s'' @ [CHR 0x0A]) [ucast file_count, slot_at l index] s;
             Some (file_count + 1, s)
           }
           else Some (file_count, s));
        ls_loop l n parent_index file_count s (index + 1)
      }
      else Some (file_count, s))"
  by pat_completeness auto
termination
  by (relation "measure (\<lambda>(l, n, parent_index, file_count, s, index). nat (sint n - sint index))")
    (auto simp: cint_Suc_closer simp del: zless_nat_conj)

declare ls_loop.simps [simp del]

definition tar_ls :: "places \<Rightarrow> u64 \<Rightarrow> 'a archive_scheme \<Rightarrow> (u64 \<times> 'a archive_scheme) option" where
  "tar_ls l filename s = do {
     parent_index \<leftarrow> tar_get_index l filename s;
     (file_count, s) \<leftarrow> ls_loop l (vfs_pointer s) parent_index 0 s 0;
     Some (scast file_count, s)
   }"

section \<open>Searching the archive\<close>

text \<open>The bytes get_file_offset finds are not used: it tries every offset and returns 0.\<close>

partial_function (option) file_offset_loop ::
  "places \<Rightarrow> cint \<Rightarrow> u64 \<Rightarrow> 'a archive_scheme \<Rightarrow> (cint \<times> 'a archive_scheme) option" where
  "file_offset_loop l offset p s =
     (if p \<le> binary_tarfs_end l
      then do {
        m \<leftarrow> strcpy (vmem s) (root_directory l) (root_directory_name l);
        m \<leftarrow> rooted_name l p m;
        let offset = offset + 1;
        file_offset_loop l offset (binary_tarfs_start l + scast offset) (s\<lparr>vmem := m\<rparr>)
      }
      else Some (0, s))"

definition get_file_offset ::
  "places \<Rightarrow> u64 \<Rightarrow> 'a archive_scheme \<Rightarrow> (cint \<times> 'a archive_scheme) option" where
  "get_file_offset l filename s = do {
     s \<leftarrow> kprintf (''filename = %s'' @ [CHR 0x0A]) [filename] s;
     file_offset_loop l 0 (binary_tarfs_start l) s
   }"

partial_function (option) test_offset_loop ::
  "places \<Rightarrow> u64 \<Rightarrow> cint \<Rightarrow> u64 \<Rightarrow> 'a archive_scheme \<Rightarrow> (cint \<times> 'a archive_scheme) option" where
  "test_offset_loop l filename offset p s =
     (if p \<le> binary_tarfs_end l
      then do {
        let p = binary_tarfs_start l + scast offset;
        let file_size = (scast (oct2bin (vmem s) (header_size p) 11) :: u64);
        m \<leftarrow> strcpy (vmem s) (root_directory l) (root_directory_name l);
        m \<leftarrow> rooted_name l p m;
        s \<leftarrow> kprintf (''name = %s %s'' @ [CHR 0x0A]) [local_name l, filename] (s\<lparr>vmem := m\<rparr>);
        c \<leftarrow> strcmp (vmem s) (local_name l) filename;
        if c = 0 then Some (offset + 512, s)
        else test_offset_loop l filename
          (if file_size = 0 then offset + 512
           else if file_size mod 512 = 0 then ucast (scast offset + (file_size + 512))
           else ucast (scast offset + (file_size + (512 - file_size mod 512) + 512))) p s
      }
      else Some (0, s))"

definition test_offset ::
  "places \<Rightarrow> u64 \<Rightarrow> 'a archive_scheme \<Rightarrow> (cint \<times> 'a archive_scheme) option" where
  "test_offset l filename s = test_offset_loop l filename 512 (binary_tarfs_start l) s"

partial_function (option) traverse_loop ::
  "places \<Rightarrow> u64 \<Rightarrow> u64 \<Rightarrow> 'a console_scheme \<Rightarrow> (u64 \<times> 'a console_scheme) option" where
  "traverse_loop l filename p s =
     (if p \<le> binary_tarfs_end l
      then do {
        let file_size = oct2bin (vmem s) (header_size p) 11;
        c \<leftarrow> strcmp (vmem s) filename p;
        if c = 0
        then do {
          s \<leftarrow> kprintf (''file_size = %d'' @ [CHR 0x0A]) [ucast file_size] s;
          Some (p, s)
        }
        else traverse_loop l filename (p + 8) s
      }
      else Some (0, s))"

definition traverse_tarfs :: "places \<Rightarrow> u64 \<Rightarrow> 'a console_scheme \<Rightarrow> (u64 \<times> 'a console_scheme) option" where
  "traverse_tarfs l filename s = traverse_loop l filename (binary_tarfs_start l) s"

definition get_elf :: "places \<Rightarrow> u64 \<Rightarrow> 'a console_scheme \<Rightarrow> (u64 \<times> 'a console_scheme) option" where
  "get_elf l filename s = do {
     (p, s) \<leftarrow> traverse_tarfs l filename s;
     if p = 0
     then do { s \<leftarrow> kprintf (''file not found!'' @ [CHR 0x0A, CHR 0x0A]) [] s; Some (0, s) }
     else do {
       s \<leftarrow> kprintf ([CHR 0x0A] @ '' p->name: %s'' @ [CHR 0x0A]) [p] s;
       Some (p + 512, s)
     }
   }"

text \<open>The name is printed before the test for \<open>NULL\<close>.\<close>

definition get_tarfs :: "places \<Rightarrow> u64 \<Rightarrow> 'a console_scheme \<Rightarrow> (u64 \<times> 'a console_scheme) option" where
  "get_tarfs l filename s = do {
     (p, s) \<leftarrow> traverse_tarfs l filename s;
     s \<leftarrow> kprintf ([CHR 0x0A] @ ''returned from traverse_tarfs'' @ [CHR 0x0A]) [] s;
     s \<leftarrow> kprintf (''p->name: %s'' @ [CHR 0x0A]) [p] s;
     s \<leftarrow> kprintf ([CHR 0x0A] @ ''hi'' @ [CHR 0x0A]) [] s;
     if p = 0
     then do { s \<leftarrow> kprintf (''file not found!'' @ [CHR 0x0A, CHR 0x0A]) [] s; Some (0, s) }
     else do {
       s \<leftarrow> kprintf ([CHR 0x0A] @ '' p->name: %s'' @ [CHR 0x0A]) [p] s;
       Some (p, s)
     }
   }"

text \<open>The four bytes of an identification are printed one by one; e_ident starts the header.\<close>

definition print_ident :: "u64 \<Rightarrow> 'a console_scheme \<Rightarrow> 'a console_scheme option" where
  "print_ident elf_header s = do {
     s \<leftarrow> kprintf ''e_ident[0] = %x '' [ucast (vmem s elf_header)] s;
     s \<leftarrow> kprintf ''%c '' [ucast (vmem s (elf_header + 1))] s;
     s \<leftarrow> kprintf ''%c '' [ucast (vmem s (elf_header + 2))] s;
     kprintf (''%c'' @ [CHR 0x0A]) [ucast (vmem s (elf_header + 3))] s
   }"

definition get_file_content :: "places \<Rightarrow> u64 \<Rightarrow> 'a archive_scheme \<Rightarrow> 'a archive_scheme option" where
  "get_file_content l filename s = do {
     (file_offset, s) \<leftarrow> get_file_offset l filename s;
     file_index \<leftarrow> tar_get_index l filename s;
     let file_offset = load32 (vmem s) (slot_offset (slot_at l file_index));
     s \<leftarrow> print_ident (binary_tarfs_start l + scast file_offset) s;
     let file_offset = file_offset + 1024;
     s \<leftarrow> print_ident (binary_tarfs_start l + scast file_offset) s;
     (file_offset, s) \<leftarrow> test_offset l filename s;
     kprintf (''test offset = %d'' @ [CHR 0x0A]) [ucast file_offset] s
   }"

end
