(* ===== verification/TarfsTable.thy ===== *)
theory TarfsTable
  imports Tarfs ScreenFrame
begin

text \<open>
  The table \<open>vfs\<close> as a list of slots: filling a slot, finding the slot of a name, and the
  index of the parent of a name.
\<close>

section \<open>Slots\<close>

record slot_view =
  sl_name :: "u8 list"
  sl_parent :: cint
  sl_size :: u64
  sl_type :: cint
  sl_address :: u64
  sl_index :: cint
  sl_offset :: cint

definition holds :: "mem \<Rightarrow> u64 \<Rightarrow> slot_view \<Rightarrow> bool" where
  "holds m a v \<longleftrightarrow> cstr m a (sl_name v) \<and> length (sl_name v) < 128 \<and>
     load32 m (slot_parent a) = sl_parent v \<and> load64 m (slot_size a) = sl_size v \<and>
     load32 m (slot_type a) = sl_type v \<and> load64 m (slot_address a) = sl_address v \<and>
     load32 m (slot_index a) = sl_index v \<and> load32 m (slot_offset a) = sl_offset v"

lemmas slot_fields = slot_parent_def slot_size_def slot_type_def slot_address_def slot_index_def slot_offset_def

text \<open>A write to one part of a slot leaves the other parts alone.\<close>

lemma load_part:
  assumes w: "writes (a + of_nat i) n m m'" and ij: "j + k \<le> i" "i + n < 2 ^ 64"
  shows "load_bytes k m' (a + of_nat j) = load_bytes k m (a + of_nat j)"
  by (rule writes_load_bytes [OF w region_apart_offset]) (use ij in auto)

lemma less_128_int: "(128 :: nat) < 2 ^ 31"
  by simp

lemma assign_vfs_slot_ok:
  assumes src: "cstr m src str" "length str < 128"
    and dis: "region src (Suc (length str)) \<inter> region (slot_at l i) 168 = {}"
  obtains m' where "assign_vfs_slot l i src parent sz ty address offset m = Some m'"
    "holds m' (slot_at l i) \<lparr>sl_name = str, sl_parent = parent, sl_size = sz, sl_type = ty,
       sl_address = address, sl_index = i, sl_offset = offset\<rparr>"
    "writes (slot_at l i) 168 m m'"
proof -
  let ?a = "slot_at l i"
  have "region ?a (length str) \<inter> region src (length str) = {}"
    using dis region_mono [of "length str" 168 ?a] region_mono [of "length str" "Suc (length str)" src] src(2) by auto
  then obtain m0 where m0: "strcpy m ?a src = Some m0" "cstr m0 ?a str"
    "\<And>b. b \<notin> region ?a (Suc (length str)) \<Longrightarrow> m0 b = m b"
    using strcpy_ok [OF src(1)] src(2) by (metis less_trans less_128_int)
  then have w0: "writes ?a 168 m m0"
    using region_mono [of "Suc (length str)" 168 ?a] src(2) by (auto simp: writes_def)
  define m1 where "m1 = store32 m0 (slot_parent ?a) parent"
  define m2 where "m2 = store64 m1 (slot_size ?a) sz"
  define m3 where "m3 = store32 m2 (slot_type ?a) ty"
  define m4 where "m4 = store64 m3 (slot_address ?a) address"
  define m5 where "m5 = store32 m4 (slot_index ?a) i"
  define m6 where "m6 = store32 m5 (slot_offset ?a) offset"
  have w: "writes (?a + of_nat 128) 4 m0 m1" "writes (?a + of_nat 136) 8 m1 m2" "writes (?a + of_nat 144) 4 m2 m3"
    "writes (?a + of_nat 152) 8 m3 m4" "writes (?a + of_nat 160) 4 m4 m5" "writes (?a + of_nat 164) 4 m5 m6"
    unfolding m1_def m2_def m3_def m4_def m5_def m6_def slot_fields by (simp_all add: writes_store)
  have wall: "writes ?a 168 m0 m1" "writes ?a 168 m1 m2" "writes ?a 168 m2 m3" "writes ?a 168 m3 m4"
    "writes ?a 168 m4 m5" "writes ?a 168 m5 m6"
    by (rule writes_mono [OF w(1)], simp_all, rule writes_mono [OF w(2)], simp_all, rule writes_mono [OF w(3)], simp_all,
      rule writes_mono [OF w(4)], simp_all, rule writes_mono [OF w(5)], simp_all, rule writes_mono [OF w(6)], simp_all)
  have P: "load_bytes k m2 (?a + of_nat j) = load_bytes k m1 (?a + of_nat j)" if "j + k \<le> 136" for j k
    by (rule load_part [OF w(2) that]) simp
  have P3: "load_bytes k m3 (?a + of_nat j) = load_bytes k m2 (?a + of_nat j)" if "j + k \<le> 144" for j k
    by (rule load_part [OF w(3) that]) simp
  have P4: "load_bytes k m4 (?a + of_nat j) = load_bytes k m3 (?a + of_nat j)" if "j + k \<le> 152" for j k
    by (rule load_part [OF w(4) that]) simp
  have P5: "load_bytes k m5 (?a + of_nat j) = load_bytes k m4 (?a + of_nat j)" if "j + k \<le> 160" for j k
    by (rule load_part [OF w(5) that]) simp
  have P6: "load_bytes k m6 (?a + of_nat j) = load_bytes k m5 (?a + of_nat j)" if "j + k \<le> 164" for j k
    by (rule load_part [OF w(6) that]) simp
  have fields: "load32 m6 (slot_parent ?a) = load32 m1 (slot_parent ?a)" "load64 m6 (slot_size ?a) = load64 m2 (slot_size ?a)"
    "load32 m6 (slot_type ?a) = load32 m3 (slot_type ?a)" "load64 m6 (slot_address ?a) = load64 m4 (slot_address ?a)"
    "load32 m6 (slot_index ?a) = load32 m5 (slot_index ?a)"
    using P [of 128 4] P3 [of 128 4] P4 [of 128 4] P5 [of 128 4] P6 [of 128 4] P3 [of 136 8] P4 [of 136 8] P5 [of 136 8]
      P6 [of 136 8] P4 [of 144 4] P5 [of 144 4] P6 [of 144 4] P5 [of 152 8] P6 [of 152 8] P6 [of 160 4]
    by (simp_all add: slot_fields load32_def load64_def)
  have str: "cstr m' ?a str" if "writes (?a + of_nat i) n mm m'" "cstr mm ?a str" "128 \<le> i" "i + n \<le> 168" for i n mm m'
  proof (rule writes_cstr [OF that(1,2)])
    show "region ?a (Suc (length str)) \<inter> region (?a + of_nat i) n = {}"
      using region_apart_offset [of 0 "Suc (length str)" i n ?a] src(2) that(3,4) by simp
  qed (use src(2) in simp)
  have "cstr m6 ?a str"
    using str [OF w(6) str [OF w(5) str [OF w(4) str [OF w(3) str [OF w(2) str [OF w(1) m0(2)]]]]]] by simp
  then have "holds m6 ?a \<lparr>sl_name = str, sl_parent = parent, sl_size = sz, sl_type = ty, sl_address = address,
      sl_index = i, sl_offset = offset\<rparr>"
    using src(2) fields by (simp add: holds_def m1_def m2_def m3_def m4_def m5_def m6_def)
  moreover have "writes ?a 168 m m6"
    using writes_trans [OF w0 writes_trans [OF wall(1) writes_trans [OF wall(2) writes_trans [OF wall(3)
      writes_trans [OF wall(4) writes_trans [OF wall(5,6)]]]]]] .
  moreover have "assign_vfs_slot l i src parent sz ty address offset m = Some m6"
    using m0(1) by (simp add: assign_vfs_slot_def Let_def m1_def m2_def m3_def m4_def m5_def m6_def)
  ultimately show thesis using that by blast
qed

lemma holds_cong:
  assumes same: "\<And>b. b \<in> region a 168 \<Longrightarrow> m' b = m b" and h: "holds m a v"
  shows "holds m' a v"
proof -
  have eq: "load_bytes k m' (a + of_nat j) = load_bytes k m (a + of_nat j)" if "j + k \<le> 168" for j k
  proof (rule load_bytes_cong)
    fix b assume "unat (b - (a + of_nat j)) < k"
    then have "b \<in> region (a + of_nat j) k" by (simp add: region_def)
    then show "m' b = m b" using region_shift [OF that, of a] same by auto
  qed (use that in simp)
  have "cstr m' a (sl_name v)"
  proof (rule cstr_region_cong)
    show "cstr m a (sl_name v)" using h by (simp add: holds_def)
    show "m' b = m b" if "b \<in> region a (Suc (length (sl_name v)))" for b
      using same that region_mono [of "Suc (length (sl_name v))" 168 a] h by (auto simp: holds_def)
  qed (use h in \<open>simp add: holds_def\<close>)
  then show ?thesis
    using h eq [of 128 4] eq [of 136 8] eq [of 144 4] eq [of 152 8] eq [of 160 4] eq [of 164 4]
    by (simp add: holds_def slot_fields load32_def load64_def)
qed

lemma slot_at_of_nat: "i < 2 ^ 31 \<Longrightarrow> slot_at l (of_nat i) = vfs l + of_nat (168 * i)"
  by (simp add: slot_at_def scast_cint_of_nat)

lemma slot_in_table: "i < n \<Longrightarrow> n \<le> 2048 \<Longrightarrow> region (slot_at l (of_nat i)) 168 \<subseteq> region (vfs l) (168 * n)"
  using region_shift [of "168 * i" 168 "168 * n" "vfs l"] slot_at_of_nat [of i l] by simp

section \<open>Finding a name\<close>

text \<open>The table holds the slots of a list.\<close>

definition table :: "places \<Rightarrow> mem \<Rightarrow> slot_view list \<Rightarrow> bool" where
  "table l m vs \<longleftrightarrow> (\<forall>i < length vs. holds m (slot_at l (of_nat i)) (vs ! i))"

text \<open>The number of slots before the first one with a name.\<close>

definition first_slot :: "u8 list \<Rightarrow> slot_view list \<Rightarrow> nat" where
  "first_slot f vs = length (takeWhile (\<lambda>v. sl_name v \<noteq> f) vs)"

lemma table_cong:
  "\<lbrakk>\<And>b. b \<in> region (vfs l) (168 * length vs) \<Longrightarrow> m' b = m b; table l m vs; length vs \<le> 2048\<rbrakk> \<Longrightarrow> table l m' vs"
proof -
  assume same: "\<And>b. b \<in> region (vfs l) (168 * length vs) \<Longrightarrow> m' b = m b" and t: "table l m vs" "length vs \<le> 2048"
  have "holds m' (slot_at l (of_nat i)) (vs ! i)" if i: "i < length vs" for i
  proof (rule holds_cong)
    show "m' b = m b" if "b \<in> region (slot_at l (of_nat i)) 168" for b
      using same slot_in_table [OF i t(2), of l] that by blast
    show "holds m (slot_at l (of_nat i)) (vs ! i)" using t(1) i by (simp add: table_def)
  qed
  then show ?thesis by (simp add: table_def)
qed

lemma first_slot_Cons: "first_slot f (v # vs) = (if sl_name v = f then 0 else Suc (first_slot f vs))"
  by (simp add: first_slot_def)

lemma first_slot_less: "first_slot f vs < length vs \<longleftrightarrow> f \<in> sl_name ` set vs"
  unfolding first_slot_def by (induction vs) auto

lemma first_slot_name: "f \<in> sl_name ` set vs \<Longrightarrow> sl_name (vs ! first_slot f vs) = f"
  unfolding first_slot_def by (induction vs) auto

lemma strcmp_name:
  assumes "table l m vs" "i < length vs" "cstr m p f" "length f < 2 ^ 31"
  shows "\<exists>c. strcmp m p (slot_at l (of_nat i)) = Some c \<and> (c = 0 \<longleftrightarrow> sl_name (vs ! i) = f)"
    "\<exists>c. strcmp m (slot_at l (of_nat i)) p = Some c \<and> (c = 0 \<longleftrightarrow> sl_name (vs ! i) = f)"
proof -
  have n: "cstr m (slot_at l (of_nat i)) (sl_name (vs ! i))" "length (sl_name (vs ! i)) < 2 ^ 31"
    using assms(1,2) less_128_int by (auto simp: table_def holds_def)
  show "\<exists>c. strcmp m p (slot_at l (of_nat i)) = Some c \<and> (c = 0 \<longleftrightarrow> sl_name (vs ! i) = f)"
    using strcmp_cstr [OF assms(3,4) n] by (auto simp: str_order_zero)
  show "\<exists>c. strcmp m (slot_at l (of_nat i)) p = Some c \<and> (c = 0 \<longleftrightarrow> sl_name (vs ! i) = f)"
    using strcmp_cstr [OF n assms(3,4)] by (auto simp: str_order_zero)
qed

lemma drop_ConsD: "drop i vs = w # ws \<Longrightarrow> i < length vs \<and> vs ! i = w \<and> drop (Suc i) vs = ws"
  by (metis Cons_nth_drop_Suc drop_all list.inject list.simps(3) not_le)

lemma parent_loop_eq:
  assumes t: "table l m vs" "length vs < 2 ^ 31" and f: "cstr m (fname l) f" "length f < 2 ^ 31"
  shows "drop i vs = ws \<Longrightarrow> i \<le> length vs \<Longrightarrow> parent_loop l m (of_nat (length vs)) (of_nat i) =
    Some (if f \<in> sl_name ` set ws then of_nat (i + first_slot f ws) else - 2)"
proof (induction ws arbitrary: i)
  case Nil
  then show ?case using t(2) by (subst parent_loop.simps) (simp add: sint_cint_of_nat)
next
  case (Cons w ws)
  then have i: "i < length vs" "vs ! i = w" "drop (Suc i) vs = ws"
    using drop_ConsD [OF Cons.prems(1)] by blast+
  obtain c where c: "strcmp m (fname l) (slot_at l (of_nat i)) = Some c" "c = 0 \<longleftrightarrow> sl_name w = f"
    using strcmp_name(1) [OF t(1) i(1) f] i(2) by blast
  have lt: "sint (of_nat i :: cint) < sint (of_nat (length vs) :: cint)" using i(1) t(2) by (simp add: sint_cint_of_nat)
  show ?case
    using Cons.IH [OF i(3)] i(1) c lt by (subst parent_loop.simps) (auto simp: cint_of_nat_Suc first_slot_Cons)
qed

text \<open>The search by name looks at one slot behind the last before it gives up.\<close>

lemma lookup_loop_eq:
  assumes t: "table l m (vs @ [v])" "length vs < 2 ^ 31" and f: "cstr m p f" "length f < 2 ^ 31"
  shows "drop i vs = ws \<Longrightarrow> i \<le> length vs \<Longrightarrow> lookup_loop l m p (of_nat (length vs)) (of_nat i) =
    Some (of_nat (i + first_slot f ws))"
proof (induction ws arbitrary: i)
  case Nil
  then have i: "i = length vs" by simp
  obtain c where "strcmp m (slot_at l (of_nat i)) p = Some c"
    using strcmp_name(2) [OF t(1) _ f, of i] i by auto
  then show ?case using i by (subst lookup_loop.simps) (simp add: first_slot_def)
next
  case (Cons w ws)
  then have i: "i < length vs" "vs ! i = w" "drop (Suc i) vs = ws"
    using drop_ConsD [OF Cons.prems(1)] by blast+
  obtain c where c: "strcmp m (slot_at l (of_nat i)) p = Some c" "c = 0 \<longleftrightarrow> sl_name w = f"
    using strcmp_name(2) [OF t(1) _ f, of i] i(1,2) by (auto simp: nth_append)
  have lt: "sint (of_nat i :: cint) < sint (of_nat (length vs) :: cint)" using i(1) t(2) by (simp add: sint_cint_of_nat)
  show ?case
    using Cons.IH [OF i(3)] i(1) c lt by (subst lookup_loop.simps) (auto simp: cint_of_nat_Suc first_slot_Cons)
qed

text \<open>
  The searches by name return and find the first slot with the name, or none: then the
  index is -1 and the address 0. They need a terminated name in the slot behind the last
  one too, for the comparison comes before the check of the index.
\<close>

lemma tar_search:
  assumes t: "table l (vmem s) (vs @ [v])" "length vs < 2 ^ 31" "vfs_pointer s = of_nat (length vs)"
    and f: "cstr (vmem s) p f" "length f < 2 ^ 31"
  shows "tar_get_index l p s = Some (if f \<in> sl_name ` set vs then of_nat (first_slot f vs) else - 1) \<and>
    tar_lookup l p s = Some (if f \<in> sl_name ` set vs then sl_address (vs ! first_slot f vs) else 0)"
proof -
  let ?i = "first_slot f vs"
  have le: "?i \<le> length vs" unfolding first_slot_def by (rule length_takeWhile_le)
  have loop: "lookup_loop l (vmem s) p (of_nat (length vs)) 0 = Some (of_nat ?i)"
    using lookup_loop_eq [OF t(1,2) f, of 0 vs] by simp
  have found: "sint (of_nat ?i :: cint) < sint (of_nat (length vs) :: cint) \<longleftrightarrow> f \<in> sl_name ` set vs"
    using le t(2) by (simp add: sint_cint_of_nat first_slot_less)
  have "load64 (vmem s) (slot_address (slot_at l (of_nat ?i))) = sl_address (vs ! ?i)" if "f \<in> sl_name ` set vs"
    using t(1) that first_slot_less [of f vs] by (auto simp: table_def holds_def nth_append dest: spec [of _ ?i])
  then show ?thesis using loop found by (simp add: tar_get_index_def tar_lookup_def t(3))
qed

section \<open>The parent of a name\<close>

text \<open>What is left of a reversed name behind the \<open>k\<close>th slash, the slash included.\<close>

fun slices :: "nat \<Rightarrow> u8 list \<Rightarrow> u8 list" where
  "slices k [] = []"
| "slices k (c # cs) =
     (if c = of_char CHR ''/'' then (if k \<le> 1 then c # cs else slices (k - 1) cs) else slices k cs)"

definition parent_name :: "nat \<Rightarrow> u8 list \<Rightarrow> u8 list" where
  "parent_name k f = rev (slices k (rev f))"

lemma slices_suffix: "\<exists>ys. cs = ys @ slices k cs"
proof (induction k cs rule: slices.induct)
  case (2 k c cs)
  then show ?case by (auto intro: exI [of _ "[]"]) (metis append_Cons)+
qed simp

lemma parent_name_take: "parent_name k f = take (length (parent_name k f)) f" "length (parent_name k f) \<le> length f"
proof -
  obtain ys where "rev f = ys @ slices k (rev f)" using slices_suffix by blast
  then have "f = parent_name k f @ rev ys" by (metis parent_name_def rev_append rev_rev_ident)
  then show "parent_name k f = take (length (parent_name k f)) f" "length (parent_name k f) \<le> length f"
    by (metis append_eq_conv_conj) (metis \<open>f = parent_name k f @ rev ys\<close> length_append le_add1)
qed

lemma slice_loop_eq:
  assumes "cstr m f str" "length str < 2 ^ 31"
  shows "\<lbrakk>j \<le> length str; 0 < k; k < 2 ^ 31\<rbrakk> \<Longrightarrow> slice_loop m f (int j - 1) (of_nat k) =
    (if slices k (rev (take j str)) = [] then - 1 else int (length (slices k (rev (take j str)))) - 2)"
proof (induction j arbitrary: k)
  case 0
  then show ?case by (subst slice_loop.simps) simp
next
  case (Suc j)
  have c: "m (f + of_int (int j)) = str ! j" using cstr_nth [OF assms(1), of j] Suc.prems(1) by simp
  have r: "rev (take (Suc j) str) = str ! j # rev (take j str)"
    using Suc.prems(1) by (simp add: take_Suc_conv_app_nth)
  have k: "(of_nat k :: cint) \<noteq> 0" using Suc.prems(2,3) by (simp add: of_nat_cint_eq_0)
  show ?case
  proof (cases "str ! j = of_char CHR ''/''")
    case False
    then show ?thesis using Suc.IH [of k] Suc.prems c r k by (subst slice_loop.simps) simp
  next
    case True
    show ?thesis
    proof (cases "k = 1")
      case one: True
      have "slice_loop m f (int j - 1) 0 = int j - 1" by (subst slice_loop.simps) simp
      then show ?thesis using one True c r k Suc.prems(1) by (subst slice_loop.simps) simp
    next
      case False
      then have "(of_nat k :: cint) - 1 = of_nat (k - 1)" using Suc.prems(2) by (simp add: of_nat_diff)
      then show ?thesis using Suc.IH [of "k - 1"] False True Suc.prems c r k by (subst slice_loop.simps) simp
    qed
  qed
qed

lemma get_parent_index_ok:
  fixes s :: "'a archive_scheme"
  assumes str: "cstr (vmem s) p str" "length str < 127" and k: "k = 1 \<or> k = 2" "parent_name k str \<noteq> []"
    and t: "table l (vmem s) vs" "length vs \<le> 2048" "vfs_pointer s = of_nat (length vs)"
    and dis: "region (fname l) 128 \<inter> region p (Suc (length str)) = {}"
      "region (fname l) 128 \<inter> region (vfs l) (168 * length vs) = {}"
  obtains m' where "get_parent_index l p (of_nat k) s =
      Some (if parent_name k str \<in> sl_name ` set vs then of_nat (first_slot (parent_name k str) vs) else - 2, s\<lparr>vmem := m'\<rparr>)"
    "writes (fname l) 128 (vmem s) m'"
proof -
  let ?m = "vmem s" and ?n = "length (parent_name k str)"
  have n: "?n \<le> length str" "?n \<noteq> 0" "parent_name k str = take ?n str" using parent_name_take k(2) by auto
  have len: "strlen ?m p = Some (of_nat (length str))" by (rule strlen_cstr [OF str(1)]) (use str(2) in simp)
  have "length (slices k (rev str)) = ?n" by (simp add: parent_name_def)
  moreover have "slice_loop ?m p (int (length str) - 1) (of_nat k) =
      (if slices k (rev (take (length str) str)) = [] then - 1 else int (length (slices k (rev (take (length str) str)))) - 2)"
    by (rule slice_loop_eq [OF str(1)]) (use str(2) k(1) in auto)
  ultimately have loop: "slice_loop ?m p (int (length str) - 1) (of_nat k) = int ?n - 2"
    using n(2) by (auto split: if_splits)
  let ?m1 = "fold (copy_byte (fname l) p) (map int [0..<?n]) ?m"
  let ?m2 = "?m1(fname l + of_nat ?n := 0)"
  have sn: "sint (word_of_int (int ?n) :: cint) = int ?n"
    using sint_cint_of_nat [of ?n] n(1) str(2) by simp
  have m1: "?m1 b = (if b \<in> region (fname l) ?n then ?m (p + (b - fname l)) else ?m b)" for b
  proof (rule fold_copy_byte)
    have "region (fname l) ?n \<subseteq> region (fname l) 128" "region p ?n \<subseteq> region p (Suc (length str))"
      by (rule region_mono; use n(1) str(2) in simp)+
    then show "region (fname l) ?n \<inter> region p ?n = {}" using dis(1) by blast
  qed (use n(1) str(2) in simp)
  have w: "writes (fname l) 128 ?m ?m2"
    unfolding writes_def
  proof (intro allI impI)
    fix b assume b: "b \<notin> region (fname l) 128"
    have "b \<notin> region (fname l) ?n" using b region_mono [of ?n 128 "fname l"] n(1) str(2) by auto
    moreover have "b \<noteq> fname l + of_nat ?n" using b region_offset [of ?n "fname l" 128] n(1) str(2) by auto
    ultimately show "?m2 b = ?m b" by (simp add: m1)
  qed
  have f: "cstr ?m2 (fname l) (parent_name k str)"
  proof (rule cstrI)
    fix i assume i: "i < ?n"
    have "?m2 (fname l + of_nat i) = ?m1 (fname l + of_nat i)"
      using i n(1) str(2) by (simp add: of_nat_u64_eq_iff)
    also have "\<dots> = ?m (p + of_nat i)" using i n(1) str(2) by (simp add: m1 region_offset)
    also have "\<dots> = parent_name k str ! i" using cstr_nth [OF str(1), of i] i n(1,3) by (metis nth_take order_less_le_trans)
    finally show "?m2 (fname l + of_nat i) = parent_name k str ! i" .
  next
    show "0 \<notin> set (parent_name k str)" using cstr_nonzero [OF str(1)] n(3) by (metis in_set_takeD)
  qed simp
  have t2: "table l ?m2 vs"
    by (rule table_cong [OF _ t(1,2)]) (use w dis(2) in \<open>auto simp: writes_def\<close>)
  have "parent_loop l ?m2 (of_nat (length vs)) (of_nat 0) =
      Some (if parent_name k str \<in> sl_name ` set vs then of_nat (0 + first_slot (parent_name k str) vs) else - 2)"
    by (rule parent_loop_eq [OF t2 _ f]) (use t(2) n(1) str(2) in simp_all)
  moreover have "sint (of_nat (length str) :: cint) = int (length str)" by (rule sint_cint_of_nat) (use str(2) in simp)
  moreover have "strsubcpy ?m (fname l) p 0 (word_of_int (int ?n)) = ?m1"
    using upto_int_of_nat [of ?n] by (simp only: strsubcpy_def sn) simp
  moreover have "(of_nat k :: cint) = 1 \<or> (of_nat k :: cint) = 2" using k(1) by auto
  ultimately have "get_parent_index l p (of_nat k) s =
      Some (if parent_name k str \<in> sl_name ` set vs then of_nat (first_slot (parent_name k str) vs) else - 2, s\<lparr>vmem := ?m2\<rparr>)"
    using len loop n(2) t(3) by (simp add: get_parent_index_def Let_def)
  then show thesis using that w by blast
qed

end
