(* ===== verification/TarfsInit.thy ===== *)
theory TarfsInit
  imports TarfsTable
begin

text \<open>
  tarfs_init against a specification: the archive is a list of entries laid out in memory
  as the tar format has it, and tarfs_init fills the table with the catalogue of these
  entries.
\<close>

section \<open>The archive\<close>

record entry =
  en_name :: "u8 list"
  en_size :: nat
  en_flag :: u8

text \<open>The bytes an entry takes: its header and its contents, in whole blocks.\<close>

definition blocks :: "entry \<Rightarrow> nat" where
  "blocks e = 512 * ((en_size e + 511) div 512 + 1)"

definition entry_at :: "mem \<Rightarrow> places \<Rightarrow> u64 \<Rightarrow> entry \<Rightarrow> bool" where
  "entry_at m l p e \<longleftrightarrow> unat (binary_tarfs_start l) \<le> unat p \<and> unat p + 512 \<le> unat (binary_tarfs_end l) \<and>
     cstr m p (en_name e) \<and> en_name e \<noteq> [] \<and> length (en_name e) < 100 \<and>
     bytes_at m (header_size p) 11 = map digit_byte (octal_digits 11 (en_size e)) \<and> en_size e < 2 ^ 30 \<and>
     m (header_typeflag p) = en_flag e \<and> en_flag e \<noteq> 0 \<and> unat p + blocks e < 2 ^ 64"

text \<open>The entries follow each other up to the end of the archive or a header without a name.\<close>

fun entries_at :: "mem \<Rightarrow> places \<Rightarrow> u64 \<Rightarrow> entry list \<Rightarrow> bool" where
  "entries_at m l p [] \<longleftrightarrow>
     (binary_tarfs_end l \<le> p \<or> binary_tarfs_start l \<le> p \<and> m p = 0)"
| "entries_at m l p (e # es) \<longleftrightarrow> entry_at m l p e \<and> entries_at m l (p + of_nat (blocks e)) es"

section \<open>The catalogue\<close>

definition rootfs :: "u8 list" where
  "rootfs = map of_char ''/rootfs/''"

definition slot_for :: "u64 \<Rightarrow> cint \<Rightarrow> slot_view list \<Rightarrow> entry \<Rightarrow> slot_view" where
  "slot_for p offset vs e =
     (let full = rootfs @ en_name e;
          up = parent_name (if en_flag e = of_char CHR ''0'' then 1 else 2) full
      in \<lparr>sl_name = full,
          sl_parent = (if up \<in> sl_name ` set vs then of_nat (first_slot up vs) else - 2),
          sl_size = of_nat (en_size e), sl_type = scast (en_flag e),
          sl_address = p + of_nat (en_size e), sl_index = of_nat (length vs), sl_offset = offset\<rparr>)"

text \<open>Files and directories get a slot, other entries none.\<close>

definition listed :: "entry \<Rightarrow> bool" where
  "listed e \<longleftrightarrow> en_flag e = of_char CHR ''0'' \<or> en_flag e = of_char CHR ''5''"

fun catalogue :: "u64 \<Rightarrow> cint \<Rightarrow> slot_view list \<Rightarrow> entry list \<Rightarrow> slot_view list" where
  "catalogue p offset vs [] = vs"
| "catalogue p offset vs (e # es) =
     (let offset = offset + of_nat (blocks e)
      in catalogue (p + of_nat (blocks e)) offset (if listed e then vs @ [slot_for p offset vs e] else vs) es)"

definition first_slots :: "slot_view list" where
  "first_slots =
     [\<lparr>sl_name = [of_char CHR ''/''], sl_parent = - 1, sl_size = 0, sl_type = 5, sl_address = 0, sl_index = 0, sl_offset = 0\<rparr>,
      \<lparr>sl_name = rootfs, sl_parent = 0, sl_size = 0, sl_type = 5, sl_address = 0, sl_index = 1, sl_offset = 512\<rparr>]"

section \<open>The layout\<close>

text \<open>
  What tarfs_init writes beside the table. The string literal of \<open>root_directory\<close> and the
  bytes behind it take the name.
\<close>

definition scratch :: "places \<Rightarrow> u64 \<Rightarrow> u64 set" where
  "scratch l st = screen_area st \<union> region (root_directory l) 128 \<union> region (local_name l) 128 \<union> region (fname l) 128"

definition vfs_area :: "places \<Rightarrow> u64 set" where
  "vfs_area l = region (vfs l) (168 * 2048)"

definition archive_area :: "places \<Rightarrow> u64 set" where
  "archive_area l = {b. binary_tarfs_start l \<le> b \<and> b < binary_tarfs_end l}"

definition kept_area :: "places \<Rightarrow> u64 set" where
  "kept_area l = archive_area l \<union> region (root_directory_name l) 9 \<union> region (slash l) 2"

definition placed :: "places \<Rightarrow> u64 \<Rightarrow> bool" where
  "placed l st \<longleftrightarrow> unat st + 6000 < 2 ^ 64 \<and>
     screen_area st \<inter> region (root_directory l) 128 = {} \<and> screen_area st \<inter> region (local_name l) 128 = {} \<and>
     screen_area st \<inter> region (fname l) 128 = {} \<and> region (root_directory l) 128 \<inter> region (local_name l) 128 = {} \<and>
     region (root_directory l) 128 \<inter> region (fname l) 128 = {} \<and> region (local_name l) 128 \<inter> region (fname l) 128 = {} \<and>
     scratch l st \<inter> vfs_area l = {} \<and> kept_area l \<inter> (scratch l st \<union> vfs_area l) = {}"

text \<open>The state between two entries: the slots so far, and all else as in \<open>m0\<close>.\<close>

definition indexing :: "places \<Rightarrow> u64 \<Rightarrow> mem \<Rightarrow> slot_view list \<Rightarrow> 'a archive_scheme \<Rightarrow> bool" where
  "indexing l st m0 vs s \<longleftrightarrow> near st 320 (videoCardPosition s) s \<and> vfs_pointer s = of_nat (length vs) \<and>
     length vs \<le> 2048 \<and> table l (vmem s) vs \<and>
     (\<forall>b. b \<notin> scratch l st \<union> region (vfs l) (168 * length vs) \<longrightarrow> vmem s b = m0 b)"

lemma bytes_at_cong: "\<lbrakk>\<And>i. i < n \<Longrightarrow> m' (p + of_nat i) = m (p + of_nat i)\<rbrakk> \<Longrightarrow> bytes_at m' p n = bytes_at m p n"
  by (simp add: bytes_at_def)

lemma table_area: "n \<le> 2048 \<Longrightarrow> region (vfs l) (168 * n) \<subseteq> vfs_area l"
  unfolding vfs_area_def by (rule region_mono) simp

section \<open>Names\<close>

lemma less_100_int: "(100 :: nat) < 2 ^ 31"
  by simp

lemma rooted_name_ok:
  assumes root: "cstr m (root_directory l) rootfs" and name: "cstr m p str" "length str < 100"
    and dis: "region (local_name l) 128 \<inter> region p (Suc (length str)) = {}"
      "region (root_directory l) 128 \<inter> region (local_name l) 128 = {}"
  obtains m' where "rooted_name l p m = Some m'" "cstr m' (local_name l) (rootfs @ str)"
    "\<And>b. b \<notin> region (root_directory l) 128 \<union> region (local_name l) 128 \<Longrightarrow> m' b = m b"
proof -
  let ?r = "root_directory l" and ?n = "local_name l"
  have len: "length rootfs = 8" by (simp add: rootfs_def)
  have sub: "region ?n k \<subseteq> region ?n 128" "region ?r k \<subseteq> region ?r 128" if "k \<le> 128" for k
    using that by (simp_all add: region_mono)
  have "region p (length str) \<subseteq> region p (Suc (length str))" by (rule region_mono) simp
  then have "region ?n (length str) \<inter> region p (length str) = {}" using dis(1) sub(1) [of "length str"] name(2) by auto
  then obtain m1 where m1: "strcpy m ?n p = Some m1" "cstr m1 ?n str" "\<And>b. b \<notin> region ?n (Suc (length str)) \<Longrightarrow> m1 b = m b"
    using strcpy_ok [OF name(1)] name(2) by (metis less_trans less_100_int)
  have m1': "m1 b = m b" if "b \<notin> region ?n 128" for b
    using m1(3) that sub(1) [of "Suc (length str)"] name(2) by auto
  have "cstr m1 ?r rootfs"
    by (rule cstr_region_cong [OF root]) (use dis(2) sub(2) [of 9] len in \<open>auto intro!: m1'\<close>)
  moreover have "region ?r (length rootfs + length str) \<inter> region ?n (length str) = {}"
    using dis(2) sub(1) [of "length str"] sub(2) [of "length rootfs + length str"] name(2) len by auto
  moreover have "length rootfs + length str < 2 ^ 31" using len name(2) by simp
  ultimately obtain m2 where m2: "strcat m1 ?r ?n = Some m2" "cstr m2 ?r (rootfs @ str)"
    "\<And>b. b \<notin> region (?r + of_nat (length rootfs)) (Suc (length str)) \<Longrightarrow> m2 b = m1 b"
    using strcat_ok [OF _ m1(2)] by metis
  have m2': "m2 b = m1 b" if "b \<notin> region ?r 128" for b
    using m2(3) that region_shift [of "length rootfs" "Suc (length str)" 128 ?r] name(2) len by auto
  have "region ?n (length (rootfs @ str)) \<inter> region ?r (length (rootfs @ str)) = {}"
    using dis(2) sub [of "length (rootfs @ str)"] name(2) len by auto
  moreover have "length (rootfs @ str) < 2 ^ 31" using len name(2) by simp
  ultimately obtain m3 where m3: "strcpy m2 ?n ?r = Some m3" "cstr m3 ?n (rootfs @ str)"
    "\<And>b. b \<notin> region ?n (Suc (length (rootfs @ str))) \<Longrightarrow> m3 b = m2 b"
    using strcpy_ok [OF m2(2)] by metis
  have m3': "m3 b = m2 b" if "b \<notin> region ?n 128" for b
    using m3(3) that sub(1) [of "Suc (length (rootfs @ str))"] name(2) len by auto
  show thesis
  proof (rule that)
    show "rooted_name l p m = Some m3"
      using m1(1) m2(1) m3(1) by (simp add: rooted_name_def strrevcat_eq_strcat)
    show "m3 b = m b" if "b \<notin> region ?r 128 \<union> region ?n 128" for b
      using m1' [of b] m2' [of b] m3' [of b] that by simp
  qed (rule m3(2))
qed

section \<open>One entry\<close>

lemma only_console_fields:
  "only_console s s' \<Longrightarrow> vfs_pointer s' = vfs_pointer (s :: 'a archive_scheme)"
  by (auto simp: only_console_def)

lemma header_in_archive:
  assumes "entry_at m l p e" "i < 512"
  shows "p + of_nat i \<in> archive_area l"
proof -
  have e: "unat (binary_tarfs_start l) \<le> unat p" "unat p + 512 \<le> unat (binary_tarfs_end l)"
    using assms(1) by (simp_all add: entry_at_def)
  have "unat p + i < 2 ^ 64" using e(2) assms(2) unat_u64_less [of "binary_tarfs_end l"] by simp
  then have "unat (p + of_nat i) = unat p + i" by (rule unat_add_no_wrap)
  then show ?thesis using e assms(2) by (simp add: archive_area_def word_le_nat_alt word_less_nat_alt)
qed

lemma header_region:
  assumes "entry_at m l p e" "i + n \<le> 512"
  shows "region (p + of_nat i) n \<subseteq> archive_area l"
proof
  fix b assume "b \<in> region (p + of_nat i) n"
  then obtain j where "j < n" "b = p + of_nat i + of_nat j" by (rule regionE)
  then have "b = p + of_nat (i + j)" "i + j < 512" using assms(2) by (simp_all add: add.assoc)
  then show "b \<in> archive_area l" using header_in_archive [OF assms(1)] by metis
qed

text \<open>The headers are read the same whatever was written outside the archive.\<close>

lemma entry_at_cong:
  assumes e: "entry_at m l p e" and same: "\<And>b. b \<in> archive_area l \<Longrightarrow> m' b = m b"
  shows "entry_at m' l p e"
proof -
  have "cstr m' p (en_name e)"
  proof (rule cstr_region_cong)
    show "m' b = m b" if "b \<in> region p (Suc (length (en_name e)))" for b
      using header_region [OF e, of 0 "Suc (length (en_name e))"] that same e by (auto simp: entry_at_def)
  qed (use e in \<open>auto simp: entry_at_def\<close>)
  moreover have "bytes_at m' (header_size p) 11 = bytes_at m (header_size p) 11"
  proof (rule bytes_at_cong)
    fix i :: nat assume "i < 11"
    then show "m' (header_size p + of_nat i) = m (header_size p + of_nat i)"
      using same [OF header_in_archive [OF e, of "124 + i"]] by (simp add: header_size_def add.assoc)
  qed
  moreover have "m' (header_typeflag p) = m (header_typeflag p)"
    using same [OF header_in_archive [OF e, of 156]] by (simp add: header_typeflag_def)
  ultimately show ?thesis using e by (simp add: entry_at_def)
qed

lemma size_word:
  assumes "n < 2 ^ 30"
  shows "(scast (of_nat n :: cint) :: u64) = of_nat n" "(of_nat n :: u64) = 0 \<longleftrightarrow> n = 0"
    "(of_nat n :: u64) mod 512 = of_nat (n mod 512)" "((of_nat n :: u64) + 511) div 512 + 1 = of_nat ((n + 511) div 512 + 1)"
proof -
  show "(scast (of_nat n :: cint) :: u64) = of_nat n" by (rule scast_cint_of_nat) (use assms in simp)
  show "(of_nat n :: u64) = 0 \<longleftrightarrow> n = 0" using of_nat_u64_eq_iff [of n 0] assms by simp
  show "(of_nat n :: u64) mod 512 = of_nat (n mod 512)"
    using assms by (intro word_unat_eq_iff [THEN iffD2]) (simp add: unat_mod unat_of_nat)
  have "(of_nat n :: u64) + 511 = of_nat (n + 511)" by simp
  then have "unat ((of_nat n :: u64) + 511) = n + 511"
    using assms by (simp only: unat_of_nat) simp
  then have "((of_nat n :: u64) + 511) div 512 = of_nat ((n + 511) div 512)"
    using assms by (intro word_unat_eq_iff [THEN iffD2]) (simp add: unat_div unat_of_nat)
  then show "((of_nat n :: u64) + 511) div 512 + 1 = of_nat ((n + 511) div 512 + 1)" by simp
qed

lemma blocks_split:
  fixes n :: nat
  shows "n mod 512 \<noteq> 0 \<Longrightarrow> n + (512 - n mod 512) + 512 = 512 * ((n + 511) div 512 + 1)"
    "n mod 512 = 0 \<Longrightarrow> n + 512 = 512 * ((n + 511) div 512 + 1)"
proof -
  define q r where "q = n div 512" and "r = n mod 512"
  have n: "n = 512 * q + r" "r < 512" by (simp_all add: q_def r_def)
  have d: "(n + 511) div 512 = q + (r + 511) div 512" unfolding n(1) by (simp add: add.assoc)
  have "(r + 511) div 512 = (if r = 0 then 0 else 1)" using n(2) by (auto intro: div_nat_eqI)
  then show "n mod 512 \<noteq> 0 \<Longrightarrow> n + (512 - n mod 512) + 512 = 512 * ((n + 511) div 512 + 1)"
    "n mod 512 = 0 \<Longrightarrow> n + 512 = 512 * ((n + 511) div 512 + 1)"
    using n d unfolding r_def [symmetric] by simp_all
qed

text \<open>Adding a size to an \<open>int\<close> in 64 bits and storing the result in an \<open>int\<close>.\<close>

lemma ucast_u64_cint: "(ucast (word_of_int x :: u64) :: cint) = word_of_int x"
  by (rule bit_word_eqI) (simp add: bit_simps)

lemma ucast_scast_add: "(ucast (scast off + of_nat k :: u64) :: cint) = off + of_nat k"
proof -
  have "(scast off + of_nat k :: u64) = word_of_int (sint off + int k)" by simp
  then show ?thesis by (simp only: ucast_u64_cint) simp
qed

lemma next_offset:
  assumes "n < 2 ^ 30"
  defines "f \<equiv> (of_nat n :: u64)"
  shows "(if f = 0 \<or> f mod 512 = 0 then ucast (scast off + (f + 512))
      else ucast (scast off + (f + (512 - f mod 512) + 512)) :: cint) = off + of_nat (512 * ((n + 511) div 512 + 1))"
proof -
  show ?thesis
  proof (cases "n mod 512 = 0")
    case True
    then have "f = 0 \<or> f mod 512 = 0" using size_word(3) [OF assms(1)] by (simp add: f_def)
    moreover have "f + 512 = of_nat (n + 512)" by (simp add: f_def)
    ultimately show ?thesis using ucast_scast_add [of off "n + 512"] blocks_split(2) [OF True] by (simp del: of_nat_add of_nat_mult)
  next
    case False
    have m: "f mod 512 = of_nat (n mod 512)" using size_word(3) [OF assms(1)] by (simp add: f_def)
    moreover have "(of_nat (n mod 512) :: u64) \<noteq> 0"
    proof -
      have "n mod 512 < 2 ^ 64" by (rule order_less_trans [of _ 512]) simp_all
      then show ?thesis using of_nat_u64_eq_iff [of "n mod 512" 0] False by simp
    qed
    ultimately have nc: "\<not> (f = 0 \<or> f mod 512 = 0)"
      using size_word(2) [OF assms(1)] False by (auto simp: f_def)
    have "f + (512 - f mod 512) + 512 = of_nat (n + (512 - n mod 512) + 512)"
      unfolding m by (simp add: f_def of_nat_diff order_less_imp_le)
    then show ?thesis
      unfolding if_not_P [OF nc] blocks_split(1) [OF False, symmetric] using ucast_scast_add by metis
  qed
qed

lemma next_header:
  assumes "n < 2 ^ 30"
  shows "512 * (scast (ucast (((of_nat n :: u64) + 511) div 512 + 1) :: cint) :: u64) = of_nat (512 * ((n + 511) div 512 + 1))"
proof -
  let ?k = "(n + 511) div 512 + 1"
  have k: "?k < 2 ^ 31" using assms by auto
  have "(ucast (of_nat ?k :: u64) :: cint) = of_nat ?k" using ucast_scast_add [of 0 ?k] by simp
  then have "(scast (ucast (of_nat ?k :: u64) :: cint) :: u64) = of_nat ?k" by (simp only: scast_cint_of_nat [OF k])
  then show ?thesis unfolding size_word(4) [OF assms] by (simp only: of_nat_mult) simp
qed

lemma slices_rooted: "k = 1 \<or> k = 2 \<Longrightarrow> slices k (xs @ rev rootfs) \<noteq> []"
proof (induction xs arbitrary: k)
  case Nil
  then show ?case by (auto simp: rootfs_def)
next
  case (Cons x xs)
  then show ?case by auto
qed

lemma parent_name_rooted: "k = 1 \<or> k = 2 \<Longrightarrow> parent_name k (rootfs @ str) \<noteq> []"
  unfolding parent_name_def using slices_rooted [of k "rev str"] by simp

lemma table_snoc: "\<lbrakk>table l m vs; holds m (slot_at l (of_nat (length vs))) v\<rbrakk> \<Longrightarrow> table l m (vs @ [v])"
  by (auto simp: table_def nth_append less_Suc_eq)

lemma next_slot_apart:
  assumes "n < 2048"
  shows "region (vfs l) (168 * n) \<inter> region (slot_at l (of_nat n)) 168 = {}"
    "region (slot_at l (of_nat n)) 168 \<subseteq> region (vfs l) (168 * Suc n)"
    "region (slot_at l (of_nat n)) 168 \<subseteq> vfs_area l"
proof -
  have s: "slot_at l (of_nat n) = vfs l + of_nat (168 * n)" by (rule slot_at_of_nat) (use assms in simp)
  show "region (vfs l) (168 * n) \<inter> region (slot_at l (of_nat n)) 168 = {}"
    using region_apart_offset [of 0 "168 * n" "168 * n" 168 "vfs l"] assms by (simp add: s)
  show sub: "region (slot_at l (of_nat n)) 168 \<subseteq> region (vfs l) (168 * Suc n)"
    unfolding s by (rule region_shift) (use assms in simp_all)
  show "region (slot_at l (of_nat n)) 168 \<subseteq> vfs_area l"
    using sub table_area [of "Suc n" l] assms by auto
qed

text \<open>Looking up the parent and filling the next slot, as both cases of the switch do.\<close>

lemma enter_slot:
  fixes s :: "'a archive_scheme"
  assumes P: "placed l st" and t: "table l (vmem s) vs" "vfs_pointer s = of_nat (length vs)" "length vs < 2048"
    and name: "cstr (vmem s) (local_name l) (rootfs @ str)" "length str < 100" and k: "k = 1 \<or> k = 2"
  obtains m' where
    "do {
       (parent_index, s) \<leftarrow> get_parent_index l (local_name l) (of_nat k) s;
       m \<leftarrow> assign_vfs_slot l (vfs_pointer s) (local_name l) parent_index sz ty address off (vmem s);
       Some (s\<lparr>vmem := m, vfs_pointer := vfs_pointer s + 1\<rparr>)
     } = Some (s\<lparr>vmem := m', vfs_pointer := of_nat (Suc (length vs))\<rparr>)"
    "table l m' (vs @ [\<lparr>sl_name = rootfs @ str,
       sl_parent = (if parent_name k (rootfs @ str) \<in> sl_name ` set vs
         then of_nat (first_slot (parent_name k (rootfs @ str)) vs) else - 2),
       sl_size = sz, sl_type = ty, sl_address = address, sl_index = of_nat (length vs), sl_offset = off\<rparr>])"
    "\<And>b. b \<notin> scratch l st \<union> region (vfs l) (168 * Suc (length vs)) \<Longrightarrow> m' b = vmem s b"
proof -
  let ?full = "rootfs @ str" and ?n = "local_name l" and ?i = "of_nat (length vs) :: cint"
  have len: "length ?full < 127" using name(2) by (simp add: rootfs_def)
  then have len128: "length ?full < 128" and N: "region ?n (Suc (length ?full)) \<subseteq> region ?n 128" by (simp, intro region_mono) simp
  have F: "region (fname l) 128 \<subseteq> scratch l st" "region ?n 128 \<subseteq> scratch l st" by (auto simp: scratch_def)
  have dis: "region ?n 128 \<inter> region (fname l) 128 = {}" "scratch l st \<inter> vfs_area l = {}"
    using P by (simp_all add: placed_def)
  have V: "region (vfs l) (168 * length vs) \<subseteq> vfs_area l" by (rule table_area) (use t(3) in simp)
  have "region (fname l) 128 \<inter> region ?n (Suc (length ?full)) = {}" using dis(1) N by auto
  moreover have "region (fname l) 128 \<inter> region (vfs l) (168 * length vs) = {}" using dis(2) F(1) V by auto
  ultimately obtain m1 where m1: "get_parent_index l ?n (of_nat k) s =
      Some (if parent_name k ?full \<in> sl_name ` set vs then of_nat (first_slot (parent_name k ?full) vs) else - 2, s\<lparr>vmem := m1\<rparr>)"
    "writes (fname l) 128 (vmem s) m1"
    using get_parent_index_ok [OF name(1) _ k parent_name_rooted [OF k] t(1) _ t(2)] len t(3) by auto
  have c1: "cstr m1 ?n ?full"
    by (rule cstr_region_cong [OF name(1)]) (use m1(2) dis(1) N len in \<open>auto simp: writes_def\<close>)
  have t1: "table l m1 vs"
    by (rule table_cong [OF _ t(1)]) (use m1(2) dis(2) F(1) V t(3) in \<open>auto simp: writes_def\<close>)
  note slot = next_slot_apart [OF t(3), of l]
  have "region ?n (Suc (length ?full)) \<inter> region (slot_at l ?i) 168 = {}" using N F(2) dis(2) slot(3) by blast
  from assign_vfs_slot_ok [OF c1 len128 this,
      of "if parent_name k ?full \<in> sl_name ` set vs then of_nat (first_slot (parent_name k ?full) vs) else - 2" sz ty address off]
  obtain m2 where m2: "assign_vfs_slot l ?i ?n
      (if parent_name k ?full \<in> sl_name ` set vs then of_nat (first_slot (parent_name k ?full) vs) else - 2) sz ty address off m1 = Some m2"
    "holds m2 (slot_at l ?i) \<lparr>sl_name = ?full,
       sl_parent = (if parent_name k ?full \<in> sl_name ` set vs then of_nat (first_slot (parent_name k ?full) vs) else - 2),
       sl_size = sz, sl_type = ty, sl_address = address, sl_index = ?i, sl_offset = off\<rparr>"
    "writes (slot_at l ?i) 168 m1 m2"
    by blast
  have "table l m2 vs"
    by (rule table_cong [OF _ t1]) (use m2(3) slot(1) t(3) in \<open>auto simp: writes_def\<close>)
  then have "table l m2 (vs @ [\<lparr>sl_name = ?full,
       sl_parent = (if parent_name k ?full \<in> sl_name ` set vs then of_nat (first_slot (parent_name k ?full) vs) else - 2),
       sl_size = sz, sl_type = ty, sl_address = address, sl_index = ?i, sl_offset = off\<rparr>])"
    using m2(2) by (rule table_snoc)
  moreover have "m2 b = vmem s b" if "b \<notin> scratch l st \<union> region (vfs l) (168 * Suc (length vs))" for b
  proof -
    have "b \<notin> region (fname l) 128" "b \<notin> region (slot_at l ?i) 168" using that F(1) slot(2) by blast+
    then show ?thesis using m1(2) m2(3) by (simp add: writes_def)
  qed
  ultimately show thesis
    using that m1(1) m2(1) t(2) by (simp add: cint_of_nat_Suc add.commute)
qed

lemma near_vmem [simp]: "near st e v (s\<lparr>vmem := m\<rparr>) = near st e v s"
  by (simp add: near_def)

lemma near_vfs_pointer [simp]: "near st e v (s\<lparr>vfs_pointer := n\<rparr>) = near st e v (s :: 'a archive_scheme)"
  by (simp add: near_def)

lemma kprintf_entry:
  fixes s :: "'a archive_scheme"
  assumes near: "near st 320 (videoCardPosition s) s" and st: "unat st + 6000 < 2 ^ 64"
    and name: "cstr (vmem s) p str" "length str \<le> 128" "region p (Suc (length str)) \<inter> screen_area st = {}"
  obtains s' where
    "do {
       s \<leftarrow> kprintf '' name=%s '' [p] s;
       kprintf (''size = %d'' @ [CHR 0x0A]) [sz] s
     } = Some s'"
    "near st 320 (videoCardPosition s') s'" "vfs_pointer s' = vfs_pointer s"
    "\<And>b. b \<notin> screen_area st \<Longrightarrow> vmem s' b = vmem s b"
proof -
  have "fits 128 1000 (map of_char '' name=%s '') 320 98" by (simp add: width_def)
  moreover have "args_ok 128 (screen_area st) (vmem s) (map of_char '' name=%s '') [p]"
    using name by (auto simp: arg_ok_def)
  ultimately obtain s1 where s1: "kprintf '' name=%s '' [p] s = Some s1" "near st 98 (videoCardPosition s1) s1"
    "writes st 6000 (vmem s) (vmem s1)" "only_console s s1"
    using kprintf_frame [OF near _ _ st] by (metis numeral_le_iff semiring_norm(69,71,68))
  have "fits 128 1000 (map of_char (''size = %d'' @ [CHR 0x0A])) 98 320" by (simp add: width_def)
  moreover have "args_ok 128 (screen_area st) (vmem s1) (map of_char (''size = %d'' @ [CHR 0x0A])) [sz]"
    by (simp add: arg_ok_def)
  ultimately obtain s2 where s2: "kprintf (''size = %d'' @ [CHR 0x0A]) [sz] s1 = Some s2"
    "near st 320 (videoCardPosition s2) s2" "writes st 6000 (vmem s1) (vmem s2)" "only_console s1 s2"
    using kprintf_frame [OF s1(2) _ _ st] by (metis numeral_le_iff semiring_norm(69,71,68))
  have "vfs_pointer s2 = vfs_pointer s" using s1(4) s2(4) by (simp add: only_console_fields)
  then show thesis
    using that s1(1,3) s2(1-3) by (simp add: writes_def screen_area_def)
qed

lemma tarfs_entry_ok:
  fixes s :: "'a archive_scheme"
  assumes P: "placed l st" and ix: "indexing l st m0 vs s" and room: "length vs < 2048"
    and e: "entry_at m0 l p e" and root: "cstr m0 (root_directory_name l) rootfs"
  obtains s' where "tarfs_entry l off p s = Some (off + of_nat (blocks e), p + of_nat (blocks e), s')"
    "indexing l st m0 (if listed e then vs @ [slot_for p (off + of_nat (blocks e)) vs e] else vs) s'"
proof -
  let ?n = "en_size e" and ?full = "rootfs @ en_name e" and ?off = "off + of_nat (blocks e)"
  have sub: "region (root_directory l) 128 \<subseteq> scratch l st" "region (local_name l) 128 \<subseteq> scratch l st" "screen_area st \<subseteq> scratch l st"
    by (auto simp: scratch_def)
  have dis: "region (root_directory l) 128 \<inter> region (local_name l) 128 = {}" "screen_area st \<inter> region (local_name l) 128 = {}"
    "scratch l st \<inter> vfs_area l = {}" "kept_area l \<inter> (scratch l st \<union> vfs_area l) = {}" and st: "unat st + 6000 < 2 ^ 64"
    using P by (simp_all add: placed_def)
  have kept: "region (root_directory_name l) 9 \<subseteq> kept_area l" "archive_area l \<subseteq> kept_area l"
    by (auto simp: kept_area_def)
  have V: "region (vfs l) (168 * length vs) \<subseteq> vfs_area l" by (rule table_area) (use room in simp)
  have near: "near st 320 (videoCardPosition s) s" and vp: "vfs_pointer s = of_nat (length vs)" and t: "table l (vmem s) vs"
    and same: "\<And>b. b \<notin> scratch l st \<union> region (vfs l) (168 * length vs) \<Longrightarrow> vmem s b = m0 b"
    using ix by (auto simp: indexing_def)
  have same_kept: "vmem s b = m0 b" if "b \<in> kept_area l" for b using same that dis(4) V by blast
  have len: "length rootfs = 8" by (simp add: rootfs_def)
  text \<open>The name.\<close>
  have "cstr (vmem s) (root_directory_name l) rootfs"
    by (rule cstr_region_cong [OF root]) (use same_kept kept(1) len in auto)
  moreover have "region (root_directory l) (length rootfs) \<inter> region (root_directory_name l) (length rootfs) = {}"
  proof -
    have "region (root_directory l) 8 \<subseteq> region (root_directory l) 128" "region (root_directory_name l) 8 \<subseteq> region (root_directory_name l) 9"
      by (simp_all add: region_mono)
    then show ?thesis unfolding len using sub(1) kept(1) dis(4) by blast
  qed
  ultimately obtain m1 where m1: "strcpy (vmem s) (root_directory l) (root_directory_name l) = Some m1"
    "cstr m1 (root_directory l) rootfs" "\<And>b. b \<notin> region (root_directory l) (Suc (length rootfs)) \<Longrightarrow> m1 b = vmem s b"
    using strcpy_ok [of "vmem s" "root_directory_name l" rootfs "root_directory l"] len by auto
  have m1': "m1 b = vmem s b" if "b \<notin> region (root_directory l) 128" for b
    using m1(3) that region_mono [of 9 128 "root_directory l"] len by auto
  have "entry_at m1 l p e"
  proof (rule entry_at_cong [OF e])
    fix b assume "b \<in> archive_area l"
    then have "b \<in> kept_area l" using kept(2) by blast
    then show "m1 b = m0 b" using m1' [of b] same_kept [of b] dis(4) sub(1) by auto
  qed
  then have name: "cstr m1 p (en_name e)" "length (en_name e) < 100" and size: "?n < 2 ^ 30"
    "bytes_at m1 (header_size p) 11 = map digit_byte (octal_digits 11 ?n)" and flag: "m1 (header_typeflag p) = en_flag e"
    by (simp_all add: entry_at_def)
  have oct: "oct2bin m1 (header_size p) 11 = of_nat ?n" by (rule oct2bin_octal [OF _ size(2)]) (use size(1) in simp)
  have "region p (Suc (length (en_name e))) \<subseteq> archive_area l" using header_region [OF e, of 0] name(2) by simp
  then have "region (local_name l) 128 \<inter> region p (Suc (length (en_name e))) = {}" using kept(2) sub(2) dis(4) by blast
  then obtain m2 where m2: "rooted_name l p m1 = Some m2"
    "cstr m2 (local_name l) ?full" "\<And>b. b \<notin> region (root_directory l) 128 \<union> region (local_name l) 128 \<Longrightarrow> m2 b = m1 b"
    using rooted_name_ok [OF m1(2) name _ dis(1)] by metis
  text \<open>Printing.\<close>
  have N: "region (local_name l) (Suc (length ?full)) \<subseteq> region (local_name l) 128" using name(2) len by (intro region_mono) simp
  obtain s2 where s2: "do {
       s \<leftarrow> kprintf '' name=%s '' [local_name l] (s\<lparr>vmem := m2\<rparr>);
       kprintf (''size = %d'' @ [CHR 0x0A]) [of_nat ?n] s
     } = Some s2" "near st 320 (videoCardPosition s2) s2" "vfs_pointer s2 = of_nat (length vs)"
    "\<And>b. b \<notin> screen_area st \<Longrightarrow> vmem s2 b = m2 b"
  proof (rule kprintf_entry [of st "s\<lparr>vmem := m2\<rparr>" "local_name l" ?full "of_nat ?n"])
    show "cstr (vmem (s\<lparr>vmem := m2\<rparr>)) (local_name l) ?full" using m2(2) by simp
    show "region (local_name l) (Suc (length ?full)) \<inter> screen_area st = {}" using N dis(2) by blast
  qed (use near st name(2) len vp that in auto)
  have all: "vmem s2 b = vmem s b" if "b \<notin> scratch l st" for b
    using s2(4) [of b] m2(3) [of b] m1' [of b] that by (auto simp: scratch_def)
  have c2: "cstr (vmem s2) (local_name l) ?full"
    by (rule cstr_region_cong [OF m2(2)]) (use N dis(2) name(2) len in \<open>auto intro!: s2(4)\<close>)
  have t2: "table l (vmem s2) vs"
    by (rule table_cong [OF _ t]) (use V dis(3) room in \<open>auto intro!: all\<close>)
  note step = next_header [OF size(1), folded blocks_def]
  have head: "tarfs_entry l off p s = do {
      s \<leftarrow> (if listed e
        then do {
          (parent_index, s) \<leftarrow> get_parent_index l (local_name l) (of_nat (if en_flag e = of_char CHR ''0'' then 1 else 2)) s2;
          m \<leftarrow> assign_vfs_slot l (vfs_pointer s) (local_name l) parent_index (of_nat ?n) (scast (en_flag e)) (p + of_nat ?n) ?off (vmem s);
          Some (s\<lparr>vmem := m, vfs_pointer := vfs_pointer s + 1\<rparr>)
        } else Some s2);
      Some (?off, p + of_nat (blocks e), s)
    }"
  proof -
    obtain s1 where k: "kprintf '' name=%s '' [local_name l] (s\<lparr>vmem := m2\<rparr>) = Some s1"
      "kprintf (''size = %d'' @ [CHR 0x0A]) [of_nat ?n] s1 = Some s2"
      using s2(1) by (auto split: bind_splits)
    have f: "(scast (oct2bin m1 (header_size p) 11) :: u64) = of_nat ?n" by (simp only: oct size_word(1) [OF size(1)])
    have nz: "en_flag e \<noteq> 0" using e by (simp add: entry_at_def)
    show ?thesis
      unfolding tarfs_entry_def m1(1) bind.bind_lunit Let_def f flag m2(1) k if_not_P [OF nz]
        next_offset [OF size(1), folded blocks_def] step
      by (auto simp: listed_def)
  qed
  show thesis
  proof (cases "listed e")
    case False
    have "indexing l st m0 vs s2" using s2(2,3) t2 same all room by (auto simp: indexing_def)
    then show thesis using that head False by simp
  next
    case True
    let ?k = "if en_flag e = of_char CHR ''0'' then 1 else 2 :: nat"
    have k: "?k = 1 \<or> ?k = 2" by simp
    from enter_slot [OF P t2 s2(3) room c2 name(2) k, of "of_nat ?n" "scast (en_flag e)" "p + of_nat ?n" ?off]
    obtain m' where m': "do {
        (parent_index, s) \<leftarrow> get_parent_index l (local_name l) (of_nat ?k) s2;
        m \<leftarrow> assign_vfs_slot l (vfs_pointer s) (local_name l) parent_index (of_nat ?n) (scast (en_flag e)) (p + of_nat ?n) ?off (vmem s);
        Some (s\<lparr>vmem := m, vfs_pointer := vfs_pointer s + 1\<rparr>)
      } = Some (s2\<lparr>vmem := m', vfs_pointer := of_nat (Suc (length vs))\<rparr>)"
      "table l m' (vs @ [slot_for p ?off vs e])"
      "\<And>b. b \<notin> scratch l st \<union> region (vfs l) (168 * Suc (length vs)) \<Longrightarrow> m' b = vmem s2 b"
      unfolding slot_for_def Let_def by blast
    have "region (vfs l) (168 * length vs) \<subseteq> region (vfs l) (168 * Suc (length vs))" by (rule region_mono) simp
    then have "m' b = m0 b" if "b \<notin> scratch l st \<union> region (vfs l) (168 * Suc (length vs))" for b
      using that m'(3) [of b] all [of b] same [of b] by auto
    then have "indexing l st m0 (vs @ [slot_for p ?off vs e]) (s2\<lparr>vmem := m', vfs_pointer := of_nat (Suc (length vs))\<rparr>)"
      using s2(2) m'(2) room by (simp add: indexing_def)
    moreover have "tarfs_entry l off p s = Some (?off, p + of_nat (blocks e), s2\<lparr>vmem := m', vfs_pointer := of_nat (Suc (length vs))\<rparr>)"
      unfolding head if_P [OF True] m'(1) by simp
    ultimately show thesis using that unfolding if_P [OF True] by blast
  qed
qed

section \<open>The archive\<close>

lemma indexing_archive:
  assumes "placed l st" "indexing l st m0 vs s" "b \<in> kept_area l"
  shows "vmem s b = m0 b"
proof -
  have "kept_area l \<inter> (scratch l st \<union> vfs_area l) = {}" using assms(1) by (simp add: placed_def)
  moreover have "region (vfs l) (168 * length vs) \<subseteq> vfs_area l"
    by (rule table_area) (use assms(2) in \<open>simp add: indexing_def\<close>)
  ultimately have "b \<notin> scratch l st \<union> region (vfs l) (168 * length vs)" using assms(3) by blast
  then show ?thesis using assms(2) by (simp add: indexing_def)
qed

lemma length_catalogue: "length (catalogue p off vs es) \<le> length vs + length es"
proof (induction es arbitrary: p off vs)
  case (Cons e es)
  show ?case
    using Cons.IH [of "p + of_nat (blocks e)" "off + of_nat (blocks e)" vs]
      Cons.IH [of "p + of_nat (blocks e)" "off + of_nat (blocks e)" "vs @ [slot_for p (off + of_nat (blocks e)) vs e]"]
    by (simp add: Let_def)
qed simp

lemma tarfs_loop_ok:
  fixes s :: "'a archive_scheme"
  assumes P: "placed l st" and root: "cstr m0 (root_directory_name l) rootfs"
  shows "\<lbrakk>indexing l st m0 vs s; entries_at m0 l p es; length vs + length es \<le> 2048\<rbrakk> \<Longrightarrow>
    \<exists>s'. tarfs_loop l off p s = Some s' \<and> indexing l st m0 (catalogue p off vs es) s'"
proof (induction es arbitrary: p off vs s)
  case Nil
  have "strlen (vmem s) p = Some 0" if "p < binary_tarfs_end l" "binary_tarfs_start l \<le> p" "m0 p = 0"
  proof -
    have "p \<in> kept_area l" using that by (simp add: kept_area_def archive_area_def)
    then have "cstr (vmem s) p []" using indexing_archive [OF P Nil.prems(1)] that(3) by simp
    then show ?thesis using strlen_cstr [of "vmem s" p "[]"] by simp
  qed
  then show ?case using Nil.prems by (subst tarfs_loop.simps) (auto simp: not_less [symmetric])
next
  case (Cons e es)
  have e: "entry_at m0 l p e" and es: "entries_at m0 l (p + of_nat (blocks e)) es" using Cons.prems(2) by simp_all
  have "entry_at (vmem s) l p e"
    by (rule entry_at_cong [OF e]) (use indexing_archive [OF P Cons.prems(1)] in \<open>auto simp: kept_area_def\<close>)
  then have name: "cstr (vmem s) p (en_name e)" "length (en_name e) < 100" "en_name e \<noteq> []" by (simp_all add: entry_at_def)
  have "strlen (vmem s) p = Some (of_nat (length (en_name e)))" by (rule strlen_cstr [OF name(1)]) (use name(2) in simp)
  moreover have "(of_nat (length (en_name e)) :: cint) \<noteq> 0" using name(2,3) by (subst of_nat_cint_eq_0) simp_all
  moreover have "p < binary_tarfs_end l" using e by (simp add: entry_at_def word_less_nat_alt)
  moreover obtain s1 where s1: "tarfs_entry l off p s = Some (off + of_nat (blocks e), p + of_nat (blocks e), s1)"
    "indexing l st m0 (if listed e then vs @ [slot_for p (off + of_nat (blocks e)) vs e] else vs) s1"
    using tarfs_entry_ok [OF P Cons.prems(1) _ e root] Cons.prems(3) by auto
  moreover have more: "length (if listed e then vs @ [slot_for p (off + of_nat (blocks e)) vs e] else vs) + length es \<le> 2048"
    using Cons.prems(3) by simp
  moreover obtain s' where "tarfs_loop l (off + of_nat (blocks e)) (p + of_nat (blocks e)) s1 = Some s'"
    "indexing l st m0 (catalogue (p + of_nat (blocks e)) (off + of_nat (blocks e))
      (if listed e then vs @ [slot_for p (off + of_nat (blocks e)) vs e] else vs) es) s'"
    using Cons.IH [OF s1(2) es more, of "off + of_nat (blocks e)"] by blast
  ultimately show ?case by (subst tarfs_loop.simps) (simp add: Let_def)
qed

lemma tarfs_init_ok:
  fixes s :: "'a archive_scheme"
  assumes P: "placed l st" and near: "near st 320 (videoCardPosition s) s"
    and lits: "cstr (vmem s) (slash l) [of_char CHR ''/'']" "cstr (vmem s) (root_directory_name l) rootfs"
    and es: "entries_at (vmem s) l (binary_tarfs_start l) es" "length es \<le> 2046"
  obtains s' where "tarfs_init l s = Some s'"
    "indexing l st (vmem s) (catalogue (binary_tarfs_start l) 512 first_slots es) s'"
proof -
  have dis: "kept_area l \<inter> vfs_area l = {}" using P by (auto simp: placed_def)
  have area: "region (slot_at l 0) 168 \<subseteq> vfs_area l" "region (slot_at l 1) 168 \<subseteq> vfs_area l"
    "region (slot_at l 0) 168 = region (vfs l) (168 * 1)"
    "region (vfs l) (168 * 1) \<inter> region (slot_at l 1) 168 = {}" "region (slot_at l 1) 168 \<subseteq> region (vfs l) (168 * 2)"
    using next_slot_apart [of 0 l] next_slot_apart [of 1 l] by (simp_all add: slot_at_def)
  have len: "length rootfs = 8" by (simp add: rootfs_def)
  have "region (slash l) (Suc (length [of_char CHR ''/'' :: u8])) \<inter> region (slot_at l 0) 168 = {}"
    using dis area(1) by (auto simp: kept_area_def numeral_2_eq_2)
  from assign_vfs_slot_ok [OF lits(1) _ this, of "- 1" 0 5 0 0]
  obtain m1 where m1: "assign_vfs_slot l 0 (slash l) (- 1) 0 5 0 0 (vmem s) = Some m1"
    "holds m1 (slot_at l 0) (first_slots ! 0)" "writes (slot_at l 0) 168 (vmem s) m1"
    by (auto simp: first_slots_def)
  have kept: "region (root_directory_name l) 9 \<subseteq> kept_area l" by (auto simp: kept_area_def)
  have "cstr m1 (root_directory_name l) rootfs"
    by (rule cstr_region_cong [OF lits(2)]) (use m1(3) kept dis area(1) len in \<open>auto simp: writes_def\<close>)
  moreover have "region (root_directory_name l) (Suc (length rootfs)) \<inter> region (slot_at l 1) 168 = {}"
    using kept dis area(2) len by auto
  ultimately obtain m2 where m2: "assign_vfs_slot l 1 (root_directory_name l) 0 0 5 0 512 m1 = Some m2"
    "holds m2 (slot_at l 1) (first_slots ! 1)" "writes (slot_at l 1) 168 m1 m2"
    using assign_vfs_slot_ok [of m1 "root_directory_name l" rootfs l 1 0 0 5 0 512] len by (auto simp: first_slots_def)
  have "holds m2 (slot_at l 0) (first_slots ! 0)"
    by (rule holds_cong [OF _ m1(2)]) (use m2(3) area(3,4) in \<open>auto simp: writes_def\<close>)
  then have t: "table l m2 first_slots"
    using m2(2) by (auto simp: table_def first_slots_def less_Suc_eq)
  have "region (vfs l) (168 * 1) \<subseteq> region (vfs l) (168 * 2)" by (rule region_mono) simp
  then have same: "m2 b = vmem s b" if "b \<notin> region (vfs l) (168 * 2)" for b
  proof -
    have "b \<notin> region (slot_at l 0) 168" "b \<notin> region (slot_at l 1) 168"
      using that \<open>region (vfs l) (168 * 1) \<subseteq> region (vfs l) (168 * 2)\<close> unfolding area(3) using area(5) by blast+
    then show ?thesis using m1(3) m2(3) by (simp add: writes_def)
  qed
  have two: "length first_slots = 2" by (simp add: first_slots_def)
  have "indexing l st (vmem s) first_slots (s\<lparr>vmem := m2, vfs_pointer := 2\<rparr>)"
    using near t same by (simp add: indexing_def two)
  from tarfs_loop_ok [OF P lits(2) this es(1), of 512] obtain s' where
    "tarfs_loop l 512 (binary_tarfs_start l) (s\<lparr>vmem := m2, vfs_pointer := 2\<rparr>) = Some s'"
    "indexing l st (vmem s) (catalogue (binary_tarfs_start l) 512 first_slots es) s'"
    using es(2) two by auto
  then show thesis using that m1(1) m2(1) by (simp add: tarfs_init_def)
qed

section \<open>Properties\<close>

text \<open>
  C10. tarfs_init refines the catalogue: on an archive of at most 2046 entries it returns, the
  table then holds the two roots and a slot for every file and directory, in the order of
  the archive, with its full name, its size and the index of its parent, and nothing is
  written but the table, the screen, the local arrays and the bytes from the literal of
  \<open>root_directory\<close> on.
\<close>

theorem tarfs_init_catalogues:
  fixes s :: "'a archive_scheme"
  assumes "placed l st" "near st 320 (videoCardPosition s) s"
    and "cstr (vmem s) (slash l) [of_char CHR ''/'']" "cstr (vmem s) (root_directory_name l) rootfs"
    and "entries_at (vmem s) l (binary_tarfs_start l) es" "length es \<le> 2046"
  shows "\<exists>s'. tarfs_init l s = Some s' \<and>
    (let slots = catalogue (binary_tarfs_start l) 512 first_slots es
     in vfs_pointer s' = of_nat (length slots) \<and> table l (vmem s') slots) \<and>
    (\<forall>b. b \<notin> scratch l st \<union> vfs_area l \<longrightarrow> vmem s' b = vmem s b)"
proof -
  let ?c = "catalogue (binary_tarfs_start l) 512 first_slots es"
  obtain s' where s': "tarfs_init l s = Some s'" "indexing l st (vmem s) ?c s'"
    using tarfs_init_ok [OF assms] by blast
  have "region (vfs l) (168 * length ?c) \<subseteq> vfs_area l"
    by (rule table_area) (use s'(2) in \<open>simp add: indexing_def\<close>)
  then show ?thesis using s' by (auto simp: indexing_def)
qed

lemma catalogue_prefix: "\<exists>ws. catalogue p off vs es = vs @ ws"
proof (induction es arbitrary: p off vs)
  case (Cons e es)
  show ?case
    using Cons.IH [of "p + of_nat (blocks e)" "off + of_nat (blocks e)" vs]
      Cons.IH [of "p + of_nat (blocks e)" "off + of_nat (blocks e)" "vs @ [slot_for p (off + of_nat (blocks e)) vs e]"]
    by (auto simp: Let_def)
qed simp

text \<open>The first entry with a name is found through its slot.\<close>

lemma catalogue_first:
  "\<lbrakk>listed e; \<forall>x \<in> set xs. listed x \<longrightarrow> en_name x \<noteq> en_name e; rootfs @ en_name e \<notin> sl_name ` set vs\<rbrakk> \<Longrightarrow>
    let slots = catalogue p off vs (xs @ e # ys)
    in rootfs @ en_name e \<in> sl_name ` set slots \<and>
      sl_address (slots ! first_slot (rootfs @ en_name e) slots) =
        p + of_nat (sum_list (map blocks xs)) + of_nat (en_size e)"
proof (induction xs arbitrary: p off vs)
  case Nil
  let ?v = "slot_for p (off + of_nat (blocks e)) vs e" and ?f = "rootfs @ en_name e"
  obtain ws where ws: "catalogue p off vs ([] @ e # ys) = vs @ ?v # ws"
    using catalogue_prefix [of "p + of_nat (blocks e)" "off + of_nat (blocks e)" "vs @ [?v]" ys] Nil.prems(1)
    by (auto simp: Let_def)
  have v: "sl_name ?v = ?f" "sl_address ?v = p + of_nat (en_size e)" by (simp_all add: slot_for_def Let_def)
  have "first_slot ?f (vs @ ?v # ws) = length vs"
    unfolding first_slot_def using Nil.prems(3) v(1)
    by (subst takeWhile_append2) (auto simp: image_iff)
  then show ?case unfolding ws Let_def by (auto simp: v nth_append)
next
  case (Cons x xs)
  let ?v = "slot_for p (off + of_nat (blocks x)) vs x"
  have "rootfs @ en_name e \<notin> sl_name ` set (if listed x then vs @ [?v] else vs)"
    using Cons.prems(2,3) by (auto simp: slot_for_def Let_def)
  from Cons.IH [OF Cons.prems(1) _ this, of "p + of_nat (blocks x)" "off + of_nat (blocks x)"] Cons.prems(2)
  show ?case by (simp add: Let_def add.assoc)
qed

lemma blank_slot_holds:
  assumes "\<And>b. b \<in> region a 168 \<Longrightarrow> m b = 0"
  shows "holds m a \<lparr>sl_name = [], sl_parent = 0, sl_size = 0, sl_type = 0, sl_address = 0, sl_index = 0, sl_offset = 0\<rparr>"
proof -
  have "load_bytes k (\<lambda>_. 0) x = 0" for k x by (induction k arbitrary: x) simp_all
  then have "holds (\<lambda>_. 0) a \<lparr>sl_name = [], sl_parent = 0, sl_size = 0, sl_type = 0, sl_address = 0, sl_index = 0, sl_offset = 0\<rparr>"
    by (simp add: holds_def load32_def load64_def)
  then show ?thesis by (rule holds_cong [rotated]) (rule assms)
qed

text \<open>
  C11. Looking up what was indexed: after tarfs_init on a blank table, tar_lookup on the full
  name of a file or directory, the first with its name, gives the address of its header plus
  its size, which is the address of its contents for files of 512 bytes only.
\<close>

theorem tar_lookup_indexed:
  fixes s :: "'a archive_scheme"
  assumes "placed l st" "near st 320 (videoCardPosition s) s"
    and "cstr (vmem s) (slash l) [of_char CHR ''/'']" "cstr (vmem s) (root_directory_name l) rootfs"
    and "entries_at (vmem s) l (binary_tarfs_start l) es" "length es \<le> 2045"
    and blank: "\<forall>b \<in> vfs_area l. vmem s b = 0"
    and e: "es = xs @ e # ys" "listed e" "\<forall>x \<in> set xs. listed x \<longrightarrow> en_name x \<noteq> en_name e" "en_name e \<noteq> []"
      "length (en_name e) < 100"
    and p: "cstr (vmem s) p (rootfs @ en_name e)"
      "region p (Suc (length (rootfs @ en_name e))) \<inter> (scratch l st \<union> vfs_area l) = {}"
  shows "\<exists>s' header. tarfs_init l s = Some s' \<and> header = binary_tarfs_start l + of_nat (sum_list (map blocks xs)) \<and>
    tar_lookup l p s' = Some (header + of_nat (en_size e))"
proof -
  let ?c = "catalogue (binary_tarfs_start l) 512 first_slots es" and ?f = "rootfs @ en_name e"
  obtain s' where s': "tarfs_init l s = Some s'" "indexing l st (vmem s) ?c s'"
    using tarfs_init_ok [OF assms(1-5)] assms(6) by auto
  have n: "length ?c < 2048" using length_catalogue [of "binary_tarfs_start l" 512 first_slots es] assms(6)
    by (simp add: first_slots_def)
  have V: "region (vfs l) (168 * length ?c) \<subseteq> vfs_area l" by (rule table_area) (use n in simp)
  have dis: "scratch l st \<inter> vfs_area l = {}" using assms(1) by (simp add: placed_def)
  have same: "\<And>b. b \<notin> scratch l st \<union> region (vfs l) (168 * length ?c) \<Longrightarrow> vmem s' b = vmem s b"
    and t: "table l (vmem s') ?c" and vp: "vfs_pointer s' = of_nat (length ?c)"
    using s'(2) by (simp_all add: indexing_def)
  note slot = next_slot_apart [OF n, of l]
  have "vmem s' b = 0" if "b \<in> region (slot_at l (of_nat (length ?c))) 168" for b
  proof -
    have "b \<in> vfs_area l" "b \<notin> scratch l st \<union> region (vfs l) (168 * length ?c)" using that slot(1,3) dis by blast+
    then show ?thesis using same blank by simp
  qed
  then obtain v where v: "table l (vmem s') (?c @ [v])" using table_snoc [OF t blank_slot_holds] by blast
  have len: "length ?f < 2 ^ 31" using e(5) by (simp add: rootfs_def)
  have "cstr (vmem s') p ?f"
  proof (rule cstr_region_cong [OF p(1)])
    show "vmem s' b = vmem s b" if "b \<in> region p (Suc (length ?f))" for b
    proof (rule same)
      show "b \<notin> scratch l st \<union> region (vfs l) (168 * length ?c)" using that p(2) V by blast
    qed
  qed (use len in simp)
  from tar_search [OF v _ vp this len] n have
    "tar_lookup l p s' = Some (if ?f \<in> sl_name ` set ?c then sl_address (?c ! first_slot ?f ?c) else 0)" by simp
  moreover have "?f \<notin> sl_name ` set first_slots" using e(4) by (auto simp: first_slots_def rootfs_def)
  ultimately show ?thesis
    using s'(1) catalogue_first [OF e(2,3), of first_slots "binary_tarfs_start l" 512 ys] unfolding e(1) Let_def by simp
qed

end
