(* ===== verification/TarfsExample.thy ===== *)
theory TarfsExample
  imports TarfsInit
begin

text \<open>
  A small archive: the directory bin/ and the file bin/ls of five bytes, 2560 bytes in all
  with the empty block at the end. It closes the properties of the archive at a concrete
  state.
\<close>

definition example_places :: places where
  "example_places = \<lparr>binary_tarfs_start = 0x100000, binary_tarfs_end = 0x100A00, vfs = 0x10000, slash = 0x4100,
     root_directory = 0x1000, root_directory_name = 0x4000, fname = 0x3000, local_name = 0x2000\<rparr>"

definition bin_entry :: entry where
  "bin_entry = \<lparr>en_name = [98, 105, 110, 47], en_size = 0, en_flag = 53\<rparr>"

definition ls_entry :: entry where
  "ls_entry = \<lparr>en_name = [98, 105, 110, 47, 108, 115], en_size = 5, en_flag = 48\<rparr>"

definition example_bytes :: "(u64 \<times> u8) list" where
  "example_bytes =
     [(0x4000, 47), (0x4001, 114), (0x4002, 111), (0x4003, 111), (0x4004, 116), (0x4005, 102), (0x4006, 115), (0x4007, 47),
      (0x4100, 47),
      (0x5000, 47), (0x5001, 114), (0x5002, 111), (0x5003, 111), (0x5004, 116), (0x5005, 102), (0x5006, 115), (0x5007, 47),
      (0x5008, 98), (0x5009, 105), (0x500A, 110), (0x500B, 47), (0x500C, 108), (0x500D, 115),
      (0x100000, 98), (0x100001, 105), (0x100002, 110), (0x100003, 47),
      (0x10007C, 48), (0x10007D, 48), (0x10007E, 48), (0x10007F, 48), (0x100080, 48), (0x100081, 48), (0x100082, 48),
      (0x100083, 48), (0x100084, 48), (0x100085, 48), (0x100086, 48), (0x10009C, 53),
      (0x100200, 98), (0x100201, 105), (0x100202, 110), (0x100203, 47), (0x100204, 108), (0x100205, 115),
      (0x10027C, 48), (0x10027D, 48), (0x10027E, 48), (0x10027F, 48), (0x100280, 48), (0x100281, 48), (0x100282, 48),
      (0x100283, 48), (0x100284, 48), (0x100285, 48), (0x100286, 53), (0x10029C, 48),
      (0x100400, 104), (0x100401, 101), (0x100402, 108), (0x100403, 108), (0x100404, 111)]"

definition example_memory :: mem where
  "example_memory a = (case map_of example_bytes a of None \<Rightarrow> 0 | Some b \<Rightarrow> b)"

definition example_state :: archive where
  "example_state = console.extend (blank_console\<lparr>vmem := example_memory\<rparr>) (archive.fields 0)"

lemma example_state_simps [simp]:
  "vmem example_state = example_memory" "videoCardStart example_state = 0xB8000" "videoCardEnd example_state = 0xB8FA0"
  "videoCardPosition example_state = 0xB8000" "scrollForNextCall example_state = 0"
  by (simp_all add: example_state_def console.defs archive.defs)

lemma example_near: "near 0xB8000 320 (videoCardPosition example_state) example_state"
  unfolding near_def by (intro conjI exI [of _ 0]) simp_all

lemma archive_apart:
  "unat a + n \<le> unat (binary_tarfs_start l) \<Longrightarrow> archive_area l \<inter> region a n = {}"
proof -
  assume a: "unat a + n \<le> unat (binary_tarfs_start l)"
  have "b \<notin> archive_area l" if "b \<in> region a n" for b
  proof -
    from that obtain i where "i < n" "b = a + of_nat i" by (rule regionE)
    then have "unat b < unat (binary_tarfs_start l)"
      using a unat_add_no_wrap [of a i] unat_u64_less [of "binary_tarfs_start l"] by simp
    then show ?thesis by (simp add: archive_area_def word_le_nat_alt)
  qed
  then show ?thesis by blast
qed

lemma example_placed: "placed example_places 0xB8000"
proof -
  let ?l = example_places
  have screen: "region 0xB8000 6000 \<inter> region 0x1000 128 = {}" "region 0xB8000 6000 \<inter> region 0x2000 128 = {}"
    "region 0xB8000 6000 \<inter> region 0x3000 128 = {}"
    "region 0xB8000 6000 \<inter> region 0x10000 344064 = {}"
    "region 0x10000 344064 \<inter> region 0x1000 128 = {}" "region 0x10000 344064 \<inter> region 0x2000 128 = {}"
    "region 0x10000 344064 \<inter> region 0x3000 128 = {}"
    by (subst Int_commute, rule region_disjointI, simp, simp)+
  have locals: "region 0x1000 128 \<inter> region 0x2000 128 = {}" "region 0x1000 128 \<inter> region 0x3000 128 = {}"
    "region 0x2000 128 \<inter> region 0x3000 128 = {}"
    by (rule region_disjointI, simp, simp)+
  have strings: "region 0x4000 9 \<inter> region 0xB8000 6000 = {}" "region 0x4000 9 \<inter> region 0x10000 344064 = {}"
    "region 0x4100 2 \<inter> region 0xB8000 6000 = {}" "region 0x4100 2 \<inter> region 0x10000 344064 = {}"
    by (rule region_disjointI, simp, simp)+
  have strings': "region 0x4000 9 \<inter> region 0x1000 128 = {}" "region 0x4000 9 \<inter> region 0x2000 128 = {}"
    "region 0x4000 9 \<inter> region 0x3000 128 = {}" "region 0x4100 2 \<inter> region 0x1000 128 = {}"
    "region 0x4100 2 \<inter> region 0x2000 128 = {}" "region 0x4100 2 \<inter> region 0x3000 128 = {}"
    by (subst Int_commute, rule region_disjointI, simp, simp)+
  have archive: "archive_area ?l \<inter> region 0xB8000 6000 = {}" "archive_area ?l \<inter> region 0x1000 128 = {}"
    "archive_area ?l \<inter> region 0x2000 128 = {}" "archive_area ?l \<inter> region 0x3000 128 = {}"
    "archive_area ?l \<inter> region 0x10000 344064 = {}"
    by (rule archive_apart, simp add: example_places_def)+
  have sets: "scratch ?l 0xB8000 = region 0xB8000 6000 \<union> region 0x1000 128 \<union> region 0x2000 128 \<union> region 0x3000 128"
    "vfs_area ?l = region 0x10000 344064" "kept_area ?l = archive_area ?l \<union> region 0x4000 9 \<union> region 0x4100 2"
    by (auto simp: scratch_def vfs_area_def kept_area_def screen_area_def example_places_def)
  have "scratch ?l 0xB8000 \<inter> vfs_area ?l = {}"
    unfolding sets Int_Un_distrib2 using screen by (simp add: Int_commute)
  moreover have "kept_area ?l \<inter> (scratch ?l 0xB8000 \<union> vfs_area ?l) = {}"
    unfolding sets Int_Un_distrib Int_Un_distrib2 by (simp add: strings strings' archive)
  ultimately show ?thesis
    using screen locals by (simp add: placed_def screen_area_def example_places_def)
qed

lemma example_octal: "octal_digits 11 0 = [0, 0, 0, 0, 0, 0, 0, 0, 0, 0, 0]" "octal_digits 11 5 = [0, 0, 0, 0, 0, 0, 0, 0, 0, 0, 5]"
  by code_simp+

lemma example_bin: "entry_at example_memory example_places 0x100000 bin_entry"
  by (simp add: entry_at_def example_places_def bin_entry_def blocks_def bytes_at_def upt_rec header_size_def
      header_typeflag_def example_memory_def example_bytes_def digit_byte_def example_octal)

lemma example_ls: "entry_at example_memory example_places 0x100200 ls_entry"
  by (simp add: entry_at_def example_places_def ls_entry_def blocks_def bytes_at_def upt_rec header_size_def
      header_typeflag_def example_memory_def example_bytes_def digit_byte_def example_octal)

lemma example_entries: "entries_at example_memory example_places (binary_tarfs_start example_places) [bin_entry, ls_entry]"
proof -
  have "blocks bin_entry = 512" "blocks ls_entry = 1024" by (simp_all add: blocks_def bin_entry_def ls_entry_def)
  then show ?thesis
    using example_bin example_ls
    by (simp add: example_places_def example_memory_def example_bytes_def)
qed

lemma example_literals:
  "cstr example_memory (slash example_places) [of_char CHR ''/'']"
  "cstr example_memory (root_directory_name example_places) rootfs"
  "cstr example_memory 0x5000 (rootfs @ en_name ls_entry)"
  by (simp_all add: example_places_def rootfs_def ls_entry_def example_memory_def example_bytes_def)

text \<open>The catalogue of the example: bin/ hangs under /rootfs/, bin/ls under bin/.\<close>

lemma tarfs_init_catalogues_witness:
  "\<exists>s'. tarfs_init example_places example_state = Some s' \<and> vfs_pointer s' = 4 \<and>
    load32 (vmem s') (slot_parent (slot_at example_places 3)) = 2 \<and>
    load64 (vmem s') (slot_size (slot_at example_places 3)) = 5"
proof -
  let ?c = "catalogue (binary_tarfs_start example_places) 512 first_slots [bin_entry, ls_entry]"
  obtain s' where s': "tarfs_init example_places example_state = Some s'" "vfs_pointer s' = of_nat (length ?c)"
    "table example_places (vmem s') ?c"
    using tarfs_init_catalogues [of example_places "0xB8000" example_state "[bin_entry, ls_entry]", OF example_placed example_near]
      example_literals example_entries by (auto simp: Let_def)
  have c: "length ?c = 4" "sl_parent (?c ! 3) = 2" "sl_size (?c ! 3) = 5"
    by (simp_all add: first_slots_def slot_for_def listed_def bin_entry_def ls_entry_def rootfs_def parent_name_def
        first_slot_def blocks_def example_places_def Let_def)
  have "3 < length ?c" unfolding c(1) by simp
  then have "holds (vmem s') (slot_at example_places (of_nat 3)) (?c ! 3)"
    using s'(3) unfolding table_def by blast
  then have "load32 (vmem s') (slot_parent (slot_at example_places (of_nat 3))) = sl_parent (?c ! 3)"
    "load64 (vmem s') (slot_size (slot_at example_places (of_nat 3))) = sl_size (?c ! 3)"
    unfolding holds_def by blast+
  then have "load32 (vmem s') (slot_parent (slot_at example_places 3)) = 2"
    "load64 (vmem s') (slot_size (slot_at example_places 3)) = 5"
    unfolding c(2,3) by simp_all
  then show ?thesis using s'(1,2) unfolding c(1) by auto
qed

lemma example_lookup_area: "region 0x5000 15 \<inter> (scratch example_places 0xB8000 \<union> vfs_area example_places) = {}"
proof -
  have "region 0x5000 15 \<inter> region 0xB8000 6000 = {}" "region 0x5000 15 \<inter> region 0x10000 344064 = {}"
    by (rule region_disjointI, simp, simp)+
  moreover have "region 0x5000 15 \<inter> region 0x1000 128 = {}" "region 0x5000 15 \<inter> region 0x2000 128 = {}"
    "region 0x5000 15 \<inter> region 0x3000 128 = {}"
    by (subst Int_commute, rule region_disjointI, simp, simp)+
  ultimately show ?thesis
    by (simp add: scratch_def vfs_area_def screen_area_def example_places_def Int_Un_distrib)
qed

lemma example_blank: "\<forall>b \<in> vfs_area example_places. vmem example_state b = 0"
proof
  fix b assume "b \<in> vfs_area example_places"
  then obtain i where "i < 344064" "b = 0x10000 + of_nat i"
    by (auto simp: vfs_area_def example_places_def elim: regionE)
  then have "unat b = 65536 + i" using unat_add_no_wrap [of "0x10000" i] by simp
  then have "b \<notin> fst ` set example_bytes" using \<open>i < 344064\<close> by (auto simp: example_bytes_def)
  then show "vmem example_state b = 0"
    by (simp add: example_memory_def map_of_eq_None_iff [THEN iffD2])
qed

text \<open>The header of bin/ls is at 0x100200; its contents are at 0x100400, not at 0x100205.\<close>

lemma tar_lookup_indexed_witness:
  "\<exists>s'. tarfs_init example_places example_state = Some s' \<and> tar_lookup example_places 0x5000 s' = Some 0x100205"
proof -
  have e: "[bin_entry, ls_entry] = [bin_entry] @ ls_entry # []" "listed ls_entry"
    "\<forall>x \<in> set [bin_entry]. listed x \<longrightarrow> en_name x \<noteq> en_name ls_entry" "en_name ls_entry \<noteq> []" "length (en_name ls_entry) < 100"
    by (simp_all add: listed_def ls_entry_def bin_entry_def)
  have area: "region 0x5000 (Suc (length (rootfs @ en_name ls_entry))) \<inter> (scratch example_places 0xB8000 \<union> vfs_area example_places) = {}"
  proof -
    have "Suc (length (rootfs @ en_name ls_entry)) = 15" by (simp add: rootfs_def ls_entry_def)
    then show ?thesis using example_lookup_area by (simp only:)
  qed
  have two: "length [bin_entry, ls_entry] \<le> 2045" by simp
  have "blocks bin_entry = 512" by (simp add: blocks_def bin_entry_def)
  then show ?thesis
    using tar_lookup_indexed [of example_places "0xB8000" example_state, OF example_placed example_near _ _ _ two example_blank e _ area]
      example_literals example_entries
    by (simp add: example_places_def ls_entry_def)
qed

end
