(* ===== verification/Traverse.thy ===== *)
theory Traverse
  imports Tarfs ScreenFrame
begin

text \<open>
  The search of the archive by traverse_tarfs and get_elf: every address that is a multiple
  of 8 behind the start is tried, header or not.
\<close>

section \<open>The positions\<close>

definition position :: "places \<Rightarrow> nat \<Rightarrow> u64" where
  "position l k = binary_tarfs_start l + of_nat (8 * k)"

definition last_position :: "places \<Rightarrow> nat" where
  "last_position l = (unat (binary_tarfs_end l) - unat (binary_tarfs_start l)) div 8"

text \<open>The archive does not end at the top of the address space, and a string starts everywhere.\<close>

definition readable :: "places \<Rightarrow> mem \<Rightarrow> bool" where
  "readable l m \<longleftrightarrow> binary_tarfs_start l \<le> binary_tarfs_end l \<and> unat (binary_tarfs_end l) + 8 < 2 ^ 64 \<and>
     (\<forall>k \<le> last_position l. \<exists>str. cstr m (position l k) str \<and> length str < 2 ^ 31)"

definition hits :: "places \<Rightarrow> mem \<Rightarrow> u8 list \<Rightarrow> nat list" where
  "hits l m f = filter (\<lambda>k. cstr m (position l k) f) [0..<Suc (last_position l)]"

lemma unat_position:
  assumes "readable l m" "k \<le> Suc (last_position l)"
  shows "unat (position l k) = unat (binary_tarfs_start l) + 8 * k"
    "position l k \<le> binary_tarfs_end l \<longleftrightarrow> k \<le> last_position l"
proof -
  have r: "unat (binary_tarfs_start l) \<le> unat (binary_tarfs_end l)" "unat (binary_tarfs_end l) + 8 < 2 ^ 64"
    using assms(1) by (simp_all add: readable_def word_le_nat_alt)
  define d where "d = unat (binary_tarfs_end l) - unat (binary_tarfs_start l)"
  have e: "unat (binary_tarfs_end l) = unat (binary_tarfs_start l) + d" using r(1) by (simp add: d_def)
  have n: "last_position l = d div 8" by (simp add: last_position_def d_def)
  have "8 * (d div 8) \<le> d" by simp
  then have "unat (binary_tarfs_start l) + 8 * k < 2 ^ 64" using r(2) assms(2) unfolding n e by linarith
  then show u: "unat (position l k) = unat (binary_tarfs_start l) + 8 * k"
    unfolding position_def by (rule unat_add_no_wrap)
  show "position l k \<le> binary_tarfs_end l \<longleftrightarrow> k \<le> last_position l"
    unfolding word_le_nat_alt u e n by (simp add: less_eq_div_iff_mult_less_eq mult.commute)
qed

lemma position_Suc: "position l k + 8 = position l (Suc k)"
  by (simp add: position_def algebra_simps)

section \<open>The search\<close>

text \<open>What is printed about the file found.\<close>

definition print_size :: "u64 \<Rightarrow> 'a console_scheme \<Rightarrow> 'a console_scheme option" where
  "print_size p s = kprintf (''file_size = %d'' @ [CHR 0x0A]) [ucast (oct2bin (vmem s) (header_size p) 11)] s"

lemma traverse_loop_eq:
  assumes r: "readable l (vmem s)" and f: "cstr (vmem s) filename f" "length f < 2 ^ 31"
  shows "i + j = Suc (last_position l) \<Longrightarrow> traverse_loop l filename (position l i) s =
    (case filter (\<lambda>k. cstr (vmem s) (position l k) f) [i..<Suc (last_position l)] of
       [] \<Rightarrow> Some (0, s)
     | k # ks \<Rightarrow> do { s' \<leftarrow> print_size (position l k) s; Some (position l k, s') })"
proof (induction j arbitrary: i)
  case 0
  then have "\<not> position l i \<le> binary_tarfs_end l" using unat_position(2) [OF r, of i] by simp
  then show ?case using 0 by (subst traverse_loop.simps) simp
next
  case (Suc j)
  have i: "i \<le> last_position l" "position l i \<le> binary_tarfs_end l"
    using Suc.prems unat_position(2) [OF r, of i] by simp_all
  obtain str where str: "cstr (vmem s) (position l i) str" "length str < 2 ^ 31"
    using r i(1) by (auto simp: readable_def)
  have cmp: "strcmp (vmem s) filename (position l i) = Some (str_order f str)" by (rule strcmp_cstr [OF f str])
  have hit: "cstr (vmem s) (position l i) f \<longleftrightarrow> str_order f str = 0"
    unfolding str_order_zero using cstr_unique [OF str(1)] str(1) by blast
  have split: "[i..<Suc (last_position l)] = i # [Suc i..<Suc (last_position l)]" using i(1) by (simp add: upt_conv_Cons)
  show ?case
  proof (cases "str_order f str = 0")
    case True
    then show ?thesis using i(2) cmp hit unfolding split by (subst traverse_loop.simps) (simp add: print_size_def Let_def)
  next
    case False
    have "traverse_loop l filename (position l i) s = traverse_loop l filename (position l (Suc i)) s"
      using False i(2) cmp by (subst traverse_loop.simps) (simp add: position_Suc)
    then show ?thesis using Suc.IH [of "Suc i"] Suc.prems False hit unfolding split by simp
  qed
qed

lemma hits_Cons:
  assumes "hits l m f = k # ks"
  shows "k \<le> last_position l" "cstr m (position l k) f" "\<And>j. j < k \<Longrightarrow> \<not> cstr m (position l j) f"
proof -
  have k: "k \<in> set (hits l m f)" using assms by simp
  then show "k \<le> last_position l" "cstr m (position l k) f" by (auto simp: hits_def simp del: upt_Suc)
  show "\<not> cstr m (position l j) f" if "j < k" for j
  proof
    assume "cstr m (position l j) f"
    then have "j \<in> set (hits l m f)" using that \<open>k \<le> last_position l\<close> by (simp add: hits_def del: upt_Suc)
    moreover have "sorted (hits l m f)" by (simp add: hits_def sorted_wrt_filter del: upt_Suc)
    ultimately show False using that assms by (auto simp: sorted_wrt.simps)
  qed
qed

lemma get_elf_search:
  fixes s :: "'a console_scheme"
  assumes near: "near st 672 (videoCardPosition s) s" and st: "unat st + 6000 < 2 ^ 64"
    and r: "readable l (vmem s)" and f: "cstr (vmem s) filename f" "length f \<le> 100"
    and apart: "\<And>k. k \<le> last_position l \<Longrightarrow> cstr (vmem s) (position l k) f \<Longrightarrow>
      position l k \<noteq> 0 \<and> region (position l k) (Suc (length f)) \<inter> screen_area st = {}"
  shows "\<exists>s'. get_elf l filename s =
      Some (case hits l (vmem s) f of [] \<Rightarrow> 0 | k # ks \<Rightarrow> position l k + 512, s') \<and>
    near st 672 (videoCardPosition s') s' \<and> writes st 6000 (vmem s) (vmem s') \<and> only_console s s'"
proof -
  have len: "length f < 2 ^ 31" using f(2) by simp
  have start: "position l 0 = binary_tarfs_start l" by (simp add: position_def)
  have t: "traverse_tarfs l filename s = (case hits l (vmem s) f of [] \<Rightarrow> Some (0, s)
      | k # ks \<Rightarrow> do { s' \<leftarrow> print_size (position l k) s; Some (position l k, s') })"
    using traverse_loop_eq [OF r f(1) len, of 0] by (simp add: traverse_tarfs_def hits_def start)
  show ?thesis
  proof (cases "hits l (vmem s) f")
    case Nil
    have fit: "fits 100 1000 (map of_char (''file not found!'' @ [CHR 0x0A, CHR 0x0A])) 672 672" by simp
    have arg: "args_ok 100 (screen_area st) (vmem s) (map of_char (''file not found!'' @ [CHR 0x0A, CHR 0x0A])) []" by simp
    obtain s' where "kprintf (''file not found!'' @ [CHR 0x0A, CHR 0x0A]) [] s = Some s'" "near st 672 (videoCardPosition s') s'"
      "writes st 6000 (vmem s) (vmem s')" "only_console s s'"
      by (rule kprintf_frame [OF near fit arg st]) (simp, rule that)
    then show ?thesis using t Nil by (simp add: get_elf_def)
  next
    case (Cons k ks)
    note k = hits_Cons [OF Cons]
    have fit: "fits 100 1000 (map of_char (''file_size = %d'' @ [CHR 0x0A])) 672 672" by (simp add: width_def)
    have arg: "args_ok 100 (screen_area st) (vmem s) (map of_char (''file_size = %d'' @ [CHR 0x0A]))
        [ucast (oct2bin (vmem s) (header_size (position l k)) 11)]"
      by (simp add: arg_ok_def)
    obtain s1 where p: "kprintf (''file_size = %d'' @ [CHR 0x0A]) [ucast (oct2bin (vmem s) (header_size (position l k)) 11)] s = Some s1"
      and s1: "near st 672 (videoCardPosition s1) s1" "writes st 6000 (vmem s) (vmem s1)" "only_console s s1"
      by (rule kprintf_frame [OF near fit arg st]) (simp, rule that)
    have "cstr (vmem s1) (position l k) f"
      by (rule cstr_region_cong [OF k(2)]) (use apart [OF k(1,2)] s1(2) f(2) in \<open>auto simp: writes_def screen_area_def\<close>)
    then have arg2: "args_ok 100 (screen_area st) (vmem s1) (map of_char ([CHR 0x0A] @ '' p->name: %s'' @ [CHR 0x0A])) [position l k]"
      using apart [OF k(1,2)] f(2) by (auto simp: arg_ok_def)
    have fit2: "fits 100 1000 (map of_char ([CHR 0x0A] @ '' p->name: %s'' @ [CHR 0x0A])) 672 672" by (simp add: width_def)
    obtain s2 where s2: "kprintf ([CHR 0x0A] @ '' p->name: %s'' @ [CHR 0x0A]) [position l k] s1 = Some s2"
      "near st 672 (videoCardPosition s2) s2" "writes st 6000 (vmem s1) (vmem s2)" "only_console s1 s2"
      by (rule kprintf_frame [OF s1(1) fit2 arg2 st]) (simp, rule that)
    have "get_elf l filename s = Some (position l k + 512, s2)"
      using t Cons p s2(1) apart [OF k(1,2)] by (simp add: get_elf_def print_size_def)
    then show ?thesis
      using Cons s2(2) writes_trans [OF s1(2) s2(3)] only_console_trans [OF s1(3) s2(4)] by simp
  qed
qed

text \<open>
  C12. get_elf ends on every archive that stops short of the top of the address space: it
  returns the address 512 bytes behind the first position whose string is the name, or 0.
  The positions are all multiples of 8, so the contents of a file are searched like the
  headers. Nothing is written outside the screen and 2000 bytes behind it.
\<close>

theorem get_elf_ends:
  fixes s :: "'a console_scheme"
  assumes "near st 672 (videoCardPosition s) s" "unat st + 6000 < 2 ^ 64"
    and "readable l (vmem s)" "cstr (vmem s) filename f" "length f \<le> 100"
    and "\<And>k. k \<le> last_position l \<Longrightarrow> cstr (vmem s) (position l k) f \<Longrightarrow>
      position l k \<noteq> 0 \<and> region (position l k) (Suc (length f)) \<inter> screen_area st = {}"
  shows "\<exists>s'. get_elf l filename s =
      Some (case hits l (vmem s) f of [] \<Rightarrow> 0 | k # ks \<Rightarrow> position l k + 512, s') \<and>
    (\<forall>b. b \<notin> region st 6000 \<longrightarrow> vmem s' b = vmem s b)"
  using get_elf_search [OF assms] unfolding writes_def by blast

section \<open>A concrete search\<close>

definition tiny_places :: places where
  "tiny_places = \<lparr>binary_tarfs_start = 0x100000, binary_tarfs_end = 0x100010, vfs = 0, slash = 0,
     root_directory = 0, root_directory_name = 0, fname = 0, local_name = 0\<rparr>"

definition tiny_memory :: mem where
  "tiny_memory = (\<lambda>_. 0)(0x5000 := 108, 0x5001 := 115, 0x100008 := 108, 0x100009 := 115)"

lemma get_elf_ends_witness:
  "\<exists>s'. get_elf tiny_places 0x5000 (blank_console\<lparr>vmem := tiny_memory\<rparr>) = Some (0x100208, s')"
proof -
  let ?s = "blank_console\<lparr>vmem := tiny_memory\<rparr>"
  have last: "last_position tiny_places = 2" by (simp add: last_position_def tiny_places_def)
  have pos: "position tiny_places k = 0x100000 + of_nat (8 * k)" for k by (simp add: position_def tiny_places_def)
  have at: "cstr tiny_memory (position tiny_places 0) []" "cstr tiny_memory (position tiny_places 1) [108, 115]"
    "cstr tiny_memory (position tiny_places 2) []"
    by (simp_all add: pos tiny_memory_def)
  have near: "near 0xB8000 672 (videoCardPosition ?s) ?s" unfolding near_def by (intro conjI exI [of _ 0]) simp_all
  have "\<exists>str. cstr tiny_memory (position tiny_places k) str \<and> length str < 2 ^ 31" if "k \<le> 2" for k
  proof -
    from that consider "k = 0" | "k = 1" | "k = 2" by linarith
    then show ?thesis using at by cases (auto intro: exI [of _ "[]"] exI [of _ "[108, 115]"])
  qed
  then have r: "readable tiny_places (vmem ?s)" unfolding readable_def last by (simp add: tiny_places_def)
  have f: "cstr (vmem ?s) 0x5000 [108, 115]" by (simp add: tiny_memory_def)
  have none: "\<not> cstr tiny_memory (position tiny_places 0) [108, 115]" "\<not> cstr tiny_memory (position tiny_places 2) [108, 115]"
    by (simp_all add: pos tiny_memory_def)
  have three: "[0..<Suc (last_position tiny_places)] = [0, 1, 2]" unfolding last by (simp add: upt_rec)
  have hits: "hits tiny_places (vmem ?s) [108, 115] = [1]"
    unfolding hits_def three using at(2) none by (simp del: cstr.simps)
  have "region (position tiny_places k) 3 \<inter> screen_area 0xB8000 = {}" if "k \<le> 2" for k
  proof -
    have "unat (0x100000 + of_nat (8 * k) :: u64) = 0x100000 + 8 * k" using unat_add_no_wrap [of "0x100000" "8 * k"] that by simp
    then show ?thesis
      unfolding pos screen_area_def by (subst Int_commute, intro region_disjointI) (use that in simp_all)
  qed
  note apart = this
  have "position tiny_places k \<noteq> 0" if "k \<le> 2" for k
  proof -
    have "unat (0x100000 + of_nat (8 * k) :: u64) = 0x100000 + 8 * k" using unat_add_no_wrap [of "0x100000" "8 * k"] that by simp
    then show ?thesis unfolding pos by (metis add_is_0 unat_0 zero_neq_numeral)
  qed
  then have "position tiny_places k \<noteq> 0 \<and> region (position tiny_places k) (Suc (length [108, 115 :: u8])) \<inter> screen_area 0xB8000 = {}"
    if "k \<le> last_position tiny_places" for k
    using that apart [of k] unfolding last by (simp add: numeral_3_eq_3)
  then obtain s' where "get_elf tiny_places 0x5000 ?s = Some (case hits tiny_places (vmem ?s) [108, 115] of [] \<Rightarrow> 0
      | k # ks \<Rightarrow> position tiny_places k + 512, s')"
    using get_elf_ends [OF near _ r f] by auto
  then show ?thesis unfolding hits by (simp add: pos)
qed

end
