(* ===== verification/Elf.thy ===== *)
theory Elf
  imports Tarfs ScreenFrame
begin

text \<open>
  The checks of sys/elf64.c on an executable in the archive, and the search of the archive
  by traverse_tarfs. The functions that take a file read the header through its data
  pointer.
\<close>

section \<open>Headers\<close>

text \<open>Offsets of include/sys/elf64.h and include/sys/file.h.\<close>

definition e_phoff :: "mem \<Rightarrow> u64 \<Rightarrow> u64" where "e_phoff m ehdr = load64 m (ehdr + 32)"
definition e_phnum :: "mem \<Rightarrow> u64 \<Rightarrow> u16" where "e_phnum m ehdr = load16 m (ehdr + 56)"
definition p_type_at :: "mem \<Rightarrow> u64 \<Rightarrow> u32" where "p_type_at m phdr = load32 m phdr"
definition p_vaddr :: "mem \<Rightarrow> u64 \<Rightarrow> u64" where "p_vaddr m phdr = load64 m (phdr + 16)"
definition p_paddr :: "mem \<Rightarrow> u64 \<Rightarrow> u64" where "p_paddr m phdr = load64 m (phdr + 24)"
definition p_filesz :: "mem \<Rightarrow> u64 \<Rightarrow> u64" where "p_filesz m phdr = load64 m (phdr + 32)"
definition p_memsz :: "mem \<Rightarrow> u64 \<Rightarrow> u64" where "p_memsz m phdr = load64 m (phdr + 40)"
definition file_data :: "mem \<Rightarrow> u64 \<Rightarrow> u64" where "file_data m fp = load64 m (fp + 40)"

definition PT_LOAD :: u32 where "PT_LOAD = 1"

text \<open>Program header number \<open>i\<close>, an \<open>int\<close>, of 56 bytes.\<close>

definition phdr_at :: "mem \<Rightarrow> u64 \<Rightarrow> cint \<Rightarrow> u64" where
  "phdr_at m ehdr i = ehdr + e_phoff m ehdr + 56 * scast i"

section \<open>The checks\<close>

text \<open>\<open>elf\<close> is the address of the literal ''ELF''.\<close>

definition validate_elf_header :: "u64 \<Rightarrow> u64 \<Rightarrow> 'a console_scheme \<Rightarrow> (cint \<times> 'a console_scheme) option" where
  "validate_elf_header elf ehdr s = do {
     s \<leftarrow> kprintf (''e_ident = %s'' @ [CHR 0x0A]) [ehdr] s;
     valid \<leftarrow> (if vmem s ehdr = 0x7f then do { c \<leftarrow> strsubcmp (vmem s) elf ehdr 1 4; Some (c = 0) } else Some False);
     if valid
     then do {
       s \<leftarrow> kprintf ''phnum = %d '' [ucast (e_phnum (vmem s) ehdr)] s;
       Some (1, s)
     }
     else Some (0, s)
   }"

definition validate_elf_header_from_fp :: "u64 \<Rightarrow> u64 \<Rightarrow> 'a console_scheme \<Rightarrow> (cint \<times> 'a console_scheme) option" where
  "validate_elf_header_from_fp elf fp s = validate_elf_header elf (file_data (vmem s) fp + 512) s"

lemma cint_below_phnum:
  "sint (i :: cint) < uint (n :: u16) \<Longrightarrow> nat (uint n - sint (i + 1)) < nat (uint n - sint i)"
proof -
  assume i: "sint i < uint n"
  have "uint n < 65536" using uint_lt2p [of n] by simp
  moreover have "- 2147483648 \<le> sint i" using sint_ge [of i] by simp
  ultimately have "sint (i + 1) = sint i + 1" using i by (simp add: sint_word_ariths signed_take_bit_int_eq_self)
  then show ?thesis using i by simp
qed

function loadable_loop :: "u64 \<Rightarrow> cint \<Rightarrow> 'a console_scheme \<Rightarrow> (cint \<times> 'a console_scheme) option" where
  "loadable_loop ehdr i s =
     (if sint i < uint (e_phnum (vmem s) ehdr)
      then let phdr = phdr_at (vmem s) ehdr i in
        if p_type_at (vmem s) phdr = PT_LOAD
        then do {
          s \<leftarrow> kprintf (''p->p_vaddr = %p'' @ [CHR 0x0A]) [p_vaddr (vmem s) phdr] s;
          s \<leftarrow> kprintf (''p->p_paddr = %p'' @ [CHR 0x0A]) [p_paddr (vmem s) phdr] s;
          s \<leftarrow> kprintf (''p->p_memsz = %p'' @ [CHR 0x0A]) [p_memsz (vmem s) phdr] s;
          s \<leftarrow> kprintf (''p->p_filesz = %p'' @ [CHR 0x0A]) [p_filesz (vmem s) phdr] s;
          Some (1, s)
        }
        else loadable_loop ehdr (i + 1) s
      else Some (0, s))"
  by pat_completeness auto
termination
  by (relation "measure (\<lambda>(ehdr, i, s). nat (uint (e_phnum (vmem s) ehdr) - sint i))")
    (auto simp: cint_below_phnum simp del: zless_nat_conj)

declare loadable_loop.simps [simp del]

definition check_elf_loadable :: "u64 \<Rightarrow> 'a console_scheme \<Rightarrow> (cint \<times> 'a console_scheme) option" where
  "check_elf_loadable ehdr s = loadable_loop ehdr 0 s"

text \<open>The other version prints nothing.\<close>

function loadable_from_fp_loop :: "mem \<Rightarrow> u64 \<Rightarrow> cint \<Rightarrow> cint" where
  "loadable_from_fp_loop m header i =
     (if sint i < uint (e_phnum m header)
      then if p_type_at m (phdr_at m header i) = PT_LOAD then 1 else loadable_from_fp_loop m header (i + 1)
      else 0)"
  by pat_completeness auto
termination
  by (relation "measure (\<lambda>(m, header, i). nat (uint (e_phnum m header) - sint i))")
    (auto simp: cint_below_phnum simp del: zless_nat_conj)

declare loadable_from_fp_loop.simps [simp del]

definition check_elf_loadable_from_fp :: "mem \<Rightarrow> u64 \<Rightarrow> cint" where
  "check_elf_loadable_from_fp m fp = loadable_from_fp_loop m (file_data m fp + 512) 0"

section \<open>Loadable headers\<close>

lemma loadable_from_fp_loop_eq:
  "n + i = unat (e_phnum m header) \<Longrightarrow> loadable_from_fp_loop m header (of_nat i) =
    (if \<exists>j \<ge> i. j < unat (e_phnum m header) \<and> p_type_at m (phdr_at m header (of_nat j)) = PT_LOAD then 1 else 0)"
proof (induction n arbitrary: i)
  case 0
  have i: "i < 65536" using 0 unsigned_less [of "e_phnum m header", where ?'a = nat] by simp
  have "\<not> sint (of_nat i :: cint) < uint (e_phnum m header)"
    unfolding uint_nat 0 [symmetric] using i sint_cint_of_nat [of i] by simp
  moreover have "\<not> (\<exists>j \<ge> i. j < unat (e_phnum m header) \<and> p_type_at m (phdr_at m header (of_nat j)) = PT_LOAD)"
    using 0 by auto
  ultimately show ?case by (subst loadable_from_fp_loop.simps) (simp only: if_False)
next
  case (Suc n)
  have "i < 65536" using Suc.prems unsigned_less [of "e_phnum m header", where ?'a = nat] by simp
  then have s: "sint (of_nat i :: cint) < uint (e_phnum m header)"
    unfolding uint_nat Suc.prems [symmetric] using \<open>i < 65536\<close> sint_cint_of_nat [of i] by simp
  have split: "(\<exists>j \<ge> i. j < unat (e_phnum m header) \<and> P j) \<longleftrightarrow> P i \<or> (\<exists>j \<ge> Suc i. j < unat (e_phnum m header) \<and> P j)" for P
  proof -
    have "i < unat (e_phnum m header)" unfolding Suc.prems [symmetric] by simp
    then show ?thesis unfolding Suc_le_eq order_le_less [of i] by blast
  qed
  have more: "loadable_from_fp_loop m header (of_nat i + 1) =
      (if \<exists>j \<ge> Suc i. j < unat (e_phnum m header) \<and> p_type_at m (phdr_at m header (of_nat j)) = PT_LOAD then 1 else 0)"
    unfolding cint_of_nat_Suc by (rule Suc.IH) (use Suc.prems in simp)
  show ?case
    unfolding split [of "\<lambda>j. p_type_at m (phdr_at m header (of_nat j)) = PT_LOAD"]
    by (subst loadable_from_fp_loop.simps) (simp only: s more if_True simp_thms split: if_split, blast)
qed

text \<open>The two versions of the check, and the two of the validation, agree.\<close>

lemma loadable_loop_agrees:
  "\<exists>s'. loadable_loop ehdr i s = Some (loadable_from_fp_loop (vmem s) ehdr i, s') \<and> only_console s s'"
proof (induction ehdr i s rule: loadable_loop.induct)
  case (1 ehdr i s)
  show ?case
  proof (cases "sint i < uint (e_phnum (vmem s) ehdr) \<and> p_type_at (vmem s) (phdr_at (vmem s) ehdr i) \<noteq> PT_LOAD")
    case True
    then show ?thesis
      using "1.IH" [OF _ refl] by (subst loadable_loop.simps, subst loadable_from_fp_loop.simps) (simp add: Let_def)
  next
    case False
    let ?h = "phdr_at (vmem s) ehdr i"
    have p: "\<exists>s'. kprintf (f @ [CHR 0x0A]) [a] s0 = Some s' \<and> only_console s0 s'"
      if "f \<in> {''p->p_vaddr = %p'', ''p->p_paddr = %p'', ''p->p_memsz = %p'', ''p->p_filesz = %p''}" for f a and s0 :: "'a console_scheme"
    proof -
      have "numbers_format (map of_char (f @ [CHR 0x0A])) (length [a])" using that by auto
      then show ?thesis by (rule kprintf_numbers) blast
    qed
    obtain s1 where s1: "kprintf (''p->p_vaddr = %p'' @ [CHR 0x0A]) [p_vaddr (vmem s) ?h] s = Some s1" "only_console s s1"
      using p by blast
    obtain s2 where s2: "kprintf (''p->p_paddr = %p'' @ [CHR 0x0A]) [p_paddr (vmem s1) ?h] s1 = Some s2" "only_console s1 s2"
      using p by blast
    obtain s3 where s3: "kprintf (''p->p_memsz = %p'' @ [CHR 0x0A]) [p_memsz (vmem s2) ?h] s2 = Some s3" "only_console s2 s3"
      using p by blast
    obtain s4 where s4: "kprintf (''p->p_filesz = %p'' @ [CHR 0x0A]) [p_filesz (vmem s3) ?h] s3 = Some s4" "only_console s3 s4"
      using p by blast
    have "only_console s s4" using s1(2) s2(2) s3(2) s4(2) only_console_trans by blast
    then show ?thesis
      using False s1(1) s2(1) s3(1) s4(1)
      by (subst loadable_loop.simps, subst loadable_from_fp_loop.simps) (auto simp: Let_def)
  qed
qed

text \<open>
  C14. The two checks for a loadable executable, on the header and through an open file, give
  the same answer: 1 exactly when one of the program headers that e_phnum counts has the
  type PT_LOAD. Both return, and they change nothing but the screen.
\<close>

theorem loadable_checks_agree:
  fixes s :: "'a console_scheme"
  shows "\<exists>s'. check_elf_loadable (file_data (vmem s) fp + 512) s = Some (check_elf_loadable_from_fp (vmem s) fp, s') \<and>
    only_console s s' \<and>
    (check_elf_loadable_from_fp (vmem s) fp = 1 \<longleftrightarrow>
      (\<exists>i < unat (e_phnum (vmem s) (file_data (vmem s) fp + 512)).
        p_type_at (vmem s) (phdr_at (vmem s) (file_data (vmem s) fp + 512) (of_nat i)) = PT_LOAD))"
proof -
  let ?h = "file_data (vmem s) fp + 512"
  have "check_elf_loadable_from_fp (vmem s) fp = 1 \<longleftrightarrow>
      (\<exists>i < unat (e_phnum (vmem s) ?h). p_type_at (vmem s) (phdr_at (vmem s) ?h (of_nat i)) = PT_LOAD)"
    using loadable_from_fp_loop_eq [of "unat (e_phnum (vmem s) ?h)" 0 "vmem s" ?h]
    by (simp add: check_elf_loadable_from_fp_def)
  then show ?thesis
    using loadable_loop_agrees [of ?h 0 s] by (simp add: check_elf_loadable_def check_elf_loadable_from_fp_def)
qed

section \<open>The identification\<close>

lemma bytes3: "bytes_at m p 3 = [m p, m (p + 1), m (p + 2)]"
  by (simp add: bytes_at_def upt_rec)

text \<open>
  C15. validate_elf_header returns 1 exactly when the header starts with the byte 0x7f and the
  letters E, L and F. The bytes of the header up to the first 0 are printed as a string.
\<close>

theorem validate_elf_header_magic:
  fixes s :: "'a console_scheme"
  assumes near: "near st 672 (videoCardPosition s) s" and st: "unat st + 6000 < 2 ^ 64"
    and elf: "cstr (vmem s) elf (map of_char ''ELF'')" "region elf 4 \<inter> screen_area st = {}"
    and id: "cstr (vmem s) ehdr ident" "length ident \<le> 100" "region ehdr (max 4 (Suc (length ident))) \<inter> screen_area st = {}"
  shows "\<exists>s' r. validate_elf_header elf ehdr s = Some (r, s') \<and> only_console s s' \<and>
    near st 672 (videoCardPosition s') s' \<and> writes st 6000 (vmem s) (vmem s') \<and>
    r = (if vmem s ehdr = 0x7f \<and> vmem s (ehdr + 1) = 69 \<and> vmem s (ehdr + 2) = 76 \<and> vmem s (ehdr + 3) = 70 then 1 else 0)"
proof -
  have sub: "region ehdr (Suc (length ident)) \<subseteq> region ehdr (max 4 (Suc (length ident)))" "region ehdr 4 \<subseteq> region ehdr (max 4 (Suc (length ident)))"
    by (simp_all add: region_mono)
  have f: "fits 100 1000 (map of_char (''e_ident = %s'' @ [CHR 0x0A])) 672 672" by (simp add: width_def)
  have a: "args_ok 100 (screen_area st) (vmem s) (map of_char (''e_ident = %s'' @ [CHR 0x0A])) [ehdr]"
    using id(1,2) id(3) sub(1) by (auto simp: arg_ok_def)
  obtain s1 where s1: "kprintf (''e_ident = %s'' @ [CHR 0x0A]) [ehdr] s = Some s1"
    "near st 672 (videoCardPosition s1) s1" "writes st 6000 (vmem s) (vmem s1)" "only_console s s1"
    by (rule kprintf_frame [OF near f a st]) (simp, rule that)
  have same: "vmem s1 (ehdr + of_nat i) = vmem s (ehdr + of_nat i)" if "i < 4" for i
  proof -
    have "ehdr + of_nat i \<in> region ehdr 4" using that by (simp add: region_offset)
    then have "ehdr + of_nat i \<notin> region st 6000" using id(3) sub(2) unfolding screen_area_def by blast
    then show ?thesis using s1(3) unfolding writes_def by blast
  qed
  note same4 = same [of 0] same [of 1] same [of 2] same [of 3]
  have four: "Suc (length (map (of_char :: char \<Rightarrow> u8) ''ELF'')) = 4" by simp
  have "cstr (vmem s1) elf (map of_char ''ELF'')"
  proof (rule cstr_region_cong [OF elf(1)])
    show "vmem s1 b = vmem s b" if "b \<in> region elf (Suc (length (map (of_char :: char \<Rightarrow> u8) ''ELF'')))" for b
      using that elf(2) s1(3) unfolding four writes_def screen_area_def by blast
  qed simp
  then have "strsubcmp (vmem s1) elf ehdr (of_nat 1) 4 =
      Some (lex_order (map of_char ''ELF'') (bytes_at (vmem s1) (ehdr + of_nat 1) (length (map (of_char :: char \<Rightarrow> u8) ''ELF''))))"
    by (rule strsubcmp_cstr) simp_all
  then have cmp: "strsubcmp (vmem s1) elf ehdr 1 4 = Some (lex_order [69, 76, 70] (bytes_at (vmem s1) (ehdr + 1) 3))"
    by (simp add: numeral_3_eq_3)
  have zero: "lex_order [69, 76, 70] (bytes_at (vmem s1) (ehdr + 1) 3) = 0 \<longleftrightarrow> [69, 76, 70] = bytes_at (vmem s1) (ehdr + 1) 3"
    by (rule lex_order_zero) simp
  have magic: "[69, 76, 70] = bytes_at (vmem s1) (ehdr + 1) 3 \<longleftrightarrow>
      vmem s (ehdr + 1) = 69 \<and> vmem s (ehdr + 2) = 76 \<and> vmem s (ehdr + 3) = 70"
    using same4 by (auto simp: bytes3 add.assoc)
  have f2: "fits 100 1000 (map of_char ''phnum = %d '') 672 672" by (simp add: width_def)
  have a2: "args_ok 100 (screen_area st) (vmem s1) (map of_char ''phnum = %d '') [ucast (e_phnum (vmem s1) ehdr)]"
    by (simp add: arg_ok_def)
  obtain s2 where s2: "kprintf ''phnum = %d '' [ucast (e_phnum (vmem s1) ehdr)] s1 = Some s2"
    "near st 672 (videoCardPosition s2) s2" "writes st 6000 (vmem s1) (vmem s2)" "only_console s1 s2"
    by (rule kprintf_frame [OF s1(2) f2 a2 st]) (simp, rule that)
  let ?ok = "vmem s ehdr = 0x7f \<and> vmem s (ehdr + 1) = 69 \<and> vmem s (ehdr + 2) = 76 \<and> vmem s (ehdr + 3) = 70"
  show ?thesis
  proof (cases ?ok)
    case True
    then have "validate_elf_header elf ehdr s = Some (1, s2)"
      using s1(1) s2(1) cmp zero magic same4 by (simp add: validate_elf_header_def)
    then show ?thesis
      using True s2(2) writes_trans [OF s1(3) s2(3)] only_console_trans [OF s1(4) s2(4)] by auto
  next
    case False
    then have "validate_elf_header elf ehdr s = Some (0, s1)"
      using s1(1) cmp zero magic same4 by (auto simp: validate_elf_header_def)
    then show ?thesis using False s1(2-4) by auto
  qed
qed

lemma validate_elf_header_magic_witness:
  "\<exists>s'. validate_elf_header 0x5000 0x6000 (blank_console\<lparr>vmem := (\<lambda>_. 0)(0x5000 := 69, 0x5001 := 76, 0x5002 := 70,
     0x6000 := 0x7f, 0x6001 := 69, 0x6002 := 76, 0x6003 := 70)\<rparr>) = Some (1, s')"
proof -
  let ?m = "(\<lambda>_. 0)(0x5000 := 69, 0x5001 := 76, 0x5002 := 70, 0x6000 := 0x7f, 0x6001 := 69, 0x6002 := 76, 0x6003 := 70) :: mem"
  let ?s = "blank_console\<lparr>vmem := ?m\<rparr>"
  have near: "near 0xB8000 672 (videoCardPosition ?s) ?s" unfolding near_def by (intro conjI exI [of _ 0]) simp_all
  have elf: "cstr (vmem ?s) 0x5000 (map of_char ''ELF'')" by simp
  have id: "cstr (vmem ?s) 0x6000 [0x7f, 69, 76, 70]" by simp
  have apart: "region 0x5000 4 \<inter> screen_area 0xB8000 = {}" "region 0x6000 5 \<inter> screen_area 0xB8000 = {}"
    unfolding screen_area_def by (rule region_disjointI, simp, simp)+
  have "max 4 (Suc (length [0x7f, 69, 76, 70 :: u8])) = 5" by simp
  with apart(2) have "region 0x6000 (max 4 (Suc (length [0x7f, 69, 76, 70 :: u8]))) \<inter> screen_area 0xB8000 = {}" by (simp only:)
  from validate_elf_header_magic [OF near _ elf apart(1) id _ this] show ?thesis by auto
qed

end
