(* ===== verification/Vmem.thy ===== *)
theory Vmem
  imports Kmalloc
begin

text \<open>
  The memory a kernel function sees through the page tables. The fields of the kernel's
  structures are read and written byte by byte through the translation; on mapped pages
  that belong to no table, free page or descriptor this is reading and writing a flat
  memory, which the allocators extend: \<open>heap\<close> relates the two, and the later theories
  reason about the flat one.
\<close>

section \<open>Access of any width\<close>

primrec vload :: "nat \<Rightarrow> 'a paging_scheme \<Rightarrow> u64 \<Rightarrow> nat option" where
  "vload 0 s a = Some 0"
| "vload (Suc n) s a = do {
     b \<leftarrow> vload8 (mmu s) (pmem s) a;
     r \<leftarrow> vload n s (a + 1);
     Some (unat b + 256 * r)
   }"

primrec vstore :: "nat \<Rightarrow> 'a paging_scheme \<Rightarrow> u64 \<Rightarrow> nat \<Rightarrow> 'a paging_scheme option" where
  "vstore 0 s a v = Some s"
| "vstore (Suc n) s a v = do {
     m \<leftarrow> vstore8 (mmu s) (pmem s) a (of_nat v);
     vstore n (s\<lparr>pmem := m\<rparr>) (a + 1) (v div 256)
   }"

definition get8 :: "'a paging_scheme \<Rightarrow> u64 \<Rightarrow> u8 option" where
  "get8 s a = vload8 (mmu s) (pmem s) a"

definition get16 :: "'a paging_scheme \<Rightarrow> u64 \<Rightarrow> u16 option" where
  "get16 s a = map_option of_nat (vload 2 s a)"

definition get32 :: "'a paging_scheme \<Rightarrow> u64 \<Rightarrow> u32 option" where
  "get32 s a = map_option of_nat (vload 4 s a)"

definition get64 :: "'a paging_scheme \<Rightarrow> u64 \<Rightarrow> u64 option" where
  "get64 s a = map_option of_nat (vload 8 s a)"

definition put8 :: "'a paging_scheme \<Rightarrow> u64 \<Rightarrow> u8 \<Rightarrow> 'a paging_scheme option" where
  "put8 s a v = vstore 1 s a (unat v)"

definition put32 :: "'a paging_scheme \<Rightarrow> u64 \<Rightarrow> u32 \<Rightarrow> 'a paging_scheme option" where
  "put32 s a v = vstore 4 s a (unat v)"

definition put64 :: "'a paging_scheme \<Rightarrow> u64 \<Rightarrow> u64 \<Rightarrow> 'a paging_scheme option" where
  "put64 s a v = vstore 8 s a (unat v)"

section \<open>Translations and the table entries\<close>

text \<open>Outside the recursive slot a translation reads entries of tables only.\<close>

lemma walk_same:
  assumes "tables_ok m T" "index 3 v \<noteq> 510"
    and "\<And>g i. g \<in> all_tables T \<Longrightarrow> i AND 0x1ff = i \<Longrightarrow> load64 m' (slot g i) = load64 m (slot g i)"
  shows "\<lbrakk>n \<le> 3; f \<in> T n\<rbrakk> \<Longrightarrow> walk (Suc n) m' f v = walk (Suc n) m f v"
proof (induction n arbitrary: f)
  case 0
  then have "load64 m' (slot f (index 0 v)) = load64 m (slot f (index 0 v))"
    using assms(3) [of f "index 0 v"] all_tablesI [of f T 0] by simp
  then show ?case unfolding walk.simps(2) [of 0] by (simp only: walk.simps(1))
next
  case (Suc n)
  let ?e = "load64 m (slot f (index (Suc n) v))"
  have eq: "load64 m' (slot f (index (Suc n) v)) = ?e"
    using assms(3) [of f "index (Suc n) v"] all_tablesI [of f T "Suc n"] Suc.prems by simp
  have "good_entry T (Suc n) ?e"
    using tables_okD(2) [OF assms(1) Suc.prems(2,1)] good_slot_index [OF assms(2)] by blast
  then have "frame ?e \<in> T n" if "present ?e" using that by (simp add: good_entry_def)
  with Suc.IH [of "frame ?e"] Suc.prems(1) show ?case
    unfolding walk.simps(2) [of "Suc n"] eq Let_def by simp
qed

lemma mmu_tables:
  assumes "paging_inv s T ps" "index 3 v \<noteq> 510" "cr3_reg s' = cr3_reg s"
    and "\<And>g i. g \<in> all_tables T \<Longrightarrow> i AND 0x1ff = i \<Longrightarrow> load64 (pmem s') (slot g i) = load64 (pmem s) (slot g i)"
  shows "mmu s' (pmem s') v = mmu s (pmem s) v"
proof -
  have t: "tables_ok (pmem s) T" "root s \<in> T 3" using assms(1) by (simp_all add: paging_inv_def)
  have "walk (Suc 3) (pmem s') (root s) v = walk (Suc 3) (pmem s) (root s) v"
    by (rule walk_same [OF t(1) assms(2,4)]) (use t(2) in simp_all)
  then show ?thesis using assms(3) by (simp add: translate_def del: walk.simps)
qed

lemma walk_same_page: "(\<And>k. index k a = index k b) \<Longrightarrow> walk n m f a = None \<longleftrightarrow> walk n m f b = None"
  by (induction n arbitrary: f) (auto simp: Let_def)

lemma mmu_same_page: "page_of a = page_of b \<Longrightarrow> mmu s m a = None \<longleftrightarrow> mmu s m b = None"
  using same_page [of a b] walk_same_page [of a b 4 m "frame (cr3_reg s)"]
  by (simp add: translate_def del: walk.simps)

section \<open>One byte\<close>

text \<open>The aligned word a byte lies in.\<close>

definition word_of :: "u64 \<Rightarrow> u64" where
  "word_of a = a AND NOT 7"

lemma word_of_parts: "aligned8 (word_of a)" "page_of (word_of a) = page_of a" "a = word_of a + (a AND 7)"
proof -
  show "aligned8 (word_of a)"
    unfolding aligned8_def word_of_def by (rule word64_eqI) (simp add: bitblast)
  show "page_of (word_of a) = page_of a"
    unfolding page_of_def word_of_def by (rule word64_eqI) (simp add: bitblast)
  have "word_of a + (a AND 7) = word_of a OR (a AND 7)"
    unfolding word_of_def by (rule disjunctive_add) (auto simp: bit_simps)
  also have "\<dots> = a" unfolding word_of_def by (rule word64_eqI) (simp add: bitblast)
  finally show "a = word_of a + (a AND 7)" by simp
qed

lemma unat_and_7: "unat (a AND 7 :: u64) < 8"
proof -
  have "a AND 7 = take_bit 3 a" by (simp add: take_bit_eq_mask mask_eq_exp_minus_1)
  moreover have "unat (take_bit 3 a) = unat a mod 8" by (simp only: unsigned_take_bit_eq) (simp add: take_bit_eq_mod)
  ultimately show ?thesis by simp
qed

lemma word_of_aligned: "aligned8 w \<Longrightarrow> unat (b - w) < 8 \<Longrightarrow> word_of b = w"
proof -
  assume w: "aligned8 w" "unat (b - w) < 8"
  show "word_of b = w"
  proof (rule ccontr)
    assume "word_of b \<noteq> w"
    from aligned8_sep8 [OF word_of_parts(1) w(1) this] have "8 \<le> unat (b - word_of b)"
      using sep8_bytes [of w "word_of b" b] w(2) sep8_sym by blast
    moreover have "b - word_of b = b AND 7" using word_of_parts(3) [of b] by (simp add: algebra_simps)
    ultimately show False using unat_and_7 [of b] by simp
  qed
qed

lemma index_kernel_word:
  assumes "unat w < 2 ^ 31 + 16"
  shows "index 3 (KERNBASE + w) \<noteq> 510"
proof
  assume i: "index 3 (KERNBASE + w) = 510"
  let ?x = "KERNBASE + w"
  have "index 3 ?x = take_bit 9 (drop_bit 39 ?x)"
    by (simp add: index_def take_bit_eq_mask mask_eq_exp_minus_1)
  then have "unat (take_bit 9 (drop_bit 39 ?x)) = 510" using i by simp
  moreover have "unat (take_bit 9 (drop_bit 39 ?x)) = unat ?x div 2 ^ 39 mod 512"
    by (simp only: unsigned_take_bit_eq unsigned_drop_bit_eq) (simp add: take_bit_eq_mod drop_bit_eq_div mod_less [OF unat_u64_less])
  ultimately have "unat ?x div 2 ^ 39 mod 512 = 510" by simp
  moreover have x: "unat ?x = (0xffffffff80000000 + unat w) mod 2 ^ 64" by (simp add: unat_word_ariths)
  moreover have "unat ?x div 2 ^ 39 mod 512 = (if unat w < 2 ^ 31 then 511 else 0)"
  proof (cases "unat w < 2 ^ 31")
    case True
    then have "unat ?x = 0xffffffff80000000 + unat w" unfolding x by simp
    then have "unat ?x div 2 ^ 39 = 33554431" using True by (intro div_nat_eqI) simp_all
    then show ?thesis using True by simp
  next
    case False
    then have "unat ?x = unat w - 2 ^ 31" unfolding x using assms by (simp add: mod_if)
    then have "unat ?x div 2 ^ 39 = 0" using assms by simp
    then show ?thesis using False by simp
  qed
  ultimately show False by (simp split: if_splits)
qed

lemma load64_other_word: "aligned8 w \<Longrightarrow> word_of b \<noteq> w \<Longrightarrow> load64 (m(b := x)) w = load64 m w"
  by (rule load64_cong) (use word_of_aligned in auto)

lemma low_byte: "\<lbrakk>a < 256; b < 256; a + 256 * c = b + 256 * d\<rbrakk> \<Longrightarrow> a = b \<and> c = d" for a b c d :: nat
proof -
  assume l: "a < 256" "b < 256" and eq: "a + 256 * c = b + 256 * d"
  then have "(a + 256 * c) mod 256 = (b + 256 * d) mod 256" by simp
  then have "a = b" using l by simp
  with eq show ?thesis by simp
qed

lemma load_bytes_byte: "load_bytes n m a = load_bytes n m' a \<Longrightarrow> unat (b - a) < n \<Longrightarrow> m b = m' b"
proof (induction n arbitrary: a)
  case (Suc n)
  have eq: "unat (m a) + 256 * load_bytes n m (a + 1) = unat (m' a) + 256 * load_bytes n m' (a + 1)"
    using Suc.prems(1) by simp
  have "unat (m a) = unat (m' a) \<and> load_bytes n m (a + 1) = load_bytes n m' (a + 1)"
    by (rule low_byte [OF unat_u8_less unat_u8_less eq])
  then have step: "m a = m' a" "load_bytes n m (a + 1) = load_bytes n m' (a + 1)"
    by (simp_all add: word_unat_eq_iff)
  show ?case
  proof (cases "b = a")
    case False
    then show ?thesis using Suc.IH [OF step(2)] Suc.prems(2) by (simp add: offset_Suc)
  qed (use step in simp)
qed simp

lemma load_bytes_less: "load_bytes n m a < 256 ^ n"
proof (induction n arbitrary: a)
  case (Suc n)
  have "load_bytes (Suc n) m a < 256 + 256 * load_bytes n m (a + 1)" using unat_u8_less [of "m a"] by simp
  also have "\<dots> \<le> 256 * 256 ^ n" using Suc.IH [of "a + 1"] by linarith
  finally show ?case by simp
qed simp

lemma load64_byte: "load64 m (word_of b) = load64 m' (word_of b) \<Longrightarrow> m b = m' b"
proof (rule load_bytes_byte [of 8 m "word_of b" m' b])
  assume "load64 m (word_of b) = load64 m' (word_of b)"
  then have "unat (of_nat (load_bytes 8 m (word_of b)) :: u64) = unat (of_nat (load_bytes 8 m' (word_of b)) :: u64)"
    by (simp add: load64_def)
  then show "load_bytes 8 m (word_of b) = load_bytes 8 m' (word_of b)"
    using load_bytes_less [of 8 m "word_of b"] load_bytes_less [of 8 m' "word_of b"] by (simp add: unat_of_nat)
  have "b - word_of b = b AND 7" using word_of_parts(3) [of b] by (simp add: algebra_simps)
  then show "unat (b - word_of b) < 8" using unat_and_7 [of b] by simp
qed

text \<open>A byte outside the words of the paging structures can be written.\<close>

lemma inv_byte:
  assumes inv: "paging_inv s T ps" and pa: "\<not> paging_word T ps (word_of pa)"
    and s': "cr3_reg s' = cr3_reg s" "free_list_head_kmalloc s' = free_list_head_kmalloc s" "pmem s' = (pmem s)(pa := x)"
  shows "paging_inv s' T ps" "index 3 v \<noteq> 510 \<Longrightarrow> mmu s' (pmem s') v = mmu s (pmem s) v"
    "\<lbrakk>g \<in> all_tables T; i AND 0x1ff = i\<rbrakk> \<Longrightarrow> load64 (pmem s') (slot g i) = load64 (pmem s) (slot g i)"
proof -
  have other: "load64 (pmem s') a = load64 (pmem s) a" if "aligned8 a" "paging_word T ps a" for a
    unfolding s' by (rule load64_other_word [OF that(1)]) (use pa that in auto)
  have tables: "tables_ok (pmem s) T" and root: "root s \<in> all_tables T"
    using inv all_tablesI [of "root s" T 3] by (simp_all add: paging_inv_def)
  have slots: "load64 (pmem s') (slot g i) = load64 (pmem s) (slot g i)"
    if "is_frame g" "g \<in> all_tables T \<union> snd ` set ps" "i AND 0x1ff = i" for g i
    by (rule other) (use that slot_frame_parts [of g i] in \<open>simp_all add: paging_word_def\<close>)
  have tab: "load64 (pmem s') (slot g i) = load64 (pmem s) (slot g i)" if "g \<in> all_tables T" "i AND 0x1ff = i" for g i
    using slots [of g i] that all_tables_frame [OF tables] by simp
  then show "\<lbrakk>g \<in> all_tables T; i AND 0x1ff = i\<rbrakk> \<Longrightarrow> load64 (pmem s') (slot g i) = load64 (pmem s) (slot g i)" .
  have same: "mmu s' (pmem s') v = mmu s (pmem s) v" if "index 3 v \<noteq> 510" for v
    by (rule mmu_tables [OF inv that s'(1) tab])
  then show "index 3 v \<noteq> 510 \<Longrightarrow> mmu s' (pmem s') v = mmu s (pmem s) v" .
  have l: "kernel_list s ps" using inv by (simp add: paging_inv_def)
  have words: "load64 (pmem s') w = load64 (pmem s) w" if "e \<in> fst ` set ps" "w \<in> words e" for e w
  proof (rule other)
    show "aligned8 w" using l that words_aligned by (auto simp: kernel_list_def descs_sep_def)
    show "paging_word T ps w" using that by (auto simp: paging_word_def)
  qed
  have chain: "page_chain (pmem s') d ps = page_chain (pmem s) d ps" for d
    by (rule page_chain_cong) (use words in \<open>auto simp: words_def\<close>)
  have "kernel_list s' ps"
    unfolding kernel_list_def
  proof (intro conjI ballI)
    fix e assume e: "e \<in> fst ` set ps"
    then show "e < 0x80000000" using l unfolding kernel_list_def by blast
    have "load64 (pmem s) (e + 8) = FREE" using l e unfolding kernel_list_def by blast
    then show "load64 (pmem s') (e + 8) = FREE" using words [OF e, of "e + 8"] by (simp add: words_def)
    fix w assume w: "w \<in> words e"
    have tr: "mmu s (pmem s) (KERNBASE + w) = Some w" using l e w unfolding kernel_list_def by blast
    show "mmu s' (pmem s') (KERNBASE + w) = Some w"
    proof -
      have "unat e < 2 ^ 31" using l e by (auto simp: kernel_list_def word_less_nat_alt)
      moreover have "w = e \<or> w = e + of_nat 8 \<or> w = e + of_nat 16" using w by (auto simp: words_def)
      ultimately have "unat w < 2 ^ 31 + 16" by (auto simp: unat_add_no_wrap simp del: of_nat_numeral)
      from same [OF index_kernel_word [OF this]] show ?thesis using tr by simp
    qed
  qed (use l chain s' in \<open>simp_all add: kernel_list_def\<close>)
  moreover have "tables_ok (pmem s') T" by (rule tables_cong(1) [OF tab tables])
  moreover have "unshared (pmem s') T"
    by (rule tables_cong(2) [OF tab]) (use inv in \<open>auto simp only: paging_inv_def\<close>)
  moreover have "recursive (pmem s') (root s)"
    by (rule tables_cong(3) [OF tab root]) (use inv in \<open>auto simp only: paging_inv_def\<close>)
  moreover have "blank (pmem s') f" if f: "f \<in> snd ` set ps" for f
  proof -
    have "blank (pmem s) f" using inv f unfolding paging_inv_def by blast
    then show ?thesis using slots [of f] f by (simp add: blank_def)
  qed
  ultimately show "paging_inv s' T ps" using inv unfolding paging_inv_def s'(1) by blast
qed

section \<open>A flat memory\<close>

text \<open>
  The bytes the addresses show. \<open>owned\<close> addresses are mapped, outside the recursive slot,
  to bytes that belong to no paging structure, and different ones to different bytes.
\<close>

definition seen :: "'a paging_scheme \<Rightarrow> mem" where
  "seen s a = (case mmu s (pmem s) a of None \<Rightarrow> 0 | Some pa \<Rightarrow> pmem s pa)"

definition owned ::
  "'a paging_scheme \<Rightarrow> (nat \<Rightarrow> u64 set) \<Rightarrow> (u64 \<times> u64) list \<Rightarrow> u64 set \<Rightarrow> bool" where
  "owned s T ps A \<longleftrightarrow>
     (\<forall>a \<in> A. index 3 a \<noteq> 510 \<and> (\<exists>pa. mmu s (pmem s) a = Some pa \<and> \<not> paging_word T ps (word_of pa))) \<and>
     inj_on (mmu s (pmem s)) A"

text \<open>
  There is room for \<open>n\<close> pages at the top of the kernel's addresses. The kernel's addresses
  are those of slot 511 of the top table; \<open>kernel_pml4_t\<close> points to that table.
\<close>

definition kernel_half :: "'a paging_scheme \<Rightarrow> (u64 \<times> u64) list \<Rightarrow> nat \<Rightarrow> bool" where
  "kernel_half s ps n \<longleftrightarrow> (\<forall>va \<in> page_range (top_virtual_address s) n. index 3 va = 511) \<and>
     (\<forall>e \<in> fst ` set ps. \<forall>w \<in> words e. index 3 (KERNBASE + w) = 511) \<and>
     index 3 (kernel_pml4_t s + 8 * 511) = 511 \<and>
     mmu s (pmem s) (kernel_pml4_t s + 8 * 511) = Some (slot (root s) 511)"

definition room :: "'a paging_scheme \<Rightarrow> (nat \<Rightarrow> u64 set) \<Rightarrow> (u64 \<times> u64) list \<Rightarrow> nat \<Rightarrow> bool" where
  "room s T ps n \<longleftrightarrow> paging_inv s T ps \<and> page_of (top_virtual_address s) = top_virtual_address s \<and>
     (\<forall>va \<in> page_range (top_virtual_address s) n. va \<noteq> 0 \<and> mappable s va) \<and> 4 * n \<le> length ps \<and> 0 \<notin> snd ` set ps \<and>
     kernel_half s ps n"

definition heap ::
  "'a paging_scheme \<Rightarrow> (nat \<Rightarrow> u64 set) \<Rightarrow> (u64 \<times> u64) list \<Rightarrow> nat \<Rightarrow> u64 set \<Rightarrow> mem \<Rightarrow> bool" where
  "heap s T ps n A m \<longleftrightarrow> room s T ps n \<and> owned s T ps A \<and> (\<forall>a \<in> A. index 3 a = 511 \<and> seen s a = m a)"

lemma region_next: "region (a + 1) n \<subseteq> region a (Suc n)"
proof
  fix b assume b: "b \<in> region (a + 1) n"
  then show "b \<in> region a (Suc n)" using offset_Suc [of b a] by (cases "b = a") (auto simp: region_def)
qed

text \<open>
  The contract of a flat memory: the addresses of \<open>A\<close> are read and written a byte at a time.
  Every wider access follows from it.
\<close>

locale flat_memory =
  fixes flat :: "'a paging_scheme \<Rightarrow> mem \<Rightarrow> bool" and A :: "u64 set"
  assumes load_byte: "\<lbrakk>flat s m; a \<in> A\<rbrakk> \<Longrightarrow> vload8 (mmu s) (pmem s) a = Some (m a)"
    and store_byte: "\<lbrakk>flat s m; a \<in> A\<rbrakk> \<Longrightarrow>
      \<exists>s'. vstore8 (mmu s) (pmem s) a x = Some (pmem s') \<and> s' = s\<lparr>pmem := pmem s'\<rparr> \<and> flat s' (m(a := x))"

context flat_memory
begin

lemma vload_flat: "\<lbrakk>flat s m; region a n \<subseteq> A; n < 2 ^ 64\<rbrakk> \<Longrightarrow> vload n s a = Some (load_bytes n m a)"
proof (induction n arbitrary: a)
  case (Suc n)
  have "a \<in> A" using Suc.prems(2) by (auto simp: region_def)
  moreover have "region (a + 1) n \<subseteq> A" using Suc.prems(2) region_next [of a n] by blast
  ultimately show ?case using Suc load_byte [OF Suc.prems(1)] by simp
qed simp

lemma vstore_flat:
  "\<lbrakk>flat s m; region a n \<subseteq> A; n < 2 ^ 64\<rbrakk> \<Longrightarrow>
    \<exists>s'. vstore n s a v = Some s' \<and> s' = s\<lparr>pmem := pmem s'\<rparr> \<and> flat s' (store_bytes n m a v)"
proof (induction n arbitrary: s a v m)
  case (Suc n)
  have "a \<in> A" using Suc.prems(2) by (auto simp: region_def)
  from store_byte [OF Suc.prems(1) this, of "of_nat v"] obtain s1 where
    s1: "vstore8 (mmu s) (pmem s) a (of_nat v) = Some (pmem s1)" "s1 = s\<lparr>pmem := pmem s1\<rparr>"
    "flat s1 (m(a := of_nat v))" by blast
  have "region (a + 1) n \<subseteq> A" using Suc.prems(2) region_next [of a n] by blast
  moreover have "n < 2 ^ 64" using Suc.prems(3) by simp
  ultimately obtain s2 where
    s2: "vstore n s1 (a + 1) (v div 256) = Some s2" "s2 = s1\<lparr>pmem := pmem s2\<rparr>"
    "flat s2 (store_bytes n (m(a := of_nat v)) (a + 1) (v div 256))"
    using Suc.IH [OF s1(3), of "a + 1" "v div 256"] by blast
  have "vstore (Suc n) s a v = Some s2" using s1(1) s2(1) s1(2) [symmetric] by simp
  moreover have "s2 = s\<lparr>pmem := pmem s2\<rparr>" by (subst s2(2), subst s1(2)) simp
  ultimately show ?case using s2(3) by auto
qed simp

lemma get_flat:
  assumes "flat s m"
  shows "a \<in> A \<Longrightarrow> get8 s a = Some (m a)" "region a 2 \<subseteq> A \<Longrightarrow> get16 s a = Some (load16 m a)"
    "region a 4 \<subseteq> A \<Longrightarrow> get32 s a = Some (load32 m a)" "region a 8 \<subseteq> A \<Longrightarrow> get64 s a = Some (load64 m a)"
  using load_byte [OF assms] vload_flat [OF assms]
  by (simp_all add: get8_def get16_def get32_def get64_def load16_def load32_def load64_def)

lemma put_flat:
  assumes "flat s m"
  shows "a \<in> A \<Longrightarrow> \<exists>s'. put8 s a x = Some s' \<and> s' = s\<lparr>pmem := pmem s'\<rparr> \<and> flat s' (m(a := x))"
    "region a 4 \<subseteq> A \<Longrightarrow> \<exists>s'. put32 s a y = Some s' \<and> s' = s\<lparr>pmem := pmem s'\<rparr> \<and> flat s' (store32 m a y)"
    "region a 8 \<subseteq> A \<Longrightarrow> \<exists>s'. put64 s a z = Some s' \<and> s' = s\<lparr>pmem := pmem s'\<rparr> \<and> flat s' (store64 m a z)"
proof -
  show "\<exists>s'. put8 s a x = Some s' \<and> s' = s\<lparr>pmem := pmem s'\<rparr> \<and> flat s' (m(a := x))" if "a \<in> A"
    using store_byte [OF assms that, of x] by (auto simp: put8_def)
qed (use vstore_flat [OF assms] in \<open>simp_all add: put32_def put64_def store32_def store64_def\<close>)

end

lemma heap_byte:
  assumes h: "heap s T ps n A m" and a: "a \<in> A"
  shows "\<exists>s'. vstore8 (mmu s) (pmem s) a x = Some (pmem s') \<and> s' = s\<lparr>pmem := pmem s'\<rparr> \<and> heap s' T ps n A (m(a := x))"
proof -
  obtain pa where pa: "mmu s (pmem s) a = Some pa" "\<not> paging_word T ps (word_of pa)"
    using h a by (auto simp: heap_def owned_def)
  let ?s = "s\<lparr>pmem := (pmem s)(pa := x)\<rparr>"
  have inv: "paging_inv s T ps" using h by (simp add: heap_def room_def)
  note st = inv_byte [OF inv pa(2), of ?s x, simplified]
  have same: "mmu ?s (pmem ?s) v = mmu s (pmem s) v" if "index 3 v \<noteq> 510" for v using st(2) [OF that] by simp
  have A: "index 3 v \<noteq> 510" if "v \<in> A" for v using h that by (simp add: heap_def owned_def)
  have inj: "inj_on (mmu s (pmem s)) A" using h by (simp add: heap_def owned_def)
  have "room ?s T ps n" using h st(1) same by (simp add: heap_def room_def mappable_def kernel_half_def)
  moreover have "inj_on (mmu ?s (pmem ?s)) A" using inj same A inj_on_cong [of A "mmu ?s (pmem ?s)"] by blast
  then have "owned ?s T ps A" using h same A unfolding heap_def owned_def by simp
  moreover have "seen ?s v = (m(a := x)) v" if v: "v \<in> A" for v
  proof -
    have "seen s v = m v" using h v by (simp add: heap_def)
    moreover have "v = a \<longleftrightarrow> mmu s (pmem s) v = Some pa" using inj_on_eq_iff [OF inj v a] pa(1) by metis
    ultimately show ?thesis using same [OF A [OF v]] by (auto simp: seen_def split: option.splits)
  qed
  moreover have "\<forall>v \<in> A. index 3 v = 511" using h by (simp add: heap_def)
  ultimately have "heap ?s T ps n A (m(a := x))" unfolding heap_def by blast
  then show ?thesis using pa(1) by (intro exI [of _ ?s]) (simp add: vstore8_def)
qed

interpretation heap_memory: flat_memory "\<lambda>s m. heap s T ps k A m" A for T ps k A
proof unfold_locales
  show "vload8 (mmu s) (pmem s) a = Some (m a)" if "heap s T ps k A m" "a \<in> A" for s :: "'a paging_scheme" and m a
    using that by (auto simp: heap_def owned_def vload8_def seen_def split: option.splits)
qed (rule heap_byte)

lemmas heap_vstore = heap_memory.vstore_flat
lemmas heap_load = heap_memory.vload_flat
lemmas heap_get = heap_memory.get_flat
lemmas heap_put = heap_memory.put_flat

lemma put64_heap:
  assumes "heap s T ps k A m" "region a 8 \<subseteq> A"
  obtains s' where "put64 s a x = Some s'" "s' = s\<lparr>pmem := pmem s'\<rparr>" "heap s' T ps k A (store64 m a x)"
  using heap_put(3) [OF assms] by blast

lemma put32_heap:
  assumes "heap s T ps k A m" "region a 4 \<subseteq> A"
  obtains s' where "put32 s a x = Some s'" "s' = s\<lparr>pmem := pmem s'\<rparr>" "heap s' T ps k A (store32 m a x)"
  using heap_put(2) [OF assms] by blast

section \<open>Allocation\<close>

definition block :: "u64 \<Rightarrow> nat \<Rightarrow> u64 set" where
  "block v n = {a. page_of a \<in> page_range v n}"

lemma page_range_inj: "\<lbrakk>v + 4096 * of_nat i = v + 4096 * (of_nat j :: u64); i < 2 ^ 52; j < 2 ^ 52\<rbrakk> \<Longrightarrow> i = j"
proof (induction i j rule: linorder_wlog)
  case (le i j)
  then have "4096 * (of_nat (j - i) :: u64) = 0" by (simp add: of_nat_diff right_diff_distrib)
  moreover have "j - i < 2 ^ 52" using le by simp
  ultimately have "\<not> 0 < j - i" using page_multiple_nonzero [of "j - i"] by blast
  then show ?case using le by simp
qed simp

lemma page_range_add:
  assumes "n + k < 2 ^ 52"
  shows "page_range (v + 4096 * of_nat n) k \<subseteq> page_range v (n + k)"
    "page_range (v + 4096 * of_nat n) k \<inter> page_range v n = {}"
proof -
  have shift: "v + 4096 * of_nat n + 4096 * of_nat i = v + 4096 * (of_nat (n + i) :: u64)" for i
    by (simp add: algebra_simps)
  show "page_range (v + 4096 * of_nat n) k \<subseteq> page_range v (n + k)"
    unfolding page_range_def shift by (rule image_subsetI, rule imageI) simp
  have "n + i = j" if "v + 4096 * (of_nat (n + i) :: u64) = v + 4096 * of_nat j" "i < k" "j < n" for i j
    by (rule page_range_inj [OF that(1)]) (use that assms in simp_all)
  then show "page_range (v + 4096 * of_nat n) k \<inter> page_range v n = {}"
    unfolding page_range_def shift by fastforce
qed

lemma page_parts: "a = page_of a OR (a AND 0xfff)" "page_of (a AND 0xfff) = 0"
  unfolding page_of_def by (rule word64_eqI, simp add: bitblast)+

lemma frame_or:
  assumes "is_frame f"
  shows "page_of (f OR (a AND 0xfff)) = f" "(f OR (a AND 0xfff)) AND 0xfff = a AND 0xfff"
proof -
  have f: "f = f AND 0x000ffffffffff000" using assms by (simp add: is_frame_def frame_def)
  show "page_of (f OR (a AND 0xfff)) = f"
    by (subst (1 2) f, rule word64_eqI) (simp add: bitblast page_of_def)
  show "(f OR (a AND 0xfff)) AND 0xfff = a AND 0xfff"
    by (subst f, rule word64_eqI) (simp add: bitblast)
qed

lemma page_of_region:
  assumes "page_of v = v" "i < 4096"
  shows "page_of (v + of_nat i) = v"
proof -
  have "of_nat i AND 0xfff = take_bit 12 (of_nat i :: u64)" by (simp add: take_bit_eq_mask mask_eq_exp_minus_1)
  also have "\<dots> = of_nat i" using assms(2) by (simp add: take_bit_of_nat take_bit_nat_eq_self)
  finally show ?thesis using page_plus [OF assms(1)] by simp
qed

lemma region_block: "\<lbrakk>page_of v = v; n \<le> 4096; 0 < k\<rbrakk> \<Longrightarrow> region v n \<subseteq> block v k"
proof
  fix b assume a: "page_of v = v" "n \<le> 4096" "0 < k" and "b \<in> region v n"
  then obtain i where "i < n" "b = v + of_nat i" by (auto elim: regionE)
  then have "page_of b = v + 4096 * of_nat 0" using page_of_region [OF a(1), of i] a(2) by simp
  then show "b \<in> block v k" using a(3) unfolding block_def page_range_def by blast
qed

text \<open>The addresses of newly mapped pages lead to their frames.\<close>

lemma block_mapped:
  assumes "range_mapped v n fs s T ps s'" "a \<in> block v n"
  shows "\<exists>i < n. page_of a = v + 4096 * of_nat i \<and> fs ! i \<in> set fs \<and>
    mmu s' (pmem s') a = Some (fs ! i OR (a AND 0xfff))"
proof -
  from assms(2) obtain i where i: "i < n" "page_of a = v + 4096 * of_nat i" by (auto simp: block_def page_range_def)
  moreover have "length fs = n" "\<forall>i<n. \<forall>va. page_of va = v + 4096 * of_nat i \<longrightarrow> mmu s' (pmem s') va = Some (fs ! i OR (va AND 0xfff))"
    using assms(1) unfolding range_mapped_def by blast+
  ultimately show ?thesis by auto
qed

lemma block_unmapped:
  assumes "\<forall>va \<in> page_range v n. mappable s va" "page_of v = v" "a \<in> block v n"
  shows "mmu s (pmem s) a = None" "index 3 a \<noteq> 510"
proof -
  have p: "page_of a \<in> page_range v n" using assms(3) by (simp add: block_def)
  have pp: "page_of (page_of a) = page_of a" by (rule page_range_pages [OF assms(2) p])
  have m: "mappable s (page_of a)" using assms(1) p by blast
  show "mmu s (pmem s) a = None" using mmu_same_page [OF pp, of s "pmem s"] m by (simp add: mappable_def)
  show "index 3 a \<noteq> 510" using same_page [OF pp, of 3] m by (simp add: mappable_def)
qed

text \<open>New pages at \<open>v\<close> join the owned addresses; what these show is unchanged.\<close>

lemma owned_extend:
  assumes inv: "paging_inv s T ps" and own: "owned s T ps A"
    and v: "page_of v = v" "\<forall>va \<in> page_range v n. mappable s va" and rm: "range_mapped v n fs s T ps s'"
  obtains T' rest where "paging_inv s' T' rest" "set rest \<subseteq> set ps" "length ps \<le> length rest + 4 * n"
    "all_tables T' \<subseteq> all_tables T \<union> snd ` set ps"
    "owned s' T' rest (A \<union> block v n)" "A \<inter> block v n = {}"
    "\<forall>a \<in> A. mmu s' (pmem s') a = mmu s (pmem s) a \<and> seen s' a = seen s a"
    "\<forall>a. index 3 a \<noteq> 510 \<and> page_of a \<notin> page_range v n \<longrightarrow> mmu s' (pmem s') a = mmu s (pmem s) a"
    "confined_range v n s T ps s' T' rest"
proof -
  let ?v = v
  let ?B = "block v n"
  have own: "\<forall>a \<in> A. index 3 a \<noteq> 510 \<and> (\<exists>pa. mmu s (pmem s) a = Some pa \<and> \<not> paging_word T ps (word_of pa))"
    "inj_on (mmu s (pmem s)) A" using own unfolding owned_def by blast+
  from rm obtain T' rest where r: "distinct fs" "set fs \<subseteq> snd ` set ps" "length fs = n"
    "\<forall>va. index 3 va \<noteq> 510 \<and> page_of va \<notin> page_range ?v n \<longrightarrow> mmu s' (pmem s') va = mmu s (pmem s) va"
    "untouched T ps s s'" "paging_inv s' T' rest" "set rest \<subseteq> set ps"
    "length ps \<le> length rest + 4 * n" "all_tables T' \<subseteq> all_tables T \<union> snd ` set ps"
    "set fs \<inter> (all_tables T' \<union> snd ` set rest) = {}" "confined_range ?v n s T ps s' T' rest"
    unfolding range_mapped_def by (elim exE conjE) (rule that)
  note B = block_unmapped [OF v(2,1)]
  have frames: "is_frame f \<and> (\<forall>e \<in> fst ` set ps. \<forall>w \<in> words e. page_of w \<noteq> f)" if "f \<in> set fs" for f
    using inv r(2) that unfolding paging_inv_def blank_def by blast
  have apart: "A \<inter> ?B = {}"
  proof -
    have False if "a \<in> A" "a \<in> ?B" for a using own(1) that(1) B(1) [OF that(2)] by force
    then show ?thesis by blast
  qed
  have old: "mmu s' (pmem s') a = mmu s (pmem s) a" if "a \<in> A" for a
    using r(4) own(1) apart that unfolding block_def by blast
  have fewer: "paging_word T ps a" if "paging_word T' rest a" for a
    using that r(7,9) unfolding paging_word_def by blast
  have fresh: "\<not> paging_word T' rest (word_of (f OR (a AND 0xfff)))" if f: "f \<in> set fs" for f a
  proof -
    have "page_of (word_of (f OR (a AND 0xfff))) = f" using word_of_parts(2) frame_or(1) frames [OF f] by simp
    moreover have "f \<notin> all_tables T' \<union> snd ` set rest" using f r(10) by blast
    moreover have "word_of (f OR (a AND 0xfff)) \<notin> words e" if "e \<in> fst ` set rest" for e
      using that frames [OF f] r(7) calculation(1) by auto
    ultimately show ?thesis unfolding paging_word_def by simp
  qed
  have cross: "mmu s' (pmem s') a \<noteq> mmu s' (pmem s') b" if aA: "a \<in> A" and bB: "b \<in> ?B" for a b
  proof
    assume eq: "mmu s' (pmem s') a = mmu s' (pmem s') b"
    obtain pa where pa: "mmu s' (pmem s') a = Some pa" "\<not> paging_word T ps (word_of pa)"
      using own(1) old [OF aA] aA by auto
    from block_mapped [OF rm bB] obtain f where f: "f \<in> set fs" "mmu s' (pmem s') b = Some (f OR (b AND 0xfff))"
      by blast
    have "page_of (word_of pa) = f" using eq pa f word_of_parts(2) frame_or(1) frames [OF f(1)] by simp
    then show False using f(1) r(2) pa(2) unfolding paging_word_def by auto
  qed
  have within: "a = b" if a: "a \<in> ?B" and b: "b \<in> ?B" and eq: "mmu s' (pmem s') a = mmu s' (pmem s') b" for a b
  proof -
    from block_mapped [OF rm a] obtain i where i: "i < n" "page_of a = ?v + 4096 * of_nat i" "fs ! i \<in> set fs"
      "mmu s' (pmem s') a = Some (fs ! i OR (a AND 0xfff))" by blast
    from block_mapped [OF rm b] obtain j where j: "j < n" "page_of b = ?v + 4096 * of_nat j" "fs ! j \<in> set fs"
      "mmu s' (pmem s') b = Some (fs ! j OR (b AND 0xfff))" by blast
    have same: "fs ! i OR (a AND 0xfff) = fs ! j OR (b AND 0xfff)" using eq i(4) j(4) by simp
    have "fs ! i = fs ! j" "a AND 0xfff = b AND 0xfff"
      using frame_or [of "fs ! i" a] frame_or [of "fs ! j" b] frames i(3) j(3) same by metis+
    moreover have "i = j" using calculation(1) nth_eq_iff_index_eq [OF r(1)] i(1) j(1) r(3) by simp
    ultimately show "a = b" using i(2) j(2) page_parts(1) [of a] page_parts(1) [of b] by simp
  qed
  have owned': "owned s' T' rest (A \<union> ?B)"
    unfolding owned_def
  proof (intro conjI ballI)
    fix a assume a: "a \<in> A \<union> ?B"
    then show "index 3 a \<noteq> 510" using own(1) B(2) by blast
    show "\<exists>pa. mmu s' (pmem s') a = Some pa \<and> \<not> paging_word T' rest (word_of pa)"
    proof (cases "a \<in> A")
      case True
      then show ?thesis using own(1) old [OF True] fewer by auto
    next
      case False
      then have "a \<in> ?B" using a by blast
      from block_mapped [OF rm this] fresh show ?thesis by blast
    qed
  next
    show "inj_on (mmu s' (pmem s')) (A \<union> ?B)"
    proof (rule inj_onI)
      fix a b assume ab: "a \<in> A \<union> ?B" "b \<in> A \<union> ?B" and eq: "mmu s' (pmem s') a = mmu s' (pmem s') b"
      show "a = b"
      proof (cases "a \<in> A \<and> b \<in> A")
        case True
        then show ?thesis using inj_onD [OF own(2)] eq old by simp
      next
        case False
        then show ?thesis using ab eq cross [of a b] cross [of b a] within [of a b] by auto
      qed
    qed
  qed
  have same: "seen s' a = seen s a" if a: "a \<in> A" for a
  proof -
    obtain pa where pa: "mmu s (pmem s) a = Some pa" "\<not> paging_word T ps (word_of pa)" using own(1) a by blast
    have "load64 (pmem s') (word_of pa) = load64 (pmem s) (word_of pa)"
      using r(5) pa(2) word_of_parts(1) unfolding untouched_def by blast
    then have "pmem s' pa = pmem s pa" by (rule load64_byte)
    then show ?thesis using pa(1) old [OF a] by (simp add: seen_def)
  qed
  show thesis
    by (rule that [OF r(6,7,8,9) owned' apart]) (use old same r(4,11) in blast)+
qed

lemma heap_extend:
  assumes h: "heap s T ps (n + k) A m"
    and rm: "range_mapped (top_virtual_address s) n fs s T ps s'"
    and g: "same_globals (s\<lparr>top_virtual_address := top_virtual_address s + 4096 * of_nat n\<rparr>) s'"
  shows "\<exists>T' ps' m'. heap s' T' ps' k (A \<union> block (top_virtual_address s) n) m' \<and> (\<forall>a \<in> A. m' a = m a) \<and>
    A \<inter> block (top_virtual_address s) n = {}"
proof -
  let ?v = "top_virtual_address s"
  have room: "paging_inv s T ps" "page_of ?v = ?v" "\<forall>va \<in> page_range ?v (n + k). va \<noteq> 0 \<and> mappable s va"
    "4 * (n + k) \<le> length ps" "0 \<notin> snd ` set ps" "kernel_half s ps (n + k)"
    using h unfolding heap_def room_def by blast+
  have small: "n + k < 2 ^ 52" using room(4) free_pages_bound [OF room(1)] by simp
  have own: "owned s T ps A" "\<forall>a \<in> A. index 3 a = 511" "\<forall>a \<in> A. seen s a = m a" using h unfolding heap_def by blast+
  have sub: "page_range ?v n \<subseteq> page_range ?v (n + k)" unfolding page_range_def by (rule image_mono) auto
  then have pr: "\<forall>va \<in> page_range ?v n. mappable s va" using room(3) by blast
  have top: "top_virtual_address s' = ?v + 4096 * of_nat n" "kernel_pml4_t s' = kernel_pml4_t s" "cr3_reg s' = cr3_reg s"
    using g by (simp_all add: same_globals_def)
  obtain T' rest where r: "paging_inv s' T' rest" "set rest \<subseteq> set ps" "length ps \<le> length rest + 4 * n"
    "all_tables T' \<subseteq> all_tables T \<union> snd ` set ps"
    "owned s' T' rest (A \<union> block ?v n)" "A \<inter> block ?v n = {}"
    "\<forall>a \<in> A. mmu s' (pmem s') a = mmu s (pmem s) a \<and> seen s' a = seen s a"
    "\<forall>a. index 3 a \<noteq> 510 \<and> page_of a \<notin> page_range ?v n \<longrightarrow> mmu s' (pmem s') a = mmu s (pmem s) a"
    "confined_range ?v n s T ps s' T' rest"
    by (rule owned_extend [OF room(1) own(1) room(2) pr rm])
  have "room s' T' rest k"
    unfolding room_def top(1)
  proof (intro conjI ballI)
    show "page_of (?v + 4096 * of_nat n) = ?v + 4096 * of_nat n" by (rule page_of_add [OF room(2)])
    fix va assume va: "va \<in> page_range (?v + 4096 * of_nat n) k"
    have "va \<in> page_range ?v (n + k)" "va \<notin> page_range ?v n" using page_range_add [OF small] va by blast+
    moreover have "page_of va = va" by (rule page_range_pages [OF room(2) calculation(1)])
    ultimately show "va \<noteq> 0" "mappable s' va" using room(3) r(8) by (auto simp: mappable_def)
  next
    have "keeps_translations s s'" using rm unfolding range_mapped_def by blast
    then have "mmu s' (pmem s') (kernel_pml4_t s' + 8 * 511) = Some (slot (root s') 511)"
      using room(6) keepsD top(2,3) unfolding kernel_half_def by metis
    moreover have "page_range (?v + 4096 * of_nat n) k \<subseteq> page_range ?v (n + k)" using page_range_add [OF small] by blast
    ultimately show "kernel_half s' rest k"
      using room(6) r(2) unfolding kernel_half_def top(1,2) by blast
  qed (use r(1,2,3) room(4,5) in auto)
  moreover have "\<forall>a \<in> block ?v n. index 3 a = 511"
  proof
    fix a assume "a \<in> block ?v n"
    then have p: "page_of a \<in> page_range ?v (n + k)" using sub unfolding block_def by blast
    then have "index 3 (page_of a) = 511" using room(6) unfolding kernel_half_def by blast
    then show "index 3 a = 511" using same_page [OF page_range_pages [OF room(2) p]] by simp
  qed
  moreover have "\<forall>a \<in> A. seen s' a = m a" using r(7) own(3) by simp
  ultimately have "heap s' T' rest k (A \<union> block ?v n) (seen s') \<and> (\<forall>a \<in> A. seen s' a = m a)"
    using r(5) own(2) unfolding heap_def by blast
  then show ?thesis using r(6) by blast
qed

text \<open>
  The two allocators on a heap: the block is at the old top, is new, and only the head of
  the free list and the top are other globals than before.
\<close>

definition allocated ::
  "nat \<Rightarrow> 'a paging_scheme \<Rightarrow> nat \<Rightarrow> u64 set \<Rightarrow> mem \<Rightarrow> 'a paging_scheme \<Rightarrow> (nat \<Rightarrow> u64 set) \<Rightarrow> (u64 \<times> u64) list \<Rightarrow> mem \<Rightarrow> bool" where
  "allocated n s k A m s' T' ps' m' \<longleftrightarrow> heap s' T' ps' k (A \<union> block (top_virtual_address s) n) m' \<and>
     (\<forall>a \<in> A. m' a = m a) \<and> A \<inter> block (top_virtual_address s) n = {} \<and>
     same_globals (s\<lparr>top_virtual_address := top_virtual_address s + 4096 * of_nat n\<rparr>) s'"

lemma heap_room:
  assumes "heap s T ps (n + k) A m"
  shows "paging_inv s T ps" "page_of (top_virtual_address s) = top_virtual_address s"
    "\<forall>va \<in> page_range (top_virtual_address s) n. mappable s va" "4 * n \<le> length ps" "0 \<notin> snd ` set ps"
    "0 < n \<Longrightarrow> top_virtual_address s \<noteq> 0"
proof -
  show "\<forall>va \<in> page_range (top_virtual_address s) n. mappable s va"
    using assms by (auto simp: heap_def room_def page_range_def)
  show "top_virtual_address s \<noteq> 0" if "0 < n"
  proof -
    have "top_virtual_address s \<in> page_range (top_virtual_address s) (n + k)"
      unfolding page_range_def using that by (intro image_eqI [of _ _ 0]) auto
    then show ?thesis using assms by (auto simp: heap_def room_def)
  qed
qed (use assms in \<open>auto simp: heap_def room_def\<close>)

lemma heap_kmalloc_user:
  assumes "heap s T ps (n + k) A m" "n = unat (no_of_pages size' + 1)"
  shows "\<exists>s' T' ps' m'. kmalloc_user size' s = Some (top_virtual_address s, s') \<and> allocated n s k A m s' T' ps' m'"
proof -
  note h = heap_room [OF assms(1)]
  have "n < 2 ^ 52" using h(4) free_pages_bound [OF h(1)] by simp
  from user_mapper.kmalloc_loop_ok [OF h(1,2) this h(3-5), of True] obtain s' fs where
    s': "kmalloc_loop page_walk_user True n (top_virtual_address s) s = Some (True, s')"
    "range_mapped (top_virtual_address s) n fs s T ps s'"
    "same_globals (s\<lparr>top_virtual_address := top_virtual_address s + 4096 * of_nat n\<rparr>) s'" by auto
  from heap_extend [OF assms(1) s'(2,3)] s' show ?thesis
    unfolding kmalloc_user_def Let_def assms(2) [symmetric] allocated_def by auto
qed

lemma heap_kmalloc:
  assumes "heap s T ps (n + k) A m" "n = unat (no_of_pages size')"
  shows "\<exists>s' T' ps' m'. kmalloc size' s = Some (top_virtual_address s, s') \<and> allocated n s k A m s' T' ps' m'"
proof -
  note h = heap_room [OF assms(1)]
  have "n < 2 ^ 52" using h(4) free_pages_bound [OF h(1)] by simp
  from kernel_mapper.kmalloc_loop_ok [OF h(1,2) this h(3-5), of True] obtain s' fs where
    s': "kmalloc_loop page_walk True n (top_virtual_address s) s = Some (True, s')"
    "range_mapped (top_virtual_address s) n fs s T ps s'"
    "same_globals (s\<lparr>top_virtual_address := top_virtual_address s + 4096 * of_nat n\<rparr>) s'" by auto
  from heap_extend [OF assms(1) s'(2,3)] s' show ?thesis
    unfolding kmalloc_def Let_def assms(2) [symmetric] allocated_def by auto
qed

end
