(* ===== verification/Loader.thy ===== *)
theory Loader
  imports Vmem Elf
begin

text \<open>
  Loading a program (sys/elf64.c and the allocating functions of sys/tarfs.c): opening a
  file of the archive, and the list of memory areas an executable asks for.
\<close>

section \<open>State\<close>

text \<open>
  These functions allocate, so they run on the page tables and physical memory; what they
  print goes to the screen. \<open>screen\<close> is the state of kprintf, and its memory the page of the
  video memory; every other address shows what the page tables map there.
\<close>

record loader = paging +
  screen :: console

abbreviation (input) video_page :: u64 where "video_page \<equiv> 0xffffffff800b8000"

definition kernel_view :: "'a loader_scheme \<Rightarrow> console" where
  "kernel_view s = (screen s)\<lparr>vmem := (\<lambda>a. if page_of a = video_page then vmem (screen s) a else seen s a)\<rparr>"

definition on_screen :: "(console \<Rightarrow> ('r \<times> console) option) \<Rightarrow> 'a loader_scheme \<Rightarrow> ('r \<times> 'a loader_scheme) option" where
  "on_screen f s = do { (r, c) \<leftarrow> f (kernel_view s); Some (r, s\<lparr>screen := c\<rparr>) }"

definition say :: "string \<Rightarrow> u64 list \<Rightarrow> 'a loader_scheme \<Rightarrow> 'a loader_scheme option" where
  "say fmt args s = do { c \<leftarrow> kprintf fmt args (kernel_view s); Some (s\<lparr>screen := c\<rparr>) }"

section \<open>Opening a file of the archive (sys/tarfs.c)\<close>

text \<open>The fields of \<open>struct file\<close>, 48 bytes.\<close>

definition file_count :: "u64 \<Rightarrow> u64" where "file_count f = f"
definition file_flag :: "u64 \<Rightarrow> u64" where "file_flag f = f + 8"
definition file_offset :: "u64 \<Rightarrow> u64" where "file_offset f = f + 16"
definition file_size :: "u64 \<Rightarrow> u64" where "file_size f = f + 24"
definition file_error :: "u64 \<Rightarrow> u64" where "file_error f = f + 32"
definition file_data_field :: "u64 \<Rightarrow> u64" where "file_data_field f = f + 40"

text \<open>oct2bin over the eleven digits of a size, which have to be mapped.\<close>

definition read_size :: "'a paging_scheme \<Rightarrow> u64 \<Rightarrow> cint option" where
  "read_size s p = map_option (\<lambda>_. oct2bin (seen s) (header_size p) 11) (vload 11 s (header_size p))"

definition open_tarfs :: "u64 \<Rightarrow> 'a paging_scheme \<Rightarrow> (u64 \<times> 'a paging_scheme) option" where
  "open_tarfs p s = do {
     (file_pointer, s) \<leftarrow> kmalloc 48 s;
     if file_pointer = 0 then Some (0, s)
     else do {
       s \<leftarrow> put64 s (file_data_field file_pointer) p;
       n \<leftarrow> read_size s p;
       s \<leftarrow> put64 s (file_size file_pointer) (scast n);
       s \<leftarrow> put64 s (file_offset file_pointer) (p + 512);
       s \<leftarrow> put32 s (file_error file_pointer) 0;
       s \<leftarrow> put64 s (file_flag file_pointer) 0;
       s \<leftarrow> put64 s (file_count file_pointer) 1;
       Some (file_pointer, s)
     }
   }"

definition open_tarfs_from_elf :: "u64 \<Rightarrow> 'a paging_scheme \<Rightarrow> (u64 \<times> 'a paging_scheme) option" where
  "open_tarfs_from_elf elfh s = open_tarfs (elfh - 512) s"

section \<open>Memory areas (sys/elf64.c)\<close>

text \<open>
  \<open>struct vm_area_struct\<close> has 56 bytes, \<open>struct mm_struct\<close> 176 (include/sys/mm.h). The field
  \<open>mmap\<close> is the first of an \<open>mm_struct\<close>.
\<close>

definition vm_start :: "u64 \<Rightarrow> u64" where "vm_start v = v + 8"
definition vm_end :: "u64 \<Rightarrow> u64" where "vm_end v = v + 16"
definition vm_offset :: "u64 \<Rightarrow> u64" where "vm_offset v = v + 24"
definition vm_next :: "u64 \<Rightarrow> u64" where "vm_next v = v + 32"
definition vm_type :: "u64 \<Rightarrow> u64" where "vm_type v = v + 40"
definition mm_elf_head :: "u64 \<Rightarrow> u64" where "mm_elf_head h = h + 160"
definition mm_e_entry :: "u64 \<Rightarrow> u64" where "mm_e_entry h = h + 168"

abbreviation (input) TYPE_FILE :: cint where "TYPE_FILE \<equiv> 0"
abbreviation (input) TYPE_STACK :: cint where "TYPE_STACK \<equiv> 1"
abbreviation (input) TYPE_HEAP :: cint where "TYPE_HEAP \<equiv> 2"

abbreviation (input) sizeof_vma :: u64 where "sizeof_vma \<equiv> 56"
abbreviation (input) sizeof_mm :: u64 where "sizeof_mm \<equiv> 176"

definition set_file_area :: "u64 \<Rightarrow> u64 \<Rightarrow> 'a paging_scheme \<Rightarrow> 'a paging_scheme option" where
  "set_file_area v phdr s = do {
     vaddr \<leftarrow> get64 s (phdr + 16);
     s \<leftarrow> put64 s (vm_start v) vaddr;
     vaddr \<leftarrow> get64 s (phdr + 16);
     memsz \<leftarrow> get64 s (phdr + 40);
     s \<leftarrow> put64 s (vm_end v) (vaddr + memsz);
     s \<leftarrow> put32 s (vm_type v) TYPE_FILE;
     offset \<leftarrow> get64 s (phdr + 8);
     s \<leftarrow> put64 s (vm_offset v) offset;
     put64 s (vm_next v) 0
   }"

definition set_empty_area :: "u64 \<Rightarrow> cint \<Rightarrow> 'a paging_scheme \<Rightarrow> 'a paging_scheme option" where
  "set_empty_area v type' s = do {
     s \<leftarrow> put64 s (vm_start v) 0;
     s \<leftarrow> put64 s (vm_end v) 0;
     s \<leftarrow> put32 s (vm_type v) type';
     put64 s (vm_next v) 0
   }"

text \<open>A new area behind the last one, \<open>vma_next\<close>; the address is read back from the link.\<close>

definition append_area :: "u64 \<Rightarrow> 'a paging_scheme \<Rightarrow> (u64 \<times> 'a paging_scheme) option" where
  "append_area vma_next s = do {
     (v, s) \<leftarrow> kmalloc_user sizeof_vma s;
     s \<leftarrow> put64 s (vm_next vma_next) v;
     v \<leftarrow> get64 s (vm_next vma_next);
     Some (v, s)
   }"

definition add_file_area ::
  "u64 \<Rightarrow> u64 \<Rightarrow> u64 \<Rightarrow> 'a loader_scheme \<Rightarrow> (u64 \<times> u64 \<times> 'a loader_scheme) option" where
  "add_file_area phdr vma_head vma_next s =
     (if vma_head = 0
      then do {
        (v, s) \<leftarrow> kmalloc_user sizeof_vma s;
        s \<leftarrow> set_file_area v phdr s;
        offset \<leftarrow> get64 s (phdr + 8);
        s \<leftarrow> say (''p_offset = %p'' @ [CHR 0x0A]) [offset] s;
        Some (v, v, s)
      }
      else do {
        (v, s) \<leftarrow> append_area vma_next s;
        s \<leftarrow> set_file_area v phdr s;
        Some (vma_head, v, s)
      })"

lemma cint_count: "sint (i :: cint) < uint (n :: u16) \<Longrightarrow> sint i < 65536 \<and> sint (i + 1) = sint i + 1"
proof -
  assume i: "sint i < uint n"
  have "uint n < 65536" using uint_lt2p [of n] by simp
  moreover have "- 2147483648 \<le> sint i" using sint_ge [of i] by simp
  ultimately show ?thesis using i by (simp add: sint_word_ariths signed_take_bit_int_eq_self)
qed

function area_loop ::
  "u64 \<Rightarrow> cint \<Rightarrow> u64 \<Rightarrow> u64 \<Rightarrow> 'a loader_scheme \<Rightarrow> (u64 \<times> u64 \<times> 'a loader_scheme) option" where
  "area_loop ehdr i vma_head vma_next s = do {
     phnum \<leftarrow> get16 s (ehdr + 56);
     if sint i < uint phnum
     then do {
       phoff \<leftarrow> get64 s (ehdr + 32);
       let phdr = ehdr + phoff + 56 * scast i;
       p_type \<leftarrow> get32 s phdr;
       (vma_head, vma_next, s) \<leftarrow> (if p_type = PT_LOAD then add_file_area phdr vma_head vma_next s
          else Some (vma_head, vma_next, s));
       area_loop ehdr (i + 1) vma_head vma_next s
     }
     else Some (vma_head, vma_next, s)
   }"
  by pat_completeness auto
termination
  by (relation "measure (\<lambda>(ehdr, i, vma_head, vma_next, s). nat (65536 - sint i))") (auto dest: cint_count)

declare area_loop.simps [simp del]

definition add_stack_and_heap :: "u64 \<Rightarrow> u64 \<Rightarrow> 'a loader_scheme \<Rightarrow> (u64 \<times> 'a loader_scheme) option" where
  "add_stack_and_heap vma_head vma_next s =
     (if vma_head = 0
      then do {
        (vma_head, s) \<leftarrow> kmalloc_user sizeof_vma s;
        s \<leftarrow> set_empty_area vma_head TYPE_STACK s;
        (v, s) \<leftarrow> append_area vma_head s;
        s \<leftarrow> set_empty_area v TYPE_HEAP s;
        Some (vma_head, s)
      }
      else do {
        (v, s) \<leftarrow> append_area vma_next s;
        next' \<leftarrow> get64 s (vm_next vma_head);
        s \<leftarrow> say (''vma_head = %p, vma_head->vm_next = %p, vma_next = %p'' @ [CHR 0x0A]) [vma_head, next', v] s;
        s \<leftarrow> set_empty_area v TYPE_STACK s;
        (v, s) \<leftarrow> append_area v s;
        s \<leftarrow> set_empty_area v TYPE_HEAP s;
        Some (vma_head, s)
      })"

definition load_elf_vmas :: "u64 \<Rightarrow> 'a loader_scheme \<Rightarrow> (u64 \<times> 'a loader_scheme) option" where
  "load_elf_vmas ehdr s = do {
     (mm_head, s) \<leftarrow> kmalloc_user sizeof_mm s;
     entry \<leftarrow> get64 s (ehdr + 24);
     s \<leftarrow> say (''starting address = %p'' @ [CHR 0x0A]) [entry] s;
     (vma_head, vma_next, s) \<leftarrow> area_loop ehdr 0 0 0 s;
     (vma_head, s) \<leftarrow> add_stack_and_heap vma_head vma_next s;
     entry \<leftarrow> get64 s (ehdr + 24);
     s \<leftarrow> put64 s (mm_e_entry mm_head) entry;
     s \<leftarrow> put64 s (mm_elf_head mm_head) ehdr;
     s \<leftarrow> put64 s mm_head vma_head;
     Some (mm_head, s)
   }"

section \<open>The heap and the screen\<close>

lemma seen_screen [simp]: "seen (s\<lparr>screen := c\<rparr>) = seen s"
  by (rule ext) (simp add: seen_def split: option.split)

lemma heap_screen [simp]: "heap (s\<lparr>screen := c\<rparr>) T ps k A m = heap s T ps k A m"
  by (simp add: heap_def room_def owned_def mappable_def paging_inv_def kernel_list_def kernel_half_def)

lemma say_numbers:
  assumes "numbers_format (map of_char fmt) (length args)"
  shows "\<exists>c. say fmt args s = Some (s\<lparr>screen := c\<rparr>)"
  using kprintf_numbers [OF assms, of "kernel_view s"] by (metis (no_types, lifting) say_def bind.bind_lunit)

text \<open>Accesses of different widths that do not overlap.\<close>

lemma load_store_bytes_apart:
  assumes "n \<le> unat (b - a)" "k \<le> unat (a - b)" "n < 2 ^ 64"
  shows "load_bytes n (store_bytes k m b x) a = load_bytes n m a"
proof (rule load_bytes_cong [OF _ assms(3)])
  fix c assume "unat (c - a) < n"
  then have "k \<le> unat (c - b)" using assms(1,2) by unat_arith
  then show "store_bytes k m b x c = m c" by (rule store_bytes_frame)
qed

lemma load_store_apart [mem_simps]:
  "\<lbrakk>8 \<le> unat (b - a); 4 \<le> unat (a - b)\<rbrakk> \<Longrightarrow> load64 (store32 m b x) a = load64 m a"
  "\<lbrakk>4 \<le> unat (b - a); 8 \<le> unat (a - b)\<rbrakk> \<Longrightarrow> load32 (store64 m b y) a = load32 m a"
  by (simp_all add: load64_def load32_def store64_def store32_def load_store_bytes_apart)

section \<open>The areas as a list\<close>

datatype area = File_area u64 u64 u64 | Stack_area | Heap_area

fun area_at :: "mem \<Rightarrow> u64 \<Rightarrow> area \<Rightarrow> bool" where
  "area_at m v (File_area start end' offset) \<longleftrightarrow> load64 m (vm_start v) = start \<and> load64 m (vm_end v) = end' \<and>
     load64 m (vm_offset v) = offset \<and> load32 m (vm_type v) = TYPE_FILE"
| "area_at m v Stack_area \<longleftrightarrow> load64 m (vm_start v) = 0 \<and> load64 m (vm_end v) = 0 \<and> load32 m (vm_type v) = TYPE_STACK"
| "area_at m v Heap_area \<longleftrightarrow> load64 m (vm_start v) = 0 \<and> load64 m (vm_end v) = 0 \<and> load32 m (vm_type v) = TYPE_HEAP"

text \<open>The areas \<open>xs\<close> from \<open>p\<close> to \<open>q\<close>, all inside \<open>F\<close> and apart; a list ends at \<open>NULL\<close>.\<close>

primrec area_seg :: "mem \<Rightarrow> u64 set \<Rightarrow> u64 \<Rightarrow> area list \<Rightarrow> u64 \<Rightarrow> bool" where
  "area_seg m F p [] q \<longleftrightarrow> p = q"
| "area_seg m F p (x # xs) q \<longleftrightarrow> p \<noteq> 0 \<and> region p 56 \<subseteq> F \<and> area_at m p x \<and>
     area_seg m (F - region p 56) (load64 m (vm_next p)) xs q"

definition area_list :: "mem \<Rightarrow> u64 set \<Rightarrow> u64 \<Rightarrow> area list \<Rightarrow> bool" where
  "area_list m F p xs \<longleftrightarrow> area_seg m F p xs 0"

lemma load_field:
  assumes "\<forall>a \<in> region v 56. m' a = m a" "i + n \<le> 56"
  shows "load_bytes n m' (v + of_nat i) = load_bytes n m (v + of_nat i)"
proof (rule load_bytes_cong)
  fix c assume "unat (c - (v + of_nat i)) < n"
  then have "c \<in> region (v + of_nat i) n" by (simp add: region_def)
  then show "m' c = m c" using region_shift [OF assms(2), of v] assms(1) by auto
qed (use assms(2) in simp)

lemma area_fields_cong:
  assumes "\<forall>a \<in> region v 56. m' a = m a"
  shows "area_at m' v x = area_at m v x" "load64 m' (vm_next v) = load64 m (vm_next v)"
proof -
  note f = load_field [OF assms, of 8 8] load_field [OF assms, of 16 8] load_field [OF assms, of 24 8]
    load_field [OF assms, of 32 8] load_field [OF assms, of 40 4]
  show "load64 m' (vm_next v) = load64 m (vm_next v)" using f by (simp add: load64_def vm_next_def)
  show "area_at m' v x = area_at m v x"
    using f by (cases x) (simp_all add: load64_def load32_def vm_start_def vm_end_def vm_offset_def vm_type_def)
qed

lemma area_seg_cong:
  "\<lbrakk>area_seg m F p xs q; \<forall>a \<in> F. m' a = m a\<rbrakk> \<Longrightarrow> area_seg m' F p xs q"
proof (induction xs arbitrary: p F)
  case (Cons x xs)
  then have "\<forall>a \<in> region p 56. m' a = m a" by auto
  from area_fields_cong [OF this] Cons show ?case by simp
qed simp

lemma area_seg_mono: "\<lbrakk>area_seg m F p xs q; F \<subseteq> G\<rbrakk> \<Longrightarrow> area_seg m G p xs q"
proof (induction xs arbitrary: p F G)
  case (Cons x xs)
  moreover have "F - region p 56 \<subseteq> G - region p 56" using Cons.prems(2) by blast
  ultimately show ?case by auto
qed simp

lemma area_seg_snoc:
  "\<lbrakk>area_seg m F p xs l; F \<subseteq> G; region l 56 \<subseteq> G; region l 56 \<inter> F = {}; l \<noteq> 0; area_at m l x; load64 m (vm_next l) = q\<rbrakk> \<Longrightarrow>
    area_seg m G p (xs @ [x]) q"
proof (induction xs arbitrary: p F G)
  case (Cons y xs)
  have "region p 56 \<subseteq> F" using Cons.prems(1) by simp
  then have "region l 56 \<subseteq> G - region p 56" "F - region p 56 \<subseteq> G - region p 56" "region l 56 \<inter> (F - region p 56) = {}"
    using Cons.prems(2-4) by blast+
  from Cons.IH [OF _ this(2,1,3) Cons.prems(5-7)] Cons.prems(1,2) show ?case by auto
qed simp

text \<open>A list under construction: its last area \<open>l\<close> is apart from the others.\<close>

definition built :: "mem \<Rightarrow> u64 set \<Rightarrow> u64 \<Rightarrow> area list \<Rightarrow> area \<Rightarrow> u64 \<Rightarrow> bool" where
  "built m A h xs x l \<longleftrightarrow> (\<exists>F \<subseteq> A. area_seg m F h xs l \<and> l \<noteq> 0 \<and> region l 56 \<subseteq> A \<and> region l 56 \<inter> F = {} \<and>
     area_at m l x \<and> load64 m (vm_next l) = 0)"

lemma built_list: "built m A h xs x l \<Longrightarrow> area_list m A h (xs @ [x])"
proof -
  assume "built m A h xs x l"
  then obtain F where F: "F \<subseteq> A" "area_seg m F h xs l" "l \<noteq> 0" "region l 56 \<subseteq> A" "region l 56 \<inter> F = {}"
    "area_at m l x" "load64 m (vm_next l) = 0" unfolding built_def by blast
  show ?thesis unfolding area_list_def by (rule area_seg_snoc [OF F(2,1,4,5,3,6,7)])
qed

lemma built_nonzero: "built m A h xs x l \<Longrightarrow> h \<noteq> 0"
  unfolding built_def by (cases xs) auto

lemma region_vm_next: "region (vm_next l) 8 \<subseteq> region l 56"
  using region_shift [of 32 8 56 l] by (simp add: vm_next_def)

lemma built_append:
  assumes b: "built m A h xs x l" and B: "region v 56 \<subseteq> B" "A \<inter> B = {}" "v \<noteq> 0"
    and m': "\<forall>a \<in> A. m' a = store64 m (vm_next l) v a"
    and new: "area_at m' v y" "load64 m' (vm_next v) = 0"
  shows "built m' (A \<union> B) h (xs @ [x]) y v"
proof -
  from b obtain F where F: "F \<subseteq> A" "area_seg m F h xs l" "l \<noteq> 0" "region l 56 \<subseteq> A" "region l 56 \<inter> F = {}"
    "area_at m l x" "load64 m (vm_next l) = 0" unfolding built_def by blast
  let ?m = "store64 m (vm_next l) v"
  have old: "?m a = m a" if "a \<in> F" for a
  proof -
    have "a \<notin> region (vm_next l) 8" using that F(5) region_vm_next by blast
    then show ?thesis by (simp add: store64_frame region_def)
  qed
  have "area_seg ?m F h xs l" using area_seg_cong [OF F(2)] old by blast
  then have "area_seg m' F h xs l" by (rule area_seg_cong) (use F(1) m' in auto)
  moreover have "area_at ?m l x"
    using F(6) by (cases x) (simp_all add: vm_start_def vm_end_def vm_offset_def vm_type_def vm_next_def mem_simps sep8_def)
  moreover have same: "\<forall>a \<in> region l 56. m' a = ?m a" using F(4) m' by blast
  ultimately have "area_seg m' (F \<union> region l 56) h (xs @ [x]) v"
    using area_fields_cong [OF same] by (intro area_seg_snoc [of m' F h xs l _ x v]) (use F(3,5) in auto)
  moreover have "F \<union> region l 56 \<subseteq> A" using F(1,4) by blast
  ultimately show ?thesis
    unfolding built_def using B new by (intro exI [of _ "F \<union> region l 56"]) blast
qed

section \<open>One area\<close>

definition p_offset :: "mem \<Rightarrow> u64 \<Rightarrow> u64" where "p_offset m phdr = load64 m (phdr + 8)"

definition file_area_of :: "mem \<Rightarrow> u64 \<Rightarrow> area" where
  "file_area_of m phdr = File_area (p_vaddr m phdr) (p_vaddr m phdr + p_memsz m phdr) (p_offset m phdr)"

lemma writes_field:
  assumes "unat i + 8 \<le> 56"
  shows "writes v 56 m (store64 m (v + i) x)" "writes v 56 m (store32 m (v + i) y)"
proof -
  have i: "v + i = v + of_nat (unat i)" by simp
  show "writes v 56 m (store64 m (v + i) x)"
    by (subst i, rule writes_mono [OF writes_store(2)]) (use assms in simp_all)
  show "writes v 56 m (store32 m (v + i) y)"
    by (subst i, rule writes_mono [OF writes_store(1)]) (use assms in simp_all)
qed

lemma region_field:
  assumes "region v 56 \<subseteq> A" "unat i + 8 \<le> 56"
  shows "region (v + i) 8 \<subseteq> A" "region (v + i) 4 \<subseteq> A"
proof -
  show "region (v + i) 8 \<subseteq> A" using region_shift [of "unat i" 8 56 v] assms by auto
  then show "region (v + i) 4 \<subseteq> A" using region_mono [of 4 8 "v + i"] by auto
qed

lemma writes_other_field:
  assumes "writes v 56 m m'" "region w 56 \<inter> region v 56 = {}" "unat i + 8 \<le> 56"
  shows "load64 m' (w + i) = load64 m (w + i)"
proof -
  have "region (w + i) 8 \<inter> region v 56 = {}" using region_field(1) [OF subset_refl assms(3), of w] assms(2) by blast
  from writes_load_bytes [OF assms(1) this] show ?thesis by (simp add: load64_def)
qed

lemmas vm_fields = vm_start_def vm_end_def vm_offset_def vm_next_def vm_type_def

lemma vm_regions:
  assumes "region v 56 \<subseteq> A"
  shows "region (vm_start v) 8 \<subseteq> A" "region (vm_end v) 8 \<subseteq> A" "region (vm_offset v) 8 \<subseteq> A"
    "region (vm_next v) 8 \<subseteq> A" "region (vm_type v) 4 \<subseteq> A"
  unfolding vm_fields by (rule region_field [OF assms], simp)+

lemma set_file_area_ok:
  assumes h: "heap s T ps k A m" and v: "region v 56 \<subseteq> A" and p: "region phdr 56 \<subseteq> A"
    and d: "region phdr 56 \<inter> region v 56 = {}"
  obtains s' m' where "set_file_area v phdr s = Some s'" "s' = s\<lparr>pmem := pmem s'\<rparr>" "heap s' T ps k A m'"
    "writes v 56 m m'" "area_at m' v (file_area_of m phdr)" "load64 m' (vm_next v) = 0"
proof -
  note fv = vm_regions [OF v] and fp = region_field(1) [OF p]
  obtain s1 where s1: "put64 s (vm_start v) (p_vaddr m phdr) = Some s1" "s1 = s\<lparr>pmem := pmem s1\<rparr>"
    "heap s1 T ps k A (store64 m (vm_start v) (p_vaddr m phdr))" (is "heap _ _ _ _ _ ?m1")
    by (rule put64_heap [OF h fv(1)])
  have w1: "writes v 56 m ?m1" unfolding vm_fields by (rule writes_field) simp
  obtain s2 where s2: "put64 s1 (vm_end v) (p_vaddr m phdr + p_memsz m phdr) = Some s2" "s2 = s1\<lparr>pmem := pmem s2\<rparr>"
    "heap s2 T ps k A (store64 ?m1 (vm_end v) (p_vaddr m phdr + p_memsz m phdr))" (is "heap _ _ _ _ _ ?m2")
    by (rule put64_heap [OF s1(3) fv(2)])
  obtain s3 where s3: "put32 s2 (vm_type v) TYPE_FILE = Some s3" "s3 = s2\<lparr>pmem := pmem s3\<rparr>"
    "heap s3 T ps k A (store32 ?m2 (vm_type v) TYPE_FILE)" (is "heap _ _ _ _ _ ?m3")
    by (rule put32_heap [OF s2(3) fv(5)])
  have "writes v 56 ?m1 ?m2" "writes v 56 ?m2 ?m3" unfolding vm_fields by (rule writes_field, simp)+
  then have w3: "writes v 56 m ?m3" using w1 writes_trans by blast
  obtain s4 where s4: "put64 s3 (vm_offset v) (p_offset m phdr) = Some s4" "s4 = s3\<lparr>pmem := pmem s4\<rparr>"
    "heap s4 T ps k A (store64 ?m3 (vm_offset v) (p_offset m phdr))" (is "heap _ _ _ _ _ ?m4")
    by (rule put64_heap [OF s3(3) fv(3)])
  obtain s5 where s5: "put64 s4 (vm_next v) 0 = Some s5" "s5 = s4\<lparr>pmem := pmem s5\<rparr>"
    "heap s5 T ps k A (store64 ?m4 (vm_next v) 0)" (is "heap _ _ _ _ _ ?m5")
    by (rule put64_heap [OF s4(3) fv(4)])
  have "writes v 56 ?m3 ?m4" "writes v 56 ?m4 ?m5" unfolding vm_fields by (rule writes_field, simp)+
  then have "writes v 56 m ?m5" using w3 writes_trans by blast
  moreover have "get64 s (phdr + 16) = Some (p_vaddr m phdr)" "get64 s1 (phdr + 16) = Some (p_vaddr m phdr)"
    "get64 s1 (phdr + 40) = Some (p_memsz m phdr)" "get64 s3 (phdr + 8) = Some (p_offset m phdr)"
    using heap_get(4) [OF h fp, of 16] heap_get(4) [OF s1(3) fp, of 16] heap_get(4) [OF s1(3) fp, of 40]
      heap_get(4) [OF s3(3) fp, of 8] writes_other_field [OF w1 d] writes_other_field [OF w3 d]
    by (simp_all add: p_vaddr_def p_memsz_def p_offset_def)
  then have "set_file_area v phdr s = Some s5"
    using s1(1) s2(1) s3(1) s4(1) s5(1) by (simp add: set_file_area_def)
  moreover have "area_at ?m5 v (file_area_of m phdr)" "load64 ?m5 (vm_next v) = 0"
    by (simp_all add: file_area_of_def vm_fields mem_simps sep8_def)
  moreover have "s5 = s\<lparr>pmem := pmem s5\<rparr>" by (subst s5(2), subst s4(2), subst s3(2), subst s2(2), subst s1(2)) simp
  ultimately show thesis using that s5(3) by blast
qed

lemma set_empty_area_ok:
  assumes h: "heap s T ps k A m" and v: "region v 56 \<subseteq> A"
  obtains s' m' where "set_empty_area v t s = Some s'" "s' = s\<lparr>pmem := pmem s'\<rparr>" "heap s' T ps k A m'"
    "writes v 56 m m'" "load64 m' (vm_start v) = 0" "load64 m' (vm_end v) = 0" "load32 m' (vm_type v) = t"
    "load64 m' (vm_next v) = 0"
proof -
  note fv = vm_regions [OF v]
  obtain s1 where s1: "put64 s (vm_start v) 0 = Some s1" "s1 = s\<lparr>pmem := pmem s1\<rparr>"
    "heap s1 T ps k A (store64 m (vm_start v) 0)" (is "heap _ _ _ _ _ ?m1")
    by (rule put64_heap [OF h fv(1)])
  obtain s2 where s2: "put64 s1 (vm_end v) 0 = Some s2" "s2 = s1\<lparr>pmem := pmem s2\<rparr>"
    "heap s2 T ps k A (store64 ?m1 (vm_end v) 0)" (is "heap _ _ _ _ _ ?m2")
    by (rule put64_heap [OF s1(3) fv(2)])
  obtain s3 where s3: "put32 s2 (vm_type v) t = Some s3" "s3 = s2\<lparr>pmem := pmem s3\<rparr>"
    "heap s3 T ps k A (store32 ?m2 (vm_type v) t)" (is "heap _ _ _ _ _ ?m3")
    by (rule put32_heap [OF s2(3) fv(5)])
  obtain s4 where s4: "put64 s3 (vm_next v) 0 = Some s4" "s4 = s3\<lparr>pmem := pmem s4\<rparr>"
    "heap s4 T ps k A (store64 ?m3 (vm_next v) 0)" (is "heap _ _ _ _ _ ?m4")
    by (rule put64_heap [OF s3(3) fv(4)])
  have "writes v 56 m ?m1" "writes v 56 ?m1 ?m2" "writes v 56 ?m2 ?m3" "writes v 56 ?m3 ?m4"
    unfolding vm_fields by (rule writes_field, simp)+
  then have "writes v 56 m ?m4" using writes_trans by blast
  moreover have "set_empty_area v t s = Some s4" using s1(1) s2(1) s3(1) s4(1) by (simp add: set_empty_area_def)
  moreover have "load64 ?m4 (vm_start v) = 0" "load64 ?m4 (vm_end v) = 0" "load32 ?m4 (vm_type v) = t" "load64 ?m4 (vm_next v) = 0"
    by (simp_all add: vm_fields mem_simps sep8_def)
  moreover have "s4 = s\<lparr>pmem := pmem s4\<rparr>" by (subst s4(2), subst s3(2), subst s2(2), subst s1(2)) simp
  ultimately show thesis using that s4(3) by blast
qed

section \<open>Appending an area\<close>

text \<open>What allocating \<open>n\<close> pages and printing does to the globals.\<close>

definition grown :: "nat \<Rightarrow> 'a loader_scheme \<Rightarrow> 'a loader_scheme \<Rightarrow> bool" where
  "grown n s s' \<longleftrightarrow> top_virtual_address s' = top_virtual_address s + 4096 * of_nat n \<and>
     cr3_reg s' = cr3_reg s \<and> kernel_cr3 s' = kernel_cr3 s \<and> kernel_pml4_t s' = kernel_pml4_t s \<and>
     paging_user_stack_top s' = paging_user_stack_top s \<and> loader.more s' = loader.more s"

lemma grown_trans: "\<lbrakk>grown n s s'; grown k s' s''\<rbrakk> \<Longrightarrow> grown (n + k) s s''"
  by (simp add: grown_def algebra_simps)

lemma grown_0: "grown 0 s (s\<lparr>screen := c\<rparr>)" "s' = s\<lparr>pmem := pmem s'\<rparr> \<Longrightarrow> grown 0 s s'"
proof -
  show "grown 0 s s'" if "s' = s\<lparr>pmem := pmem s'\<rparr>"
    by (subst that) (simp add: grown_def)
qed (simp add: grown_def)

lemma grown_allocated:
  fixes s :: "'a loader_scheme"
  assumes "same_globals (s\<lparr>top_virtual_address := top_virtual_address s + 4096 * of_nat n\<rparr>) s'"
  shows "grown n s s'"
proof -
  have "paging.more s' = paging.more s" using assms by (simp add: same_globals_def)
  then have "loader.more s' = loader.more s" by (cases s, cases s') simp
  then show ?thesis using assms by (simp add: grown_def same_globals_def)
qed

lemma new_struct:
  fixes s :: "'a loader_scheme"
  assumes h: "heap s T ps (2 + k) A m" and size: "unat (no_of_pages n + 1) = 2" "unat n \<le> 4096"
  obtains s' T' ps' m' where "kmalloc_user n s = Some (top_virtual_address s, s')"
    "heap s' T' ps' k (A \<union> block (top_virtual_address s) 2) m'" "\<forall>a \<in> A. m' a = m a"
    "A \<inter> block (top_virtual_address s) 2 = {}" "grown 2 s s'" "top_virtual_address s \<noteq> 0"
    "region (top_virtual_address s) (unat n) \<subseteq> block (top_virtual_address s) 2"
proof -
  obtain s' T' ps' m' where s': "kmalloc_user n s = Some (top_virtual_address s, s')" "allocated 2 s k A m s' T' ps' m'"
    using heap_kmalloc_user [OF h size(1) [symmetric]] by blast
  show thesis
  proof (rule that [OF s'(1)])
    show "region (top_virtual_address s) (unat n) \<subseteq> block (top_virtual_address s) 2"
      by (rule region_block) (use heap_room [OF h] size(2) in simp_all)
  qed (use s'(2) heap_room [OF h] in \<open>auto simp: allocated_def intro!: grown_allocated\<close>)
qed

lemma append_area_ok:
  fixes s :: "'a loader_scheme"
  assumes h: "heap s T ps (2 + k) A m" and l: "region l 56 \<subseteq> A"
  obtains s' T' ps' m' where "append_area l s = Some (top_virtual_address s, s')"
    "heap s' T' ps' k (A \<union> block (top_virtual_address s) 2) m'"
    "\<forall>a \<in> A. m' a = store64 m (vm_next l) (top_virtual_address s) a"
    "A \<inter> block (top_virtual_address s) 2 = {}" "grown 2 s s'" "top_virtual_address s \<noteq> 0"
    "region (top_virtual_address s) 56 \<subseteq> block (top_virtual_address s) 2"
proof -
  let ?v = "top_virtual_address s"
  have size: "unat (no_of_pages sizeof_vma + 1) = 2" "unat sizeof_vma \<le> 4096" by (simp_all add: no_of_pages_def)
  obtain s1 T' ps' m1 where s1: "kmalloc_user sizeof_vma s = Some (?v, s1)"
    "heap s1 T' ps' k (A \<union> block ?v 2) m1" "\<forall>a \<in> A. m1 a = m a" "A \<inter> block ?v 2 = {}" "grown 2 s s1" "?v \<noteq> 0"
    "region ?v (unat sizeof_vma) \<subseteq> block ?v 2" by (rule new_struct [OF h size])
  have n: "region (vm_next l) 8 \<subseteq> A \<union> block ?v 2" using vm_regions(4) [OF l] by blast
  obtain s2 where s2: "put64 s1 (vm_next l) ?v = Some s2" "s2 = s1\<lparr>pmem := pmem s2\<rparr>"
    "heap s2 T' ps' k (A \<union> block ?v 2) (store64 m1 (vm_next l) ?v)"
    by (rule put64_heap [OF s1(2) n])
  have "get64 s2 (vm_next l) = Some ?v" using heap_get(4) [OF s2(3) n] by simp
  then have "append_area l s = Some (?v, s2)" using s1(1) s2(1) by (simp add: append_area_def)
  moreover have "\<forall>a \<in> A. store64 m1 (vm_next l) ?v a = store64 m (vm_next l) ?v a"
  proof
    fix a assume "a \<in> A"
    then have "m1 a = m a" using s1(3) by blast
    then show "store64 m1 (vm_next l) ?v a = store64 m (vm_next l) ?v a"
      unfolding store64_def by (rule store_bytes_cong)
  qed
  moreover have "grown 2 s s2" using grown_trans [OF s1(5) grown_0(2) [OF s2(2)]] by simp
  ultimately show thesis using that s2(3) s1(4,6,7) by simp
qed

text \<open>
  The state while the list is built: \<open>A\<close> holds everything from before, with the contents \<open>m0\<close>,
  \<open>B\<close> the areas.
\<close>

definition progress ::
  "'a loader_scheme \<Rightarrow> (nat \<Rightarrow> u64 set) \<Rightarrow> (u64 \<times> u64) list \<Rightarrow> nat \<Rightarrow> u64 set \<Rightarrow> mem \<Rightarrow> u64 set \<Rightarrow> mem \<Rightarrow> u64 \<Rightarrow> area list \<Rightarrow> u64 \<Rightarrow> bool" where
  "progress s T ps k A m0 B m h xs l \<longleftrightarrow> heap s T ps k (A \<union> B) m \<and> A \<inter> B = {} \<and> (\<forall>a \<in> A. m a = m0 a) \<and>
     (if xs = [] then h = 0 else built m B h (butlast xs) (last xs) l)"

lemma file_area_of_cong:
  assumes "\<forall>a \<in> region p 56. m' a = m a"
  shows "file_area_of m' p = file_area_of m p"
  using load_field [OF assms, of 8 8] load_field [OF assms, of 16 8] load_field [OF assms, of 40 8]
  by (simp add: file_area_of_def p_vaddr_def p_memsz_def p_offset_def load64_def)

lemma built_regions: "built m B h xs x l \<Longrightarrow> region h 56 \<subseteq> B \<and> region l 56 \<subseteq> B"
  unfolding built_def by (cases xs) auto

lemma writes_apart: "\<lbrakk>writes v n m m'; region v n \<subseteq> C; A \<inter> C = {}; a \<in> A\<rbrakk> \<Longrightarrow> m' a = m a"
  unfolding writes_def by blast

lemma progress_append:
  fixes s :: "'a loader_scheme"
  assumes p: "progress s T ps (2 + k) A m0 B m h xs l" and xs: "xs \<noteq> []"
  obtains s1 T' ps' m1 v C where "append_area l s = Some (v, s1)" "heap s1 T' ps' k (A \<union> B \<union> C) m1"
    "region v 56 \<subseteq> C" "(A \<union> B) \<inter> C = {}" "\<forall>a \<in> A. m1 a = m0 a" "grown 2 s s1"
    "\<And>s2 m2 y. \<lbrakk>heap s2 T' ps' k (A \<union> B \<union> C) m2; writes v 56 m1 m2; area_at m2 v y; load64 m2 (vm_next v) = 0\<rbrakk> \<Longrightarrow>
      progress (s2 :: 'a loader_scheme) T' ps' k A m0 (B \<union> C) m2 h (xs @ [y]) v"
proof -
  have b: "built m B h (butlast xs) (last xs) l" "A \<inter> B = {}" "\<forall>a \<in> A. m a = m0 a"
    and h: "heap s T ps (2 + k) (A \<union> B) m" using p xs by (simp_all add: progress_def)
  let ?v = "top_virtual_address s"
  let ?C = "block ?v 2"
  have l: "region l 56 \<subseteq> A \<union> B" using built_regions [OF b(1)] by blast
  obtain s1 T' ps' m1 where s1: "append_area l s = Some (?v, s1)" "heap s1 T' ps' k (A \<union> B \<union> ?C) m1"
    "\<forall>a \<in> A \<union> B. m1 a = store64 m (vm_next l) ?v a" "(A \<union> B) \<inter> ?C = {}" "grown 2 s s1" "?v \<noteq> 0"
    "region ?v 56 \<subseteq> ?C" by (rule append_area_ok [OF h l])
  have "store64 m (vm_next l) ?v a = m a" if "a \<in> A" for a
  proof -
    have "a \<notin> region (vm_next l) 8" using that b(2) built_regions [OF b(1)] region_vm_next by blast
    then show ?thesis by (simp add: store64_frame region_def)
  qed
  then have A: "\<forall>a \<in> A. m1 a = m0 a" using s1(3) b(3) by auto
  show thesis
  proof (rule that [OF s1(1,2,7,4) A s1(5)])
    fix s2 :: "'a loader_scheme" and m2 y
    assume m2: "heap s2 T' ps' k (A \<union> B \<union> ?C) m2" "writes ?v 56 m1 m2" "area_at m2 ?v y" "load64 m2 (vm_next ?v) = 0"
    note same = writes_apart [OF m2(2) s1(7,4)]
    have "built m2 (B \<union> ?C) h (butlast xs @ [last xs]) y ?v"
      by (rule built_append [OF b(1) s1(7) _ s1(6)]) (use same s1(3,4) m2(3,4) in auto)
    then show "progress s2 T' ps' k A m0 (B \<union> ?C) m2 h (xs @ [y]) ?v"
      using m2(1) same A b(2) s1(4) xs unfolding progress_def by (auto simp: Un_assoc)
  qed
qed

lemma add_file_area_ok:
  fixes s :: "'a loader_scheme"
  assumes p: "progress s T ps (2 + k) A m0 B m h xs l" and phdr: "region phdr 56 \<subseteq> A"
  obtains s' T' ps' B' m' h' l' where "add_file_area phdr h l s = Some (h', l', s')"
    "progress s' T' ps' k A m0 B' m' h' (xs @ [file_area_of m0 phdr]) l'" "grown 2 s s'"
proof (cases "xs = []")
  case True
  have b: "h = 0" "A \<inter> B = {}" "\<forall>a \<in> A. m a = m0 a" and hp: "heap s T ps (2 + k) (A \<union> B) m"
    using p True by (simp_all add: progress_def)
  let ?v = "top_virtual_address s"
  let ?C = "block ?v 2"
  have size: "unat (no_of_pages sizeof_vma + 1) = 2" "unat sizeof_vma \<le> 4096" by (simp_all add: no_of_pages_def)
  obtain s1 T' ps' m1 where s1: "kmalloc_user sizeof_vma s = Some (?v, s1)"
    "heap s1 T' ps' k (A \<union> B \<union> ?C) m1" "\<forall>a \<in> A \<union> B. m1 a = m a" "(A \<union> B) \<inter> ?C = {}" "grown 2 s s1" "?v \<noteq> 0"
    "region ?v (unat sizeof_vma) \<subseteq> ?C" by (rule new_struct [OF hp size])
  have v: "region ?v 56 \<subseteq> ?C" using s1(7) by simp
  have fa: "file_area_of m1 phdr = file_area_of m0 phdr"
    by (rule file_area_of_cong) (use s1(3) b(3) phdr in auto)
  have sub: "region ?v 56 \<subseteq> A \<union> B \<union> ?C" "region phdr 56 \<subseteq> A \<union> B \<union> ?C" "region phdr 56 \<inter> region ?v 56 = {}"
    using v phdr s1(4) by blast+
  obtain s2 m2 where s2: "set_file_area ?v phdr s1 = Some s2" "s2 = s1\<lparr>pmem := pmem s2\<rparr>"
    "heap s2 T' ps' k (A \<union> B \<union> ?C) m2" "writes ?v 56 m1 m2" "area_at m2 ?v (file_area_of m0 phdr)" "load64 m2 (vm_next ?v) = 0"
    by (rule set_file_area_ok [OF s1(2) sub, unfolded fa])
  note same = writes_apart [OF s2(4) v s1(4)]
  have "region (phdr + 8) 8 \<subseteq> A \<union> B \<union> ?C" using region_field(1) [of phdr "A \<union> B \<union> ?C" 8] phdr by auto
  from heap_get(4) [OF s2(3) this] obtain o' where o: "get64 s2 (phdr + 8) = Some o'" by blast
  obtain c where c: "say (''p_offset = %p'' @ [CHR 0x0A]) [o'] s2 = Some (s2\<lparr>screen := c\<rparr>)"
    using say_numbers [of "''p_offset = %p'' @ [CHR 0x0A]" "[o']" s2] by auto
  have "add_file_area phdr h l s = Some (?v, ?v, s2\<lparr>screen := c\<rparr>)"
    using b(1) s1(1) s2(1) o c by (simp add: add_file_area_def)
  moreover have "built m2 (B \<union> ?C) ?v [] (file_area_of m0 phdr) ?v"
    unfolding built_def using v s1(6) s2(5,6) by (intro exI [of _ "{}"]) auto
  then have "progress (s2\<lparr>screen := c\<rparr>) T' ps' k A m0 (B \<union> ?C) m2 ?v (xs @ [file_area_of m0 phdr]) ?v"
    unfolding progress_def using s2(3) b(2,3) s1(3,4) same True by (auto simp: Un_assoc)
  moreover have "grown 2 s (s2\<lparr>screen := c\<rparr>)"
    using grown_trans [OF s1(5) grown_trans [OF grown_0(2) [OF s2(2)] grown_0(1)]] by simp
  ultimately show thesis by (rule that)
next
  case False
  obtain s1 T' ps' m1 v C where s1: "append_area l s = Some (v, s1)" "heap s1 T' ps' k (A \<union> B \<union> C) m1"
    "region v 56 \<subseteq> C" "(A \<union> B) \<inter> C = {}" "\<forall>a \<in> A. m1 a = m0 a" "grown 2 s s1"
    "\<And>s2 m2 y. \<lbrakk>heap s2 T' ps' k (A \<union> B \<union> C) m2; writes v 56 m1 m2; area_at m2 v y; load64 m2 (vm_next v) = 0\<rbrakk> \<Longrightarrow>
      progress (s2 :: 'a loader_scheme) T' ps' k A m0 (B \<union> C) m2 h (xs @ [y]) v"
    by (rule progress_append [OF p False]) (rule that)
  have fa: "file_area_of m1 phdr = file_area_of m0 phdr"
    by (rule file_area_of_cong) (use s1(5) phdr in auto)
  have sub: "region v 56 \<subseteq> A \<union> B \<union> C" "region phdr 56 \<subseteq> A \<union> B \<union> C" "region phdr 56 \<inter> region v 56 = {}"
    using s1(3,4) phdr by blast+
  obtain s2 m2 where s2: "set_file_area v phdr s1 = Some s2" "s2 = s1\<lparr>pmem := pmem s2\<rparr>"
    "heap s2 T' ps' k (A \<union> B \<union> C) m2" "writes v 56 m1 m2" "area_at m2 v (file_area_of m0 phdr)" "load64 m2 (vm_next v) = 0"
    by (rule set_file_area_ok [OF s1(2) sub, unfolded fa])
  have "built m B h (butlast xs) (last xs) l" using p False by (simp add: progress_def)
  then have "h \<noteq> 0" by (rule built_nonzero)
  then have "add_file_area phdr h l s = Some (h, v, s2)" using s1(1) s2(1) by (simp add: add_file_area_def)
  moreover have "progress s2 T' ps' k A m0 (B \<union> C) m2 h (xs @ [file_area_of m0 phdr]) v"
    by (rule s1(7) [OF s2(3-6)])
  moreover have "grown 2 s s2" using grown_trans [OF s1(6) grown_0(2) [OF s2(2)]] by simp
  ultimately show thesis by (rule that)
qed

section \<open>The list of an executable\<close>

definition load_headers :: "mem \<Rightarrow> u64 \<Rightarrow> nat \<Rightarrow> u64 list" where
  "load_headers m ehdr i = filter (\<lambda>p. p_type_at m p = PT_LOAD)
     (map (\<lambda>j. phdr_at m ehdr (of_nat j)) [i..<unat (e_phnum m ehdr)])"

text \<open>The header and the program headers lie in \<open>A\<close>.\<close>

definition elf_in :: "mem \<Rightarrow> u64 \<Rightarrow> u64 set \<Rightarrow> bool" where
  "elf_in m ehdr A \<longleftrightarrow> region ehdr 64 \<subseteq> A \<and>
     (\<forall>j < unat (e_phnum m ehdr). region (phdr_at m ehdr (of_nat j)) 56 \<subseteq> A)"

lemma load_bytes_on:
  assumes "\<forall>a \<in> A. m a = m0 a" "region a n \<subseteq> A" "n < 2 ^ 64"
  shows "load_bytes n m a = load_bytes n m0 a"
  by (rule load_bytes_cong) (use assms in \<open>auto simp: region_def\<close>)

lemma header_regions:
  assumes "region ehdr 64 \<subseteq> A"
  shows "region (ehdr + 56) 2 \<subseteq> A" "region (ehdr + 32) 8 \<subseteq> A" "region (ehdr + 24) 8 \<subseteq> A"
  using region_shift [of 56 2 64 ehdr] region_shift [of 32 8 64 ehdr] region_shift [of 24 8 64 ehdr] assms by auto

lemma heap_elf:
  assumes h: "heap s T ps k (A \<union> B) m" and m: "\<forall>a \<in> A. m a = m0 a" and e: "region ehdr 64 \<subseteq> A"
  shows "get16 s (ehdr + 56) = Some (e_phnum m0 ehdr)" "get64 s (ehdr + 32) = Some (e_phoff m0 ehdr)"
    "get64 s (ehdr + 24) = Some (load64 m0 (ehdr + 24))"
    "region p 56 \<subseteq> A \<Longrightarrow> get32 s p = Some (p_type_at m0 p)"
proof -
  note r = header_regions [OF e]
  have r': "region (ehdr + 56) 2 \<subseteq> A \<union> B" "region (ehdr + 32) 8 \<subseteq> A \<union> B" "region (ehdr + 24) 8 \<subseteq> A \<union> B"
    using r by auto
  show "get16 s (ehdr + 56) = Some (e_phnum m0 ehdr)" "get64 s (ehdr + 32) = Some (e_phoff m0 ehdr)"
    "get64 s (ehdr + 24) = Some (load64 m0 (ehdr + 24))"
    using heap_get(2) [OF h r'(1)] heap_get(4) [OF h r'(2)] heap_get(4) [OF h r'(3)]
      load_bytes_on [OF m r(1)] load_bytes_on [OF m r(2)] load_bytes_on [OF m r(3)]
    by (simp_all add: e_phnum_def e_phoff_def load16_def load64_def)
  assume p: "region p 56 \<subseteq> A"
  have "region p 4 \<subseteq> A" using region_mono [of 4 56 p] p by auto
  moreover from this have "region p 4 \<subseteq> A \<union> B" by auto
  ultimately show "get32 s p = Some (p_type_at m0 p)"
    using heap_get(3) [OF h] load_bytes_on [OF m, of p 4] by (simp add: p_type_at_def load32_def)
qed

lemma area_loop_ok:
  fixes s :: "'a loader_scheme"
  shows "\<lbrakk>n + i = unat (e_phnum m0 ehdr); elf_in m0 ehdr A;
     progress s T ps (2 * length (load_headers m0 ehdr i) + k) A m0 B m h xs l\<rbrakk> \<Longrightarrow>
   \<exists>s' T' ps' B' m' h' l'. area_loop ehdr (of_nat i) h l s = Some (h', l', s') \<and>
     progress s' T' ps' k A m0 B' m' h' (xs @ map (file_area_of m0) (load_headers m0 ehdr i)) l' \<and>
     grown (2 * length (load_headers m0 ehdr i)) s s'"
proof (induction n arbitrary: i s T ps B m h xs l)
  case 0
  have i: "i < 65536" using 0 unsigned_less [of "e_phnum m0 ehdr", where ?'a = nat] by simp
  have "\<not> sint (of_nat i :: cint) < uint (e_phnum m0 ehdr)"
    unfolding uint_nat 0(1) [symmetric] using i sint_cint_of_nat [of i] by simp
  moreover have "get16 s (ehdr + 56) = Some (e_phnum m0 ehdr)"
    using heap_elf(1) [of s T ps _ A B m m0 ehdr] 0(2,3) by (auto simp: progress_def elf_in_def)
  ultimately have "area_loop ehdr (of_nat i) h l s = Some (h, l, s)" by (subst area_loop.simps) simp
  moreover have "load_headers m0 ehdr i = []" using 0(1) by (simp add: load_headers_def)
  ultimately show ?case using 0(3) by (auto simp: grown_def)
next
  case (Suc n)
  let ?p = "phdr_at m0 ehdr (of_nat i)"
  have lt: "i < unat (e_phnum m0 ehdr)" "i < 65536"
    using Suc.prems(1) unsigned_less [of "e_phnum m0 ehdr", where ?'a = nat] by simp_all
  have s: "sint (of_nat i :: cint) < uint (e_phnum m0 ehdr)"
  proof -
    have "i < 2 ^ 31" using lt(2) by simp
    from sint_cint_of_nat [OF this] show ?thesis unfolding uint_nat by (simp only: of_nat_less_iff lt(1))
  qed
  have e: "region ehdr 64 \<subseteq> A" "region ?p 56 \<subseteq> A" using Suc.prems(2) lt(1) by (auto simp: elf_in_def)
  have hp: "heap s T ps (2 * length (load_headers m0 ehdr i) + k) (A \<union> B) m" "\<forall>a \<in> A. m a = m0 a"
    using Suc.prems(3) by (simp_all add: progress_def)
  have split: "load_headers m0 ehdr i =
      (if p_type_at m0 ?p = PT_LOAD then ?p # load_headers m0 ehdr (Suc i) else load_headers m0 ehdr (Suc i))"
    using lt(1) by (simp add: load_headers_def upt_conv_Cons)
  have step: "area_loop ehdr (of_nat i) h l s =
      (if p_type_at m0 ?p = PT_LOAD then add_file_area ?p h l s else Some (h, l, s)) \<bind>
        (\<lambda>(h, l, s). area_loop ehdr (of_nat (Suc i)) h l s)"
    using heap_elf [OF hp e(1)] e(2) s
    by (subst area_loop.simps) (simp add: phdr_at_def [symmetric] cint_of_nat_Suc Let_def)
  have n: "n + Suc i = unat (e_phnum m0 ehdr)" using Suc.prems(1) by simp
  show ?case
  proof (cases "p_type_at m0 ?p = PT_LOAD")
    case False
    then show ?thesis using Suc.IH [OF n Suc.prems(2), of s T ps B m h xs l] Suc.prems(3) step split by simp
  next
    case True
    let ?k = "2 * length (load_headers m0 ehdr (Suc i)) + k"
    have "progress s T ps (2 + ?k) A m0 B m h xs l" using Suc.prems(3) True split by simp
    from add_file_area_ok [OF this e(2)] obtain s1 T1 ps1 B1 m1 h1 l1 where
      s1: "add_file_area ?p h l s = Some (h1, l1, s1)"
      "progress s1 T1 ps1 ?k A m0 B1 m1 h1 (xs @ [file_area_of m0 ?p]) l1" "grown 2 s s1" .
    from Suc.IH [OF n Suc.prems(2) s1(2)] obtain s2 T2 ps2 B2 m2 h2 l2 where
      s2: "area_loop ehdr (of_nat (Suc i)) h1 l1 s1 = Some (h2, l2, s2)"
      "progress s2 T2 ps2 k A m0 B2 m2 h2 ((xs @ [file_area_of m0 ?p]) @ map (file_area_of m0) (load_headers m0 ehdr (Suc i))) l2"
      "grown (2 * length (load_headers m0 ehdr (Suc i))) s1 s2" by blast
    have "area_loop ehdr (of_nat i) h l s = Some (h2, l2, s2)" unfolding step using True s1(1) s2(1) by simp
    moreover have "grown (2 * length (load_headers m0 ehdr i)) s s2"
      using grown_trans [OF s1(3) s2(3)] True split by simp
    ultimately show ?thesis using s2(2) True split by auto
  qed
qed

definition empty_area :: "cint \<Rightarrow> area" where
  "empty_area t = (if t = TYPE_STACK then Stack_area else Heap_area)"

lemma append_empty:
  fixes s :: "'a loader_scheme"
  assumes p: "progress s T ps (2 + k) A m0 B m h xs l" and xs: "xs \<noteq> []" and t: "t \<in> {TYPE_STACK, TYPE_HEAP}"
  obtains v s1 n where "append_area l s = Some (v, s1)" "get64 s1 (vm_next h) = Some n"
    "\<And>c. \<exists>s2 T' ps' B' m'. set_empty_area v t (s1\<lparr>screen := c\<rparr>) = Some s2 \<and>
      progress (s2 :: 'a loader_scheme) T' ps' k A m0 B' m' h (xs @ [empty_area t]) v \<and> grown 2 s s2"
proof -
  obtain s1 T' ps' m1 v C where s1: "append_area l s = Some (v, s1)" "heap s1 T' ps' k (A \<union> B \<union> C) m1"
    "region v 56 \<subseteq> C" "(A \<union> B) \<inter> C = {}" "\<forall>a \<in> A. m1 a = m0 a" "grown 2 s s1"
    "\<And>s2 m2 y. \<lbrakk>heap s2 T' ps' k (A \<union> B \<union> C) m2; writes v 56 m1 m2; area_at m2 v y; load64 m2 (vm_next v) = 0\<rbrakk> \<Longrightarrow>
      progress (s2 :: 'a loader_scheme) T' ps' k A m0 (B \<union> C) m2 h (xs @ [y]) v"
    by (rule progress_append [OF p xs]) (rule that)
  have "built m B h (butlast xs) (last xs) l" using p xs by (simp add: progress_def)
  from built_regions [OF this] have "region (vm_next h) 8 \<subseteq> A \<union> B \<union> C" using region_vm_next by blast
  from heap_get(4) [OF s1(2) this] obtain n where n: "get64 s1 (vm_next h) = Some n" by blast
  have "\<exists>s2 T' ps' B' m'. set_empty_area v t (s1\<lparr>screen := c\<rparr>) = Some s2 \<and>
      progress (s2 :: 'a loader_scheme) T' ps' k A m0 B' m' h (xs @ [empty_area t]) v \<and> grown 2 s s2" for c
  proof -
    have hp: "heap (s1\<lparr>screen := c\<rparr>) T' ps' k (A \<union> B \<union> C) m1" using s1(2) by simp
    have sub: "region v 56 \<subseteq> A \<union> B \<union> C" using s1(3) by blast
    obtain s2 m2 where s2: "set_empty_area v t (s1\<lparr>screen := c\<rparr>) = Some s2" "s2 = s1\<lparr>screen := c\<rparr>\<lparr>pmem := pmem s2\<rparr>"
      "heap s2 T' ps' k (A \<union> B \<union> C) m2" "writes v 56 m1 m2" "load64 m2 (vm_start v) = 0" "load64 m2 (vm_end v) = 0"
      "load32 m2 (vm_type v) = t" "load64 m2 (vm_next v) = 0"
      by (rule set_empty_area_ok [OF hp sub])
    have "area_at m2 v (empty_area t)" using t s2(5-7) by (auto simp: empty_area_def)
    from s1(7) [OF s2(3,4) this s2(8)] have "progress s2 T' ps' k A m0 (B \<union> C) m2 h (xs @ [empty_area t]) v" .
    moreover have "grown 2 s s2"
      using grown_trans [OF s1(6) grown_trans [OF grown_0(1) grown_0(2) [OF s2(2)]]] by simp
    ultimately show ?thesis using s2(1) by blast
  qed
  then show thesis by (rule that [OF s1(1) n])
qed

text \<open>The same without output in between.\<close>

lemma append_empty_quiet:
  fixes s :: "'a loader_scheme"
  assumes p: "progress s T ps (2 + k) A m0 B m h xs l" and xs: "xs \<noteq> []" and t: "t \<in> {TYPE_STACK, TYPE_HEAP}"
  obtains v s1 s2 T' ps' B' m' where "append_area l s = Some (v, s1)" "set_empty_area v t s1 = Some s2"
    "progress s2 T' ps' k A m0 B' m' h (xs @ [empty_area t]) v" "grown 2 s s2"
proof -
  obtain v s1 n where s1: "append_area l s = Some (v, s1)"
    "\<And>c. \<exists>s2 T' ps' B' m'. set_empty_area v t (s1\<lparr>screen := c\<rparr>) = Some s2 \<and>
      progress (s2 :: 'a loader_scheme) T' ps' k A m0 B' m' h (xs @ [empty_area t]) v \<and> grown 2 s s2"
    by (rule append_empty [OF p xs t]) (rule that)
  have "s1\<lparr>screen := screen s1\<rparr> = s1" by simp
  with s1(2) [of "screen s1"] show thesis using that s1(1) by auto
qed

lemma add_stack_and_heap_ok:
  fixes s :: "'a loader_scheme"
  assumes p: "progress s T ps (2 + (2 + k)) A m0 B m h xs l"
  obtains s' T' ps' B' m' h' l' where "add_stack_and_heap h l s = Some (h', s')"
    "progress s' T' ps' k A m0 B' m' h' (xs @ [Stack_area, Heap_area]) l'" "grown 4 s s'"
proof (cases "xs = []")
  case False
  have t: "TYPE_STACK \<in> {TYPE_STACK, TYPE_HEAP}" "TYPE_HEAP \<in> {TYPE_STACK, TYPE_HEAP}" by simp_all
  obtain v s1 n where s1: "append_area l s = Some (v, s1)" "get64 s1 (vm_next h) = Some n"
    "\<And>c. \<exists>s2 T' ps' B' m'. set_empty_area v TYPE_STACK (s1\<lparr>screen := c\<rparr>) = Some s2 \<and>
      progress (s2 :: 'a loader_scheme) T' ps' (2 + k) A m0 B' m' h (xs @ [empty_area TYPE_STACK]) v \<and> grown 2 s s2"
    by (rule append_empty [OF p False t(1)]) (rule that)
  let ?f = "''vma_head = %p, vma_head->vm_next = %p, vma_next = %p'' @ [CHR 0x0A]"
  obtain c where c: "say ?f [h, n, v] s1 = Some (s1\<lparr>screen := c\<rparr>)"
    using say_numbers [of ?f "[h, n, v]" s1] by auto
  from s1(3) [of c] obtain s2 T2 ps2 B2 m2 where s2: "set_empty_area v TYPE_STACK (s1\<lparr>screen := c\<rparr>) = Some s2"
    "progress s2 T2 ps2 (2 + k) A m0 B2 m2 h (xs @ [empty_area TYPE_STACK]) v" "grown 2 s s2" by blast
  obtain v' s3 s4 T4 ps4 B4 m4 where s4: "append_area v s2 = Some (v', s3)" "set_empty_area v' TYPE_HEAP s3 = Some s4"
    "progress s4 T4 ps4 k A m0 B4 m4 h ((xs @ [empty_area TYPE_STACK]) @ [empty_area TYPE_HEAP]) v'" "grown 2 s2 s4"
    by (rule append_empty_quiet [OF s2(2) _ t(2)]) (simp, rule that)
  have "built m B h (butlast xs) (last xs) l" using p False by (simp add: progress_def)
  then have "h \<noteq> 0" by (rule built_nonzero)
  then have "add_stack_and_heap h l s = Some (h, s4)"
    using s1(1,2) c s2(1) s4(1,2) by (simp add: add_stack_and_heap_def)
  then show thesis by (rule that) (use s4(3) grown_trans [OF s2(3) s4(4)] in \<open>simp_all add: empty_area_def\<close>)
next
  case True
  have b: "h = 0" "A \<inter> B = {}" "\<forall>a \<in> A. m a = m0 a" and hp: "heap s T ps (2 + (2 + k)) (A \<union> B) m"
    using p True by (simp_all add: progress_def)
  let ?v = "top_virtual_address s"
  let ?C = "block ?v 2"
  have size: "unat (no_of_pages sizeof_vma + 1) = 2" "unat sizeof_vma \<le> 4096" by (simp_all add: no_of_pages_def)
  obtain s1 T' ps' m1 where s1: "kmalloc_user sizeof_vma s = Some (?v, s1)"
    "heap s1 T' ps' (2 + k) (A \<union> B \<union> ?C) m1" "\<forall>a \<in> A \<union> B. m1 a = m a" "(A \<union> B) \<inter> ?C = {}" "grown 2 s s1" "?v \<noteq> 0"
    "region ?v (unat sizeof_vma) \<subseteq> ?C" by (rule new_struct [OF hp size])
  have v: "region ?v 56 \<subseteq> ?C" using s1(7) by simp
  then have sub: "region ?v 56 \<subseteq> A \<union> B \<union> ?C" by blast
  obtain s2 m2 where s2: "set_empty_area ?v TYPE_STACK s1 = Some s2" "s2 = s1\<lparr>pmem := pmem s2\<rparr>"
    "heap s2 T' ps' (2 + k) (A \<union> B \<union> ?C) m2" "writes ?v 56 m1 m2" "load64 m2 (vm_start ?v) = 0" "load64 m2 (vm_end ?v) = 0"
    "load32 m2 (vm_type ?v) = TYPE_STACK" "load64 m2 (vm_next ?v) = 0"
    by (rule set_empty_area_ok [OF s1(2) sub])
  note same = writes_apart [OF s2(4) v s1(4)]
  have "built m2 (B \<union> ?C) ?v [] Stack_area ?v"
    unfolding built_def using v s1(6) s2(5-8) by (intro exI [of _ "{}"]) auto
  then have q: "progress s2 T' ps' (2 + k) A m0 (B \<union> ?C) m2 ?v [Stack_area] ?v"
    unfolding progress_def using s2(3) b(2,3) s1(3,4) same by (auto simp: Un_assoc)
  obtain v' s3 s4 T4 ps4 B4 m4 where s4: "append_area ?v s2 = Some (v', s3)" "set_empty_area v' TYPE_HEAP s3 = Some s4"
    "progress s4 T4 ps4 k A m0 B4 m4 ?v ([Stack_area] @ [empty_area TYPE_HEAP]) v'" "grown 2 s2 s4"
    by (rule append_empty_quiet [OF q, of TYPE_HEAP]) (simp, simp, rule that)
  have "add_stack_and_heap h l s = Some (?v, s4)"
    using b(1) s1(1) s2(1) s4(1,2) by (simp add: add_stack_and_heap_def)
  moreover have "grown 4 s s4" using grown_trans [OF s1(5) grown_trans [OF grown_0(2) [OF s2(2)] s4(4)]] by simp
  ultimately show thesis using that s4(3) True by (simp add: empty_area_def)
qed

section \<open>Properties\<close>

lemma elf_cong:
  assumes e: "elf_in m ehdr A" and m': "\<forall>a \<in> A. m' a = m a"
  shows "elf_in m' ehdr A" "load_headers m' ehdr i = load_headers m ehdr i"
    "map (file_area_of m') (load_headers m ehdr i) = map (file_area_of m) (load_headers m ehdr i)"
proof -
  have r: "region ehdr 64 \<subseteq> A" and p: "\<And>j. j < unat (e_phnum m ehdr) \<Longrightarrow> region (phdr_at m ehdr (of_nat j)) 56 \<subseteq> A"
    using e by (auto simp: elf_in_def)
  have num: "e_phnum m' ehdr = e_phnum m ehdr" and at: "phdr_at m' ehdr j = phdr_at m ehdr j" for j
    using load_bytes_on [OF m' header_regions(1) [OF r]] load_bytes_on [OF m' header_regions(2) [OF r]]
    by (simp_all add: e_phnum_def phdr_at_def e_phoff_def load16_def load64_def)
  then show "elf_in m' ehdr A" using e by (simp add: elf_in_def)
  have type: "p_type_at m' (phdr_at m ehdr (of_nat j)) = p_type_at m (phdr_at m ehdr (of_nat j))"
    if "j < unat (e_phnum m ehdr)" for j
  proof -
    let ?q = "phdr_at m ehdr (of_nat j)"
    have "region ?q 4 \<subseteq> A" using region_mono [of 4 56 ?q] p [OF that] by auto
    from load_bytes_on [OF m' this] show ?thesis by (simp add: p_type_at_def load32_def)
  qed
  then show "load_headers m' ehdr i = load_headers m ehdr i"
    unfolding load_headers_def at num by (intro filter_cong map_cong) auto
  have "file_area_of m' q = file_area_of m q" if q: "q \<in> set (load_headers m ehdr i)" for q
  proof (rule file_area_of_cong)
    obtain j where "q = phdr_at m ehdr (of_nat j)" "j < unat (e_phnum m ehdr)"
      using q by (auto simp: load_headers_def)
    then have "region q 56 \<subseteq> A" using p by blast
    then show "\<forall>a \<in> region q 56. m' a = m a" using m' by blast
  qed
  then show "map (file_area_of m') (load_headers m ehdr i) = map (file_area_of m) (load_headers m ehdr i)" by simp
qed

lemma set_mm_ok:
  fixes s :: "'a loader_scheme"
  assumes h: "heap s T ps k A m" and v: "region v 176 \<subseteq> A"
  obtains s1 s2 s3 m' where "put64 s (mm_e_entry v) x = Some s1" "put64 s1 (mm_elf_head v) y = Some s2"
    "put64 s2 v z = Some s3" "heap s3 T ps k A m'" "writes v 176 m m'" "grown 0 s s3"
    "load64 m' (mm_e_entry v) = x" "load64 m' (mm_elf_head v) = y" "load64 m' v = z"
proof -
  have r: "region (mm_e_entry v) 8 \<subseteq> A" "region (mm_elf_head v) 8 \<subseteq> A" "region v 8 \<subseteq> A"
    using region_shift [of 168 8 176 v] region_shift [of 160 8 176 v] region_mono [of 8 176 v] v
    by (auto simp: mm_e_entry_def mm_elf_head_def)
  obtain s1 where s1: "put64 s (mm_e_entry v) x = Some s1" "s1 = s\<lparr>pmem := pmem s1\<rparr>"
    "heap s1 T ps k A (store64 m (mm_e_entry v) x)" (is "heap _ _ _ _ _ ?m1") by (rule put64_heap [OF h r(1)])
  obtain s2 where s2: "put64 s1 (mm_elf_head v) y = Some s2" "s2 = s1\<lparr>pmem := pmem s2\<rparr>"
    "heap s2 T ps k A (store64 ?m1 (mm_elf_head v) y)" (is "heap _ _ _ _ _ ?m2") by (rule put64_heap [OF s1(3) r(2)])
  obtain s3 where s3: "put64 s2 v z = Some s3" "s3 = s2\<lparr>pmem := pmem s3\<rparr>"
    "heap s3 T ps k A (store64 ?m2 v z)" (is "heap _ _ _ _ _ ?m3") by (rule put64_heap [OF s2(3) r(3)])
  have "writes v 176 m ?m1" "writes v 176 ?m1 ?m2" "writes v 176 ?m2 ?m3"
    using writes_mono [OF writes_store(2), of 168 176] writes_mono [OF writes_store(2), of 160 176]
      writes_mono [OF writes_store(2), of 0 176] by (simp_all add: mm_e_entry_def mm_elf_head_def)
  then have "writes v 176 m ?m3" using writes_trans by blast
  moreover have "grown 0 s s3"
    using grown_trans [OF grown_0(2) [OF s1(2)] grown_trans [OF grown_0(2) [OF s2(2)] grown_0(2) [OF s3(2)]]] by simp
  moreover have "load64 ?m3 (mm_e_entry v) = x" "load64 ?m3 (mm_elf_head v) = y" "load64 ?m3 v = z"
    by (simp_all add: mm_e_entry_def mm_elf_head_def mem_simps sep8_def)
  ultimately show thesis using that s1(1) s2(1) s3(1,3) by blast
qed

lemma load_elf_vmas_ok:
  fixes s :: "'a loader_scheme"
  assumes h: "heap s T ps (2 * (length (load_headers m ehdr 0) + 3) + k) A m" and e: "elf_in m ehdr A"
  shows "\<exists>s' T' ps' B m'. load_elf_vmas ehdr s = Some (top_virtual_address s, s') \<and>
    heap s' T' ps' k (A \<union> B) m' \<and> A \<inter> B = {} \<and> (\<forall>a \<in> A. m' a = m a) \<and>
    region (top_virtual_address s) 176 \<subseteq> B \<and>
    area_list m' (B - region (top_virtual_address s) 176) (load64 m' (top_virtual_address s)) (map (file_area_of m) (load_headers m ehdr 0) @ [Stack_area, Heap_area]) \<and>
    load64 m' (mm_e_entry (top_virtual_address s)) = load64 m (ehdr + 24) \<and>
    load64 m' (mm_elf_head (top_virtual_address s)) = ehdr \<and>
    grown (2 * (length (load_headers m ehdr 0) + 3)) s s'"
proof -
  let ?v = "top_virtual_address s" and ?n = "length (load_headers m ehdr 0)"
  let ?C = "block ?v 2" and ?xs = "map (file_area_of m) (load_headers m ehdr 0) @ [Stack_area, Heap_area]"
  have "2 * (?n + 3) + k = 2 + (2 * ?n + (2 + (2 + k)))" by simp
  then have h': "heap s T ps (2 + (2 * ?n + (2 + (2 + k)))) A m" using h by (simp only:)
  have size: "unat (no_of_pages sizeof_mm + 1) = 2" "unat sizeof_mm \<le> 4096" by (simp_all add: no_of_pages_def)
  obtain s1 T1 ps1 m1 where s1: "kmalloc_user sizeof_mm s = Some (?v, s1)"
    "heap s1 T1 ps1 (2 * ?n + (2 + (2 + k))) (A \<union> ?C) m1" "\<forall>a \<in> A. m1 a = m a" "A \<inter> ?C = {}" "grown 2 s s1" "?v \<noteq> 0"
    "region ?v (unat sizeof_mm) \<subseteq> ?C" by (rule new_struct [OF h' size])
  have e1: "elf_in m1 ehdr A" "load_headers m1 ehdr 0 = load_headers m ehdr 0"
    "map (file_area_of m1) (load_headers m ehdr 0) = map (file_area_of m) (load_headers m ehdr 0)"
    using elf_cong [OF e s1(3)] by simp_all
  have e2: "elf_in m1 ehdr (A \<union> ?C)" using e1(1) by (auto simp: elf_in_def)
  have r: "region ehdr 64 \<subseteq> A \<union> ?C" using e by (auto simp: elf_in_def)
  have entry1: "load64 m1 (ehdr + 24) = load64 m (ehdr + 24)"
  proof -
    have "region (ehdr + 24) 8 \<subseteq> A" using header_regions(3) e unfolding elf_in_def by blast
    from load_bytes_on [OF s1(3) this] show ?thesis by (simp add: load64_def)
  qed
  have g1: "get64 s1 (ehdr + 24) = Some (load64 m (ehdr + 24))"
    using heap_elf(3) [of s1 T1 ps1 _ "A \<union> ?C" "{}" m1 m1 ehdr] s1(2) r entry1 by simp
  let ?f = "''starting address = %p'' @ [CHR 0x0A]"
  obtain c where c: "say ?f [load64 m (ehdr + 24)] s1 = Some (s1\<lparr>screen := c\<rparr>)"
    using say_numbers [of ?f "[load64 m (ehdr + 24)]" s1] by auto
  have "progress (s1\<lparr>screen := c\<rparr>) T1 ps1 (2 * length (load_headers m1 ehdr 0) + (2 + (2 + k))) (A \<union> ?C) m1 {} m1 0 [] 0"
    using s1(2) e1(2) by (simp add: progress_def)
  from area_loop_ok [OF _ e2 this, of "unat (e_phnum m1 ehdr)"] obtain s2 T2 ps2 B2 m2 h2 l2 where
    s2: "area_loop ehdr 0 0 0 (s1\<lparr>screen := c\<rparr>) = Some (h2, l2, s2)"
    "progress s2 T2 ps2 (2 + (2 + k)) (A \<union> ?C) m1 B2 m2 h2 (map (file_area_of m) (load_headers m ehdr 0)) l2"
    "grown (2 * ?n) (s1\<lparr>screen := c\<rparr>) s2" using e1(2,3) by auto
  obtain s3 T3 ps3 B3 m3 h3 l3 where s3: "add_stack_and_heap h2 l2 s2 = Some (h3, s3)"
    "progress s3 T3 ps3 k (A \<union> ?C) m1 B3 m3 h3 (map (file_area_of m) (load_headers m ehdr 0) @ [Stack_area, Heap_area]) l3"
    "grown 4 s2 s3" by (rule add_stack_and_heap_ok [OF s2(2)])
  have b3: "heap s3 T3 ps3 k ((A \<union> ?C) \<union> B3) m3" "(A \<union> ?C) \<inter> B3 = {}" "\<forall>a \<in> A \<union> ?C. m3 a = m1 a"
    "built m3 B3 h3 (butlast ?xs) (last ?xs) l3" using s3(2) by (simp_all add: progress_def)
  have "butlast ?xs @ [last ?xs] = ?xs" by (rule append_butlast_last_id) simp
  then have list: "area_list m3 B3 h3 ?xs" using built_list [OF b3(4)] by (simp only:)
  have g3: "get64 s3 (ehdr + 24) = Some (load64 m (ehdr + 24))"
    using heap_elf(3) [OF b3(1,3) r] entry1 by simp
  have v: "region ?v 176 \<subseteq> (A \<union> ?C) \<union> B3" using s1(7) by auto
  obtain s4 s5 s6 m6 where s6: "put64 s3 (mm_e_entry ?v) (load64 m (ehdr + 24)) = Some s4"
    "put64 s4 (mm_elf_head ?v) ehdr = Some s5" "put64 s5 ?v h3 = Some s6" "heap s6 T3 ps3 k ((A \<union> ?C) \<union> B3) m6"
    "writes ?v 176 m3 m6" "grown 0 s3 s6" "load64 m6 (mm_e_entry ?v) = load64 m (ehdr + 24)"
    "load64 m6 (mm_elf_head ?v) = ehdr" "load64 m6 ?v = h3" by (rule set_mm_ok [OF b3(1) v])
  have vC: "region ?v 176 \<subseteq> ?C" using s1(7) by simp
  note same = writes_apart [OF s6(5) vC]
  have "load_elf_vmas ehdr s = Some (?v, s6)"
    using s1(1) g1 c s2(1) s3(1) g3 s6(1-3) by (simp add: load_elf_vmas_def)
  moreover have "heap s6 T3 ps3 k (A \<union> (?C \<union> B3)) m6" using s6(4) by (simp add: Un_assoc)
  moreover have "A \<inter> (?C \<union> B3) = {}" using s1(4) b3(2) by blast
  moreover have "\<forall>a \<in> A. m6 a = m a" using same [OF s1(4)] b3(3) s1(3) by simp
  moreover have "region ?v 176 \<subseteq> ?C \<union> B3" using vC by blast
  moreover have "area_list m6 (?C \<union> B3 - region ?v 176) h3 ?xs"
  proof -
    have "B3 \<inter> ?C = {}" using b3(2) by blast
    from same [OF this] have "\<forall>a \<in> B3. m6 a = m3 a" by blast
    from area_seg_cong [OF list [unfolded area_list_def] this] show ?thesis
      unfolding area_list_def by (rule area_seg_mono) (use vC b3(2) in blast)
  qed
  moreover have "grown (2 * (?n + 3)) s s6"
    using grown_trans [OF s1(5) grown_trans [OF grown_0(1) grown_trans [OF s2(3) grown_trans [OF s3(3) s6(6)]]]]
    by (simp add: algebra_simps)
  ultimately show ?thesis using s6(7-9) by (intro exI [of _ s6] exI [of _ T3] exI [of _ ps3] exI [of _ "?C \<union> B3"] exI [of _ m6]) simp
qed

text \<open>
  C13. load_elf_vmas: for an executable whose headers are mapped memory of the kernel, and with
  room for the structures, it returns an mm_struct with the entry point and the address of
  the header, whose list has, in the order of the program headers, one area for each of
  type PT_LOAD, from p_vaddr over p_memsz bytes, and then the empty areas of the stack and the
  heap. Everything allocated is new, the areas are apart from each other and from the
  mm_struct, and nothing that was there before is changed.
\<close>

theorem load_elf_vmas_areas:
  fixes s :: "'a loader_scheme"
  assumes h: "heap s T ps (2 * (length (load_headers m ehdr 0) + 3) + k) A m" and e: "elf_in m ehdr A"
  shows "\<exists>s' T' ps' B m'. load_elf_vmas ehdr s = Some (top_virtual_address s, s') \<and>
    heap s' T' ps' k (A \<union> B) m' \<and> A \<inter> B = {} \<and> (\<forall>a \<in> A. m' a = m a) \<and>
    region (top_virtual_address s) 176 \<subseteq> B \<and>
    area_list m' (B - region (top_virtual_address s) 176) (load64 m' (top_virtual_address s)) (map (file_area_of m) (load_headers m ehdr 0) @ [Stack_area, Heap_area]) \<and>
    load64 m' (mm_e_entry (top_virtual_address s)) = load64 m (ehdr + 24) \<and>
    load64 m' (mm_elf_head (top_virtual_address s)) = ehdr \<and>
    grown (2 * (length (load_headers m ehdr 0) + 3)) s s'"
  by (rule load_elf_vmas_ok [OF assms])

end
