(* ===== verification/LoaderExample.thy ===== *)
theory LoaderExample
  imports Loader KernelMap
begin

text \<open>
  A machine the loader runs on: one table of each level, the descriptors of 64 free pages,
  and a page with an executable of one loadable segment, all mapped at KERNBASE. The memory
  is given by its words.
\<close>

section \<open>Memory given by its words\<close>

definition mem_words :: "(u64 \<Rightarrow> u64 \<Rightarrow> u64) \<Rightarrow> mem" where
  "mem_words E a = ucast (drop_bit (8 * unat (a AND 7)) (E (page_of a) (drop_bit 3 a AND 0x1ff)))"

lemma load_bytes_digits:
  "(\<And>i. i < n \<Longrightarrow> unat (m (a + of_nat i)) = v div 256 ^ i mod 256) \<Longrightarrow> load_bytes n m a = v mod 256 ^ n"
proof (induction n arbitrary: a v)
  case (Suc n)
  have "load_bytes n m (a + 1) = (v div 256) mod 256 ^ n"
  proof (rule Suc.IH)
    fix i assume "i < n"
    then show "unat (m (a + 1 + of_nat i)) = v div 256 div 256 ^ i mod 256"
      using Suc.prems [of "Suc i"] by (simp add: add.assoc div_mult2_eq)
  qed
  moreover have "unat (m a) = v mod 256" using Suc.prems [of 0] by simp
  ultimately show ?case by (simp add: mod_mult2_eq)
qed simp

lemma low_bits:
  fixes a :: u64
  assumes "aligned8 a" "i < 8"
  shows "(a + of_nat i) AND 7 = of_nat i" "page_of (a + of_nat i) = page_of a"
    "drop_bit 3 (a + of_nat i) AND 0x1ff = drop_bit 3 a AND 0x1ff"
proof -
  consider "i = 0" | "i = 1" | "i = 2" | "i = 3" | "i = 4" | "i = 5" | "i = 6" | "i = 7" using assms(2) by linarith
  then have "of_nat i AND 7 = (of_nat i :: u64)" by cases simp_all
  then have i: "\<not> bit (of_nat i :: u64) k" if "3 \<le> k" for k
  proof -
    have "bit (of_nat i AND 7 :: u64) k = bit (of_nat i AND mask 3 :: u64) k" by (simp add: mask_eq_exp_minus_1)
    then show ?thesis using that \<open>of_nat i AND 7 = (of_nat i :: u64)\<close> by (simp add: bit_simps)
  qed
  have a: "\<not> bit a k" if "k < 3" for k
  proof -
    have "a AND mask 3 = 0" using assms(1) by (simp add: aligned8_def mask_eq_exp_minus_1)
    then have "\<not> bit (a AND mask 3) k" by (simp only: bit_0_eq bot_apply) simp
    then show ?thesis using that by (simp add: bit_simps del: mask_numeral)
  qed
  have sum: "a + of_nat i = a OR of_nat i" by (rule disjunctive_add) (metis a i not_le)
  show "(a + of_nat i) AND 7 = of_nat i"
  proof -
    have "(a OR of_nat i) AND 7 = (a AND 7) OR (of_nat i AND 7)" by (rule bit_word_eqI) (auto simp: bit_simps)
    then show ?thesis using assms(1) \<open>of_nat i AND 7 = of_nat i\<close> unfolding sum aligned8_def by simp
  qed
  have m: "(0xfff :: u64) = mask 12" by (simp add: mask_eq_exp_minus_1)
  have high: "bit (a OR of_nat i) n = bit a n" if "3 \<le> n" for n using i [OF that] by (simp only: bit_or_iff simp_thms)
  show "page_of (a + of_nat i) = page_of a"
    unfolding sum page_of_def m
  proof (rule bit_word_eqI)
    fix n show "bit ((a OR of_nat i) AND NOT (mask 12)) n = bit (a AND NOT (mask 12)) n"
      using high [of n] by (cases "n < 12") (simp_all add: bit_and_iff bit_not_iff bit_mask_iff del: mask_numeral bit_or_iff)
  qed
  have "drop_bit 3 (a OR of_nat i) = drop_bit 3 a"
    by (rule bit_word_eqI) (simp only: bit_drop_bit_eq comp_apply high le_add1)
  then show "drop_bit 3 (a + of_nat i) AND 0x1ff = drop_bit 3 a AND 0x1ff" unfolding sum by simp
qed

lemma unat_byte: "unat (ucast (drop_bit (8 * i) x) :: u8) = unat (x :: u64) div 256 ^ i mod 256"
proof -
  have "unat (drop_bit (8 * i) x) = unat x div 256 ^ i"
    by (simp only: unsigned_drop_bit_eq) (simp add: take_bit_eq_mod drop_bit_eq_div mod_less [OF unat_u64_less] power_mult)
  moreover have "unat (ucast y :: u8) = unat y mod 256" for y :: u64
    by (simp add: unsigned_ucast_eq take_bit_eq_mod)
  ultimately show ?thesis by simp
qed

lemma load_mem_words:
  assumes "aligned8 a" "n \<le> 8"
  shows "load_bytes n (mem_words E) a = unat (E (page_of a) (drop_bit 3 a AND 0x1ff)) mod 256 ^ n"
proof -
  let ?x = "E (page_of a) (drop_bit 3 a AND 0x1ff)"
  show ?thesis
  proof (rule load_bytes_digits)
    fix i :: nat assume "i < n"
    then have i: "i < 8" using assms(2) by simp
    have "unat (of_nat i :: u64) = i" using i by (simp add: unat_of_nat)
    then have "mem_words E (a + of_nat i) = ucast (drop_bit (8 * i) ?x)"
      using low_bits [OF assms(1) i] by (simp add: mem_words_def)
    then show "unat (mem_words E (a + of_nat i)) = unat ?x div 256 ^ i mod 256" by (simp only: unat_byte)
  qed
qed

lemma load64_mem_words: "aligned8 a \<Longrightarrow> load64 (mem_words E) a = E (page_of a) (drop_bit 3 a AND 0x1ff)"
  using load_mem_words [of a 8 E] unat_u64_less [of "E (page_of a) (drop_bit 3 a AND 0x1ff)"] by (simp add: load64_def)

lemma load_slot_words: "\<lbrakk>is_frame f; i AND 0x1ff = i\<rbrakk> \<Longrightarrow> load64 (mem_words E) (slot f i) = E f i"
  using slot_frame_parts [of f i] by (simp add: load64_mem_words)

section \<open>The machine\<close>

text \<open>
  Entry \<open>i\<close> of the frame \<open>f\<close>. The descriptors fill the first 192 words of their page; the header
  of the executable starts its page: the entry point is the fourth word, e_phoff the fifth,
  e_phnum the low half of the eighth, and the program header starts at the ninth.
\<close>

definition machine :: "u64 \<Rightarrow> u64 \<Rightarrow> u64" where
  "machine f i =
     (if f = 0x100000 then (if i = 510 then 0x100003 else if i = 511 then 0x101003 else 0)
      else if f = 0x101000 then (if i = 510 then 0x102003 else 0)
      else if f = 0x102000 then (if i = 0 then 0x103003 else 0)
      else if f = 0x103000 then (if i = 0x100 then 0x100003 else if i = 0x104 then 0x104003
        else if i = 0x105 then 0x105003 else 0)
      else if f = 0x104000 then (if 192 \<le> i then 0 else if i mod 3 = 0 then (if i = 189 then 0 else 0x104018 + 8 * i)
        else if i mod 3 = 2 then 0x200000 + 0x1000 * (i div 3) else 0)
      else if f = 0x105000 then (if i = 3 then 0x400010 else if i = 4 then 64 else if i = 7 then 1 else if i = 8 then 1
        else if i = 10 then 0x400000 else if i = 13 then 0x1000 else 0)
      else 0)"

definition loader_machine :: loader where
  "loader_machine = \<lparr>pmem = mem_words machine, cr3_reg = 0x100000, free_list_head = 0x104000,
     free_list_head_kmalloc = KERNBASE + 0x104000, free_list = 0x104000,
     free_list_page_length = 1, free_list_total_pages = 64, kernel_cr3 = 0x100000,
     top_virtual_address = 0xffffffff90000000, kernel_pml4_t = KERNBASE + 0x100000,
     paging_user_stack_top = 0xfffffe0000000ff8, screen = blank_console\<rparr>"

definition machine_tables :: "nat \<Rightarrow> u64 set" where
  "machine_tables n = (if n = 3 then {0x100000} else if n = 2 then {0x101000}
     else if n = 1 then {0x102000} else if n = 0 then {0x103000} else {})"

definition machine_free :: "(u64 \<times> u64) list" where
  "machine_free = map (\<lambda>k. (0x104000 + 24 * of_nat k, 0x200000 + 0x1000 * of_nat k)) [0..<64]"

lemma machine_simps [simp]:
  "pmem loader_machine = mem_words machine" "cr3_reg loader_machine = 0x100000"
  "free_list_head_kmalloc loader_machine = KERNBASE + 0x104000"
  "top_virtual_address loader_machine = 0xffffffff90000000"
  "kernel_pml4_t loader_machine = KERNBASE + 0x100000"
  by (simp_all add: loader_machine_def)

lemma machine_frames:
  "is_frame 0x100000" "is_frame 0x101000" "is_frame 0x102000" "is_frame 0x103000" "is_frame 0x104000" "is_frame 0x105000"
  by (simp_all add: is_frame_def frame_def)

lemma machine_frame_of:
  "frame 0x100000 = 0x100000" "frame 0x100003 = 0x100000" "frame 0x101003 = 0x101000" "frame 0x102003 = 0x102000"
  "frame 0x103003 = 0x103000" "frame 0x104003 = 0x104000" "frame 0x105003 = 0x105000"
  by (simp_all add: frame_def)

lemma machine_all_tables: "all_tables machine_tables = {0x100000, 0x101000, 0x102000, 0x103000}"
proof -
  have "{..3 :: nat} = {0, 1, 2, 3}" by auto
  then show ?thesis by (auto simp: all_tables_def machine_tables_def)
qed

text \<open>A kernel page is found through its entry in the one page table.\<close>

lemma machine_page:
  assumes "index 3 a = 511" "index 2 a = 510" "index 1 a = 0" "canonical a"
  shows "mmu loader_machine (mem_words machine) a =
    (let e = machine 0x103000 (index 0 a) in if present e then Some (frame e OR (a AND 0xfff)) else None)"
proof -
  let ?m = "mem_words machine"
  note e = load_slot_words machine_frames machine_frame_of
  have "walk 4 ?m 0x100000 a = walk 3 ?m 0x101000 a"
    using walk_tables(1) [of ?m "0x100000" a] assms by (simp add: e machine_def table_entry_def present_def del: walk.simps)
  also have "\<dots> = walk 2 ?m 0x102000 a"
    using walk_tables(2) [of ?m "0x101000" a] assms by (simp add: e machine_def table_entry_def present_def del: walk.simps)
  also have "\<dots> = walk 1 ?m 0x103000 a"
    using walk_tables(3) [of ?m "0x102000" a] assms by (simp add: e machine_def table_entry_def present_def del: walk.simps)
  also have "\<dots> = (let e = machine 0x103000 (index 0 a) in if present e then Some (frame e OR (a AND 0xfff)) else None)"
    by (simp add: load_slot_words machine_frames large_def Let_def)
  finally show ?thesis using assms(4) by (simp add: translate_levels machine_frame_of del: walk.simps)
qed

lemma machine_maps:
  assumes "page_of a = KERNBASE + d" "d \<in> {0x100000, 0x104000, 0x105000}"
  shows "mmu loader_machine (mem_words machine) a = Some (d OR (a AND 0xfff))"
proof -
  have i: "index n a = index n (KERNBASE + d)" "canonical a = canonical (KERNBASE + d)" for n
  proof -
    have "page_of (KERNBASE + d) = KERNBASE + d" using assms(2) by (auto simp: page_of_def)
    then have "page_of a = page_of (KERNBASE + d)" using assms(1) by simp
    from same_page [OF this] show "index n a = index n (KERNBASE + d)" "canonical a = canonical (KERNBASE + d)" by simp_all
  qed
  have idx: "index 3 a = 511" "index 2 a = 510" "index 1 a = 0" "canonical a"
    unfolding i using assms(2) by (auto simp: index_def canonical_def)
  have "index 0 a = drop_bit 12 d" unfolding i(1) using assms(2) by (auto simp: index_def)
  then show ?thesis
    using machine_page [OF idx] assms(2) by (auto simp: machine_def machine_frame_of present_def)
qed

section \<open>The invariant holds\<close>

lemma machine_words:
  assumes "e \<in> fst ` set machine_free" "w \<in> words e"
  shows "e < 0x80000000" "page_of w = 0x104000" "page_of (KERNBASE + w) = KERNBASE + 0x104000"
    "0x104000 OR ((KERNBASE + w) AND 0xfff) = w" "index 3 (KERNBASE + w) = 511"
proof -
  obtain k where k: "k < 64" "e = 0x104000 + 24 * of_nat k" using assms(1) by (auto simp: machine_free_def)
  obtain j where j: "j < 3" "w = 0x104000 + of_nat (24 * k + 8 * j)"
  proof -
    have "w = e + of_nat (8 * 0) \<or> w = e + of_nat (8 * 1) \<or> w = e + of_nat (8 * 2)" using assms(2) by (auto simp: words_def)
    then show thesis using that [of 0] that [of 1] that [of 2] k(2) by (auto simp: algebra_simps)
  qed
  have small: "24 * k + 8 * j < 4096" using k(1) j(1) by simp
  have "unat e = 0x104000 + 24 * k" unfolding k(2) using k(1) unat_add_no_wrap [of "0x104000" "24 * k"] by simp
  then show "e < 0x80000000" using k(1) by (simp add: word_less_nat_alt)
  show w: "page_of w = 0x104000"
    unfolding j(2) by (rule page_of_region [OF _ small]) (simp add: page_of_def)
  have "unat w = 0x104000 + (24 * k + 8 * j)"
    unfolding j(2) using small unat_add_no_wrap [of "0x104000" "24 * k + 8 * j"] by simp
  then have lim: "unat w < 2 ^ 31" using small by simp
  show "page_of (KERNBASE + w) = KERNBASE + 0x104000" using page_of_kern [OF lim] w by simp
  show "index 3 (KERNBASE + w) = 511" by (rule kern_index [OF lim])
  show "0x104000 OR ((KERNBASE + w) AND 0xfff) = w"
    using kern_offset [OF lim] page_and_offset [of w] w by simp
qed

lemma machine_desc:
  assumes "k < 64"
  shows "load64 (mem_words machine) (0x104000 + 24 * of_nat k) = (if k = 63 then 0 else 0x104000 + 24 * of_nat (Suc k))"
    "load64 (mem_words machine) (0x104000 + 24 * of_nat k + 8) = 0"
    "load64 (mem_words machine) (0x104000 + 24 * of_nat k + 16) = 0x200000 + 0x1000 * of_nat k"
proof -
  have "list_all (\<lambda>k. load64 (mem_words machine) (0x104000 + 24 * of_nat k) = (if k = 63 then 0 else 0x104000 + 24 * of_nat (Suc k)) \<and>
     load64 (mem_words machine) (0x104000 + 24 * of_nat k + 8) = 0 \<and>
     load64 (mem_words machine) (0x104000 + 24 * of_nat k + 16) = 0x200000 + 0x1000 * of_nat k) [0..<64]"
    by (simp add: upt_conv_Cons load64_mem_words aligned8_def page_of_def machine_def)
  then show "load64 (mem_words machine) (0x104000 + 24 * of_nat k) = (if k = 63 then 0 else 0x104000 + 24 * of_nat (Suc k))"
    "load64 (mem_words machine) (0x104000 + 24 * of_nat k + 8) = 0"
    "load64 (mem_words machine) (0x104000 + 24 * of_nat k + 16) = 0x200000 + 0x1000 * of_nat k"
    using assms by (simp_all add: list_all_iff)
qed

lemma page_chain_regular:
  "(\<And>i. \<lbrakk>j \<le> i; i < n\<rbrakk> \<Longrightarrow> d i \<noteq> 0 \<and> load64 m (d i) = (if Suc i = n then 0 else d (Suc i)) \<and> load64 m (d i + 16) = p i) \<Longrightarrow> j \<le> n \<Longrightarrow>
    page_chain m (if j = n then 0 else d j) (map (\<lambda>i. (d i, p i)) [j..<n])"
proof (induction "n - j" arbitrary: j)
  case (Suc x)
  then have "j < n" by simp
  then show ?case using Suc by (simp add: upt_conv_Cons)
qed simp

lemma descs_sep_regular: "descs_sep (map (\<lambda>k. 0x104000 + of_nat (24 * k)) [0..<64])"
proof -
  let ?d = "\<lambda>k. 0x104000 + of_nat (24 * k) :: u64"
  have words: "words (?d k) \<subseteq> region (?d k) 24" for k
    using region_offset [of 0 "?d k" 24] region_offset [of 8 "?d k" 24] region_offset [of 16 "?d k" 24]
    by (simp add: words_def)
  have apart: "region (?d k) 24 \<inter> region (?d l) 24 = {}" if "k < l" "l < 64" for k l
    by (rule region_apart_offset) (use that in simp_all)
  have disj: "words (?d k) \<inter> words (?d l) = {}" if "k \<noteq> l" "k < 64" "l < 64" for k l
    using that(1) words [of k] words [of l] apart [of k l] apart [of l k] that(2,3) by (cases k l rule: linorder_cases) blast+
  have ne: "?d k \<noteq> ?d l" if "k \<noteq> l" "k < 64" "l < 64" for k l
  proof
    assume "?d k = ?d l"
    then have "?d k \<in> words (?d k) \<inter> words (?d l)" by (simp only: words_def) simp
    then show False using disj [OF that] by (simp only: empty_iff)
  qed
  have al: "aligned8 (?d k)" if "k < 64" for k
  proof -
    have "unat (?d k) = 0x104000 + 24 * k" using that unat_add_no_wrap [of "0x104000" "24 * k"] by simp
    then show ?thesis by (simp add: aligned8_iff)
  qed
  show ?thesis
    unfolding descs_sep_def
  proof (intro conjI ballI impI)
    have "inj_on ?d (set [0..<64])"
    proof (rule inj_onI, rule ccontr)
      fix x y assume "x \<in> set [0..<64]" "y \<in> set [0..<64]" "?d x = ?d y" "x \<noteq> y"
      then show False using ne [of x y] by (auto simp only: set_upt atLeastLessThan_iff)
    qed
    then show "distinct (map ?d [0..<64])" unfolding distinct_map by (simp only: distinct_upt)
  next
    fix e assume e: "e \<in> set (map ?d [0..<64])"
    then obtain k where k: "k < 64" "e = ?d k" by auto
    then show "aligned8 e" using al by (simp del: of_nat_mult)
    fix e' assume "e' \<in> set (map ?d [0..<64])" and "e \<noteq> e'"
    then obtain l where "l < 64" "e' = ?d l" by auto
    then show "words e \<inter> words e' = {}" using disj [of k l] k \<open>e \<noteq> e'\<close> by (auto simp del: of_nat_mult)
  qed
qed

lemma machine_kernel_list: "kernel_list loader_machine machine_free"
  unfolding kernel_list_def
proof (intro conjI ballI)
  have "map fst machine_free = map (\<lambda>k. 0x104000 + of_nat (24 * k)) [0..<64]" by (simp add: machine_free_def comp_def)
  then show "descs_sep (map fst machine_free)" by (simp only: descs_sep_regular)
  have "page_chain (mem_words machine) (if (0 :: nat) = 64 then 0 else 0x104000 + 24 * of_nat 0)
      (map (\<lambda>k. (0x104000 + 24 * of_nat k, 0x200000 + 0x1000 * of_nat k)) [0..<64])"
  proof (rule page_chain_regular)
    fix i :: nat assume i: "i < 64"
    have "unat (0x104000 + of_nat (24 * i) :: u64) \<noteq> 0" using i unat_add_no_wrap [of "0x104000" "24 * i"] by simp
    then have "(0x104000 + 24 * of_nat i :: u64) \<noteq> 0" by auto
    then show "(0x104000 + 24 * of_nat i :: u64) \<noteq> 0 \<and>
        load64 (mem_words machine) (0x104000 + 24 * of_nat i) = (if Suc i = 64 then 0 else 0x104000 + 24 * of_nat (Suc i)) \<and>
        load64 (mem_words machine) (0x104000 + 24 * of_nat i + 16) = 0x200000 + 0x1000 * of_nat i"
      using machine_desc [OF i] by simp
  qed simp
  then show "page_chain (pmem loader_machine) (free_list_head_kmalloc loader_machine - KERNBASE) machine_free"
    by (simp add: machine_free_def)
  fix e assume e: "e \<in> fst ` set machine_free"
  then obtain k where k: "k < 64" "e = 0x104000 + 24 * of_nat k" by (auto simp: machine_free_def)
  show "e < 0x80000000" by (rule machine_words(1) [OF e, of e]) (simp add: words_def)
  show "load64 (pmem loader_machine) (e + 8) = FREE" using machine_desc(2) [OF k(1)] by (simp add: k(2))
  fix w assume w: "w \<in> words e"
  have "mmu loader_machine (mem_words machine) (KERNBASE + w) = Some (0x104000 OR ((KERNBASE + w) AND 0xfff))"
    by (rule machine_maps [OF machine_words(3) [OF e w]]) simp
  then show "mmu loader_machine (pmem loader_machine) (KERNBASE + w) = Some w"
    using machine_words(4) [OF e w] by simp
qed

lemma machine_tables_ok: "tables_ok (mem_words machine) machine_tables"
  unfolding tables_ok_def
proof (intro allI impI ballI conjI)
  fix n f assume n: "n \<le> 3" "f \<in> machine_tables n"
  then show "is_frame f" by (auto simp: machine_tables_def machine_frames split: if_splits)
  fix i assume i: "good_slot n i"
  consider "n = 0" | "n = 1" | "n = 2" | "n = 3" using n(1) by linarith
  then show "good_entry machine_tables n (load64 (mem_words machine) (slot f i))"
    using n i by cases (auto simp: good_slot_def good_entry_def load_slot_words machine_frames machine_def machine_frame_of
        machine_tables_def is_valid_page_def present_def)
qed

lemma machine_unshared: "unshared (mem_words machine) machine_tables"
  unfolding unshared_def
proof (intro allI impI ballI)
  fix n f g i j
  assume n: "0 < n \<and> n \<le> 3" and f: "f \<in> machine_tables n" "g \<in> machine_tables n"
    and e: "good_slot n i \<and> good_slot n j \<and> present (load64 (mem_words machine) (slot f i)) \<and>
      present (load64 (mem_words machine) (slot g j)) \<and>
      frame (load64 (mem_words machine) (slot f i)) = frame (load64 (mem_words machine) (slot g j))"
  consider "n = 1" | "n = 2" | "n = 3" using n by linarith
  then show "f = g \<and> i = j"
    using f e by cases (auto simp: good_slot_def load_slot_words machine_frames machine_def machine_tables_def present_def split: if_splits)
qed

lemma machine_frame:
  assumes "f \<in> snd ` set machine_free"
  shows "is_frame f" "0x200000 \<le> f" "f < 0x240000"
proof -
  obtain k where k: "k < 64" "f = 0x200000 + 4096 * of_nat k" using assms by (auto simp: machine_free_def)
  have "unat f = 0x200000 + 4096 * k" unfolding k(2) using k(1) unat_add_no_wrap [of "0x200000" "4096 * k"] by simp
  then show "0x200000 \<le> f" "f < 0x240000" using k(1) by (simp_all add: word_le_nat_alt word_less_nat_alt)
  show "is_frame f"
    by (rule aligned_frame) (use k \<open>unat f = _\<close> page_of_add [of "0x200000" "of_nat k"] in \<open>simp_all add: page_of_def\<close>)
qed

lemma machine_inv: "paging_inv loader_machine machine_tables machine_free"
  unfolding paging_inv_def
proof (intro conjI ballI)
  show "levels_disjoint machine_tables" by (auto simp: levels_disjoint_def machine_tables_def)
  show "recursive (pmem loader_machine) (root loader_machine)"
    by (simp add: recursive_def load_slot_words machine_frames machine_def machine_frame_of table_entry_def present_def)
  show "distinct (map snd machine_free)"
    by (simp add: machine_free_def comp_def upt_conv_Cons)
  fix f assume f: "f \<in> snd ` set machine_free"
  note b = machine_frame [OF f]
  have ne: "f \<noteq> c" if "c < 0x200000" for c using b(2) that by auto
  then show "blank (pmem loader_machine) f" using b(1) by (simp add: blank_def load_slot_words machine_def)
  show "f \<notin> all_tables machine_tables" using ne by (simp add: machine_all_tables)
next
  fix e w assume e: "e \<in> fst ` set machine_free" "w \<in> words e"
  show "page_of w \<notin> all_tables machine_tables \<union> snd ` set machine_free"
    using machine_words(2) [OF e] machine_frame(2) [of "0x104000"] by (auto simp: machine_all_tables)
qed (simp_all add: machine_unshared machine_frame_of machine_tables_ok machine_kernel_list, simp add: machine_tables_def)

section \<open>The heap\<close>

text \<open>The page of the executable as flat memory.\<close>

abbreviation (input) elf_address :: u64 where "elf_address \<equiv> KERNBASE + 0x105000"

definition elf_page :: "u64 set" where
  "elf_page = {a. page_of a = elf_address}"

definition elf_memory :: mem where
  "elf_memory a = mem_words machine (a - KERNBASE)"

lemma elf_page_region: "region elf_address 4096 \<subseteq> elf_page"
proof
  fix b assume "b \<in> region elf_address 4096"
  then obtain i where "i < 4096" "b = elf_address + of_nat i" by (auto elim: regionE)
  then show "b \<in> elf_page" using page_of_region [of elf_address i] by (simp add: elf_page_def page_of_def)
qed

lemma elf_offset:
  assumes "a \<in> elf_page"
  shows "0x105000 OR (a AND 0xfff) = a - KERNBASE"
proof -
  have "a = page_of a OR (a AND 0xfff)" by (rule page_parts)
  moreover have "page_of a = elf_address" using assms by (simp add: elf_page_def)
  ultimately have a: "a = elf_address OR (a AND 0xfff)" by simp
  have "elf_address + (a AND 0xfff) = elf_address OR (a AND 0xfff)" "0x105000 + (a AND 0xfff) = 0x105000 OR (a AND 0xfff)"
    by (rule page_plus(1), simp add: page_of_def, simp add: and.assoc)+
  moreover have "elf_address + (a AND 0xfff) = KERNBASE + (0x105000 + (a AND 0xfff))" by simp
  ultimately have "a = KERNBASE + (0x105000 OR (a AND 0xfff))" using a by (simp only:)
  then show ?thesis by (metis add_diff_cancel_left')
qed

lemma machine_top_unmapped:
  assumes "i < 64"
  shows "mappable loader_machine (0xffffffff90000000 + 4096 * of_nat i)" "0xffffffff90000000 + 4096 * of_nat i \<noteq> (0 :: u64)"
    "index 3 (0xffffffff90000000 + 4096 * of_nat i) = 511"
proof -
  let ?v = "0xffffffff90000000 + 4096 * of_nat i :: u64"
  have "list_all (\<lambda>i. canonical (0xffffffff90000000 + 4096 * of_nat i) \<and> index 3 (0xffffffff90000000 + 4096 * of_nat i) = 511 \<and>
      index 2 (0xffffffff90000000 + 4096 * of_nat i) = 510 \<and> index 1 (0xffffffff90000000 + 4096 * of_nat i) = 0x80 \<and>
      0xffffffff90000000 + 4096 * of_nat i \<noteq> (0 :: u64)) [0..<64]"
    by (simp add: upt_conv_Cons canonical_def index_def)
  then have v: "canonical ?v" "index 3 ?v = 511" "index 2 ?v = 510" "index 1 ?v = 0x80" "?v \<noteq> 0"
    using assms by (simp_all add: list_all_iff)
  then show "?v \<noteq> 0" "index 3 ?v = 511" by simp_all
  let ?m = "mem_words machine"
  note e = load_slot_words machine_frames machine_frame_of v(4) [unfolded One_nat_def]
  have "walk 4 ?m 0x100000 ?v = walk 3 ?m 0x101000 ?v"
    using walk_tables(1) [of ?m "0x100000" ?v] v by (simp add: e machine_def table_entry_def present_def del: walk.simps)
  also have "\<dots> = walk 2 ?m 0x102000 ?v"
    using walk_tables(2) [of ?m "0x101000" ?v] v by (simp add: e machine_def table_entry_def present_def del: walk.simps)
  also have "\<dots> = None"
  proof -
    have "walk (Suc 1) ?m 0x102000 ?v = None" by (rule walk_absent) (use v in \<open>simp add: e machine_def present_def\<close>)
    then show ?thesis by (simp only: numeral_2_eq_2 One_nat_def)
  qed
  finally have "mmu loader_machine (pmem loader_machine) ?v = None"
    by (simp add: translate_def machine_frame_of del: walk.simps)
  then show "mappable loader_machine ?v" using v by (simp add: mappable_def)
qed

lemma machine_kernel_half: "kernel_half loader_machine machine_free 16"
  unfolding kernel_half_def
proof (intro conjI ballI)
  fix va assume "va \<in> page_range (top_virtual_address loader_machine) 16"
  then obtain i :: nat where i: "i < 16" "va = 0xffffffff90000000 + 4096 * of_nat i" by (auto simp: page_range_def)
  then have "i < 64" by simp
  with i show "index 3 va = 511" using machine_top_unmapped(3) [of i] by simp
next
  fix e w assume "e \<in> fst ` set machine_free" "w \<in> words e"
  then show "index 3 (KERNBASE + w) = 511" by (rule machine_words(5))
next
  have "mmu loader_machine (mem_words machine) (KERNBASE + 0x100ff8) = Some (0x100000 OR ((KERNBASE + 0x100ff8) AND 0xfff))"
    by (rule machine_maps) (simp_all add: page_of_def)
  then show "mmu loader_machine (pmem loader_machine) (kernel_pml4_t loader_machine + 8 * 511) =
      Some (slot (root loader_machine) 511)"
    by (simp add: slot_def machine_frame_of)
qed (simp add: index_def)

lemma machine_heap: "heap loader_machine machine_tables machine_free 16 elf_page elf_memory"
  unfolding heap_def
proof (intro conjI ballI)
  show "room loader_machine machine_tables machine_free 16"
    unfolding room_def
  proof (intro conjI ballI)
    fix va assume "va \<in> page_range (top_virtual_address loader_machine) 16"
    then obtain i :: nat where i: "i < 16" "va = 0xffffffff90000000 + 4096 * of_nat i" by (auto simp: page_range_def)
    then have "i < 64" by simp
    with i show "va \<noteq> 0" "mappable loader_machine va" using machine_top_unmapped [of i] by simp_all
  next
    show "kernel_half loader_machine machine_free 16" by (rule machine_kernel_half)
    show "0 \<notin> snd ` set machine_free" using machine_frame(2) [of 0] by auto
    show "4 * 16 \<le> length machine_free" by (simp add: machine_free_def)
  qed (simp_all add: machine_inv page_of_def)
  have maps: "mmu loader_machine (mem_words machine) a = Some (a - KERNBASE)" if "a \<in> elf_page" for a
    using machine_maps [of a "0x105000"] elf_offset [OF that] that by (simp add: elf_page_def)
  show "owned loader_machine machine_tables machine_free elf_page"
    unfolding owned_def
  proof (intro conjI ballI)
    fix a assume a: "a \<in> elf_page"
    have "index 3 a = index 3 elf_address" using same_page [of a elf_address 3] a by (simp add: elf_page_def page_of_def)
    then show "index 3 a \<noteq> 510" by (simp add: index_def)
    have "page_of (0x105000 OR (a AND 0xfff)) = 0x105000" by (rule frame_or) (rule machine_frames)
    then have p: "page_of (word_of (a - KERNBASE)) = 0x105000" using elf_offset [OF a] word_of_parts(2) by simp
    have "word_of (a - KERNBASE) \<notin> words e" if "e \<in> fst ` set machine_free" for e
      using machine_words(2) [OF that, of "word_of (a - KERNBASE)"] p by auto
    moreover have "page_of (word_of (a - KERNBASE)) \<notin> all_tables machine_tables \<union> snd ` set machine_free"
      using machine_frame(2) [of "0x105000"] unfolding p by (auto simp: machine_all_tables)
    ultimately have "\<not> paging_word machine_tables machine_free (word_of (a - KERNBASE))"
      unfolding paging_word_def by blast
    then show "\<exists>pa. mmu loader_machine (pmem loader_machine) a = Some pa \<and> \<not> paging_word machine_tables machine_free (word_of pa)"
      using maps [OF a] by simp
  qed (use maps in \<open>auto intro: inj_onI\<close>)
  fix a assume a: "a \<in> elf_page"
  have "index 3 a = index 3 elf_address" using same_page [of a elf_address 3] a by (simp add: elf_page_def page_of_def)
  then show "index 3 a = 511" by (simp add: index_def)
  from a show "seen loader_machine a = elf_memory a" using maps by (simp add: seen_def elf_memory_def)
qed

lemma elf_words: "\<lbrakk>aligned8 a; n \<le> 8\<rbrakk> \<Longrightarrow> load_bytes n elf_memory (KERNBASE + a) =
    unat (machine (page_of a) (drop_bit 3 a AND 0x1ff)) mod 256 ^ n"
proof -
  have shift: "load_bytes n elf_memory (KERNBASE + a) = load_bytes n (mem_words machine) a" for n a
  proof (induction n arbitrary: a)
    case (Suc n)
    have "load_bytes n elf_memory (KERNBASE + a + 1) = load_bytes n (mem_words machine) (a + 1)"
      using Suc.IH [of "a + 1"] by (simp only: add.assoc)
    then show ?case by (simp add: elf_memory_def [of "KERNBASE + a"])
  qed simp
  assume "aligned8 a" "n \<le> 8"
  then show ?thesis unfolding shift by (rule load_mem_words)
qed

lemma elf_fields:
  "e_phnum elf_memory elf_address = 1" "e_phoff elf_memory elf_address = 64" "load64 elf_memory (elf_address + 24) = 0x400010"
  "phdr_at elf_memory elf_address 0 = elf_address + 64"
  "load_headers elf_memory elf_address 0 = [elf_address + 64]"
  "file_area_of elf_memory (elf_address + 64) = File_area 0x400000 0x401000 0"
proof -
  note eval = aligned8_def page_of_def machine_def
  have w: "load_bytes 2 elf_memory (elf_address + 56) = 1" "load_bytes 8 elf_memory (elf_address + 32) = 64"
    "load_bytes 8 elf_memory (elf_address + 24) = 0x400010" "load_bytes 4 elf_memory (elf_address + 64) = 1"
    "load_bytes 8 elf_memory (elf_address + 72) = 0" "load_bytes 8 elf_memory (elf_address + 80) = 0x400000"
    "load_bytes 8 elf_memory (elf_address + 104) = 0x1000"
    using elf_words [of "0x105038" 2] elf_words [of "0x105020" 8] elf_words [of "0x105018" 8] elf_words [of "0x105040" 4]
      elf_words [of "0x105048" 8] elf_words [of "0x105050" 8] elf_words [of "0x105068" 8] by (simp_all add: eval)
  note w = w [simplified]
  show num: "e_phnum elf_memory elf_address = 1" by (simp add: e_phnum_def load16_def w)
  show off: "e_phoff elf_memory elf_address = 64" by (simp add: e_phoff_def load64_def w)
  show "load64 elf_memory (elf_address + 24) = 0x400010" by (simp add: load64_def w)
  show at: "phdr_at elf_memory elf_address 0 = elf_address + 64" by (simp add: phdr_at_def off [simplified])
  have "p_type_at elf_memory (elf_address + 64) = PT_LOAD" by (simp add: p_type_at_def load32_def PT_LOAD_def w)
  then show "load_headers elf_memory elf_address 0 = [elf_address + 64]"
    using num at by (simp add: load_headers_def)
  show "file_area_of elf_memory (elf_address + 64) = File_area 0x400000 0x401000 0"
    by (simp add: file_area_of_def p_vaddr_def p_memsz_def p_offset_def load64_def w)
qed

lemma machine_elf: "elf_in elf_memory elf_address elf_page"
proof -
  have "region elf_address 64 \<subseteq> elf_page" using region_mono [of 64 4096 elf_address] elf_page_region by auto
  moreover have "region (elf_address + 64) 56 \<subseteq> elf_page"
    using region_shift [of 64 56 4096 elf_address] elf_page_region by auto
  ultimately show ?thesis using elf_fields(1,4) by (simp add: elf_in_def)
qed

text \<open>The executable of the machine is loaded.\<close>

lemma load_elf_vmas_areas_witness:
  "\<exists>s' m' B. load_elf_vmas elf_address loader_machine = Some (0xffffffff90000000, s') \<and>
    area_list m' B (load64 m' 0xffffffff90000000) [File_area 0x400000 0x401000 0, Stack_area, Heap_area] \<and>
    load64 m' (mm_e_entry 0xffffffff90000000) = 0x400010"
proof -
  have "heap loader_machine machine_tables machine_free (2 * (length (load_headers elf_memory elf_address 0) + 3) + 8) elf_page elf_memory"
    using machine_heap by (simp add: elf_fields(5) [simplified])
  from load_elf_vmas_areas [OF this machine_elf] show ?thesis
    unfolding elf_fields(3,5) by (simp add: elf_fields(6) [simplified]) blast
qed

end
