(* ===== verification/Process.thy ===== *)
theory Process
  imports Loader KernelMap Schedule
begin

text \<open>
  Processes (sys/task.c, the last part of start in sys/main.c): the control block and the
  address space of a new process, filled with the pages of its executable, the idle process,
  loading a program by name, and the switches between stacks and into user mode.

  The memory areas and the executable are bytes of the kernel's memory; process control
  blocks are records of the scheduler's store, as in Schedule, at the addresses the
  allocator gives them. Page 0 is never mapped: an access to a control block at \<open>NULL\<close> is a
  page fault, and the result is None, as for every other unmapped access.
\<close>

section \<open>State\<close>

text \<open>\<open>procs\<close> is the scheduler; the rest are registers that the inline assembly writes.\<close>

record system = loader +
  procs :: sched
  rsp_reg :: u64
  rip_reg :: u64
  rflags_reg :: u64
  cs_reg :: u64
  ss_reg :: u64
  data_segments :: u64

definition pcb_at :: "'a system_scheme \<Rightarrow> u64 \<Rightarrow> pcb" where
  "pcb_at s p = pcbs (procs s) p"

definition edit_pcb :: "u64 \<Rightarrow> (pcb \<Rightarrow> pcb) \<Rightarrow> 'a system_scheme \<Rightarrow> 'a system_scheme option" where
  "edit_pcb p f s =
     (if p = 0 then None
      else Some (s\<lparr>procs := (procs s)\<lparr>pcbs := (pcbs (procs s))(p := f (pcbs (procs s) p))\<rparr>\<rparr>))"

definition on_procs :: "(sched \<Rightarrow> sched option) \<Rightarrow> 'a system_scheme \<Rightarrow> 'a system_scheme option" where
  "on_procs f s = do { q \<leftarrow> f (procs s); Some (s\<lparr>procs := q\<rparr>) }"

text \<open>
  memset of the first \<open>n\<close> bytes of a control block with 0. They lie in the array \<open>kstack\<close>, the
  first 4096 bytes; the word the last byte lies in keeps its upper bytes.
\<close>

definition clear_bytes :: "nat \<Rightarrow> u64 \<Rightarrow> u64" where
  "clear_bytes k w = w AND NOT (mask (8 * k))"

definition clear_pcb :: "nat \<Rightarrow> pcb \<Rightarrow> pcb" where
  "clear_pcb n p = p\<lparr>kstack := map (\<lambda>i. clear_bytes (n - 8 * i) (kstack p ! i)) [0..<length (kstack p)]\<rparr>"

abbreviation (input) sizeof_pcb :: u64 where "sizeof_pcb \<equiv> 4176"

definition new_pcb :: "'a system_scheme \<Rightarrow> (u64 \<times> 'a system_scheme) option" where
  "new_pcb s = do {
     (new_process, s) \<leftarrow> kmalloc_user sizeof_pcb s;
     s \<leftarrow> edit_pcb new_process (clear_pcb (unat (sizeof_pcb div 8))) s;
     Some (new_process, s)
   }"

section \<open>create_process\<close>

text \<open>The loop over the bytes of an area.\<close>

primrec copy_loop :: "nat \<Rightarrow> u64 \<Rightarrow> u64 \<Rightarrow> 'a paging_scheme \<Rightarrow> 'a paging_scheme option" where
  "copy_loop 0 address offset s = Some s"
| "copy_loop (Suc n) address offset s = do {
     b \<leftarrow> get8 s offset;
     s \<leftarrow> put8 s address b;
     copy_loop n (address + 1) (offset + 1) s
   }"

text \<open>
  \<open>elf_head\<close> is a \<open>uint64_t *\<close>: adding \<open>vm_offset\<close> to it adds eight times as many bytes.
\<close>

definition map_file_area :: "u64 \<Rightarrow> u64 \<Rightarrow> u64 \<Rightarrow> u64 \<Rightarrow> 'a loader_scheme \<Rightarrow> 'a loader_scheme option" where
  "map_file_area head process_cr3 old_cr3 temp s = do {
     let s = set_cr3 process_cr3 s;
     start \<leftarrow> get64 s (vm_start temp);
     let start = page_align start;
     end' \<leftarrow> get64 s (vm_end temp);
     let vm_size = round_up (end' - start);
     (v_addr, s) \<leftarrow> kmalloc_top_virtual_address_user vm_size start s;
     elf_head \<leftarrow> get64 s (mm_elf_head head);
     vm_offset' \<leftarrow> get64 s (vm_offset temp);
     let offset = elf_head + 8 * vm_offset';
     s \<leftarrow> say (''offset = %p'' @ [CHR 0x0A]) [offset] s;
     elf_head \<leftarrow> get64 s (mm_elf_head head);
     s \<leftarrow> say (''head->elf_head = %p'' @ [CHR 0x0A]) [elf_head] s;
     vm_offset' \<leftarrow> get64 s (vm_offset temp);
     s \<leftarrow> say (''temp->vm_offset = %p'' @ [CHR 0x0A]) [vm_offset'] s;
     s \<leftarrow> say (''vm_size = %p'' @ [CHR 0x0A]) [vm_size] s;
     s \<leftarrow> copy_loop (unat vm_size) v_addr offset s;
     s \<leftarrow> say (''*address = %p'' @ [CHR 0x0A]) [v_addr + vm_size] s;
     s \<leftarrow> say (''*address = %p'' @ [CHR 0x0A]) [v_addr] s;
     b \<leftarrow> get8 s (v_addr + 1);
     s \<leftarrow> say (''*address = %p'' @ [CHR 0x0A]) [ucast b] s;
     b \<leftarrow> get8 s (v_addr + 2);
     s \<leftarrow> say (''*address = %p'' @ [CHR 0x0A]) [ucast b] s;
     Some (set_cr3 old_cr3 s)
   }"

definition map_stack_area :: "u64 \<Rightarrow> u64 \<Rightarrow> u64 \<Rightarrow> u64 \<Rightarrow> 'a system_scheme \<Rightarrow> 'a system_scheme option" where
  "map_stack_area new_process process_cr3 old_cr3 temp s = do {
     let s = set_cr3 process_cr3 s;
     s \<leftarrow> say (''paging_user_stack_top = %p'' @ [CHR 0x0A]) [paging_user_stack_top s] s;
     let stack_top = paging_user_stack_top s;
     (new_stack, s) \<leftarrow> kmalloc_top_virtual_address_user PAGESIZE (stack_top - PAGESIZE + 8) s;
     s \<leftarrow> say (''new_stack = %p'' @ [CHR 0x0A]) [new_stack] s;
     s \<leftarrow> say (''paging_user_stack_top = %p'' @ [CHR 0x0A]) [paging_user_stack_top s] s;
     s \<leftarrow> edit_pcb new_process (\<lambda>p. p\<lparr>pstack := stack_top - 64\<rparr>) s;
     let stack = pstack (pcb_at s new_process);
     s \<leftarrow> say (''new_process->pstack = %p, [-100] = %p'' @ [CHR 0x0A]) [stack, stack - 800] s;
     s \<leftarrow> put64 s (vm_start temp) stack;
     s \<leftarrow> put64 s (vm_end temp) (stack + 8 * (512 * 3 - 1));
     w \<leftarrow> get64 s (stack - 800);
     s \<leftarrow> say (''*new_process->pstack = %p'' @ [CHR 0x0A]) [w] s;
     Some (set_cr3 old_cr3 s)
   }"

text \<open>The loop over the list of areas; it ends when the list does.\<close>

partial_function (option) map_areas ::
  "u64 \<Rightarrow> u64 \<Rightarrow> u64 \<Rightarrow> u64 \<Rightarrow> u64 \<Rightarrow> 'a system_scheme \<Rightarrow> 'a system_scheme option" where
  "map_areas new_process head process_cr3 old_cr3 temp s =
     (if temp = 0 then Some s
      else do {
        type' \<leftarrow> get32 s (vm_type temp);
        s \<leftarrow> (if type' = TYPE_FILE then map_file_area head process_cr3 old_cr3 temp s
              else if type' = TYPE_STACK then map_stack_area new_process process_cr3 old_cr3 temp s
              else Some s);
        type' \<leftarrow> get32 s (vm_type temp);
        s \<leftarrow> say (''vm_start = %d'' @ [CHR 0x0A]) [scast type'] s;
        temp \<leftarrow> get64 s (vm_next temp);
        map_areas new_process head process_cr3 old_cr3 temp s
      })"

definition create_process :: "u64 \<Rightarrow> 'a system_scheme \<Rightarrow> (u64 \<times> 'a system_scheme) option" where
  "create_process head s = do {
     s \<leftarrow> say (''in create_process'' @ [CHR 0x0A]) [] s;
     (new_process, s) \<leftarrow> new_pcb s;
     (process_cr3, s) \<leftarrow> get_next_free_page_kmalloc s;
     (_, s) \<leftarrow> create_new_user_pml4 process_cr3 (kernel_pml4_t s) s;
     let old_cr3 = get_cr3 s;
     s \<leftarrow> edit_pcb new_process (\<lambda>p. p\<lparr>cr3 := process_cr3\<rparr>) s;
     entry \<leftarrow> get64 s (mm_e_entry head);
     s \<leftarrow> edit_pcb new_process (\<lambda>p. p\<lparr>e_entry := entry\<rparr>) s;
     s \<leftarrow> say (''new_process->e_entry = %p'' @ [CHR 0x0A]) [entry] s;
     mmap \<leftarrow> get64 s head;
     s \<leftarrow> map_areas new_process head process_cr3 old_cr3 mmap s;
     Some (new_process, s)
   }"

definition create_dummy_process :: "'a system_scheme \<Rightarrow> (u64 \<times> 'a system_scheme) option" where
  "create_dummy_process s = do {
     s \<leftarrow> say (''in dummy process'' @ [CHR 0x0A]) [] s;
     (new_process, s) \<leftarrow> new_pcb s;
     s \<leftarrow> edit_pcb new_process (\<lambda>p. p\<lparr>pstack := 0, pid := 0, rsp := 0\<rparr>) s;
     (process_cr3, s) \<leftarrow> get_next_free_page_kmalloc s;
     s \<leftarrow> edit_pcb new_process (\<lambda>p. p\<lparr>cr3 := process_cr3\<rparr>) s;
     (_, s) \<leftarrow> create_new_user_pml4 process_cr3 (kernel_pml4_t s) s;
     s \<leftarrow> edit_pcb new_process (\<lambda>p. p\<lparr>state := RUNNING, exit_status := 0, next_pcb := 0,
       e_entry := 0, time_remaining := 3\<rparr>) s;
     Some (new_process, s)
   }"

section \<open>Loading a program\<close>

text \<open>The functions that walk the list of areas only to count it; the second one prints the types.\<close>

partial_function (option) count_areas :: "u64 \<Rightarrow> cint \<Rightarrow> 'a paging_scheme \<Rightarrow> cint option" where
  "count_areas temp count s =
     (if temp = 0 then Some count
      else do { temp \<leftarrow> get64 s (vm_next temp); count_areas temp (count + 1) s })"

partial_function (option) list_areas :: "u64 \<Rightarrow> cint \<Rightarrow> 'a loader_scheme \<Rightarrow> (cint \<times> 'a loader_scheme) option" where
  "list_areas temp count s =
     (if temp = 0 then Some (count, s)
      else do {
        type' \<leftarrow> get32 s (vm_type temp);
        s \<leftarrow> say (''vm_start = %d'' @ [CHR 0x0A]) [scast type'] s;
        temp \<leftarrow> get64 s (vm_next temp);
        list_areas temp (count + 1) s
      })"

text \<open>
  What exec_new_binary and first_user_process share once they have the address of a header:
  the checks, the areas and their list. \<open>elf\<close> is the address of the literal ''ELF''. When the
  executable is not loadable, \<open>head\<close> is \<open>NULL\<close> and is read all the same.
\<close>

definition load_program :: "u64 \<Rightarrow> u64 \<Rightarrow> 'a loader_scheme \<Rightarrow> (u64 \<times> 'a loader_scheme) option" where
  "load_program elf p s = do {
     b0 \<leftarrow> get8 s p;
     b1 \<leftarrow> get8 s (p + 1);
     s \<leftarrow> say ([CHR 0x0A] @ ''returned to main %x%c'' @ [CHR 0x0A]) [ucast b0, ucast b1] s;
     (result, s) \<leftarrow> on_screen (validate_elf_header elf p) s;
     s \<leftarrow> say (''result = %d'' @ [CHR 0x0A]) [scast result] s;
     (result, s) \<leftarrow> on_screen (check_elf_loadable p) s;
     s \<leftarrow> say (''elf loadable = %d'' @ [CHR 0x0A]) [scast result] s;
     (head, s) \<leftarrow> (if result \<noteq> 0 then load_elf_vmas p s else Some (0, s));
     mmap \<leftarrow> get64 s head;
     start \<leftarrow> get64 s (vm_start mmap);
     s \<leftarrow> say (''mm_struct = %p'' @ [CHR 0x0A]) [start] s;
     mmap \<leftarrow> get64 s head;
     (count, s) \<leftarrow> list_areas mmap 0 s;
     s \<leftarrow> say (''count = %d'' @ [CHR 0x0A]) [scast count] s;
     Some (head, s)
   }"

definition exec_new_binary ::
  "places \<Rightarrow> u64 \<Rightarrow> u64 \<Rightarrow> u64 \<Rightarrow> 'a system_scheme \<Rightarrow> (cint \<times> 'a system_scheme) option" where
  "exec_new_binary l elf irq0 filename s = do {
     (p, s) \<leftarrow> on_screen (get_elf l filename) s;
     if p = 0 then Some (0, s)
     else do {
       (head, s) \<leftarrow> load_program elf p s;
       s \<leftarrow> say ''ls binary'' [] s;
       (first_process, s) \<leftarrow> create_process head s;
       s \<leftarrow> say (''first process = %p'' @ [CHR 0x0A]) [first_process] s;
       s \<leftarrow> on_procs (schedule_user_process irq0 first_process) s;
       Some (1, s)
     }
   }"

definition first_user_process :: "places \<Rightarrow> u64 \<Rightarrow> u64 \<Rightarrow> 'a system_scheme \<Rightarrow> 'a system_scheme option" where
  "first_user_process l elf filename s = do {
     (p, s) \<leftarrow> on_screen (get_elf l filename) s;
     (head, s) \<leftarrow> load_program elf p s;
     q \<leftarrow> get64 s (p + 24);
     s \<leftarrow> say (''value at start address = %p'' @ [CHR 0x0A]) [q] s;
     (process_1, s) \<leftarrow> kmalloc sizeof_pcb s;
     edit_pcb process_1 (\<lambda>p. p\<lparr>mm := head, pid := 1\<rparr>) s
   }"

text \<open>
  The end of start, from the search for bin/sbush on: the first process and the idle
  process are created and scheduled, and interrupts are switched on. start does not test
  the result of get_elf.
\<close>

definition start_processes ::
  "places \<Rightarrow> u64 \<Rightarrow> u64 \<Rightarrow> u64 \<Rightarrow> u64 \<Rightarrow> 'a system_scheme \<Rightarrow> 'a system_scheme option" where
  "start_processes l elf irq0 user_mode_function_1 filename s = do {
     (p, s) \<leftarrow> on_screen (get_elf l filename) s;
     (result, s) \<leftarrow> on_screen (validate_elf_header elf p) s;
     (result, s) \<leftarrow> on_screen (check_elf_loadable p) s;
     (head, s) \<leftarrow> (if result \<noteq> 0 then load_elf_vmas p s else Some (0, s));
     mmap \<leftarrow> get64 s head;
     count \<leftarrow> count_areas mmap 0 s;
     (first_process, s) \<leftarrow> create_process head s;
     (dummy_process_1, s) \<leftarrow> create_dummy_process s;
     s \<leftarrow> on_procs (\<lambda>q. Some (scheduler_init q)) s;
     s \<leftarrow> on_procs (\<lambda>q. Some (schedule_idle_process irq0 dummy_process_1 user_mode_function_1 q)) s;
     s \<leftarrow> on_procs (schedule_user_process irq0 first_process) s;
     s \<leftarrow> say (replicate 16 (CHR 0x0A)) [] s;
     Some (s\<lparr>rflags_reg := rflags_reg s OR 0x200\<rparr>)
   }"

section \<open>Switching\<close>

definition push :: "u64 \<Rightarrow> 'a system_scheme \<Rightarrow> 'a system_scheme option" where
  "push w s = do { s \<leftarrow> put64 s (rsp_reg s - 8) w; Some (s\<lparr>rsp_reg := rsp_reg s - 8\<rparr>) }"

definition pop :: "'a system_scheme \<Rightarrow> (u64 \<times> 'a system_scheme) option" where
  "pop s = do { w \<leftarrow> get64 s (rsp_reg s); Some (w, s\<lparr>rsp_reg := rsp_reg s + 8\<rparr>) }"

definition retq :: "'a system_scheme \<Rightarrow> 'a system_scheme option" where
  "retq s = do { (w, s) \<leftarrow> pop s; Some (s\<lparr>rip_reg := w\<rparr>) }"

text \<open>iretq in 64-bit mode takes all five words.\<close>

definition iretq :: "'a system_scheme \<Rightarrow> 'a system_scheme option" where
  "iretq s = do {
     (rip, s) \<leftarrow> pop s;
     (cs, s) \<leftarrow> pop s;
     (flags, s) \<leftarrow> pop s;
     (rsp, s) \<leftarrow> pop s;
     (ss, s) \<leftarrow> pop s;
     Some (s\<lparr>rip_reg := rip, cs_reg := cs AND 0xffff, rflags_reg := flags, rsp_reg := rsp, ss_reg := ss AND 0xffff\<rparr>)
   }"

text \<open>\<open>resume\<close> is the address of the label at the end of switch_to.\<close>

definition switch_to :: "u64 \<Rightarrow> u64 \<Rightarrow> u64 \<Rightarrow> 'a system_scheme \<Rightarrow> 'a system_scheme option" where
  "switch_to resume p1 p2 s = do {
     s \<leftarrow> push resume s;
     s \<leftarrow> edit_pcb p1 (\<lambda>p. p\<lparr>rsp := rsp_reg s\<rparr>) s;
     s \<leftarrow> say (''Value in rsp p1 is %p'' @ [CHR 0x0A]) [rsp (pcb_at s p1)] s;
     s \<leftarrow> say (''value in rsp p2 is %p'' @ [CHR 0x0A]) [rsp (pcb_at s p2)] s;
     retq (s\<lparr>rsp_reg := rsp (pcb_at s p2)\<rparr>)
   }"

text \<open>
  The frame of switch_to_user_mode and of ring_3_switch, on the current stack. Interrupts are
  disabled first and enabled in the flags of the frame. What follows iretq is not reached.
\<close>

definition enter_user_mode :: "u64 \<Rightarrow> u64 \<Rightarrow> u64 \<Rightarrow> 'a system_scheme \<Rightarrow> 'a system_scheme option" where
  "enter_user_mode user_rsp cs user_rip s = do {
     let s = s\<lparr>rflags_reg := rflags_reg s AND NOT 0x200\<rparr>;
     let s = s\<lparr>data_segments := 0x23\<rparr>;
     s \<leftarrow> push 0x23 s;
     s \<leftarrow> push user_rsp s;
     s \<leftarrow> push (rflags_reg s) s;
     (flags, s) \<leftarrow> pop s;
     s \<leftarrow> push (flags OR 0x200) s;
     s \<leftarrow> push cs s;
     s \<leftarrow> push user_rip s;
     iretq s
   }"

definition switch_to_user_mode :: "u64 \<Rightarrow> 'a system_scheme \<Rightarrow> 'a system_scheme option" where
  "switch_to_user_mode p1 s =
     (if p1 = 0 then None else enter_user_mode (rsp_reg s) 0x2b (rsp (pcb_at s p1)) s)"

definition ring_3_switch :: "u64 \<Rightarrow> 'a system_scheme \<Rightarrow> 'a system_scheme option" where
  "ring_3_switch user_rip s = enter_user_mode 0x4000c0 0x1b user_rip s"

text \<open>The five words of the frame, printed before and after the busy loop of first_process_switch.\<close>

definition print_frame :: "u64 \<Rightarrow> 'a system_scheme \<Rightarrow> 'a system_scheme option" where
  "print_frame process s = do {
     s \<leftarrow> say (''process->kstack[127] = %p'' @ [CHR 0x0A]) [kstack (pcb_at s process) ! 127] s;
     s \<leftarrow> say (''process->kstack[126] = %p'' @ [CHR 0x0A]) [kstack (pcb_at s process) ! 126] s;
     s \<leftarrow> say (''process->kstack[125] = %p'' @ [CHR 0x0A]) [kstack (pcb_at s process) ! 125] s;
     s \<leftarrow> say (''process->kstack[124] = %p'' @ [CHR 0x0A]) [kstack (pcb_at s process) ! 124] s;
     say (''process->kstack[123] = %p'' @ [CHR 0x0A]) [kstack (pcb_at s process) ! 123] s
   }"

definition first_process_switch :: "u64 \<Rightarrow> u64 \<Rightarrow> u64 \<Rightarrow> u64 \<Rightarrow> 'a system_scheme \<Rightarrow> 'a system_scheme option" where
  "first_process_switch irq0 process rip flags s = do {
     s \<leftarrow> edit_pcb process (\<lambda>p. p\<lparr>kstack := (kstack p)[127 := 0x23, 126 := kstack_addr process 127,
       125 := flags, 124 := 0x2b, 123 := rip, 123 - 16 := irq0 + 32], rsp := kstack_addr process (123 - 17)\<rparr>) s;
     (process_cr3, s) \<leftarrow> get_next_free_page_kmalloc s;
     s \<leftarrow> edit_pcb process (\<lambda>p. p\<lparr>cr3 := process_cr3\<rparr>) s;
     (_, s) \<leftarrow> create_new_user_pml4 (cr3 (pcb_at s process)) (kernel_pml4_t s) s;
     let s = set_cr3 (cr3 (pcb_at s process)) s;
     let s = s\<lparr>rsp_reg := rsp (pcb_at s process)\<rparr>;
     s \<leftarrow> print_frame process s;
     s \<leftarrow> print_frame process s;
     say ''here'' [] s
   }"

end
