(* ===== verification/Spaces.thy ===== *)
theory Spaces
  imports Vmem KernelMap
begin

text \<open>
  Two address spaces in one memory: that of the kernel, and that of a process, which shares
  the kernel's half. \<open>spaces\<close> relates both to a flat memory of kernel addresses \<open>A\<close> and the
  addresses \<open>U\<close> the process has in its own half; pages mapped and bytes written while the process's tables
  are in cr3 leave the kernel's space as it is.
\<close>

section \<open>Both spaces\<close>

definition spaces ::
  "u64 \<Rightarrow> u64 \<Rightarrow> 'a paging_scheme \<Rightarrow> (nat \<Rightarrow> u64 set) \<Rightarrow> (nat \<Rightarrow> u64 set) \<Rightarrow> (u64 \<times> u64) list \<Rightarrow> nat \<Rightarrow>
    u64 set \<Rightarrow> u64 set \<Rightarrow> mem \<Rightarrow> bool" where
  "spaces r p s T P ps k A U m \<longleftrightarrow>
     heap (s\<lparr>cr3_reg := r\<rparr>) T ps k A m \<and> paging_inv (s\<lparr>cr3_reg := p\<rparr>) P ps \<and>
     owned (s\<lparr>cr3_reg := p\<rparr>) P ps (A \<union> U) \<and> (\<forall>a \<in> A \<union> U. seen (s\<lparr>cr3_reg := p\<rparr>) a = m a) \<and>
     isolated (s\<lparr>cr3_reg := p\<rparr>) P ps (all_tables T) \<and>
     (\<forall>a. index 3 a = 511 \<longrightarrow> translate p (pmem s) a = translate r (pmem s) a) \<and>
     (\<forall>u \<in> U. \<forall>pa. translate p (pmem s) u = Some pa \<longrightarrow> page_of pa \<notin> all_tables T) \<and>
     (\<forall>u. index 3 u \<noteq> 510 \<and> index 3 u \<noteq> 511 \<and> u \<notin> U \<longrightarrow> translate p (pmem s) u = None)"

lemma spacesD:
  assumes "spaces r p s T P ps k A U m"
  shows "heap (s\<lparr>cr3_reg := r\<rparr>) T ps k A m" "paging_inv (s\<lparr>cr3_reg := p\<rparr>) P ps"
    "owned (s\<lparr>cr3_reg := p\<rparr>) P ps (A \<union> U)" "isolated (s\<lparr>cr3_reg := p\<rparr>) P ps (all_tables T)"
    "a \<in> A \<union> U \<Longrightarrow> seen (s\<lparr>cr3_reg := p\<rparr>) a = m a"
    "index 3 a = 511 \<Longrightarrow> translate p (pmem s) a = translate r (pmem s) a"
    "\<lbrakk>u \<in> U; translate p (pmem s) u = Some pa\<rbrakk> \<Longrightarrow> page_of pa \<notin> all_tables T"
    "a \<in> A \<Longrightarrow> index 3 a = 511" "room (s\<lparr>cr3_reg := r\<rparr>) T ps k" "owned (s\<lparr>cr3_reg := r\<rparr>) T ps A"
    "\<lbrakk>index 3 u \<noteq> 510; index 3 u \<noteq> 511; u \<notin> U\<rbrakk> \<Longrightarrow> translate p (pmem s) u = None"
  using assms unfolding spaces_def heap_def by blast+

lemma seen_at: "seen (s\<lparr>cr3_reg := c\<rparr>) a = (case translate c (pmem s) a of None \<Rightarrow> 0 | Some pa \<Rightarrow> pmem s pa)"
  by (simp add: seen_def split: option.split)

text \<open>The globals that the two spaces do not depend on.\<close>

lemma spaces_cr3 [simp]: "spaces r p (s\<lparr>cr3_reg := c\<rparr>) T P ps k A U m = spaces r p s T P ps k A U m"
  by (simp add: spaces_def)

lemma isolated_cong:
  assumes "isolated s T ps X" "root s' = root s"
    and "\<And>g i. g \<in> all_tables T \<Longrightarrow> i AND 0x1ff = i \<Longrightarrow> load64 (pmem s') (slot g i) = load64 (pmem s) (slot g i)"
  shows "isolated s' T ps X"
proof -
  have same: "load64 (pmem s') (slot f i) = load64 (pmem s) (slot f i)" if "f \<in> T n" "n \<le> 3" "good_slot n i" for n f i
    by (rule assms(3)) (use that all_tablesI in \<open>auto simp: good_slot_def\<close>)
  have "frame (load64 (pmem s') (slot f i)) \<notin> X"
    if "0 < n \<and> n \<le> 3 \<and> f \<in> T n \<and> f \<notin> X \<and> good_slot n i \<and> (n = 3 \<longrightarrow> i \<noteq> 511) \<and> present (load64 (pmem s') (slot f i))"
    for n f i
  proof -
    have "load64 (pmem s') (slot f i) = load64 (pmem s) (slot f i)" using same that by blast
    then show ?thesis using that assms(1) unfolding isolated_def by metis
  qed
  then show ?thesis using assms(1,2) unfolding isolated_def by auto
qed

section \<open>Writing in the process's space\<close>

lemma owned_same:
  assumes "owned s T ps A" "\<And>v. v \<in> A \<Longrightarrow> mmu s' (pmem s') v = mmu s (pmem s) v"
  shows "owned s' T ps A"
proof -
  have "inj_on (mmu s' (pmem s')) A"
    using assms inj_on_cong [of A "mmu s' (pmem s')" "mmu s (pmem s)"] by (simp add: owned_def)
  then show ?thesis using assms by (simp add: owned_def)
qed

lemma spaces_byte:
  assumes sp: "spaces r p s T P ps k A U m" and p: "cr3_reg s = p" and a: "a \<in> A \<union> U"
  shows "\<exists>s'. vstore8 (mmu s) (pmem s) a x = Some (pmem s') \<and> s' = s\<lparr>pmem := pmem s'\<rparr> \<and>
    spaces r p s' T P ps k A U (m(a := x))"
proof -
  note d = spacesD [OF sp]
  obtain pa where pa: "translate p (pmem s) a = Some pa" "\<not> paging_word P ps (word_of pa)"
    using d(3) a by (auto simp: owned_def)
  have "page_of pa \<notin> all_tables T"
  proof (cases "a \<in> A")
    case True
    then have "translate r (pmem s) a = Some pa" using pa(1) d(6) d(8) by simp
    moreover obtain pb where "translate r (pmem s) a = Some pb" "\<not> paging_word T ps (word_of pb)"
      using d(10) True by (auto simp: owned_def)
    ultimately show ?thesis using word_of_parts(2) [of pa] by (simp add: paging_word_def)
  next
    case False
    then show ?thesis using a pa(1) d(7) by blast
  qed
  then have K: "\<not> paging_word T ps (word_of pa)"
    using pa(2) word_of_parts(2) [of pa] by (simp add: paging_word_def)
  let ?s = "s\<lparr>pmem := (pmem s)(pa := x)\<rparr>"
  have invK: "paging_inv (s\<lparr>cr3_reg := r\<rparr>) T ps" using d(9) by (simp add: room_def)
  note stK = inv_byte [OF invK K, of "?s\<lparr>cr3_reg := r\<rparr>" x, simplified]
  note stP = inv_byte [OF d(2) pa(2), of "?s\<lparr>cr3_reg := p\<rparr>" x, simplified]
  have sameK: "translate r ((pmem s)(pa := x)) v = translate r (pmem s) v" if "index 3 v \<noteq> 510" for v
    using stK(2) [OF that] .
  have sameP: "translate p ((pmem s)(pa := x)) v = translate p (pmem s) v" if "index 3 v \<noteq> 510" for v
    using stP(2) [OF that] .
  have low: "index 3 v \<noteq> 510" if "v \<in> A \<union> U" for v using d(3) that by (simp add: owned_def)
  have seenP: "seen (?s\<lparr>cr3_reg := p\<rparr>) v = (m(a := x)) v" if v: "v \<in> A \<union> U" for v
  proof -
    have "inj_on (translate p (pmem s)) (A \<union> U)" using d(3) by (simp add: owned_def)
    then have "v = a \<longleftrightarrow> translate p (pmem s) v = Some pa" using inj_on_eq_iff [of _ "A \<union> U" v a] v a pa(1) by metis
    then show ?thesis using d(5) [OF v] sameP [OF low [OF v]] by (auto simp: seen_def split: option.splits)
  qed
  have seenK: "seen (?s\<lparr>cr3_reg := r\<rparr>) v = (m(a := x)) v" if v: "v \<in> A" for v
  proof -
    have i: "index 3 v = 511" "index 3 v \<noteq> 510" using d(8) [OF v] by simp_all
    have "translate p (pmem s) v = translate r (pmem s) v" by (rule d(6) [OF i(1)])
    then have "seen (?s\<lparr>cr3_reg := r\<rparr>) v = seen (?s\<lparr>cr3_reg := p\<rparr>) v"
      using sameK [OF i(2)] sameP [OF i(2)] by (simp add: seen_at)
    then show ?thesis using seenP v by simp
  qed
  have "room (?s\<lparr>cr3_reg := r\<rparr>) T ps k"
    using d(9) stK(1) sameK by (simp add: room_def mappable_def kernel_half_def)
  moreover have "owned (?s\<lparr>cr3_reg := r\<rparr>) T ps A" by (rule owned_same [OF d(10)]) (use sameK low in simp)
  ultimately have "heap (?s\<lparr>cr3_reg := r\<rparr>) T ps k A (m(a := x))"
    using seenK d(8) unfolding heap_def by blast
  moreover have "owned (?s\<lparr>cr3_reg := p\<rparr>) P ps (A \<union> U)" by (rule owned_same [OF d(3)]) (use sameP low in simp)
  moreover have "isolated (?s\<lparr>cr3_reg := p\<rparr>) P ps (all_tables T)"
    by (rule isolated_cong [OF d(4)]) (use stP(3) in simp_all)
  moreover have "translate p (pmem ?s) v = translate r (pmem ?s) v" if "index 3 v = 511" for v
    using sameK [of v] sameP [of v] d(6) [of v] that by simp
  moreover have "page_of pb \<notin> all_tables T" if "u \<in> U" "translate p (pmem ?s) u = Some pb" for u pb
    using d(7) [OF that(1), of pb] sameP [OF low, of u] that by simp
  moreover have "translate p (pmem ?s) u = None" if "index 3 u \<noteq> 510" "index 3 u \<noteq> 511" "u \<notin> U" for u
    using d(11) [OF that] sameP [OF that(1)] by simp
  ultimately have "spaces r p ?s T P ps k A U (m(a := x))"
    using stP(1) seenP unfolding spaces_def by blast
  then show ?thesis using pa(1) p by (intro exI [of _ ?s]) (simp add: vstore8_def)
qed

text \<open>The process's space is a flat memory too, while its tables are in cr3.\<close>

interpretation spaces_memory: flat_memory "\<lambda>s m. spaces r p s T P ps k A U m \<and> cr3_reg s = p" "A \<union> U" for r p T P ps k A U
proof unfold_locales
  show "vload8 (mmu s) (pmem s) a = Some (m a)"
    if q: "spaces r p s T P ps k A U m \<and> cr3_reg s = p" "a \<in> A \<union> U" for s :: "'a paging_scheme" and m a
  proof -
    note d = spacesD [OF conjunct1 [OF q(1)]]
    obtain pa where "translate p (pmem s) a = Some pa" using d(3) q(2) by (auto simp: owned_def)
    then show ?thesis using d(5) [OF q(2)] q(1) by (simp add: vload8_def seen_at)
  qed
  show "\<exists>s'. vstore8 (mmu s) (pmem s) a x = Some (pmem s') \<and> s' = s\<lparr>pmem := pmem s'\<rparr> \<and>
      spaces r p s' T P ps k A U (m(a := x)) \<and> cr3_reg s' = p"
    if q: "spaces r p s T P ps k A U m \<and> cr3_reg s = p" "a \<in> A \<union> U" for s :: "'a paging_scheme" and m a x
  proof -
    obtain s' where s': "vstore8 (mmu s) (pmem s) a x = Some (pmem s')" "s' = s\<lparr>pmem := pmem s'\<rparr>"
      "spaces r p s' T P ps k A U (m(a := x))" using spaces_byte [OF conjunct1 [OF q(1)] conjunct2 [OF q(1)] q(2), of x] by blast
    have "cr3_reg s' = p" by (subst s'(2)) (use q(1) in simp)
    then show ?thesis using s' by blast
  qed
qed

section \<open>Mapping pages of the process\<close>

lemma spared_entry:
  "\<lbrakk>paging_inv s T ps; spares (all_tables T) s s'; g \<in> all_tables T; i AND 0x1ff = i\<rbrakk> \<Longrightarrow>
    load64 (pmem s') (slot g i) = load64 (pmem s) (slot g i)"
proof -
  assume inv: "paging_inv s T ps" and sp: "spares (all_tables T) s s'" and g: "g \<in> all_tables T" "i AND 0x1ff = i"
  have "is_frame g" using inv all_tables_frame g(1) by (auto simp: paging_inv_def)
  from slot_frame_parts [OF this g(2)] show ?thesis using sp g(1) unfolding spares_def by simp
qed

text \<open>A space whose tables are spared keeps its invariant, with what is left of the free pages.\<close>

lemma paging_inv_spared:
  assumes inv: "paging_inv s T ps" and sp: "spares (all_tables T) s s'" "cr3_reg s' = cr3_reg s"
    and l: "kernel_list s' ps'" "set ps' \<subseteq> set ps" "distinct (map snd ps')" "\<forall>f \<in> snd ` set ps'. blank (pmem s') f"
  shows "paging_inv s' T ps'"
proof -
  note e = spared_entry [OF inv sp(1)]
  have t: "tables_ok (pmem s) T" "unshared (pmem s) T" "recursive (pmem s) (root s)" "T 3 = {root s}"
    using inv by (simp_all add: paging_inv_def)
  have root: "root s \<in> all_tables T" using all_tablesI [of "root s" T 3] t(4) by simp
  have free: "\<forall>f \<in> snd ` set ps. f \<notin> all_tables T"
    "\<forall>e \<in> fst ` set ps. \<forall>w \<in> words e. page_of w \<notin> all_tables T \<union> snd ` set ps"
    using inv by (simp_all add: paging_inv_def)
  show ?thesis
    unfolding paging_inv_def
  proof (intro conjI)
    show "levels_disjoint T" using inv by (simp add: paging_inv_def)
    show "T 3 = {root s'}" using t(4) sp(2) by simp
    show "tables_ok (pmem s') T" by (rule tables_cong(1) [OF e t(1)])
    show "unshared (pmem s') T" by (rule tables_cong(2) [OF e t(2)])
    show "recursive (pmem s') (root s')" unfolding sp(2) by (rule tables_cong(3) [OF e root t(3)])
    show "\<forall>f \<in> snd ` set ps'. blank (pmem s') f \<and> f \<notin> all_tables T" using free(1) l(2,4) by auto
    show "\<forall>e \<in> fst ` set ps'. \<forall>w \<in> words e. page_of w \<notin> all_tables T \<union> snd ` set ps'"
      using free(2) l(2) by blast
  qed (rule l(1), rule l(3))
qed

lemma kernel_list_half:
  assumes "kernel_list s ps" "\<forall>e \<in> fst ` set ps. \<forall>w \<in> words e. index 3 (KERNBASE + w) = 511"
    and "\<And>v. index 3 v = 511 \<Longrightarrow> mmu s' (pmem s') v = mmu s (pmem s) v"
    and "pmem s' = pmem s" "free_list_head_kmalloc s' = free_list_head_kmalloc s"
  shows "kernel_list s' ps"
  using assms unfolding kernel_list_def by simp

lemma page_range_mono: "n \<le> k \<Longrightarrow> page_range v n \<subseteq> page_range v k"
  unfolding page_range_def by (rule image_mono) auto

lemma spaces_map:
  assumes sp: "spaces r p s T P ps (n + k) A U m" and p: "cr3_reg s = p"
    and pages: "page_of v = v" "\<forall>va \<in> page_range v n. canonical va \<and> index 3 va \<noteq> 510 \<and> index 3 va \<noteq> 511"
      "block v n \<inter> U = {}"
    and n: "n = unat (no_of_pages size')"
  shows "\<exists>s' P' ps' m'. kmalloc_top_virtual_address_user size' v s = Some (v, s') \<and>
    spaces r p s' T P' ps' k A (U \<union> block v n) m' \<and> (\<forall>a \<in> A \<union> U. m' a = m a) \<and> (A \<union> U) \<inter> block v n = {} \<and>
    same_globals s s'"
proof -
  note d = spacesD [OF sp]
  have v: "page_of v = v" "\<forall>va \<in> page_range v n. mappable s va" "\<forall>va \<in> page_range v n. index 3 va \<noteq> 511"
  proof -
    show "\<forall>va \<in> page_range v n. mappable s va"
    proof
      fix va assume va: "va \<in> page_range v n"
      have "page_of va = va" by (rule page_range_pages [OF pages(1) va])
      then have "va \<in> block v n" using va by (simp add: block_def)
      then have "va \<notin> U" using pages(3) by blast
      then show "mappable s va" using pages(2) va d(11) [of va] p by (simp add: mappable_def)
    qed
  qed (use pages in auto)
  have s: "s\<lparr>cr3_reg := p\<rparr> = s" using p by simp
  let ?K = "s\<lparr>cr3_reg := r\<rparr>"
  have inv: "paging_inv s P ps" "owned s P ps (A \<union> U)" "isolated s P ps (all_tables T)" using d(2-4) s by simp_all
  have room: "paging_inv ?K T ps" "page_of (top_virtual_address s) = top_virtual_address s"
    "\<forall>va \<in> page_range (top_virtual_address s) (n + k). va \<noteq> 0 \<and> mappable ?K va"
    "4 * (n + k) \<le> length ps" "0 \<notin> snd ` set ps" "kernel_half ?K ps (n + k)"
    using d(9) by (simp_all add: room_def)
  have four: "4 * n \<le> length ps" using room(4) by simp
  from kmalloc_user_at_maps [OF inv(1) v(1) n v(2) four room(5)] obtain s' fs where
    s': "kmalloc_top_virtual_address_user size' v s = Some (v, s')" "range_mapped v n fs s P ps s'" "same_globals s s'"
    by blast
  obtain P' rest where e: "paging_inv s' P' rest" "set rest \<subseteq> set ps" "length ps \<le> length rest + 4 * n"
    "all_tables P' \<subseteq> all_tables P \<union> snd ` set ps"
    "owned s' P' rest (A \<union> U \<union> block v n)" "(A \<union> U) \<inter> block v n = {}"
    "\<forall>a \<in> A \<union> U. mmu s' (pmem s') a = mmu s (pmem s) a \<and> seen s' a = seen s a"
    "\<forall>a. index 3 a \<noteq> 510 \<and> page_of a \<notin> page_range v n \<longrightarrow> mmu s' (pmem s') a = mmu s (pmem s) a"
    "confined_range v n s P ps s' P' rest"
    by (rule owned_extend [OF inv(1,2) v(1,2) s'(2)])
  have g: "cr3_reg s' = p" "top_virtual_address s' = top_virtual_address s" "kernel_pml4_t s' = kernel_pml4_t s"
    using s'(3) p by (simp_all add: same_globals_def)
  have s'p: "s'\<lparr>cr3_reg := p\<rparr> = s'" using g(1) by simp
  let ?K' = "s'\<lparr>cr3_reg := r\<rparr>"
  have iso: "isolated s' P' rest (all_tables T)" "spares (all_tables T) s s'"
    using e(9) v(3) inv(3) unfolding confined_range_def by blast+
  have spK: "spares (all_tables T) ?K ?K'" using iso(2) by (simp add: spares_def)
  have sameK: "translate r (pmem s') a = translate r (pmem s) a" if "index 3 a \<noteq> 510" for a
    using mmu_tables [OF room(1) that _ spared_entry [OF room(1) spK]] by simp
  have sameP: "translate p (pmem s') a = translate p (pmem s) a" if "index 3 a \<noteq> 510" "page_of a \<notin> page_range v n" for a
    using e(8) that g(1) p by simp
  have half: "page_of a \<notin> page_range v n" if "index 3 a = 511" for a
  proof
    assume a: "page_of a \<in> page_range v n"
    from same_page [OF page_range_pages [OF v(1) a], of 3] v(3) a that show False by auto
  qed
  have both: "translate p (pmem s') a = translate r (pmem s') a" if "index 3 a = 511" for a
    using sameK [of a] sameP [of a] half [OF that] d(6) [OF that] that by simp
  have l: "kernel_list ?K' rest"
  proof (rule kernel_list_half)
    show "kernel_list s' rest" using e(1) by (simp add: paging_inv_def)
    show "\<forall>e \<in> fst ` set rest. \<forall>w \<in> words e. index 3 (KERNBASE + w) = 511"
      using room(6) e(2) unfolding kernel_half_def by blast
  qed (use both g(1) in simp_all)
  have inv': "paging_inv ?K' T rest"
  proof (rule paging_inv_spared [OF room(1) spK _ l e(2)])
    show "distinct (map snd rest)" "\<forall>f \<in> snd ` set rest. blank (pmem ?K') f" using e(1) by (auto simp: paging_inv_def)
  qed simp
  have sub: "page_range (top_virtual_address s) k \<subseteq> page_range (top_virtual_address s) (n + k)" by (rule page_range_mono) simp
  have "room ?K' T rest k"
    unfolding room_def
  proof (intro conjI ballI)
    fix va assume "va \<in> page_range (top_virtual_address ?K') k"
    then have va: "va \<noteq> 0" "mappable ?K va" using sub room(3) g(2) by auto
    then show "va \<noteq> 0" "mappable ?K' va" using sameK by (simp_all add: mappable_def)
  next
    show "kernel_half ?K' rest k"
      using room(6) sub e(2) g(2,3) sameK unfolding kernel_half_def by (simp, blast)
  qed (use inv' room(2,4,5) g(2) e(2,3) in auto)
  moreover have "owned ?K' T rest A"
  proof -
    have o: "owned ?K' T ps A" by (rule owned_same [OF d(10)]) (use sameK d(10) in \<open>simp add: owned_def\<close>)
    have "paging_word T ps a" if "paging_word T rest a" for a using that e(2) unfolding paging_word_def by blast
    then show ?thesis using o unfolding owned_def by blast
  qed
  moreover have seen: "seen s' a = m a" if "a \<in> A \<union> U" for a using e(7) d(5) [OF that] that s by simp
  moreover have "seen ?K' a = m a" if "a \<in> A" for a
    using seen [of a] both [OF d(8) [OF that]] that g(1) by (simp add: seen_at seen_def [of s'])
  ultimately have "heap ?K' T rest k A (seen s')" using d(8) unfolding heap_def by simp
  moreover have "page_of pa \<notin> all_tables T" if u: "u \<in> U \<union> block v n" "translate p (pmem s') u = Some pa" for u pa
  proof (cases "u \<in> U")
    case True
    then show ?thesis using e(7) d(7) [OF True, of pa] u(2) g(1) p by simp
  next
    case False
    then have "u \<in> block v n" using u(1) by blast
    from block_mapped [OF s'(2) this] obtain i where i: "fs ! i \<in> set fs" "mmu s' (pmem s') u = Some (fs ! i OR (u AND 0xfff))" by blast
    have "set fs \<subseteq> snd ` set ps" using s'(2) unfolding range_mapped_def by (elim conjE)
    then have f: "fs ! i \<in> snd ` set ps" using i(1) by (rule subsetD)
    then have "is_frame (fs ! i)" "fs ! i \<notin> all_tables T" using room(1) by (auto simp: paging_inv_def blank_def)
    then show ?thesis using i(2) u(2) g(1) frame_or(1) by simp
  qed
  moreover have "translate p (pmem s') u = None" if u: "index 3 u \<noteq> 510" "index 3 u \<noteq> 511" "u \<notin> U \<union> block v n" for u
    using sameP [of u] u d(11) [of u] by (simp add: block_def)
  ultimately have "spaces r p s' T P' rest k A (U \<union> block v n) (seen s')"
    using e(1,5) iso(1) both unfolding spaces_def s'p by (simp add: Un_assoc)
  then show ?thesis using s'(1,3) seen e(6) by blast
qed

section \<open>A new space\<close>

text \<open>
  A page becomes a second top table when its slot 510 names itself, its slot 511 is that of
  the kernel's table, and the others are empty.
\<close>

lemma new_table:
  assumes inv: "paging_inv s T ps" and p: "is_frame p" "p \<notin> all_tables T \<union> snd ` set ps"
      "\<forall>e \<in> fst ` set ps. \<forall>w \<in> words e. page_of w \<noteq> p"
    and e: "\<And>j. j AND 0x1ff = j \<Longrightarrow> load64 (pmem s) (slot p j) =
      (if j = 510 then p OR PAGE_USER else if j = 511 then load64 (pmem s) (slot (root s) 511) else 0)"
    and half: "\<forall>e \<in> fst ` set ps. \<forall>w \<in> words e. index 3 (KERNBASE + w) = 511"
  shows "index 3 a = 511 \<Longrightarrow> translate p (pmem s) a = translate (cr3_reg s) (pmem s) a"
    "\<lbrakk>index 3 a \<noteq> 510; index 3 a \<noteq> 511\<rbrakk> \<Longrightarrow> translate p (pmem s) a = None"
    "paging_inv (s\<lparr>cr3_reg := p\<rparr>) (T(3 := {p})) ps"
    "isolated (s\<lparr>cr3_reg := p\<rparr>) (T(3 := {p})) ps (all_tables T)"
proof -
  let ?P = "T(3 := {p})"
  have fr: "frame p = p" using p(1) by (simp add: is_frame_def)
  have both: "translate p (pmem s) a = translate (cr3_reg s) (pmem s) a" if a: "index 3 a = 511" for a
  proof -
    have "walk (Suc 3) (pmem s) p a = walk (Suc 3) (pmem s) (root s) a"
      unfolding walk.simps a using e [of 511] by simp
    then show ?thesis by (simp add: translate_def fr del: walk.simps)
  qed
  then show "index 3 a = 511 \<Longrightarrow> translate p (pmem s) a = translate (cr3_reg s) (pmem s) a" .
  show "translate p (pmem s) a = None" if "index 3 a \<noteq> 510" "index 3 a \<noteq> 511"
  proof -
    have "load64 (pmem s) (slot p (index 3 a)) = 0" using e [of "index 3 a"] that by simp
    then have "walk (Suc 3) (pmem s) p a = None" by (intro walk_absent) (simp add: present_def)
    then show ?thesis by (simp add: translate_def fr del: walk.simps)
  qed
  have empty: "\<not> present (load64 (pmem s) (slot p i))" if "good_slot 3 i" "i \<noteq> 511" for i
    using e [of i] that by (simp add: good_slot_def present_def)
  have lower: "f \<in> T n \<and> n \<le> 2 \<or> f = p \<and> n = 3" if "f \<in> ?P n" "n \<le> 3" for f n
    using that by (auto split: if_splits)
  have t: "levels_disjoint T" "unshared (pmem s) T" "tables_ok (pmem s) T" "T 3 = {root s}" "kernel_list s ps"
    using inv by (simp_all add: paging_inv_def)
  have all: "f = p \<or> f \<in> all_tables T" if "f \<in> all_tables ?P" for f
    using that by (auto simp: all_tables_def split: if_splits)
  show "isolated (s\<lparr>cr3_reg := p\<rparr>) ?P ps (all_tables T)"
    unfolding isolated_def
  proof (intro conjI ballI allI impI)
    show "root (s\<lparr>cr3_reg := p\<rparr>) \<notin> all_tables T" using p(2) fr by simp
    show "all_tables T \<inter> snd ` set ps = {}" using inv by (auto simp: paging_inv_def)
    show "page_of w \<notin> all_tables T" if "x \<in> fst ` set ps" "w \<in> words x" for x w
      using inv that by (auto simp: paging_inv_def)
    fix n f i
    assume q: "0 < n \<and> n \<le> 3 \<and> f \<in> ?P n \<and> f \<notin> all_tables T \<and> good_slot n i \<and> (n = 3 \<longrightarrow> i \<noteq> 511) \<and>
      present (load64 (pmem (s\<lparr>cr3_reg := p\<rparr>)) (slot f i))"
    then have "f = p \<and> n = 3" using lower [of f n] all_tablesI [of f T n] by auto
    then show "frame (load64 (pmem (s\<lparr>cr3_reg := p\<rparr>)) (slot f i)) \<notin> all_tables T" using q empty [of i] by auto
  qed
  show "paging_inv (s\<lparr>cr3_reg := p\<rparr>) ?P ps"
    unfolding paging_inv_def
  proof (intro conjI)
    have "p \<notin> T n" if "n \<le> 3" for n using p(2) all_tablesI [OF _ that] by blast
    then show "levels_disjoint ?P" using t(1) by (auto simp: levels_disjoint_def)
    show "unshared (pmem (s\<lparr>cr3_reg := p\<rparr>)) ?P"
      unfolding unshared_def
    proof (intro allI impI ballI)
      fix n f g i j
      assume n: "0 < n \<and> n \<le> 3" and f: "f \<in> ?P n" "g \<in> ?P n"
        and q: "good_slot n i \<and> good_slot n j \<and> present (load64 (pmem (s\<lparr>cr3_reg := p\<rparr>)) (slot f i)) \<and>
          present (load64 (pmem (s\<lparr>cr3_reg := p\<rparr>)) (slot g j)) \<and>
          frame (load64 (pmem (s\<lparr>cr3_reg := p\<rparr>)) (slot f i)) = frame (load64 (pmem (s\<lparr>cr3_reg := p\<rparr>)) (slot g j))"
      show "f = g \<and> i = j"
      proof (cases "n = 3")
        case True
        then have "f = p" "g = p" "i = 511" "j = 511" using f q empty [of i] empty [of j] by auto
        then show ?thesis by simp
      next
        case False
        then have f': "f \<in> T n" "g \<in> T n" using f by auto
        have "good_slot n i \<and> good_slot n j \<and> present (load64 (pmem s) (slot f i)) \<and>
          present (load64 (pmem s) (slot g j)) \<and> frame (load64 (pmem s) (slot f i)) = frame (load64 (pmem s) (slot g j))"
          using q by simp
        with t(2) n f' show ?thesis unfolding unshared_def by blast
      qed
    qed
    show "tables_ok (pmem (s\<lparr>cr3_reg := p\<rparr>)) ?P"
      unfolding tables_ok_def
    proof (intro allI impI ballI conjI)
      fix n f assume n: "n \<le> 3" "f \<in> ?P n"
      then show "is_frame f" using lower [OF n(2,1)] tables_okD(1) [OF t(3)] p(1) by auto
      fix i assume i: "good_slot n i"
      show "good_entry ?P n (load64 (pmem (s\<lparr>cr3_reg := p\<rparr>)) (slot f i))"
      proof (cases "n = 3")
        case True
        have "good_entry T 3 (load64 (pmem s) (slot (root s) 511))"
          by (rule tables_okD(2) [OF t(3)]) (simp_all add: t(4) good_slot_def)
        then have "good_entry ?P 3 (load64 (pmem s) (slot (root s) 511))" by (simp add: good_entry_def)
        moreover have "f = p" using True n(2) by simp
        moreover have "i = 511 \<or> \<not> present (load64 (pmem s) (slot p i))" using empty [of i] i True by blast
        moreover have "good_entry ?P 3 x" if "\<not> present x" for x using that by (simp add: good_entry_def)
        ultimately show ?thesis using True e [of 511] by auto
      next
        case False
        then have "good_entry T n (load64 (pmem s) (slot f i))" using n i tables_okD(2) [OF t(3)] by auto
        moreover have "n - 1 \<noteq> 3" using n(1) by simp
        ultimately show ?thesis by (simp add: good_entry_def)
      qed
    qed
    note x = entry_of_frame [OF p(1), of PAGE_USER]
    show "recursive (pmem (s\<lparr>cr3_reg := p\<rparr>)) (root (s\<lparr>cr3_reg := p\<rparr>))"
      using e [of 510] x by (simp add: recursive_def table_entry_def fr flags_ok_def)
    show "kernel_list (s\<lparr>cr3_reg := p\<rparr>) ps" by (rule kernel_list_half [OF t(5) half]) (use both in simp_all)
    show "distinct (map snd ps)" using inv by (simp add: paging_inv_def)
    show "\<forall>f \<in> snd ` set ps. blank (pmem (s\<lparr>cr3_reg := p\<rparr>)) f \<and> f \<notin> all_tables ?P"
    proof
      fix f assume f: "f \<in> snd ` set ps"
      then have "blank (pmem s) f" "f \<notin> all_tables T" using inv unfolding paging_inv_def by blast+
      then show "blank (pmem (s\<lparr>cr3_reg := p\<rparr>)) f \<and> f \<notin> all_tables ?P" using all [of f] f p(2) by auto
    qed
    show "\<forall>x \<in> fst ` set ps. \<forall>w \<in> words x. page_of w \<notin> all_tables ?P \<union> snd ` set ps"
    proof (intro ballI)
      fix x w assume x: "x \<in> fst ` set ps" "w \<in> words x"
      then have "page_of w \<notin> all_tables T \<union> snd ` set ps" using inv unfolding paging_inv_def by blast
      moreover have "page_of w \<noteq> p" using p(3) x by blast
      ultimately show "page_of w \<notin> all_tables ?P \<union> snd ` set ps" using all [of "page_of w"] by blast
    qed
  qed (simp add: fr)
qed

text \<open>A word that lies in memory as it lies in the kernel's addresses is stored as one.\<close>

lemma vstore_word:
  "\<lbrakk>heap s T ps k A m; region a n \<subseteq> A; n \<le> 8; \<forall>i < n. mmu s (pmem s) (a + of_nat i) = Some (pa + of_nat i)\<rbrakk> \<Longrightarrow>
    vstore n s a v = Some (s\<lparr>pmem := store_bytes n (pmem s) pa v\<rparr>)"
proof (induction n arbitrary: s a pa v m)
  case (Suc n)
  have a: "a \<in> A" using Suc.prems(2) by (auto simp: region_def)
  have pa: "mmu s (pmem s) a = Some pa" using Suc.prems(4) [rule_format, of 0] by simp
  obtain s1 where s1: "vstore8 (mmu s) (pmem s) a (of_nat v) = Some (pmem s1)" "s1 = s\<lparr>pmem := pmem s1\<rparr>"
    "heap s1 T ps k A (m(a := of_nat v))" using heap_byte [OF Suc.prems(1) a] by blast
  have m1: "pmem s1 = (pmem s)(pa := of_nat v)" using s1(1) pa by (simp add: vstore8_def)
  have own: "paging_inv s T ps" "owned s T ps A" using Suc.prems(1) by (simp_all add: heap_def room_def)
  then have free: "\<not> paging_word T ps (word_of pa)" using a pa unfolding owned_def by auto
  have g: "cr3_reg s1 = cr3_reg s" "free_list_head_kmalloc s1 = free_list_head_kmalloc s" by (subst s1(2), simp)+
  have r: "region (a + 1) n \<subseteq> A" using Suc.prems(2) region_next [of a n] by blast
  have "\<forall>i < n. mmu s1 (pmem s1) (a + 1 + of_nat i) = Some (pa + 1 + of_nat i)"
  proof (intro allI impI)
    fix i assume i: "i < n"
    have "a + 1 + of_nat i \<in> A" using r region_offset [of i "a + 1" n] i Suc.prems(3) by auto
    then have "index 3 (a + 1 + of_nat i) \<noteq> 510" using own(2) by (simp add: owned_def)
    from inv_byte(2) [OF own(1) free g m1 this] Suc.prems(4) [rule_format, of "Suc i"] i
    show "mmu s1 (pmem s1) (a + 1 + of_nat i) = Some (pa + 1 + of_nat i)" by (simp add: ac_simps)
  qed
  from Suc.IH [OF s1(3) r _ this, of "v div 256"]
  have "vstore n s1 (a + 1) (v div 256) = Some (s1\<lparr>pmem := store_bytes n (pmem s1) (pa + 1) (v div 256)\<rparr>)" using Suc.prems(3) by simp
  moreover have "s1\<lparr>pmem := x\<rparr> = s\<lparr>pmem := x\<rparr>" for x by (subst s1(2)) simp
  ultimately show ?case using s1(1) s1(2) [symmetric] m1 by simp
qed simp

lemma heap_wr:
  assumes h: "heap s T ps k A m" and a: "region a 8 \<subseteq> A" "\<forall>i < 8. mmu s (pmem s) (a + of_nat i) = Some (pa + of_nat i)"
  shows "wr (mmu s) s a x = Some (s\<lparr>pmem := store64 (pmem s) pa x\<rparr>)"
    "heap (s\<lparr>pmem := store64 (pmem s) pa x\<rparr>) T ps k A (store64 m a x)"
proof -
  have "mmu s (pmem s) a = Some pa" using a(2) [rule_format, of 0] by simp
  then show "wr (mmu s) s a x = Some (s\<lparr>pmem := store64 (pmem s) pa x\<rparr>)" by (rule wr_at)
  have "vstore 8 s a (unat x) = Some (s\<lparr>pmem := store64 (pmem s) pa x\<rparr>)"
    unfolding store64_def by (rule vstore_word [OF h a(1) _ a(2)]) simp
  then show "heap (s\<lparr>pmem := store64 (pmem s) pa x\<rparr>) T ps k A (store64 m a x)"
    using heap_put(3) [OF h a(1), of x] by (auto simp: put64_def)
qed

lemma heap_part:
  assumes "heap s T ps k A m" "A' \<subseteq> A" "\<And>a. a \<in> A' \<Longrightarrow> m' a = m a"
  shows "heap s T ps k A' m'"
  using assms inj_on_subset [of "mmu s (pmem s)" A A'] unfolding heap_def owned_def by auto

text \<open>Bytes of a page, by their offsets.\<close>

lemma page_byte:
  assumes "page_of v = v" "n < 4096"
  shows "page_of (v + of_nat n) = v" "(v + of_nat n) AND 0xfff = of_nat n" "v + of_nat n = v OR of_nat n"
proof -
  have "of_nat n AND 0xfff = take_bit 12 (of_nat n :: u64)" by (simp add: take_bit_eq_mask mask_eq_exp_minus_1)
  also have "\<dots> = of_nat n" using assms(2) by (simp add: take_bit_of_nat take_bit_nat_eq_self)
  finally have k: "of_nat n AND 0xfff = (of_nat n :: u64)" .
  note pp = page_plus [OF assms(1) k]
  show "v + of_nat n = v OR of_nat n" by (rule pp(1))
  show "page_of (v + of_nat n) = v" "(v + of_nat n) AND 0xfff = of_nat n" using pp by simp_all
qed

lemma mapped_byte:
  assumes "page_of v = v" "is_frame p" "\<And>va. page_of va = v \<Longrightarrow> mp va = Some (p OR (va AND 0xfff))" "n < 4096"
  shows "mp (v + of_nat n) = Some (p + of_nat n)"
  using assms(3) [OF page_byte(1) [OF assms(1,4)]] page_byte(2) [OF assms(1,4)] page_byte(3) [OF frame_page_of [OF assms(2)] assms(4)]
  by simp

text \<open>A frame that is mapped at an owned page is no table, is not free, and holds no descriptor.\<close>

lemma owned_frame:
  assumes own: "owned s T ps B" "region v 4096 \<subseteq> B" and l: "kernel_list s ps" and v: "page_of v = v" and p: "is_frame p"
    and at: "\<And>n. n < 4096 \<Longrightarrow> mmu s (pmem s) (v + of_nat n) = Some (p + of_nat n)"
  shows "p \<notin> all_tables T \<union> snd ` set ps" "\<forall>e \<in> fst ` set ps. \<forall>w \<in> words e. page_of w \<noteq> p"
proof -
  have free: "\<not> paging_word T ps (word_of (p + of_nat n))" if n: "n < 4096" for n
  proof -
    have "v + of_nat n \<in> B" using own(2) region_offset [of n v 4096] n by auto
    then show ?thesis using own(1) at [OF n] unfolding owned_def by auto
  qed
  have "page_of (word_of p) = p" using word_of_parts(2) frame_page_of [OF p] by simp
  then show "p \<notin> all_tables T \<union> snd ` set ps" using free [of 0] by (auto simp: paging_word_def)
  show "\<forall>e \<in> fst ` set ps. \<forall>w \<in> words e. page_of w \<noteq> p"
  proof (intro ballI notI)
    fix e w assume e: "e \<in> fst ` set ps" "w \<in> words e" and w: "page_of w = p"
    let ?n = "unat (w AND 0xfff)"
    have n: "?n < 4096" by (rule unat_page_offset) (simp add: and.assoc)
    have "w = p OR (w AND 0xfff)" using page_parts(1) [of w] w by simp
    then have "w = p + of_nat ?n" using page_byte(3) [OF frame_page_of [OF p] n] by simp
    moreover have "aligned8 w" using l e words_aligned by (auto simp: kernel_list_def descs_sep_def)
    then have "word_of w = w" by (rule word_of_aligned) simp
    ultimately show False using free [OF n] e by (auto simp: paging_word_def)
  qed
qed

text \<open>The page for the table is taken and mapped at the top of the kernel's addresses.\<close>

lemma new_top_table:
  fixes s :: "'a paging_scheme"
  assumes h: "heap s T ps (1 + k) A m"
  obtains p s1 s2 T' ps' m' where "get_next_free_page_kmalloc s = Some (p, s1)" "top_virtual_address s1 = top_virtual_address s"
    "page_walk_user p (top_virtual_address s) s1 = Some (1, s2)" "is_frame p" "blank (pmem s2) p"
    "heap (s2\<lparr>top_virtual_address := top_virtual_address s2 + PAGESIZE\<rparr>) T' ps' k (A \<union> block (top_virtual_address s) 1) m'"
    "\<forall>a \<in> A. m' a = m a" "A \<inter> block (top_virtual_address s) 1 = {}" "same_globals s s2"
    "\<forall>n < 4096. mmu s2 (pmem s2) (top_virtual_address s + of_nat n) = Some (p + of_nat n)"
proof -
  let ?v = "top_virtual_address s"
  note hr = heap_room [OF h]
  have v: "mappable s ?v" using hr(3) by (simp add: page_range_def)
  have len: "4 \<le> length ps" using hr(4) by simp
  then obtain e f qs where ps: "ps = (e, f) # qs" by (cases ps) auto
  from user_mapper.one_round [OF hr(1) v len hr(5)] obtain p s1 s2 T1 rest where
    r: "get_next_free_page_kmalloc s = Some (p, s1)" "p \<noteq> 0" "page_walk_user p ?v s1 = Some (1, s2)"
    "p \<in> snd ` set ps" "paging_inv s2 T1 rest" "set rest \<subseteq> set ps" "length ps \<le> length rest + 4"
    "all_tables T1 \<subseteq> all_tables T \<union> snd ` set ps" "p \<notin> all_tables T1 \<union> snd ` set rest"
    "(all_tables T1 - all_tables T) \<inter> snd ` set rest = {}"
    "keeps_translations s s2" "same_globals s s2"
    "\<And>va. page_of va = page_of ?v \<Longrightarrow> mmu s2 (pmem s2) va = Some (p OR (va AND 0xfff))"
    "\<And>va. index 3 va \<noteq> 510 \<Longrightarrow> page_of va \<noteq> page_of ?v \<Longrightarrow> mmu s2 (pmem s2) va = mmu s (pmem s) va"
    "untouched T ps s s2" "confined ?v s T ps s2 T1 rest" "blank (pmem s2) p"
    by blast
  let ?s3 = "s2\<lparr>top_virtual_address := top_virtual_address s2 + PAGESIZE\<rparr>"
  have "confined_range ?v (Suc 0) s T ps ?s3 T1 rest"
    by (rule confined_range_Suc [of _ _ _ _ s2 T1 rest]) (use r(16) in \<open>simp_all add: confined_range_def\<close>)
  moreover have pr: "page_range ?v 1 = {?v}" by (simp add: page_range_def lessThan_Suc)
  ultimately have rm: "range_mapped ?v 1 [p] s T ps ?s3"
    unfolding range_mapped_def
    using r(4-9,11,13-15) hr(2)
    by (intro conjI exI [of _ T1] exI [of _ rest])
      (auto simp: pr keeps_translations_def untouched_def)
  have g: "same_globals (s\<lparr>top_virtual_address := ?v + 4096 * of_nat 1\<rparr>) ?s3"
    using r(12) by (simp add: same_globals_def)
  obtain T' ps' m' where h': "heap ?s3 T' ps' k (A \<union> block ?v 1) m'" "\<forall>a \<in> A. m' a = m a" "A \<inter> block ?v 1 = {}"
    using heap_extend [OF h rm g] by blast
  have p: "is_frame p" using r(4) hr(1) by (auto simp: paging_inv_def blank_def)
  have at: "mmu s2 (pmem s2) (?v + of_nat n) = Some (p + of_nat n)" if n: "n < 4096" for n
    by (rule mapped_byte [OF hr(2) p _ n]) (use r(13) hr(2) in simp)
  have "s1 = after_alloc e s" using inv_alloc(1) [of s T e f qs 4] hr(1) r(1) ps by simp
  then have "top_virtual_address s1 = ?v" by (simp add: after_alloc_def)
  from that [OF r(1) this r(3) p r(17) h' r(12)] at show thesis by blast
qed

lemma slot_offset: "is_frame f \<Longrightarrow> slot f 511 = f + of_nat 4088" "is_frame f \<Longrightarrow> slot f 510 = f + of_nat 4080"
  using slot_sum [of f 511] slot_sum [of f 510] by simp_all

lemma store64_other: "region a 8 \<inter> A = {} \<Longrightarrow> b \<in> A \<Longrightarrow> store64 m a x b = m b"
  by (rule store64_frame) (auto simp: region_def not_less [symmetric])

text \<open>Both entries of the new table are stored through the page it is mapped at.\<close>

lemma new_entries:
  fixes s :: "'a paging_scheme"
  assumes h: "heap s T ps k (A \<union> block v 1) m" and d: "A \<inter> block v 1 = {}" and v: "page_of v = v"
    and p: "is_frame p" "blank (pmem s) p" "p \<noteq> root s"
    and at: "\<And>n. n < 4096 \<Longrightarrow> mmu s (pmem s) (v + of_nat n) = Some (p + of_nat n)"
  obtains s' m' where
    "do { e \<leftarrow> rd (mmu s) s (kernel_pml4_t s + 8 * 511); s \<leftarrow> wr (mmu s) s (v + 8 * 511) e;
       wr (mmu s) s (v + 8 * 510) (p OR PAGE_USER) } = Some s'"
    "s' = s\<lparr>pmem := pmem s'\<rparr>" "heap s' T ps k (A \<union> block v 1) m'" "\<forall>a \<in> A. m' a = m a" "keeps_translations s s'"
    "\<forall>j. j AND 0x1ff = j \<longrightarrow> load64 (pmem s') (slot p j) =
      (if j = 510 then p OR PAGE_USER else if j = 511 then load64 (pmem s') (slot (root s') 511) else 0)"
proof -
  let ?e = "load64 (pmem s) (slot (root s) 511)"
  let ?s1 = "s\<lparr>pmem := store64 (pmem s) (slot p 511) ?e\<rparr>"
  let ?s2 = "?s1\<lparr>pmem := store64 (pmem ?s1) (slot p 510) (p OR PAGE_USER)\<rparr>"
  have root: "is_frame (root s)" by simp
  have kh: "mmu s (pmem s) (kernel_pml4_t s + 8 * 511) = Some (slot (root s) 511)"
    using h unfolding heap_def room_def kernel_half_def by blast
  have r: "region (v + of_nat n) 8 \<subseteq> block v 1" if "n + 8 \<le> 4096" for n
    using region_block [OF v, of 4096 1] region_shift [of n 8 4096 v] that by auto
  have word: "mmu t (pmem t) (v + of_nat c + of_nat i) = Some (p + of_nat c + of_nat i)"
    if "\<And>n. n < 4096 \<Longrightarrow> mmu t (pmem t) (v + of_nat n) = Some (p + of_nat n)" "i < 8" "c \<le> 4088" for t :: "'a paging_scheme" and i c
    using that(1) [of "c + i"] that(2,3) by (simp add: add.assoc)
  have al: "aligned8 (slot p 511)" "aligned8 (slot p 510)" using slot_frame_parts(3) [OF p(1)] by simp_all
  have zero: "load64 (pmem s) (slot p j) = 0" if "j AND 0x1ff = j" for j using p(2) that by (simp add: blank_def)
  have l1: "load64 (pmem ?s1) (slot p j) = (if j = 511 then ?e else 0)" if "j AND 0x1ff = j" for j
    using zero [OF that] load_other_slot [OF p(1,1) _ that, of 511] by (cases "j = 511") auto
  have l2: "load64 (pmem ?s2) (slot p j) = (if j = 510 then p OR PAGE_USER else if j = 511 then ?e else 0)" if "j AND 0x1ff = j" for j
    using l1 [OF that] load_other_slot [OF p(1,1) _ that, of 510 "pmem ?s1"] by (cases "j = 510") auto
  have K: "load64 (pmem ?s2) (slot (root s) 511) = ?e"
    using load_other_slot [OF p(1) root, of 510 511] load_other_slot [OF p(1) root, of 511 511] p(3) by simp
  have k1: "keeps_translations s ?s1" by (rule keeps_store [OF al(1)]) (simp_all add: zero present_def)
  have k2: "keeps_translations ?s1 ?s2" by (rule keeps_store [OF al(2)]) (simp_all add: l1 [simplified] present_def)
  have at1: "mmu ?s1 (pmem ?s1) (v + of_nat n) = Some (p + of_nat n)" if "n < 4096" for n
    by (rule keepsD [OF k1 at [OF that]])
  have "\<forall>i < 8. mmu s (pmem s) (v + of_nat 4088 + of_nat i) = Some (slot p 511 + of_nat i)"
    using word [of s _ 4088] at slot_offset(1) [OF p(1)] by simp
  note w1 = heap_wr [OF h _ this, of ?e]
  have r1: "region (v + of_nat 4088) 8 \<subseteq> A \<union> block v 1" "region (v + of_nat 4080) 8 \<subseteq> A \<union> block v 1"
    using r [of 4088] r [of 4080] by auto
  have "\<forall>i < 8. mmu ?s1 (pmem ?s1) (v + of_nat 4080 + of_nat i) = Some (slot p 510 + of_nat i)"
    using word [of ?s1 _ 4080, OF at1] slot_offset(2) [OF p(1)] by simp
  note w2 = heap_wr [OF w1(2) [OF r1(1)] r1(2) this, of "p OR PAGE_USER"]
  let ?m = "store64 (store64 m (v + of_nat 4088) ?e) (v + of_nat 4080) (p OR PAGE_USER)"
  have "rd (mmu s) s (kernel_pml4_t s + 8 * 511) = Some ?e" by (rule rd_at [OF kh])
  then have "do { e \<leftarrow> rd (mmu s) s (kernel_pml4_t s + 8 * 511); s \<leftarrow> wr (mmu s) s (v + 8 * 511) e;
       wr (mmu s) s (v + 8 * 510) (p OR PAGE_USER) } = Some ?s2"
    using w1(1) [OF r1(1)] w2(1) by simp
  moreover have "\<forall>a \<in> A. ?m a = m a"
  proof
    fix a assume a: "a \<in> A"
    have "region (v + of_nat 4088) 8 \<inter> A = {}" "region (v + of_nat 4080) 8 \<inter> A = {}"
      using r [of 4088] r [of 4080] d by auto
    then show "?m a = m a" using store64_other [OF _ a] by simp
  qed
  moreover have "keeps_translations s ?s2" by (rule keeps_trans [OF k1 k2])
  ultimately show thesis using w2(2) l2 K by (intro that [of ?s2 ?m]) simp_all
qed

lemma bind_pair:
  "do { e \<leftarrow> f; s \<leftarrow> g e; h s } = Some s' \<Longrightarrow> do { e \<leftarrow> f; s \<leftarrow> g e; s \<leftarrow> h s; Some (v, s) } = Some (v, s')"
  for f :: "'a option" and g :: "'a \<Rightarrow> 'b option" and h :: "'b \<Rightarrow> 'c option"
  by (auto simp: Option.bind_eq_Some_conv)

text \<open>
  Taking a page and making it a top table leaves the kernel's heap as it is and gives a
  second space that has the kernel's half and nothing else.
\<close>

lemma new_space:
  fixes s :: "'a paging_scheme"
  assumes h: "heap s T ps (1 + k) A m"
  obtains p s1 s' T' ps' where "get_next_free_page_kmalloc s = Some (p, s1)"
    "create_new_user_pml4 p t s1 = Some (top_virtual_address s, s')"
    "spaces (cr3_reg s) p s' T' (T'(3 := {p})) ps' k A {} m" "is_frame p"
    "same_globals (s\<lparr>top_virtual_address := top_virtual_address s + 4096\<rparr>) s'"
proof -
  let ?v = "top_virtual_address s" and ?r = "cr3_reg s"
  obtain p s1 s2 T' ps' m' where n: "get_next_free_page_kmalloc s = Some (p, s1)" "top_virtual_address s1 = ?v"
    "page_walk_user p ?v s1 = Some (1, s2)" "is_frame p" "blank (pmem s2) p"
    "heap (s2\<lparr>top_virtual_address := top_virtual_address s2 + PAGESIZE\<rparr>) T' ps' k (A \<union> block ?v 1) m'"
    "\<forall>a \<in> A. m' a = m a" "A \<inter> block ?v 1 = {}" "same_globals s s2"
    "\<forall>n < 4096. mmu s2 (pmem s2) (?v + of_nat n) = Some (p + of_nat n)" by (rule new_top_table [OF h])
  let ?s3 = "s2\<lparr>top_virtual_address := top_virtual_address s2 + PAGESIZE\<rparr>"
  have v: "page_of ?v = ?v" using heap_room(2) [OF h] .
  have at3: "mmu ?s3 (pmem ?s3) (?v + of_nat n) = Some (p + of_nat n)" if "n < 4096" for n using n(10) that by simp
  have g: "cr3_reg ?s3 = ?r" "kernel_pml4_t ?s3 = kernel_pml4_t s2" using n(9) by (simp_all add: same_globals_def)
  have own3: "owned ?s3 T' ps' (A \<union> block ?v 1)" "paging_inv ?s3 T' ps'" using n(6) by (simp_all add: heap_def room_def)
  have sub: "region ?v 4096 \<subseteq> A \<union> block ?v 1" using region_block [OF v, of 4096 1] by auto
  have l3: "kernel_list ?s3 ps'" using own3(2) by (simp add: paging_inv_def)
  note free = owned_frame [OF own3(1) sub l3 v n(4) at3]
  have "root ?s3 \<in> all_tables T'" using all_tablesI [of "root ?s3" T' 3] own3(2) by (simp add: paging_inv_def)
  then have ne: "p \<noteq> root ?s3" using free(1) by blast
  have bl: "blank (pmem ?s3) p" using n(5) by simp
  obtain s' m2 where e: "do { e \<leftarrow> rd (mmu ?s3) ?s3 (kernel_pml4_t ?s3 + 8 * 511); s \<leftarrow> wr (mmu ?s3) ?s3 (?v + 8 * 511) e;
       wr (mmu s) s (?v + 8 * 510) (p OR PAGE_USER) } = Some s'"
    "s' = ?s3\<lparr>pmem := pmem s'\<rparr>" "heap s' T' ps' k (A \<union> block ?v 1) m2" "\<forall>a \<in> A. m2 a = m' a" "keeps_translations ?s3 s'"
    "\<forall>j. j AND 0x1ff = j \<longrightarrow> load64 (pmem s') (slot p j) =
      (if j = 510 then p OR PAGE_USER else if j = 511 then load64 (pmem s') (slot (root s') 511) else 0)"
    by (rule new_entries [OF n(6,8) v n(4) bl ne at3])
  have s': "cr3_reg s' = ?r" "top_virtual_address s' = top_virtual_address s2 + PAGESIZE"
    by (subst e(2), simp add: g [simplified])+
  have inv: "paging_inv s' T' ps'" and half: "\<forall>e \<in> fst ` set ps'. \<forall>w \<in> words e. index 3 (KERNBASE + w) = 511"
    and own: "owned s' T' ps' (A \<union> block ?v 1)" and up: "\<forall>a \<in> A. index 3 a = 511"
    using e(3) by (simp_all add: heap_def room_def kernel_half_def)
  have "load64 (pmem s') (slot p j) = (if j = 510 then p OR PAGE_USER else if j = 511 then load64 (pmem s') (slot (root s') 511) else 0)"
    if "j AND 0x1ff = j" for j using e(6) that by blast
  note nt = new_table [OF inv n(4) free this half]
  have at: "mmu s' (pmem s') (?v + of_nat n) = Some (p + of_nat n)" if "n < 4096" for n by (rule keepsD [OF e(5) at3 [OF that]])
  have off: "page_of pa \<noteq> p" if a: "a \<in> A" "mmu s' (pmem s') a = Some pa" for a pa
  proof
    assume pa: "page_of pa = p"
    let ?n = "unat (pa AND 0xfff)"
    have n': "?n < 4096" by (rule unat_page_offset) (simp add: and.assoc)
    have "pa = p OR (pa AND 0xfff)" using page_parts(1) [of pa] pa by simp
    then have "pa = p + of_nat ?n" using page_byte(3) [OF frame_page_of [OF n(4)] n'] by simp
    then have "mmu s' (pmem s') (?v + of_nat ?n) = mmu s' (pmem s') a" using at [OF n'] a(2) by simp
    moreover have b: "?v + of_nat ?n \<in> block ?v 1" using region_block [OF v, of 4096 1] region_offset [of ?n ?v 4096] n' by auto
    ultimately have "?v + of_nat ?n = a" using own a(1) unfolding owned_def by (meson UnI1 UnI2 inj_onD)
    then show False using b a(1) n(8) by blast
  qed
  have kheap: "heap s' T' ps' k A m" by (rule heap_part [OF e(3)]) (use e(4) n(7) in auto)
  have s'r: "s'\<lparr>cr3_reg := ?r\<rparr> = s'" using s'(1) by simp
  have same: "translate p (pmem s') a = mmu s' (pmem s') a" if "a \<in> A" for a using nt(1) up that by blast
  have "owned (s'\<lparr>cr3_reg := p\<rparr>) (T'(3 := {p})) ps' A"
    unfolding owned_def
  proof (intro conjI ballI)
    fix a assume a: "a \<in> A"
    then show "index 3 a \<noteq> 510" using up by simp
    obtain pa where pa: "mmu s' (pmem s') a = Some pa" "\<not> paging_word T' ps' (word_of pa)" using own a unfolding owned_def by blast
    have "f = p \<or> f \<in> all_tables T'" if "f \<in> all_tables (T'(3 := {p}))" for f
      using that by (auto simp: all_tables_def split: if_splits)
    then have "\<not> paging_word (T'(3 := {p})) ps' (word_of pa)"
      using pa(2) off [OF a pa(1)] word_of_parts(2) [of pa] unfolding paging_word_def by auto
    then show "\<exists>pa. mmu (s'\<lparr>cr3_reg := p\<rparr>) (pmem (s'\<lparr>cr3_reg := p\<rparr>)) a = Some pa \<and> \<not> paging_word (T'(3 := {p})) ps' (word_of pa)"
      using pa(1) same [OF a] by simp
  next
    have "inj_on (mmu s' (pmem s')) A" using own inj_on_subset unfolding owned_def by blast
    then have "inj_on (translate p (pmem s')) A" using same inj_on_cong [of A "translate p (pmem s')" "mmu s' (pmem s')"] by simp
    then show "inj_on (mmu (s'\<lparr>cr3_reg := p\<rparr>) (pmem (s'\<lparr>cr3_reg := p\<rparr>))) A" by simp
  qed
  moreover have "seen (s'\<lparr>cr3_reg := p\<rparr>) a = m a" if "a \<in> A" for a
    using kheap same [OF that] that by (simp add: heap_def seen_at seen_def [of s'])
  ultimately have "spaces ?r p s' T' (T'(3 := {p})) ps' k A {} m"
    using kheap nt s'(1) unfolding spaces_def s'r by simp
  moreover have "create_new_user_pml4 p t s1 = Some (?v, s')"
    using n(2,3) bind_pair [OF e(1), of ?v] by (simp add: create_new_user_pml4_def new_pml4_def Let_def)
  moreover have "same_globals (s\<lparr>top_virtual_address := ?v + 4096\<rparr>) s'"
    by (subst e(2)) (use n(9) in \<open>simp add: same_globals_def\<close>)
  ultimately show thesis using that n(1,4) by blast
qed

end
