(* ===== verification/ProcessImage.thy ===== *)
theory ProcessImage
  imports Process Spaces
begin

text \<open>
  The address space create_process builds: the kernel's half is shared, the pages of each
  file area hold the bytes from eight times p_offset behind the header on, the stack is
  mapped, and nothing else is outside the kernel's half and the recursive slot; the kernel's
  own space and heap are as before, but for the new blocks.
\<close>

section \<open>Copying\<close>

context flat_memory
begin

lemma copy_flat:
  "\<lbrakk>flat s m; region src n \<subseteq> A; region dst n \<subseteq> A; region src n \<inter> region dst n = {}; n < 2 ^ 64\<rbrakk> \<Longrightarrow>
    \<exists>s' m'. copy_loop n dst src s = Some s' \<and> s' = s\<lparr>pmem := pmem s'\<rparr> \<and> flat s' m' \<and>
      (\<forall>i < n. m' (dst + of_nat i) = m (src + of_nat i)) \<and> (\<forall>b. b \<notin> region dst n \<longrightarrow> m' b = m b)"
proof (induction n arbitrary: s m src dst)
  case 0
  then show ?case by auto
next
  case (Suc n)
  have here: "src \<in> region src (Suc n)" "dst \<in> region dst (Suc n)" by (simp_all add: region_def)
  note sub = region_next [of src n] region_next [of dst n]
  obtain s1 where s1: "put8 s dst (m src) = Some s1" "s1 = s\<lparr>pmem := pmem s1\<rparr>" "flat s1 (m(dst := m src))"
    using put_flat(1) [OF Suc.prems(1), of dst "m src"] here Suc.prems(3) by blast
  have "region (src + 1) n \<subseteq> A" "region (dst + 1) n \<subseteq> A" "region (src + 1) n \<inter> region (dst + 1) n = {}" "n < 2 ^ 64"
    using sub Suc.prems(2-5) by (blast, blast, blast, simp)
  from Suc.IH [OF s1(3) this] obtain s2 m2 where s2: "copy_loop n (dst + 1) (src + 1) s1 = Some s2" "s2 = s1\<lparr>pmem := pmem s2\<rparr>"
    "flat s2 m2" "\<forall>i < n. m2 (dst + 1 + of_nat i) = (m(dst := m src)) (src + 1 + of_nat i)"
    "\<forall>b. b \<notin> region (dst + 1) n \<longrightarrow> m2 b = (m(dst := m src)) b" by blast
  have "get8 s src = Some (m src)" using get_flat(1) [OF Suc.prems(1), of src] here Suc.prems(2) by blast
  then have "copy_loop (Suc n) dst src s = Some s2" using s1(1) s2(1) by simp
  moreover have "s2 = s\<lparr>pmem := pmem s2\<rparr>" by (subst s2(2), subst s1(2)) simp
  moreover have "m2 (dst + of_nat i) = m (src + of_nat i)" if i: "i < Suc n" for i
  proof (cases i)
    case 0
    have "unat (- 1 :: u64) = 2 ^ 64 - 1" unfolding unsigned_minus_1_eq_mask by (simp add: mask_eq_exp_minus_1)
    then have "dst \<notin> region (dst + 1) n" using Suc.prems(5) by (simp add: region_def)
    then show ?thesis using s2(5) 0 by simp
  next
    case (Suc j)
    have "src + of_nat i \<noteq> dst"
      using region_offset [of i src "Suc n"] i here Suc.prems(4,5) by auto
    then show ?thesis using s2(4) [rule_format, of j] Suc i by (simp add: add.assoc)
  qed
  moreover have "m2 b = m b" if "b \<notin> region dst (Suc n)" for b
  proof -
    have "b \<noteq> dst" "b \<notin> region (dst + 1) n" using that here sub by blast+
    then show ?thesis using s2(5) by simp
  qed
  ultimately show ?case using s2(3) by blast
qed

end

section \<open>Printing, and what else leaves the spaces alone\<close>

lemma screen_cr3: "s\<lparr>screen := c, cr3_reg := r\<rparr> = s\<lparr>cr3_reg := r, screen := c\<rparr>"
  by (cases s) simp

lemma screen_frame:
  "paging_inv (s\<lparr>screen := c\<rparr>) T ps = paging_inv s T ps" "owned (s\<lparr>screen := c\<rparr>) T ps A = owned s T ps A"
  "isolated (s\<lparr>screen := c\<rparr>) T ps X = isolated s T ps X" "kernel_half (s\<lparr>screen := c\<rparr>) ps k = kernel_half s ps k"
  "mappable (s\<lparr>screen := c\<rparr>) v = mappable s v"
  by (simp_all add: paging_inv_def kernel_list_def owned_def isolated_def kernel_half_def mappable_def)

lemma seen_screen': "seen (s\<lparr>screen := c\<rparr>) = seen s"
  by (rule ext) (simp add: seen_def split: option.split)

lemma spaces_screen [simp]: "spaces r p (s\<lparr>screen := c\<rparr>) T P ps k A U m = spaces r p s T P ps k A U m"
  by (simp add: spaces_def screen_cr3 heap_def room_def screen_frame seen_screen')

lemma procs_cr3: "s\<lparr>procs := c, cr3_reg := r\<rparr> = s\<lparr>cr3_reg := r, procs := c\<rparr>"
  by (cases s) simp

lemma procs_frame:
  "paging_inv (s\<lparr>procs := c\<rparr>) T ps = paging_inv s T ps" "owned (s\<lparr>procs := c\<rparr>) T ps A = owned s T ps A"
  "isolated (s\<lparr>procs := c\<rparr>) T ps X = isolated s T ps X" "kernel_half (s\<lparr>procs := c\<rparr>) ps k = kernel_half s ps k"
  "mappable (s\<lparr>procs := c\<rparr>) v = mappable s v"
  by (simp_all add: paging_inv_def kernel_list_def owned_def isolated_def kernel_half_def mappable_def)

lemma seen_procs': "seen (s\<lparr>procs := c\<rparr>) = seen s"
  by (rule ext) (simp add: seen_def split: option.split)

lemma spaces_procs [simp]: "spaces r p (s\<lparr>procs := c\<rparr>) T P ps k A U m = spaces r p s T P ps k A U m"
  by (simp add: spaces_def procs_cr3 heap_def room_def procs_frame seen_procs')

lemma grown_cr3: "grown n (s\<lparr>cr3_reg := c\<rparr>) s' \<Longrightarrow> cr3_reg s = r \<Longrightarrow> grown n s (s'\<lparr>cr3_reg := r\<rparr>)"
  by (simp add: grown_def)

lemma grown_same_globals: "same_globals s s' \<Longrightarrow> grown 0 s s'"
  by (cases s, cases s') (simp add: grown_def same_globals_def)

section \<open>Pages\<close>

lemma page_align_page_of: "page_align a = page_of a"
  by (simp add: page_align_def page_of_div)

lemma page_of_page_of [simp]: "page_of (page_of a) = page_of a"
  by (simp add: page_of_def and.assoc)

lemma round_up_pages: "unat (round_up a) = 4096 * unat (no_of_pages (round_up a))"
proof -
  have m: "unat (w mod 4096) = unat w mod 4096" "unat (w div 4096) = unat w div 4096" for w :: u64
    by (simp_all add: unat_mod unat_div)
  have "unat (round_up a) mod 4096 = 0"
  proof (cases "a mod 4096 = 0")
    case True
    then have "round_up a = page_of a" by (simp add: round_up_def page_of_div)
    then have "page_of (round_up a) = round_up a" by simp
    then show ?thesis by (simp add: page_aligned_iff)
  next
    case False
    then have "round_up a = page_of a + 4096 * 1" by (simp add: round_up_def page_of_div)
    then have "page_of (round_up a) = round_up a" using page_of_add [of "page_of a" 1] by simp
    then show ?thesis by (simp add: page_aligned_iff)
  qed
  then have z: "unat (round_up a) mod 4096 = 0" .
  then have "round_up a mod 4096 = 0" using m(1) [of "round_up a"] by (simp only: unat_eq_0)
  then have "no_of_pages (round_up a) = round_up a div 4096" by (simp add: no_of_pages_def)
  then have "unat (no_of_pages (round_up a)) = unat (round_up a) div 4096" using m(2) [of "round_up a"] by simp
  then show ?thesis using z mult_div_mod_eq [of 4096 "unat (round_up a)"] by simp
qed

lemma region_pages:
  assumes "page_of v = v" "n < 2 ^ 52"
  shows "region v (4096 * n) \<subseteq> block v n"
proof
  fix b assume "b \<in> region v (4096 * n)"
  then obtain i where i: "i < 4096 * n" "b = v + of_nat i" by (auto elim: regionE)
  let ?q = "i div 4096"
  have "of_nat i = (of_nat (4096 * ?q + i mod 4096) :: u64)" by simp
  then have "b = (v + 4096 * of_nat ?q) + of_nat (i mod 4096)" unfolding i(2) of_nat_add of_nat_mult by (simp add: add.assoc)
  then have "page_of b = v + 4096 * of_nat ?q"
    using page_of_region [OF page_of_add [OF assms(1), of "of_nat ?q"], of "i mod 4096"] by simp
  moreover have "?q < n" using i(1) by (simp add: less_mult_imp_div_less mult.commute)
  ultimately show "b \<in> block v n" unfolding block_def page_range_def by blast
qed

section \<open>A file area\<close>

text \<open>The screen after a message whose arguments are numbers.\<close>

definition printed :: "string \<Rightarrow> u64 list \<Rightarrow> 'a loader_scheme \<Rightarrow> console" where
  "printed fmt args s = screen (the (say fmt args s))"

lemma say_printed: "numbers_format (map of_char fmt) (length args) \<Longrightarrow> say fmt args s = Some (s\<lparr>screen := printed fmt args s\<rparr>)"
  using say_numbers [of fmt args s] by (auto simp: printed_def)

lemma grown_printed [simp]: "grown n s (s'\<lparr>screen := c\<rparr>) = grown n s s'" "grown n (s\<lparr>screen := c\<rparr>) s' = grown n s s'"
  by (simp_all add: grown_def)

lemma map_file_area_ok:
  fixes s :: "'a loader_scheme"
  assumes sp: "spaces r p s T P ps (n + k) A U m" "cr3_reg s = r"
    and area: "region temp 56 \<subseteq> A" "area_at m temp (File_area vs ve off)" and head: "region head 176 \<subseteq> A"
    and n: "n = unat (no_of_pages (round_up (ve - page_align vs)))" "0 < n" "n < 2 ^ 52"
    and pages: "\<forall>va \<in> page_range (page_align vs) n. canonical va \<and> index 3 va \<noteq> 510 \<and> index 3 va \<noteq> 511"
      "block (page_align vs) n \<inter> U = {}"
    and src: "region (load64 m (mm_elf_head head) + 8 * off) (4096 * n) \<subseteq> A"
  obtains s' P' ps' m' where "map_file_area head p r temp s = Some s'"
    "spaces r p s' T P' ps' k A (U \<union> block (page_align vs) n) m'" "\<forall>a \<in> A \<union> U. m' a = m a"
    "\<forall>i < 4096 * n. m' (page_align vs + of_nat i) = m (load64 m (mm_elf_head head) + 8 * off + of_nat i)" "grown 0 s s'"
proof -
  let ?v = "page_align vs" let ?size = "round_up (ve - page_align vs)" let ?B = "block ?v n"
  let ?elf = "load64 m (mm_elf_head head)" let ?o = "?elf + 8 * off"
  let ?s1 = "set_cr3 p s"
  have s1: "spaces r p ?s1 T P ps (n + k) A U m" "cr3_reg ?s1 = p" using sp by (simp_all add: set_cr3_def)
  have v: "page_of ?v = ?v" by (simp add: page_align_page_of)
  note f = vm_regions [OF area(1)]
  have hr: "region (mm_elf_head head) 8 \<subseteq> A" using region_shift [of 160 8 176 head] head by (auto simp: mm_elf_head_def)
  have get1: "get64 ?s1 (vm_start temp) = Some vs" "get64 ?s1 (vm_end temp) = Some ve"
    using spaces_memory.get_flat(4) [OF conjI [OF s1]] f(1,2) area(2) by auto
  from spaces_map [OF s1 v pages n(1)] obtain s2 P2 ps2 m2 where s2:
    "kmalloc_top_virtual_address_user ?size ?v ?s1 = Some (?v, s2)" "spaces r p s2 T P2 ps2 k A (U \<union> ?B) m2"
    "\<forall>a \<in> A \<union> U. m2 a = m a" "(A \<union> U) \<inter> ?B = {}" "same_globals ?s1 s2" by blast
  have c2: "cr3_reg s2 = p" using s2(5) s1(2) by (simp add: same_globals_def)
  have m2: "load64 m2 (mm_elf_head head) = ?elf" "load64 m2 (vm_offset temp) = off"
    using load_bytes_on [OF s2(3) le_supI1, of _ 8] hr f(3) area(2) by (simp_all add: load64_def)
  have get2: "get64 (s2\<lparr>screen := c\<rparr>) (mm_elf_head head) = Some ?elf" "get64 (s2\<lparr>screen := c\<rparr>) (vm_offset temp) = Some off" for c
    using spaces_memory.get_flat(4) [of r p "s2\<lparr>screen := c\<rparr>" T P2 ps2 k A "U \<union> ?B" m2] s2(2) c2 le_supI1 [OF hr] le_supI1 [OF f(3)] m2
    by simp_all
  have get2': "get64 s2 (mm_elf_head head) = Some ?elf" "get64 s2 (vm_offset temp) = Some off"
    using spaces_memory.get_flat(4) [of r p s2 T P2 ps2 k A "U \<union> ?B" m2] s2(2) c2 le_supI1 [OF hr] le_supI1 [OF f(3)] m2
    by simp_all
  have dst: "region ?v (4096 * n) \<subseteq> ?B" by (rule region_pages [OF v n(3)])
  have sub: "region ?o (4096 * n) \<subseteq> A \<union> (U \<union> ?B)" "region ?v (4096 * n) \<subseteq> A \<union> (U \<union> ?B)"
    "region ?o (4096 * n) \<inter> region ?v (4096 * n) = {}" "4096 * n < 2 ^ 64" using src dst s2(4) n(3) by (blast, blast, blast, simp)
  define t where "t = s2\<lparr>screen := printed (''vm_size = %p'' @ [CHR 0x0A]) [?size] (s2\<lparr>screen :=
    printed (''temp->vm_offset = %p'' @ [CHR 0x0A]) [off] (s2\<lparr>screen := printed (''head->elf_head = %p'' @ [CHR 0x0A]) [?elf]
      (s2\<lparr>screen := printed (''offset = %p'' @ [CHR 0x0A]) [?o] s2\<rparr>)\<rparr>)\<rparr>)\<rparr>"
  have t: "spaces r p t T P2 ps2 k A (U \<union> ?B) m2 \<and> cr3_reg t = p" unfolding t_def using s2(2) c2 by simp
  from spaces_memory.copy_flat [OF t sub] obtain s3 m3 where s3: "copy_loop (4096 * n) ?v ?o t = Some s3"
    "s3 = t\<lparr>pmem := pmem s3\<rparr>" "spaces r p s3 T P2 ps2 k A (U \<union> ?B) m3" "cr3_reg s3 = p"
    "\<forall>i < 4096 * n. m3 (?v + of_nat i) = m2 (?o + of_nat i)" "\<forall>b. b \<notin> region ?v (4096 * n) \<longrightarrow> m3 b = m2 b" by blast
  have bytes: "get8 (s3\<lparr>screen := c\<rparr>) (?v + 1) = Some (m3 (?v + 1))" "get8 (s3\<lparr>screen := c\<rparr>) (?v + 2) = Some (m3 (?v + 2))" for c
  proof -
    have "?v + of_nat 1 \<in> ?B" "?v + of_nat 2 \<in> ?B"
      using dst region_offset [of 1 ?v "4096 * n"] region_offset [of 2 ?v "4096 * n"] n(2) by auto
    then show "get8 (s3\<lparr>screen := c\<rparr>) (?v + 1) = Some (m3 (?v + 1))" "get8 (s3\<lparr>screen := c\<rparr>) (?v + 2) = Some (m3 (?v + 2))"
      using spaces_memory.get_flat(1) [of r p "s3\<lparr>screen := c\<rparr>" T P2 ps2 k A "U \<union> ?B" m3] s3(3,4) by auto
  qed
  have size: "unat ?size = 4096 * n" using round_up_pages [of "ve - page_align vs"] n(1) by simp
  obtain c where c: "map_file_area head p r temp s = Some (set_cr3 r (s3\<lparr>screen := c\<rparr>))"
    unfolding map_file_area_def Let_def
    using get1 s2(1) get2 get2' s3(1) [unfolded t_def] bytes size
    by (simp add: say_printed)
  have "grown 0 ?s1 s2" by (rule grown_same_globals [OF s2(5)])
  moreover have "grown 0 t s3" by (rule grown_0(2) [OF s3(2)])
  ultimately have "grown 0 ?s1 s3" using grown_trans [of 0 ?s1 s2 0 s3] unfolding t_def by simp
  then have g: "grown 0 s (set_cr3 r (s3\<lparr>screen := c\<rparr>))" using grown_cr3 [of 0 p s s3] sp(2) by (simp add: set_cr3_def grown_def)
  have keep: "\<forall>a \<in> A \<union> U. m3 a = m a"
  proof
    fix a assume a: "a \<in> A \<union> U"
    then have "a \<notin> region ?v (4096 * n)" using dst s2(4) by blast
    then show "m3 a = m a" using s3(6) s2(3) a by simp
  qed
  have img: "\<forall>i < 4096 * n. m3 (?v + of_nat i) = m (?o + of_nat i)"
  proof (intro allI impI)
    fix i assume i: "i < 4096 * n"
    then have "?o + of_nat i \<in> A" using src region_offset [of i ?o "4096 * n"] n(3) by auto
    then show "m3 (?v + of_nat i) = m (?o + of_nat i)" using s3(5) i s2(3) by simp
  qed
  show thesis
    by (rule that [OF c _ keep img g]) (use s3(3) in \<open>simp add: set_cr3_def\<close>)
qed

section \<open>The stack\<close>

text \<open>The page create_process maps as the stack, and the top it gives the process.\<close>

abbreviation stack_page :: "u64 \<Rightarrow> u64" where "stack_page st \<equiv> st - PAGESIZE + 8"

definition set_pcb :: "u64 \<Rightarrow> (pcb \<Rightarrow> pcb) \<Rightarrow> sched \<Rightarrow> sched" where
  "set_pcb p f q = q\<lparr>pcbs := (pcbs q)(p := f (pcbs q p))\<rparr>"

lemma edit_pcb_set: "p \<noteq> 0 \<Longrightarrow> edit_pcb p f s = Some (s\<lparr>procs := set_pcb p f (procs s)\<rparr>)"
  by (simp add: edit_pcb_def set_pcb_def)

lemma set_pcb_at [simp]: "pcbs (set_pcb p f q) p = f (pcbs q p)"
  by (simp add: set_pcb_def)

lemma stack_area_writes:
  "writes temp 56 m (store64 (store64 m (vm_start temp) x) (vm_end temp) y)"
  "load64 (store64 (store64 m (vm_start temp) x) (vm_end temp) y) (vm_next temp) = load64 m (vm_next temp)"
  "load32 (store64 (store64 m (vm_start temp) x) (vm_end temp) y) (vm_type temp) = load32 m (vm_type temp)"
proof -
  show "writes temp 56 m (store64 (store64 m (vm_start temp) x) (vm_end temp) y)"
    unfolding vm_fields by (rule writes_trans [OF writes_field(1) writes_field(1)]) simp_all
qed (simp_all add: vm_fields mem_simps sep8_def)

lemma map_stack_area_ok:
  fixes s :: "'a system_scheme"
  assumes sp: "spaces r p s T P ps (1 + k) A U m" "cr3_reg s = r" and area: "region temp 56 \<subseteq> A" and np: "np \<noteq> 0"
    and ust: "paging_user_stack_top s = st" and page: "page_of (stack_page st) = stack_page st"
      "canonical (stack_page st)" "index 3 (stack_page st) \<noteq> 510" "index 3 (stack_page st) \<noteq> 511"
      "block (stack_page st) 1 \<inter> U = {}"
  obtains s' P' ps' m' where "map_stack_area np p r temp s = Some s'"
    "spaces r p s' T P' ps' k A (U \<union> block (stack_page st) 1) m'"
    "\<forall>a \<in> A \<union> U. a \<notin> region temp 56 \<longrightarrow> m' a = m a"
    "load64 m' (vm_next temp) = load64 m (vm_next temp)" "load32 m' (vm_type temp) = load32 m (vm_type temp)"
    "grown 0 (s\<lparr>procs := set_pcb np (\<lambda>q. q\<lparr>pstack := st - 64\<rparr>) (procs s)\<rparr>) s'"
proof -
  let ?v = "stack_page st" let ?B = "block ?v 1" let ?q = "set_pcb np (\<lambda>q. q\<lparr>pstack := st - 64\<rparr>) (procs s)"
  let ?s1 = "set_cr3 p s"
  let ?t1 = "?s1\<lparr>screen := printed (''paging_user_stack_top = %p'' @ [CHR 0x0A]) [st] ?s1\<rparr>"
  have t1: "spaces r p ?t1 T P ps (1 + k) A U m" "cr3_reg ?t1 = p" using sp by (simp_all add: set_cr3_def)
  have pages: "\<forall>va \<in> page_range ?v 1. canonical va \<and> index 3 va \<noteq> 510 \<and> index 3 va \<noteq> 511"
    using page(2-4) by (simp add: page_range_def lessThan_Suc)
  have n: "1 = unat (no_of_pages PAGESIZE)" by (simp add: no_of_pages_def)
  from spaces_map [OF t1 page(1) pages page(5) n] obtain s2 P2 ps2 m2 where s2:
    "kmalloc_top_virtual_address_user PAGESIZE ?v ?t1 = Some (?v, s2)" "spaces r p s2 T P2 ps2 k A (U \<union> ?B) m2"
    "\<forall>a \<in> A \<union> U. m2 a = m a" "(A \<union> U) \<inter> ?B = {}" "same_globals ?t1 s2" by blast
  have g2: "cr3_reg s2 = p" "paging_user_stack_top s2 = st" "procs s2 = procs s"
  proof -
    show "cr3_reg s2 = p" "paging_user_stack_top s2 = st" using s2(5) t1(2) ust by (simp_all add: same_globals_def set_cr3_def)
    have "paging.more s2 = paging.more ?t1" using s2(5) by (simp add: same_globals_def)
    then show "procs s2 = procs s" by (cases s2, cases s) (simp add: set_cr3_def)
  qed
  define t3 where "t3 = (s2\<lparr>screen := printed (''paging_user_stack_top = %p'' @ [CHR 0x0A]) [st] (s2\<lparr>screen :=
    printed (''new_stack = %p'' @ [CHR 0x0A]) [?v] s2\<rparr>)\<rparr>)\<lparr>procs := ?q\<rparr>"
  define t4 where "t4 = t3\<lparr>screen := printed (''new_process->pstack = %p, [-100] = %p'' @ [CHR 0x0A]) [st - 64, st - 64 - 800] t3\<rparr>"
  have t4: "spaces r p t4 T P2 ps2 k A (U \<union> ?B) m2 \<and> cr3_reg t4 = p" unfolding t4_def t3_def using s2(2) g2(1) by simp
  note f = vm_regions [OF area]
  obtain s5 where s5: "put64 t4 (vm_start temp) (st - 64) = Some s5" "s5 = t4\<lparr>pmem := pmem s5\<rparr>"
    "spaces r p s5 T P2 ps2 k A (U \<union> ?B) (store64 m2 (vm_start temp) (st - 64)) \<and> cr3_reg s5 = p"
    using spaces_memory.put_flat(3) [OF t4 le_supI1 [OF f(1)]] by blast
  obtain s6 where s6: "put64 s5 (vm_end temp) (st - 64 + 8 * (512 * 3 - 1)) = Some s6" "s6 = s5\<lparr>pmem := pmem s6\<rparr>"
    "spaces r p s6 T P2 ps2 k A (U \<union> ?B) (store64 (store64 m2 (vm_start temp) (st - 64)) (vm_end temp) (st - 64 + 8 * (512 * 3 - 1))) \<and> cr3_reg s6 = p"
    (is "spaces _ _ _ _ _ _ _ _ _ ?m6 \<and> _")
    using spaces_memory.put_flat(3) [OF s5(3) le_supI1 [OF f(2)]] by blast
  have "region (?v + of_nat 3224) 8 \<subseteq> ?B" using region_block [OF page(1), of 4096 1] region_shift [of 3224 8 4096 ?v] by auto
  moreover have "?v + of_nat 3224 = st - 64 - 800" by simp
  ultimately have word: "get64 s6 (st - 64 - 800) = Some (load64 ?m6 (st - 64 - 800))"
    using spaces_memory.get_flat(4) [OF s6(3)] by auto
  obtain c where c: "map_stack_area np p r temp s = Some (set_cr3 r (s6\<lparr>screen := c\<rparr>))"
    unfolding map_stack_area_def Let_def
    using s2(1) s5(1) s6(1) word ust g2 np unfolding t4_def t3_def
    by (simp add: say_printed edit_pcb_set pcb_at_def set_cr3_def)
  have same: "?m6 a = m a" if "a \<in> A \<union> U" "a \<notin> region temp 56" for a
    using stack_area_writes(1) that s2(3) unfolding writes_def by (simp add: region_def)
  have l: "load64 m2 (vm_next temp) = load64 m (vm_next temp)" "load32 m2 (vm_type temp) = load32 m (vm_type temp)"
    using load_bytes_on [OF s2(3) le_supI1, of "vm_next temp" 8] load_bytes_on [OF s2(3) le_supI1, of "vm_type temp" 4] f(4,5)
    by (simp_all add: load64_def load32_def)
  have "grown 0 ?t1 s2" by (rule grown_same_globals [OF s2(5)])
  then have "grown 0 (?s1\<lparr>procs := ?q\<rparr>) t4" unfolding t4_def t3_def by (cases s2, cases s) (simp add: grown_def set_cr3_def)
  then have "grown 0 (?s1\<lparr>procs := ?q\<rparr>) s6"
    using grown_trans [of 0 "?s1\<lparr>procs := ?q\<rparr>" s5 0 s6] grown_trans [of 0 "?s1\<lparr>procs := ?q\<rparr>" t4 0 s5] grown_0(2) [OF s5(2)] grown_0(2) [OF s6(2)]
    by simp
  then have g: "grown 0 (s\<lparr>procs := ?q\<rparr>) (set_cr3 r (s6\<lparr>screen := c\<rparr>))"
    using grown_cr3 [of 0 p "s\<lparr>procs := ?q\<rparr>" s6] sp(2) by (simp add: set_cr3_def procs_cr3 [symmetric] grown_def)
  show thesis
    by (rule that [of _ P2 ps2 ?m6, OF c _ _ _ _ g]) (use s6(3) same stack_area_writes(2,3) l in \<open>simp_all add: set_cr3_def\<close>)
qed

section \<open>The areas of a list\<close>

text \<open>The pages of an area, whether they can be mapped, and what the process finds there.\<close>

fun area_start :: "u64 \<Rightarrow> area \<Rightarrow> u64" where
  "area_start st (File_area start end' offset) = page_align start"
| "area_start st Stack_area = stack_page st"
| "area_start st Heap_area = 0"

fun area_count :: "area \<Rightarrow> nat" where
  "area_count (File_area start end' offset) = unat (no_of_pages (round_up (end' - page_align start)))"
| "area_count Stack_area = 1"
| "area_count Heap_area = 0"

definition area_block :: "u64 \<Rightarrow> area \<Rightarrow> u64 set" where
  "area_block st x = block (area_start st x) (area_count x)"

fun file_bytes :: "u64 \<Rightarrow> area \<Rightarrow> u64 set" where
  "file_bytes elf (File_area start end' offset) = region (elf + 8 * offset) (4096 * area_count (File_area start end' offset))"
| "file_bytes elf Stack_area = {}"
| "file_bytes elf Heap_area = {}"

definition area_fits :: "u64 \<Rightarrow> u64 set \<Rightarrow> u64 \<Rightarrow> area \<Rightarrow> bool" where
  "area_fits elf E st x \<longleftrightarrow> (x \<noteq> Heap_area \<longrightarrow> 0 < area_count x) \<and> page_of (area_start st x) = area_start st x \<and>
     file_bytes elf x \<subseteq> E \<and>
     (\<forall>va \<in> page_range (area_start st x) (area_count x). canonical va \<and> index 3 va \<noteq> 510 \<and> index 3 va \<noteq> 511)"

text \<open>
  What the copying of create_process leaves in the pages of an area: \<open>elf_head\<close> is a pointer
  to 64-bit words, so \<open>elf_head + vm_offset\<close> is eight times the offset behind the header.
\<close>

fun image :: "u64 \<Rightarrow> mem \<Rightarrow> mem \<Rightarrow> area \<Rightarrow> bool" where
  "image elf m m' (File_area start end' offset) \<longleftrightarrow> (\<forall>i < 4096 * area_count (File_area start end' offset).
     m' (page_align start + of_nat i) = m (elf + 8 * offset + of_nat i))"
| "image elf m m' Stack_area \<longleftrightarrow> True"
| "image elf m m' Heap_area \<longleftrightarrow> True"

primrec areas_apart :: "u64 \<Rightarrow> u64 set \<Rightarrow> area list \<Rightarrow> bool" where
  "areas_apart st U [] \<longleftrightarrow> True"
| "areas_apart st U (x # xs) \<longleftrightarrow> area_block st x \<inter> U = {} \<and> areas_apart st (U \<union> area_block st x) xs"

definition with_stack :: "u64 \<Rightarrow> u64 \<Rightarrow> area \<Rightarrow> sched \<Rightarrow> sched" where
  "with_stack np st x q = (if x = Stack_area then set_pcb np (\<lambda>q. q\<lparr>pstack := st - 64\<rparr>) q else q)"

lemma user_block:
  assumes "area_fits elf E st x" "a \<in> area_block st x"
  shows "index 3 a \<noteq> 510" "index 3 a \<noteq> 511"
proof -
  have p: "page_of a \<in> page_range (area_start st x) (area_count x)" using assms(2) by (simp add: area_block_def block_def)
  have "page_of (page_of a) = page_of a" by simp
  from same_page [OF this, of 3] show "index 3 a \<noteq> 510" "index 3 a \<noteq> 511" using assms(1) p unfolding area_fits_def by auto
qed

definition area_body :: "u64 \<Rightarrow> u64 \<Rightarrow> u64 \<Rightarrow> u64 \<Rightarrow> u64 \<Rightarrow> cint \<Rightarrow> 'a system_scheme \<Rightarrow> 'a system_scheme option" where
  "area_body np head p r temp t s = (if t = TYPE_FILE then map_file_area head p r temp s
     else if t = TYPE_STACK then map_stack_area np p r temp s else Some s)"

lemma area_body_ok:
  fixes s :: "'a system_scheme"
  assumes sp: "spaces r p s T P ps (area_count x + k) A U m" "cr3_reg s = r" and np: "np \<noteq> 0"
    and ust: "paging_user_stack_top s = st" and area: "region temp 56 \<subseteq> A" "area_at m temp x"
    and head: "region head 176 \<subseteq> A" "load64 m (mm_elf_head head) = elf"
    and fits: "area_fits elf E st x" "E \<subseteq> A" and apart: "area_block st x \<inter> U = {}" and small: "area_count x < 2 ^ 52"
  obtains s' P' ps' m' where "area_body np head p r temp (load32 m (vm_type temp)) s = Some s'"
    "spaces r p s' T P' ps' k A (U \<union> area_block st x) m'" "\<forall>a \<in> A \<union> U. a \<notin> region temp 56 \<longrightarrow> m' a = m a"
    "load64 m' (vm_next temp) = load64 m (vm_next temp)" "load32 m' (vm_type temp) = load32 m (vm_type temp)"
    "image elf m m' x" "grown 0 (s\<lparr>procs := with_stack np st x (procs s)\<rparr>) s'"
proof (cases x)
  case (File_area vs ve off)
  let ?n = "area_count x"
  have n: "?n = unat (no_of_pages (round_up (ve - page_align vs)))" using File_area by simp
  have f: "0 < ?n" "region (load64 m (mm_elf_head head) + 8 * off) (4096 * ?n) \<subseteq> A"
    "\<forall>va \<in> page_range (page_align vs) ?n. canonical va \<and> index 3 va \<noteq> 510 \<and> index 3 va \<noteq> 511"
    using fits head(2) File_area by (auto simp: area_fits_def)
  have b: "block (page_align vs) ?n \<inter> U = {}" using apart File_area by (simp add: area_block_def)
  have at: "area_at m temp (File_area vs ve off)" using area(2) File_area by simp
  obtain s' P' ps' m' where s': "map_file_area head p r temp s = Some s'"
    "spaces r p s' T P' ps' k A (U \<union> block (page_align vs) ?n) m'" "\<forall>a \<in> A \<union> U. m' a = m a"
    "\<forall>i < 4096 * ?n. m' (page_align vs + of_nat i) = m (load64 m (mm_elf_head head) + 8 * off + of_nat i)" "grown 0 s s'"
    by (rule map_file_area_ok [OF sp area(1) at head(1) n f(1) small f(3) b f(2)])
  have l: "load64 m' (vm_next temp) = load64 m (vm_next temp)" "load32 m' (vm_type temp) = load32 m (vm_type temp)"
    using load_bytes_on [OF s'(3) le_supI1, of "vm_next temp" 8] load_bytes_on [OF s'(3) le_supI1, of "vm_type temp" 4] vm_regions(4,5) [OF area(1)]
    by (simp_all add: load64_def load32_def)
  show thesis
    by (rule that [of s' P' ps' m'])
      (use s' l at head(2) File_area in \<open>simp_all add: area_body_def area_block_def with_stack_def\<close>)
next
  case Stack_area
  have one: "spaces r p s T P ps (1 + k) A U m" using sp(1) Stack_area by simp
  have f: "page_of (stack_page st) = stack_page st" "canonical (stack_page st)" "index 3 (stack_page st) \<noteq> 510" "index 3 (stack_page st) \<noteq> 511"
    using fits(1) Stack_area by (simp_all add: area_fits_def page_range_def lessThan_Suc)
  have b: "block (stack_page st) 1 \<inter> U = {}" using apart Stack_area by (simp add: area_block_def)
  obtain s' P' ps' m' where s': "map_stack_area np p r temp s = Some s'"
    "spaces r p s' T P' ps' k A (U \<union> block (stack_page st) 1) m'"
    "\<forall>a \<in> A \<union> U. a \<notin> region temp 56 \<longrightarrow> m' a = m a"
    "load64 m' (vm_next temp) = load64 m (vm_next temp)" "load32 m' (vm_type temp) = load32 m (vm_type temp)"
    "grown 0 (s\<lparr>procs := set_pcb np (\<lambda>q. q\<lparr>pstack := st - 64\<rparr>) (procs s)\<rparr>) s'"
    by (rule map_stack_area_ok [OF one sp(2) area(1) np ust f b])
  show thesis
    by (rule that [of s' P' ps' m']) (use s' area(2) Stack_area in \<open>simp_all add: area_body_def area_block_def with_stack_def\<close>)
next
  case Heap_area
  have e: "area_block st x = {}" using Heap_area by (simp add: area_block_def block_def page_range_def)
  show thesis
    by (rule that [of s P ps m]) (use sp area(2) Heap_area e in \<open>simp_all add: area_body_def with_stack_def grown_def\<close>)
qed

lemma image_cong:
  assumes "image elf m m' x" "area_fits elf E st x" "area_count x < 2 ^ 52"
    and "\<forall>a \<in> file_bytes elf x. n a = m a" "\<forall>a \<in> area_block st x. n' a = m' a"
  shows "image elf n n' x"
proof (cases x)
  case (File_area vs ve off)
  let ?c = "area_count x"
  have "page_of (page_align vs) = page_align vs" by (simp add: page_align_page_of)
  from region_pages [OF this assms(3)] have dst: "region (page_align vs) (4096 * ?c) \<subseteq> area_block st x"
    using File_area by (simp add: area_block_def)
  have "n' (page_align vs + of_nat i) = n (elf + 8 * off + of_nat i)" if i: "i < 4096 * ?c" for i
  proof -
    have lt: "i < 2 ^ 64" using i assms(3) by simp
    have a: "page_align vs + of_nat i \<in> area_block st x" using dst region_offset [OF lt] i by blast
    have b: "elf + 8 * off + of_nat i \<in> file_bytes elf x" using region_offset [OF lt, of "elf + 8 * off"] i File_area by simp
    have "m' (page_align vs + of_nat i) = m (elf + 8 * off + of_nat i)" using assms(1) i File_area by simp
    then show ?thesis using a b assms(4,5) by simp
  qed
  then show ?thesis using File_area by simp
qed simp_all

lemma grown_procs:
  "grown n (s\<lparr>procs := q\<rparr>) s' \<Longrightarrow> procs s' = q"
  "grown n (s\<lparr>procs := q\<rparr>) s' \<Longrightarrow> grown n (s\<lparr>procs := q'\<rparr>) (s'\<lparr>procs := q'\<rparr>)"
  by (cases s, cases s', simp add: grown_def)+

lemma map_areas_ok:
  fixes s :: "'a system_scheme"
  assumes "spaces r p s T P ps (sum_list (map area_count xs) + k) A U m" "cr3_reg s = r" and np: "np \<noteq> 0"
    and "paging_user_stack_top s = st" "area_seg m F temp xs 0" "F \<subseteq> A"
    and E: "E \<subseteq> A" and "E \<inter> F = {}"
    and head: "region head 176 \<subseteq> A" and "region head 176 \<inter> F = {}" "load64 m (mm_elf_head head) = elf"
    and "\<forall>x \<in> set xs. area_fits elf E st x \<and> area_count x < 2 ^ 52" "areas_apart st U xs"
  shows "\<exists>s' P' ps' m'. map_areas np head p r temp s = Some s' \<and>
    spaces r p s' T P' ps' k A (U \<union> \<Union> (area_block st ` set xs)) m' \<and> (\<forall>a \<in> A \<union> U. a \<notin> F \<longrightarrow> m' a = m a) \<and>
    (\<forall>x \<in> set xs. image elf m m' x) \<and> grown 0 (s\<lparr>procs := fold (with_stack np st) xs (procs s)\<rparr>) s'"
  using assms(1,2,4-6,8,10-13)
proof (induction xs arbitrary: s P ps U m F temp)
  case Nil
  then have "temp = 0" by simp
  then have "map_areas np head p r temp s = Some s" by (subst map_areas.simps) simp
  moreover have "grown 0 (s\<lparr>procs := fold (with_stack np st) [] (procs s)\<rparr>) s" by (simp add: grown_def)
  ultimately show ?case using Nil.prems(1) by (intro exI [of _ s] exI [of _ P] exI [of _ ps] exI [of _ m]) simp
next
  case (Cons x xs)
  note pr = Cons.prems
  let ?k = "sum_list (map area_count xs) + k" and ?R = "region temp 56"
  have seg: "temp \<noteq> 0" "?R \<subseteq> F" "area_at m temp x" "area_seg m (F - ?R) (load64 m (vm_next temp)) xs 0"
    using pr(4) by simp_all
  have R: "?R \<subseteq> A" using seg(2) pr(5) by blast
  have fit: "area_fits elf E st x" "area_count x < 2 ^ 52" using pr(9) by simp_all
  have ap: "area_block st x \<inter> U = {}" "areas_apart st (U \<union> area_block st x) xs" using pr(10) by simp_all
  have sp: "spaces r p s T P ps (area_count x + ?k) A U m" using pr(1) by (simp add: add.assoc)
  have "get32 (s\<lparr>cr3_reg := r\<rparr>) (vm_type temp) = Some (load32 m (vm_type temp))"
    by (rule heap_get(3) [OF spacesD(1) [OF sp] vm_regions(5) [OF R]])
  then have type1: "get32 s (vm_type temp) = Some (load32 m (vm_type temp))" using pr(2) by (cases s) simp
  obtain s1 P1 ps1 m1 where s1: "area_body np head p r temp (load32 m (vm_type temp)) s = Some s1"
    "spaces r p s1 T P1 ps1 ?k A (U \<union> area_block st x) m1" "\<forall>a \<in> A \<union> U. a \<notin> ?R \<longrightarrow> m1 a = m a"
    "load64 m1 (vm_next temp) = load64 m (vm_next temp)" "load32 m1 (vm_type temp) = load32 m (vm_type temp)"
    "image elf m m1 x" "grown 0 (s\<lparr>procs := with_stack np st x (procs s)\<rparr>) s1"
    by (rule area_body_ok [OF sp pr(2) np pr(3) R seg(3) head pr(8) fit(1) E ap(1) fit(2)])
  have g1: "cr3_reg s1 = r" "paging_user_stack_top s1 = st" using s1(7) pr(2,3) by (simp_all add: grown_def)
  note h1 = spacesD(1) [OF s1(2)]
  have "s1\<lparr>cr3_reg := r\<rparr> = s1" using g1(1) by (cases s1) simp
  then have h1: "heap s1 T ps1 ?k A m1" using spacesD(1) [OF s1(2)] by simp
  have type2: "get32 s1 (vm_type temp) = Some (load32 m (vm_type temp))"
    using heap_get(3) [OF h1 vm_regions(5) [OF R]] s1(5) by simp
  let ?f = "''vm_start = %d'' @ [CHR 0x0A]" let ?t = "scast (load32 m (vm_type temp)) :: u64"
  define s2 where "s2 = s1\<lparr>screen := printed ?f [?t] s1\<rparr>"
  have print: "say ?f [?t] s1 = Some s2" unfolding s2_def by (rule say_printed) simp
  have s2: "spaces r p s2 T P1 ps1 ?k A (U \<union> area_block st x) m1" "cr3_reg s2 = r" "paging_user_stack_top s2 = st"
    "procs s2 = with_stack np st x (procs s)" "heap s2 T ps1 ?k A m1"
    using s1(2) g1 h1 grown_procs(1) [OF s1(7)] by (simp_all add: s2_def)
  have next': "get64 s2 (vm_next temp) = Some (load64 m (vm_next temp))"
    using heap_get(4) [OF s2(5) vm_regions(4) [OF R]] s1(4) by simp
  have keep: "\<forall>a \<in> F - ?R. m1 a = m a" "\<forall>a \<in> region head 176. m1 a = m a" "\<forall>a \<in> E. m1 a = m a"
    using s1(3) pr(5,6,7) E head seg(2) by blast+
  have hr: "region (mm_elf_head head) 8 \<subseteq> region head 176" using region_shift [of 160 8 176 head] by (simp add: mm_elf_head_def)
  have elf1: "load64 m1 (mm_elf_head head) = elf" using load_bytes_on [OF keep(2) hr] pr(8) by (simp add: load64_def)
  have sub: "F - ?R \<subseteq> A" "E \<inter> (F - ?R) = {}" "region head 176 \<inter> (F - ?R) = {}" using pr(5,6,7) by blast+
  have fits: "\<forall>y \<in> set xs. area_fits elf E st y \<and> area_count y < 2 ^ 52" using pr(9) by simp
  obtain s3 P3 ps3 m3 where s3: "map_areas np head p r (load64 m (vm_next temp)) s2 = Some s3"
    "spaces r p s3 T P3 ps3 k A (U \<union> area_block st x \<union> \<Union> (area_block st ` set xs)) m3"
    "\<forall>a \<in> A \<union> (U \<union> area_block st x). a \<notin> F - ?R \<longrightarrow> m3 a = m1 a" "\<forall>y \<in> set xs. image elf m1 m3 y"
    "grown 0 (s2\<lparr>procs := fold (with_stack np st) xs (procs s2)\<rparr>) s3"
    using Cons.IH [OF s2(1-3) area_seg_cong [OF seg(4) keep(1)] sub elf1 fits ap(2)] by blast
  have "map_areas np head p r temp s = Some s3"
    using seg(1) type1 s1(1) type2 print next' s3(1) by (subst map_areas.simps) (simp add: area_body_def)
  moreover have "U \<union> area_block st x \<union> \<Union> (area_block st ` set xs) = U \<union> \<Union> (area_block st ` set (x # xs))" by auto
  moreover have "\<forall>a \<in> A \<union> U. a \<notin> F \<longrightarrow> m3 a = m a" using s3(3) s1(3) seg(2) by auto
  moreover have "image elf m m3 y" if y: "y \<in> set (x # xs)" for y
  proof (cases "y \<in> set xs")
    case True
    have "file_bytes elf y \<subseteq> E" using fits True unfolding area_fits_def by blast
    then have "\<forall>a \<in> file_bytes elf y. m a = m1 a" using keep(3) by auto
    then show ?thesis using image_cong [of elf m1 m3 y E st m m3] s3(4) fits True by blast
  next
    case False
    have "\<forall>a \<in> area_block st x. m3 a = m1 a"
    proof
      fix a assume a: "a \<in> area_block st x"
      then have "a \<notin> A" using user_block(2) [OF fit(1) a] spacesD(8) [OF s1(2)] by blast
      then show "m3 a = m1 a" using s3(3) a pr(5) by blast
    qed
    then show ?thesis using image_cong [OF s1(6) fit, of m m3] False y by simp
  qed
  moreover have "grown 0 (s\<lparr>procs := fold (with_stack np st) (x # xs) (procs s)\<rparr>) s3"
  proof -
    let ?q = "fold (with_stack np st) xs (with_stack np st x (procs s))"
    have "grown 0 (s\<lparr>procs := ?q\<rparr>) (s1\<lparr>procs := ?q\<rparr>)" by (rule grown_procs(2) [OF s1(7)])
    moreover have "grown 0 (s1\<lparr>procs := ?q\<rparr>) s3" using s3(5) unfolding s2(4) unfolding s2_def by (cases s1) (simp add: grown_def)
    ultimately show ?thesis using grown_trans [of 0 _ "s1\<lparr>procs := ?q\<rparr>" 0 s3] by simp
  qed
  ultimately show ?case using s3(2) by (intro exI [of _ s3] exI [of _ P3] exI [of _ ps3] exI [of _ m3]) simp
qed

section \<open>create_process\<close>

lemma set_pcb_again: "set_pcb p g (set_pcb p f q) = set_pcb p (g \<circ> f) q" by (simp add: set_pcb_def)

lemma fold_with_stack:
  "fold (with_stack np st) xs q = set_pcb np (\<lambda>c. if Stack_area \<in> set xs then c\<lparr>pstack := st - 64\<rparr> else c) q"
  by (induction xs arbitrary: q) (auto simp: with_stack_def set_pcb_def)

lemma heap_procs [simp]: "heap (s\<lparr>procs := c\<rparr>) T ps k A m = heap s T ps k A m"
  by (simp add: heap_def room_def procs_frame seen_procs')

lemma fresh_space:
  fixes s :: "'a system_scheme"
  assumes h: "heap s T ps (3 + (1 + k)) A m" and t: "top_virtual_address s = v"
  obtains p s1 s2 s3 T' P' ps' m' where "new_pcb s = Some (v, s1)" "get_next_free_page_kmalloc s1 = Some (p, s2)"
    "create_new_user_pml4 p (kernel_pml4_t s2) s2 = Some (v + 4096 * 3, s3)"
    "spaces (cr3_reg s) p s3 T' P' ps' k (A \<union> block v 3) {} m'" "is_frame p" "\<forall>a \<in> A. m' a = m a" "A \<inter> block v 3 = {}" "v \<noteq> 0"
    "grown 4 (s\<lparr>procs := set_pcb v (clear_pcb 522) (procs s)\<rparr>) s3"
proof -
  let ?q = "set_pcb v (clear_pcb 522) (procs s)"
  have n: "3 = unat (no_of_pages sizeof_pcb + 1)" by (simp add: no_of_pages_def)
  obtain s1 T1 ps1 m1 where s1: "kmalloc_user sizeof_pcb s = Some (v, s1)" "allocated 3 s (1 + k) A m s1 T1 ps1 m1"
    using heap_kmalloc_user [OF h n] t by blast
  have al: "heap s1 T1 ps1 (1 + k) (A \<union> block v 3) m1" "\<forall>a \<in> A. m1 a = m a" "A \<inter> block v 3 = {}" "grown 3 s s1"
    using s1(2) t by (auto simp: allocated_def intro: grown_allocated)
  have v: "v \<noteq> 0" using heap_room(6) [OF h] t by simp
  let ?s1 = "s1\<lparr>procs := set_pcb v (clear_pcb 522) (procs s1)\<rparr>"
  have new: "new_pcb s = Some (v, ?s1)" using s1(1) v by (simp add: new_pcb_def edit_pcb_set)
  have h1: "heap ?s1 T1 ps1 (1 + k) (A \<union> block v 3) m1" using al(1) by simp
  obtain p s2 s3 T' ps' where s3: "get_next_free_page_kmalloc ?s1 = Some (p, s2)"
    "create_new_user_pml4 p undefined s2 = Some (top_virtual_address ?s1, s3)"
    "spaces (cr3_reg ?s1) p s3 T' (T'(3 := {p})) ps' k (A \<union> block v 3) {} m1" "is_frame p"
    "same_globals (?s1\<lparr>top_virtual_address := top_virtual_address ?s1 + 4096\<rparr>) s3" by (rule new_space [OF h1])
  have g: "cr3_reg s1 = cr3_reg s" "top_virtual_address s1 = v + 4096 * 3" using al(4) t by (simp_all add: grown_def)
  have "loader.more s1 = loader.more s" using al(4) by (simp add: grown_def)
  then have g3: "procs s1 = procs s" by (cases s, cases s1) simp
  have "grown 1 ?s1 s3" using s3(5) by (intro grown_allocated) simp
  moreover have "grown 3 (s\<lparr>procs := ?q\<rparr>) ?s1" unfolding g3 by (rule grown_procs(2) [of _ "procs s"]) (use al(4) in simp)
  ultimately have "grown 4 (s\<lparr>procs := ?q\<rparr>) s3" using grown_trans [of 3 _ ?s1 1 s3] by simp
  moreover have "create_new_user_pml4 p (kernel_pml4_t s2) s2 = Some (v + 4096 * 3, s3)"
    using s3(2) g(2) by (simp add: create_new_user_pml4_def)
  ultimately show thesis using that [OF new s3(1)] s3(3,4) al(2,3) v g(1) by simp
qed

text \<open>What a process control block holds after create_process.\<close>

definition fresh_pcb :: "u64 \<Rightarrow> u64 \<Rightarrow> u64 \<Rightarrow> area list \<Rightarrow> pcb \<Rightarrow> pcb" where
  "fresh_pcb st p entry xs c =
     (let c = (clear_pcb 522 c)\<lparr>cr3 := p, e_entry := entry\<rparr> in if Stack_area \<in> set xs then c\<lparr>pstack := st - 64\<rparr> else c)"

text \<open>Pages the areas ask for, and the conditions on a list of areas that create_process can map.\<close>

abbreviation area_pages :: "area list \<Rightarrow> nat" where "area_pages xs \<equiv> sum_list (map area_count xs)"

definition process_areas :: "mem \<Rightarrow> u64 set \<Rightarrow> u64 set \<Rightarrow> u64 set \<Rightarrow> u64 \<Rightarrow> u64 \<Rightarrow> area list \<Rightarrow> bool" where
  "process_areas m A F E st head xs \<longleftrightarrow>
     F \<subseteq> A \<and> E \<subseteq> A \<and> E \<inter> F = {} \<and> region head 176 \<subseteq> A \<and> region head 176 \<inter> F = {} \<and>
     area_list m F (load64 m head) xs \<and> areas_apart st {} xs \<and>
     (\<forall>x \<in> set xs. area_fits (load64 m (mm_elf_head head)) E st x \<and> area_count x < 2 ^ 52)"

lemma create_process_spaces:
  fixes s :: "'a system_scheme"
  assumes h: "heap s T ps (3 + (1 + (area_pages xs + k))) A m" and v: "top_virtual_address s = v"
    and st: "paging_user_stack_top s = st" and pa: "process_areas m A F E st head xs"
  obtains s' T' P' ps' p m' where "create_process head s = Some (v, s')" "is_frame p"
    "spaces (cr3_reg s) p s' T' P' ps' k (A \<union> block v 3) (\<Union> (area_block st ` set xs)) m'"
    "A \<inter> block v 3 = {}" "\<forall>a \<in> A. a \<notin> F \<longrightarrow> m' a = m a" "\<forall>x \<in> set xs. image (load64 m (mm_elf_head head)) m m' x"
    "grown 4 (s\<lparr>procs := set_pcb v (fresh_pcb st p (load64 m (mm_e_entry head)) xs) (procs s)\<rparr>) s'"
proof -
  let ?elf = "load64 m (mm_elf_head head)" and ?A = "A \<union> block v 3" and ?entry = "load64 m (mm_e_entry head)"
  note d = pa [unfolded process_areas_def area_list_def]
  let ?f = "''in create_process'' @ [CHR 0x0A]"
  define s0 where "s0 = s\<lparr>screen := printed ?f [] s\<rparr>"
  have p0: "say ?f [] s = Some s0" unfolding s0_def by (rule say_printed) simp
  have h0: "heap s0 T ps (3 + (1 + (area_pages xs + k))) A m" "top_virtual_address s0 = v" using h v by (simp_all add: s0_def)
  have f0: "cr3_reg s0 = cr3_reg s" "procs s0 = procs s" "paging_user_stack_top s0 = st" using st by (simp_all add: s0_def)
  obtain p s1 s2 s3 T' P' ps' m1 where s3: "new_pcb s0 = Some (v, s1)" "get_next_free_page_kmalloc s1 = Some (p, s2)"
    "create_new_user_pml4 p (kernel_pml4_t s2) s2 = Some (v + 4096 * 3, s3)"
    "spaces (cr3_reg s0) p s3 T' P' ps' (area_pages xs + k) ?A {} m1" "is_frame p" "\<forall>a \<in> A. m1 a = m a" "A \<inter> block v 3 = {}" "v \<noteq> 0"
    "grown 4 (s0\<lparr>procs := set_pcb v (clear_pcb 522) (procs s0)\<rparr>) s3" by (rule fresh_space [OF h0])
  have g3: "cr3_reg s3 = cr3_reg s" "paging_user_stack_top s3 = st" "procs s3 = set_pcb v (clear_pcb 522) (procs s)"
    using s3(9) f0 grown_procs(1) [OF s3(9)] by (simp_all add: grown_def)
  let ?q = "set_pcb v ((\<lambda>c. c\<lparr>cr3 := p, e_entry := ?entry\<rparr>) \<circ> clear_pcb 522) (procs s)"
  let ?q1 = "set_pcb v ((\<lambda>c. c\<lparr>cr3 := p\<rparr>) \<circ> clear_pcb 522) (procs s)"
  have "set_pcb v (\<lambda>c. c\<lparr>cr3 := p\<rparr>) (set_pcb v (clear_pcb 522) (procs s)) = ?q1" by (rule set_pcb_again)
  then have e1: "edit_pcb v (\<lambda>c. c\<lparr>cr3 := p\<rparr>) s3 = Some (s3\<lparr>procs := ?q1\<rparr>)"
    unfolding edit_pcb_set [OF s3(8)] g3(3) by (simp only:)
  have "set_pcb v (\<lambda>c. c\<lparr>e_entry := ?entry\<rparr>) ?q1 = ?q" by (simp add: set_pcb_again comp_def)
  then have e2: "edit_pcb v (\<lambda>c. c\<lparr>e_entry := ?entry\<rparr>) (s3\<lparr>procs := ?q1\<rparr>) = Some (s3\<lparr>procs := ?q\<rparr>)"
    using edit_pcb_set [OF s3(8), of "\<lambda>c. c\<lparr>e_entry := ?entry\<rparr>" "s3\<lparr>procs := ?q1\<rparr>"] by simp
  let ?g = "''new_process->e_entry = %p'' @ [CHR 0x0A]"
  define s4 where "s4 = s3\<lparr>procs := ?q, screen := printed ?g [?entry] (s3\<lparr>procs := ?q\<rparr>)\<rparr>"
  have p4: "say ?g [?entry] (s3\<lparr>procs := ?q\<rparr>) = Some s4" unfolding s4_def by (rule say_printed) simp
  have sp4: "spaces (cr3_reg s) p s4 T' P' ps' (area_pages xs + k) ?A {} m1" using s3(4) f0(1) by (simp add: s4_def)
  have g4: "cr3_reg s4 = cr3_reg s" "paging_user_stack_top s4 = st" "procs s4 = ?q" using g3 by (simp_all add: s4_def)
  have "s3\<lparr>cr3_reg := cr3_reg s0\<rparr> = s3" using g3(1) f0(1) by (cases s3) simp
  then have h3: "heap s3 T' ps' (area_pages xs + k) ?A m1" using spacesD(1) [OF s3(4)] by simp
  have same: "load64 m1 a = load64 m a" if "region a 8 \<subseteq> A" for a using load_bytes_on [OF s3(6) that] by (simp add: load64_def)
  have hd: "region (mm_elf_head head) 8 \<subseteq> A" "region (mm_e_entry head) 8 \<subseteq> A" "region head 8 \<subseteq> A"
    using region_shift [of 160 8 176 head] region_shift [of 168 8 176 head] region_mono [of 8 176 head] d
    by (auto simp: mm_elf_head_def mm_e_entry_def)
  have entry: "get64 (s3\<lparr>procs := ?q1\<rparr>) (mm_e_entry head) = Some ?entry"
    using heap_get(4) [of "s3\<lparr>procs := ?q1\<rparr>" T' ps' _ ?A m1 "mm_e_entry head"] h3 le_supI1 [OF hd(2)] same [OF hd(2)] by simp
  have "heap s4 T' ps' (area_pages xs + k) ?A m1" using h3 by (simp add: s4_def)
  from heap_get(4) [OF this le_supI1 [OF hd(3)]] same [OF hd(3)] have mmap: "get64 s4 head = Some (load64 m head)" by simp
  have seg: "area_seg m1 F (load64 m head) xs 0" by (rule area_seg_cong) (use d s3(6) in auto)
  have sub: "F \<subseteq> ?A" "E \<subseteq> ?A" "E \<inter> F = {}" "region head 176 \<subseteq> ?A" "region head 176 \<inter> F = {}" using d by auto
  have elf: "load64 m1 (mm_elf_head head) = ?elf" by (rule same [OF hd(1)])
  have fits: "\<forall>x \<in> set xs. area_fits ?elf E st x \<and> area_count x < 2 ^ 52" "areas_apart st {} xs" using d by simp_all
  obtain s5 P5 ps5 m5 where s5: "map_areas v head p (cr3_reg s) (load64 m head) s4 = Some s5"
    "spaces (cr3_reg s) p s5 T' P5 ps5 k ?A ({} \<union> \<Union> (area_block st ` set xs)) m5"
    "\<forall>a \<in> ?A \<union> {}. a \<notin> F \<longrightarrow> m5 a = m1 a" "\<forall>x \<in> set xs. image ?elf m1 m5 x"
    "grown 0 (s4\<lparr>procs := fold (with_stack v st) xs (procs s4)\<rparr>) s5"
    using map_areas_ok [OF sp4 g4(1) s3(8) g4(2) seg sub elf fits] by (elim exE conjE) (rule that)
  have "create_process head s = Some (v, s5)"
    unfolding create_process_def using p0 s3(1-3) e1 entry e2 p4 mmap s5(1) g3(1) by (simp add: get_cr3_def)
  moreover have "spaces (cr3_reg s) p s5 T' P5 ps5 k ?A (\<Union> (area_block st ` set xs)) m5" using s5(2) by simp
  moreover have "\<forall>a \<in> A. a \<notin> F \<longrightarrow> m5 a = m a" using s5(3) s3(6) by simp
  moreover have "image ?elf m m5 x" if x: "x \<in> set xs" for x
  proof (rule image_cong [of ?elf m1 m5 x E st])
    have "file_bytes ?elf x \<subseteq> A" using fits(1) x d unfolding area_fits_def by blast
    then show "\<forall>a \<in> file_bytes ?elf x. m a = m1 a" using s3(6) by auto
  qed (use s5(4) fits x in simp_all)
  moreover have "grown 4 (s\<lparr>procs := set_pcb v (fresh_pcb st p ?entry xs) (procs s)\<rparr>) s5"
  proof -
    let ?r = "fold (with_stack v st) xs ?q"
    have "?r = set_pcb v (fresh_pcb st p ?entry xs) (procs s)"
      by (simp add: fold_with_stack set_pcb_again fresh_pcb_def [abs_def] comp_def Let_def)
    moreover have "grown 4 (s0\<lparr>procs := ?r\<rparr>) (s3\<lparr>procs := ?r\<rparr>)" by (rule grown_procs(2) [OF s3(9)])
    moreover have "grown 0 (s3\<lparr>procs := ?r\<rparr>) s5" using s5(5) unfolding g4(3) unfolding s4_def by (cases s3) (simp add: grown_def)
    moreover have "grown 4 (s\<lparr>procs := ?r\<rparr>) t = grown 4 (s0\<lparr>procs := ?r\<rparr>) t" for t :: "'a system_scheme"
      unfolding s0_def by (cases s) (simp add: grown_def)
    ultimately show ?thesis using grown_trans [of 4 "s\<lparr>procs := ?r\<rparr>" "s3\<lparr>procs := ?r\<rparr>" 0 s5] by simp
  qed
  ultimately show thesis using that s3(5,7) by blast
qed

section \<open>From the executable to the process\<close>

definition program_areas :: "mem \<Rightarrow> u64 \<Rightarrow> area list" where
  "program_areas m ehdr = map (file_area_of m) (load_headers m ehdr 0) @ [Stack_area, Heap_area]"

text \<open>What exec_new_binary does with an executable before it is scheduled.\<close>

definition make_process :: "u64 \<Rightarrow> 'a system_scheme \<Rightarrow> (u64 \<times> 'a system_scheme) option" where
  "make_process ehdr s = do { (head, s) \<leftarrow> load_elf_vmas ehdr s; create_process head s }"

text \<open>The pages of the program can be mapped: they are apart, and its bytes are in \<open>A\<close>.\<close>

definition program_fits :: "mem \<Rightarrow> u64 set \<Rightarrow> u64 \<Rightarrow> u64 \<Rightarrow> bool" where
  "program_fits m A st ehdr \<longleftrightarrow> areas_apart st {} (program_areas m ehdr) \<and>
     (\<forall>x \<in> set (program_areas m ehdr). area_fits ehdr A st x \<and> area_count x < 2 ^ 52)"

text \<open>What the process sees and shares: the flat memory of its pages, and nothing else in its half.\<close>

lemma spaces_reads:
  assumes "spaces r p s T P ps k A U m"
  shows "a \<in> A \<union> U \<Longrightarrow> vload8 (translate p) (pmem s) a = Some (m a)"
proof -
  assume a: "a \<in> A \<union> U"
  have "vload8 (mmu (s\<lparr>cr3_reg := p\<rparr>)) (pmem (s\<lparr>cr3_reg := p\<rparr>)) a = Some (m a)"
    using spaces_memory.load_byte [of r p "s\<lparr>cr3_reg := p\<rparr>" T P ps k A U m a] assms a by simp
  then show ?thesis by simp
qed

text \<open>
  C7. Loading an executable and creating a process for it succeeds when its headers and the
  bytes the copy reads are mapped memory of the kernel, its pages are free for it and there
  is room. The new page tables share the kernel's half, slot 511 of the top table. Outside of
  slots 510, the recursive one, and 511 the process has exactly the pages of its file areas
  and of its stack. The pages of a file area are filled with the bytes of memory from the
  address of the header plus eight times p_offset on, as the pointer arithmetic of
  create_process has it: for an offset other than 0 these are not the bytes of the segment,
  which the comment there names, and may lie behind the executable. The control block has the
  new tables, the entry point of the header and the stack. The kernel's own space keeps its
  memory and its invariant, and only new addresses of it are written.
\<close>

theorem program_becomes_process:
  fixes s :: "'a system_scheme"
  assumes h: "heap s T ps (2 * (length (load_headers m ehdr 0) + 3) + (3 + (1 + (area_pages (program_areas m ehdr) + k)))) A m"
    and e: "elf_in m ehdr A" and fit: "program_fits m A (paging_user_stack_top s) ehdr"
    and v: "v = top_virtual_address s + 4096 * of_nat (2 * (length (load_headers m ehdr 0) + 3))"
    and U: "U = \<Union> (area_block (paging_user_stack_top s) ` set (program_areas m ehdr))"
  shows "\<exists>s' p T' P' ps' B m'. make_process ehdr s = Some (v, s') \<and> is_frame p \<and>
    spaces (cr3_reg s) p s' T' P' ps' k (A \<union> B) U m' \<and> A \<inter> B = {} \<and> (\<forall>a \<in> A. m' a = m a) \<and>
    (\<forall>a. index 3 a = 511 \<longrightarrow> translate p (pmem s') a = translate (cr3_reg s) (pmem s') a) \<and>
    (\<forall>a \<in> U. vload8 (translate p) (pmem s') a = Some (m' a)) \<and>
    (\<forall>a. index 3 a \<noteq> 510 \<and> index 3 a \<noteq> 511 \<and> a \<notin> U \<longrightarrow> translate p (pmem s') a = None) \<and>
    (\<forall>x \<in> set (program_areas m ehdr). image ehdr m m' x) \<and> cr3_reg s' = cr3_reg s \<and>
    procs s' = set_pcb v (fresh_pcb (paging_user_stack_top s) p (load64 m (ehdr + 24)) (program_areas m ehdr)) (procs s)"
proof -
  let ?n = "2 * (length (load_headers m ehdr 0) + 3)" and ?xs = "program_areas m ehdr" and ?st = "paging_user_stack_top s"
  let ?v = "top_virtual_address s"
  note f = fit [unfolded program_fits_def]
  obtain s1 T1 ps1 B m1 where s1: "load_elf_vmas ehdr s = Some (?v, s1)"
    "heap s1 T1 ps1 (3 + (1 + (area_pages ?xs + k))) (A \<union> B) m1" "A \<inter> B = {}" "\<forall>a \<in> A. m1 a = m a"
    "region ?v 176 \<subseteq> B" "area_list m1 (B - region ?v 176) (load64 m1 ?v) ?xs"
    "load64 m1 (mm_e_entry ?v) = load64 m (ehdr + 24)" "load64 m1 (mm_elf_head ?v) = ehdr" "grown ?n s s1"
    using load_elf_vmas_ok [OF h e, folded program_areas_def] by (elim exE conjE) (rule that)
  have g: "top_virtual_address s1 = v" "paging_user_stack_top s1 = ?st" "cr3_reg s1 = cr3_reg s"
    using s1(9) v by (simp_all add: grown_def)
  have "loader.more s1 = loader.more s" using s1(9) by (simp add: grown_def)
  then have g': "procs s1 = procs s" by (cases s, cases s1) simp
  have pa: "process_areas m1 (A \<union> B) (B - region ?v 176) A ?st ?v ?xs"
    unfolding process_areas_def s1(8) using s1(3,5,6) f by blast
  obtain s' T' P' ps' p m' where s': "create_process ?v s1 = Some (v, s')" "is_frame p"
    "spaces (cr3_reg s1) p s' T' P' ps' k (A \<union> B \<union> block v 3) (\<Union> (area_block ?st ` set ?xs)) m'"
    "(A \<union> B) \<inter> block v 3 = {}" "\<forall>a \<in> A \<union> B. a \<notin> B - region ?v 176 \<longrightarrow> m' a = m1 a"
    "\<forall>x \<in> set ?xs. image (load64 m1 (mm_elf_head ?v)) m1 m' x"
    "grown 4 (s1\<lparr>procs := set_pcb v (fresh_pcb ?st p (load64 m1 (mm_e_entry ?v)) ?xs) (procs s1)\<rparr>) s'"
    by (rule create_process_spaces [OF s1(2) g(1,2) pa])
  have sp: "spaces (cr3_reg s) p s' T' P' ps' k (A \<union> (B \<union> block v 3)) U m'" using s'(3) g(3) U by (simp add: Un_assoc)
  have made: "make_process ehdr s = Some (v, s')" using s1(1) s'(1) by (simp add: make_process_def)
  have kept: "\<forall>a \<in> A. m' a = m a" using s'(5) s1(3,4) by auto
  have img: "\<forall>x \<in> set ?xs. image ehdr m m' x"
  proof
    fix x assume x: "x \<in> set ?xs"
    then have "file_bytes ehdr x \<subseteq> A" using f unfolding area_fits_def by blast
    then have "\<forall>a \<in> file_bytes ehdr x. m a = m1 a" using s1(4) by auto
    then show "image ehdr m m' x" using image_cong [of ehdr m1 m' x A ?st m m'] s'(6) s1(8) f x by simp
  qed
  have "procs s' = set_pcb v (fresh_pcb ?st p (load64 m (ehdr + 24)) ?xs) (procs s)" "cr3_reg s' = cr3_reg s"
    using grown_procs(1) [OF s'(7)] s1(7) g' g(3) s'(7) by (simp_all add: grown_def)
  moreover have "A \<inter> (B \<union> block v 3) = {}" using s1(3) s'(4) by blast
  ultimately show ?thesis
    using made s'(2) sp kept img spaces_reads [OF sp] spacesD(6,11) [OF sp]
    by (intro exI [of _ s'] exI [of _ p] exI [of _ T'] exI [of _ P'] exI [of _ ps'] exI [of _ "B \<union> block v 3"] exI [of _ m'] conjI) blast+
qed

end
