(* ===== verification/ProcessExample.thy ===== *)
theory ProcessExample
  imports LoaderExample ProcessImage
begin

text \<open>
  A concrete machine with a scheduler, on which the executable of LoaderExample becomes a
  process with one page of code and one page of stack.
\<close>

definition process_machine :: system where
  "process_machine = loader.extend loader_machine
     \<lparr>procs = no_processes, rsp_reg = 0, rip_reg = 0, rflags_reg = 0, cs_reg = 8, ss_reg = 0x10, data_segments = 0x10\<rparr>"

lemma process_machine_fields:
  "pmem process_machine = pmem loader_machine" "cr3_reg process_machine = cr3_reg loader_machine"
  "top_virtual_address process_machine = 0xffffffff90000000" "kernel_pml4_t process_machine = kernel_pml4_t loader_machine"
  "paging_user_stack_top process_machine = 0xfffffe0000000ff8"
  "free_list_head_kmalloc process_machine = free_list_head_kmalloc loader_machine" "procs process_machine = no_processes"
  by (simp_all add: process_machine_def loader.defs loader_machine_def)

lemma process_machine_heap: "heap process_machine machine_tables machine_free 16 elf_page elf_memory"
proof -
  have "seen process_machine = seen loader_machine" by (rule ext) (simp add: seen_def process_machine_fields split: option.split)
  then have "heap process_machine machine_tables machine_free 16 elf_page elf_memory =
      heap loader_machine machine_tables machine_free 16 elf_page elf_memory"
    by (simp add: heap_def room_def owned_def mappable_def paging_inv_def kernel_list_def kernel_half_def process_machine_fields)
  then show ?thesis using machine_heap by simp
qed

lemma machine_areas: "program_areas elf_memory elf_address = [File_area 0x400000 0x401000 0, Stack_area, Heap_area]"
  unfolding program_areas_def elf_fields(5) by (simp only: list.map elf_fields(6) append.simps)

lemma machine_program_fits: "program_fits elf_memory elf_page 0xfffffe0000000ff8 elf_address"
proof -
  have c: "no_of_pages (round_up 0x1000) = 1" by (simp add: round_up_def no_of_pages_def)
  have "region elf_address 4096 \<subseteq> elf_page" by (rule elf_page_region)
  then show ?thesis
    unfolding program_fits_def machine_areas
    by (simp add: c page_align_def area_block_def area_fits_def block_def page_range_def lessThan_Suc canonical_def index_def page_of_def) auto
qed

text \<open>The executable of the machine becomes a process.\<close>

lemma program_becomes_process_witness:
  "\<exists>s' p. make_process elf_address process_machine = Some (0xffffffff90008000, s') \<and> is_frame p \<and>
    (\<forall>i < 4096. vload8 (translate p) (pmem s') (0x400000 + of_nat i) = Some (elf_memory (elf_address + of_nat i))) \<and>
    (\<forall>a. index 3 a \<noteq> 510 \<and> index 3 a \<noteq> 511 \<and> a \<notin> block 0x400000 1 \<and> a \<notin> block 0xfffffe0000000000 1 \<longrightarrow>
      translate p (pmem s') a = None) \<and>
    cr3 (pcbs (procs s') 0xffffffff90008000) = p \<and> e_entry (pcbs (procs s') 0xffffffff90008000) = 0x400010 \<and>
    pstack (pcbs (procs s') 0xffffffff90008000) = 0xfffffe0000000fb8"
proof -
  let ?xs = "program_areas elf_memory elf_address" and ?st = "0xfffffe0000000ff8 :: u64"
  have c: "area_count (File_area 0x400000 0x401000 0) = 1" "area_block ?st (File_area 0x400000 0x401000 0) = block 0x400000 1"
    "area_block ?st Stack_area = block 0xfffffe0000000000 1" "area_block ?st Heap_area = {}"
    by (simp_all add: round_up_def page_align_def no_of_pages_def area_block_def block_def page_range_def)
  have len: "length (load_headers elf_memory elf_address 0) = 1" unfolding elf_fields(5) by simp
  have pages: "area_pages ?xs = 2" unfolding machine_areas by (simp add: c [simplified])
  have h: "heap process_machine machine_tables machine_free
      (2 * (length (load_headers elf_memory elf_address 0) + 3) + (3 + (1 + (area_pages ?xs + 2)))) elf_page elf_memory"
    unfolding len pages using process_machine_heap by simp
  have fits: "program_fits elf_memory elf_page (paging_user_stack_top process_machine) elf_address"
    unfolding process_machine_fields(5) by (rule machine_program_fits)
  have v: "0xffffffff90008000 = top_virtual_address process_machine + 4096 * of_nat (2 * (length (load_headers elf_memory elf_address 0) + 3))"
    unfolding len process_machine_fields(3) by simp
  have U: "block 0x400000 1 \<union> block 0xfffffe0000000000 1 = \<Union> (area_block (paging_user_stack_top process_machine) ` set ?xs)"
    unfolding machine_areas process_machine_fields(5) by (simp only: list.set image_insert image_empty c Sup_insert Sup_empty Un_empty_right)
  obtain s' p B m' where s': "make_process elf_address process_machine = Some (0xffffffff90008000, s')" "is_frame p"
    "\<forall>a \<in> block 0x400000 1 \<union> block 0xfffffe0000000000 1. vload8 (translate p) (pmem s') a = Some (m' a)"
    "\<forall>a. index 3 a \<noteq> 510 \<and> index 3 a \<noteq> 511 \<and> a \<notin> block 0x400000 1 \<union> block 0xfffffe0000000000 1 \<longrightarrow> translate p (pmem s') a = None"
    "\<forall>x \<in> set ?xs. image elf_address elf_memory m' x"
    "procs s' = set_pcb 0xffffffff90008000 (fresh_pcb (paging_user_stack_top process_machine) p (load64 elf_memory (elf_address + 24)) ?xs) (procs process_machine)"
    using program_becomes_process [OF h machine_elf fits v U] by (elim exE conjE) (rule that)
  have "page_of 0x400000 = (0x400000 :: u64)" by (simp add: page_of_def)
  from region_pages [OF this, of 1] have sub: "region 0x400000 4096 \<subseteq> block 0x400000 1" by simp
  have "image elf_address elf_memory m' (File_area 0x400000 0x401000 0)" using s'(5) unfolding machine_areas by simp
  then have img: "\<forall>i < 4096. m' (0x400000 + of_nat i) = elf_memory (elf_address + of_nat i)"
    by (simp add: page_align_def round_up_def no_of_pages_def)
  have "vload8 (translate p) (pmem s') (0x400000 + of_nat i) = Some (elf_memory (elf_address + of_nat i))" if i: "i < 4096" for i
  proof -
    have "0x400000 + of_nat i \<in> block 0x400000 1" using sub region_offset [of i "0x400000" 4096] i by auto
    then show ?thesis using s'(3) img i by simp
  qed
  moreover have "pcbs (procs s') 0xffffffff90008000 =
      fresh_pcb ?st p 0x400010 [File_area 0x400000 0x401000 0, Stack_area, Heap_area] (pcbs no_processes 0xffffffff90008000)"
    unfolding s'(6) process_machine_fields(5,7) elf_fields(3) machine_areas by simp
  ultimately show ?thesis using s'(1,2,4) by (intro exI [of _ s'] exI [of _ p]) (simp add: fresh_pcb_def clear_pcb_def)
qed

end
