(* ===== verification/Libc.thy ===== *)
theory Libc
  imports Handlers
begin

text \<open>
  User programs: the C library (libc/puts.c, putchar.c, gets.c, unistd.c, syscall.c), the
  shell (bin/sbush/sbush.c) and the system calls they make.

  A program runs on the memory its page tables show, \<open>ok\<close> being the addresses mapped for it;
  any other access is a page fault, which the kernel does not repair, and the result is None.
  A system call is the interrupt 128: \<open>trap\<close> is what the kernel does with the registers
  saved by the stub.
\<close>

section \<open>Memory\<close>

definition peek :: "(u64 \<Rightarrow> bool) \<Rightarrow> mem \<Rightarrow> u64 \<Rightarrow> u8 option" where
  "peek ok m a = (if ok a then Some (m a) else None)"

definition poke :: "(u64 \<Rightarrow> bool) \<Rightarrow> mem \<Rightarrow> u64 \<Rightarrow> u8 \<Rightarrow> mem option" where
  "poke ok m a b = (if ok a then Some (m(a := b)) else None)"

section \<open>Numbers (libc/puts.c)\<close>

text \<open>Unlike those of the kernel, these functions store characters one byte apart.\<close>

function lib_printPointer :: "(u64 \<Rightarrow> bool) \<Rightarrow> mem \<Rightarrow> u64 \<Rightarrow> u64 \<Rightarrow> (mem \<times> cint) option" where
  "lib_printPointer ok m current num =
     (if num = 0 then Some (m, 0)
      else do {
        (m, counter) \<leftarrow> lib_printPointer ok m current (num div 16);
        let digit = (ucast (num mod 16) :: cint);
        let digit = (if sint digit < 0 then - digit else digit);
        m \<leftarrow> poke ok m (current + scast counter) (ucast (digit_char digit));
        Some (m, 1 + counter)
      })"
  by pat_completeness auto
termination
  by (relation "measure (\<lambda>(ok, m, current, num). unat num)") (auto simp: word_div_less)

function lib_printHex :: "(u64 \<Rightarrow> bool) \<Rightarrow> mem \<Rightarrow> u64 \<Rightarrow> cint \<Rightarrow> (mem \<times> cint) option" where
  "lib_printHex ok m current num =
     (if num = 0 then Some (m, 0)
      else do {
        (m, counter) \<leftarrow> lib_printHex ok m current (cint_div num 16);
        m \<leftarrow> poke ok m (current + scast counter) (ucast (digit_char (cint_mod num 16)));
        Some (m, 1 + counter)
      })"
  by pat_completeness auto
termination
  by (relation "measure (\<lambda>(ok, m, current, num). nat \<bar>sint num\<bar>)") (auto simp: cint_div_less nat_less_iff sint_cint_eq_0)

lemma cint_div_abs_less: "\<lbrakk>num \<noteq> 0; n = num \<or> n = - num\<rbrakk> \<Longrightarrow> nat \<bar>sint (cint_div n 10)\<bar> < nat \<bar>sint num\<bar>"
proof -
  assume "num \<noteq> 0" "n = num \<or> n = - num"
  then have n: "\<bar>sint n\<bar> = \<bar>sint num\<bar>" "n \<noteq> 0" using sint_minus_abs [of num] by (elim disjE; simp)+
  have "\<bar>sint (cint_div n 10)\<bar> < \<bar>sint n\<bar>" by (rule cint_div_less [OF n(2)]) simp
  then show ?thesis using n by (simp add: nat_less_iff)
qed

function lib_printInt :: "(u64 \<Rightarrow> bool) \<Rightarrow> mem \<Rightarrow> u64 \<Rightarrow> cint \<Rightarrow> (mem \<times> cint) option" where
  "lib_printInt ok m current num =
     (if num = 0 then do { m \<leftarrow> poke ok m current 48; Some (m, 0) }
      else do {
        m \<leftarrow> (if sint num < 0 then poke ok m current 45 else Some m);
        let current' = (if sint num < 0 then current + 1 else current);
        let num' = (if sint num < 0 then - num else num);
        (m, counter) \<leftarrow> lib_printInt ok m current' (cint_div num' 10);
        m \<leftarrow> poke ok m (current' + scast counter) (ucast (cint_mod num' 10 + 48));
        Some (m, 1 + counter)
      })"
  by pat_completeness auto
termination
proof (relation "measure (\<lambda>(ok, m, current, num). nat \<bar>sint num\<bar>)", goal_cases)
  case (2 ok m current num x current' num')
  show ?case by (simp only: in_measure prod.case, rule cint_div_abs_less) (use 2 in auto)
qed simp

declare lib_printPointer.simps [simp del] lib_printHex.simps [simp del] lib_printInt.simps [simp del]

section \<open>printf (libc/puts.c)\<close>

text \<open>The loop over a string argument.\<close>

partial_function (option) lib_copy :: "(u64 \<Rightarrow> bool) \<Rightarrow> mem \<Rightarrow> u64 \<Rightarrow> u64 \<Rightarrow> (mem \<times> u64) option" where
  "lib_copy ok m current str = do {
     c \<leftarrow> peek ok m str;
     if c = 0 then Some (m, current)
     else do { m \<leftarrow> poke ok m current c; lib_copy ok m (current + 1) (str + 1) }
   }"

text \<open>One conversion; None is also an argument that was not passed.\<close>

fun lib_conversion :: "(u64 \<Rightarrow> bool) \<Rightarrow> u8 \<Rightarrow> mem \<Rightarrow> u64 \<Rightarrow> u64 list \<Rightarrow> (mem \<times> u64 \<times> u64 list) option" where
  "lib_conversion ok c m current args =
     (if c \<in> {of_char CHR ''s'', of_char CHR ''c'', of_char CHR ''d'', of_char CHR ''x'', of_char CHR ''p''}
      then case args of [] \<Rightarrow> None
        | a # args \<Rightarrow>
          if c = of_char CHR ''s'' then do { (m, current) \<leftarrow> lib_copy ok m current a; Some (m, current, args) }
          else if c = of_char CHR ''c'' then do { m \<leftarrow> poke ok m current (ucast a); Some (m, current + 1, args) }
          else if c = of_char CHR ''d'' then do { (m, n) \<leftarrow> lib_printInt ok m current (ucast a); Some (m, current + scast n, args) }
          else if c = of_char CHR ''x'' then do { (m, n) \<leftarrow> lib_printHex ok m current (ucast a); Some (m, current + scast n, args) }
          else do {
            m \<leftarrow> poke ok m current (of_char CHR ''0'');
            m \<leftarrow> poke ok m (current + 1) (of_char CHR ''x'');
            (m, n) \<leftarrow> lib_printPointer ok m (current + 2) a;
            Some (m, current + 2 + scast n, args)
          }
      else Some (m, current, args))"

declare lib_conversion.simps [simp del]

text \<open>
  The loop over the format, which lies in memory. A newline is stored like any other
  character.
\<close>

partial_function (option) lib_printf_loop ::
  "(u64 \<Rightarrow> bool) \<Rightarrow> mem \<Rightarrow> u64 \<Rightarrow> u64 \<Rightarrow> u64 list \<Rightarrow> (mem \<times> u64) option" where
  "lib_printf_loop ok m fmt current args = do {
     c \<leftarrow> peek ok m fmt;
     if c = 0 then Some (m, current)
     else if c = of_char CHR ''%'' then do {
       d \<leftarrow> peek ok m (fmt + 1);
       (m, current, args) \<leftarrow> lib_conversion ok d m current args;
       lib_printf_loop ok m (fmt + 2) current args
     }
     else do { m \<leftarrow> poke ok m current c; lib_printf_loop ok m (fmt + 1) (current + 1) args }
   }"

section \<open>System calls (libc/syscall.c)\<close>

text \<open>The stub restores every register, rax included: the result is the number of the call.\<close>

definition int80 :: "(registers \<Rightarrow> 's \<Rightarrow> 's option) \<Rightarrow> registers \<Rightarrow> 's \<Rightarrow> (u64 \<times> 's) option" where
  "int80 trap r s = do { s \<leftarrow> trap r s; Some (rax r, s) }"

definition syscall_2_parameters ::
  "(registers \<Rightarrow> 's \<Rightarrow> 's option) \<Rightarrow> registers \<Rightarrow> u64 \<Rightarrow> u64 \<Rightarrow> 's \<Rightarrow> (u64 \<times> 's) option" where
  "syscall_2_parameters trap r syscall_no p1 s = int80 trap (r\<lparr>rdi := p1, rax := syscall_no\<rparr>) s"

definition syscall_3_parameters ::
  "(registers \<Rightarrow> 's \<Rightarrow> 's option) \<Rightarrow> registers \<Rightarrow> u64 \<Rightarrow> u64 \<Rightarrow> u64 \<Rightarrow> 's \<Rightarrow> (u64 \<times> 's) option" where
  "syscall_3_parameters trap r syscall_no p1 p2 s = int80 trap (r\<lparr>rdi := p1, rsi := p2, rax := syscall_no\<rparr>) s"

definition syscall_4_parameters ::
  "(registers \<Rightarrow> 's \<Rightarrow> 's option) \<Rightarrow> registers \<Rightarrow> u64 \<Rightarrow> u64 \<Rightarrow> u64 \<Rightarrow> u64 \<Rightarrow> 's \<Rightarrow> (u64 \<times> 's) option" where
  "syscall_4_parameters trap r syscall_no p1 p2 p3 s =
     int80 trap (r\<lparr>rax := syscall_no, rdi := p1, rsi := p2, rbp := p3\<rparr>) s"

text \<open>\<open>pending\<close> are the keys that will be pressed.\<close>

record user = keyboard +
  pending :: "u8 list"

text \<open>The kernel behind the interrupt.\<close>

definition kernel_trap ::
  "(u64 \<Rightarrow> 'a user_scheme \<Rightarrow> 'a user_scheme option) \<Rightarrow> u64 \<Rightarrow> u64 \<Rightarrow> registers \<Rightarrow> 'a user_scheme \<Rightarrow> 'a user_scheme option" where
  "kernel_trap exec ls bin_ls r s = do {
     (keys, s) \<leftarrow> syscall_handler exec ls bin_ls (pending s) r s;
     Some (s\<lparr>pending := keys\<rparr>)
   }"

section \<open>The library\<close>

text \<open>
  The functions below take the kernel and the registers of the caller; \<open>buffer\<close> is the address of the
  local array of printf.
\<close>

definition printf ::
  "(registers \<Rightarrow> 'a console_scheme \<Rightarrow> 'a console_scheme option) \<Rightarrow> registers \<Rightarrow> (u64 \<Rightarrow> bool) \<Rightarrow> u64 \<Rightarrow> u64 \<Rightarrow> u64 list \<Rightarrow>
    'a console_scheme \<Rightarrow> (cint \<times> 'a console_scheme) option" where
  "printf trap r ok buffer fmt args s = do {
     (m, current) \<leftarrow> lib_printf_loop ok (vmem s) fmt buffer args;
     m \<leftarrow> poke ok m current 0;
     (_, s) \<leftarrow> syscall_2_parameters trap r 1 buffer (s\<lparr>vmem := m\<rparr>);
     Some (0, s)
   }"

text \<open>putchar passes its character as the address of a format.\<close>

definition putchar ::
  "(registers \<Rightarrow> 'a console_scheme \<Rightarrow> 'a console_scheme option) \<Rightarrow> registers \<Rightarrow> (u64 \<Rightarrow> bool) \<Rightarrow> u64 \<Rightarrow> cint \<Rightarrow>
    'a console_scheme \<Rightarrow> (cint \<times> 'a console_scheme) option" where
  "putchar trap r ok buffer c s = printf trap r ok buffer (scast c) [] s"

partial_function (option) puts ::
  "(registers \<Rightarrow> 'a console_scheme \<Rightarrow> 'a console_scheme option) \<Rightarrow> registers \<Rightarrow> (u64 \<Rightarrow> bool) \<Rightarrow> u64 \<Rightarrow> u64 \<Rightarrow>
    'a console_scheme \<Rightarrow> (cint \<times> 'a console_scheme) option" where
  "puts trap r ok buffer str s = do {
     c \<leftarrow> peek ok (vmem s) str;
     if c = 0 then do {
       (n, s) \<leftarrow> putchar trap r ok buffer 10 s;
       Some (if n = 10 then 0 else - 1, s)
     } else do {
       (n, s) \<leftarrow> putchar trap r ok buffer (scast c) s;
       c \<leftarrow> peek ok (vmem s) str;
       if n \<noteq> scast c then Some (- 1, s) else puts trap r ok buffer (str + 1) s
     }
   }"

definition gets :: "(registers \<Rightarrow> 's \<Rightarrow> 's option) \<Rightarrow> registers \<Rightarrow> u64 \<Rightarrow> 's \<Rightarrow> (u64 \<times> 's) option" where
  "gets trap r p s = do { (_, s) \<leftarrow> syscall_2_parameters trap r 2 p s; Some (p, s) }"

text \<open>getcwd uses neither of its arguments.\<close>

definition getcwd :: "(registers \<Rightarrow> 's \<Rightarrow> 's option) \<Rightarrow> registers \<Rightarrow> u64 \<Rightarrow> u64 \<Rightarrow> 's \<Rightarrow> (u64 \<times> 's) option" where
  "getcwd trap r buf size' s = do { (_, s) \<leftarrow> syscall_2_parameters trap r 5 0 s; Some (0, s) }"

section \<open>The shell (bin/sbush/sbush.c)\<close>

text \<open>\<open>prompt\<close> and \<open>hi\<close> are the addresses of the literals. The loop never ends: \<open>n\<close> of its rounds.\<close>

definition sbush_round ::
  "(registers \<Rightarrow> 'a console_scheme \<Rightarrow> 'a console_scheme option) \<Rightarrow> registers \<Rightarrow> (u64 \<Rightarrow> bool) \<Rightarrow> u64 \<Rightarrow> u64 \<Rightarrow> u64 \<Rightarrow>
    'a console_scheme \<Rightarrow> (u64 \<times> 'a console_scheme) option" where
  "sbush_round trap r ok buffer hi p s = do {
     (p, s) \<leftarrow> gets trap r p s;
     (_, s) \<leftarrow> printf trap r ok buffer hi [] s;
     (_, s) \<leftarrow> printf trap r ok buffer p [] s;
     Some (p, s)
   }"

primrec sbush_rounds ::
  "nat \<Rightarrow> (registers \<Rightarrow> 'a console_scheme \<Rightarrow> 'a console_scheme option) \<Rightarrow> registers \<Rightarrow> (u64 \<Rightarrow> bool) \<Rightarrow> u64 \<Rightarrow> u64 \<Rightarrow> u64 \<Rightarrow>
    'a console_scheme \<Rightarrow> (u64 \<times> 'a console_scheme) option" where
  "sbush_rounds 0 trap r ok buffer hi p s = Some (p, s)"
| "sbush_rounds (Suc n) trap r ok buffer hi p s = do {
     (p, s) \<leftarrow> sbush_round trap r ok buffer hi p s;
     sbush_rounds n trap r ok buffer hi p s
   }"

definition sbush ::
  "nat \<Rightarrow> (registers \<Rightarrow> 'a console_scheme \<Rightarrow> 'a console_scheme option) \<Rightarrow> registers \<Rightarrow> (u64 \<Rightarrow> bool) \<Rightarrow> u64 \<Rightarrow> u64 \<Rightarrow> u64 \<Rightarrow>
    'a console_scheme \<Rightarrow> (u64 \<times> 'a console_scheme) option" where
  "sbush n trap r ok buffer prompt hi s = do {
     (_, s) \<leftarrow> printf trap r ok buffer prompt [] s;
     let p = 0;
     (_, s) \<leftarrow> getcwd trap r p 100 s;
     sbush_rounds n trap r ok buffer hi p s
   }"

section \<open>Storing text\<close>

lemma put_bytes_update:
  "\<lbrakk>x \<notin> region q (length bs); length bs < 2 ^ 64\<rbrakk> \<Longrightarrow> put_bytes q bs (m(x := c)) = (put_bytes q bs m)(x := c)"
proof (rule ext)
  fix b assume x: "x \<notin> region q (length bs)" "length bs < 2 ^ 64"
  show "put_bytes q bs (m(x := c)) b = ((put_bytes q bs m)(x := c)) b"
  proof (cases "b \<in> region q (length bs)")
    case True
    then obtain i where i: "i < length bs" "b = q + of_nat i" by (rule regionE)
    then have "b \<noteq> x" using True x(1) by blast
    then show ?thesis using i x(2) by (simp add: put_bytes_nth)
  next
    case False
    then show ?thesis using x by (simp add: put_bytes_frame)
  qed
qed

lemma put_bytes_first:
  assumes "length bs < 2 ^ 64 - 1"
  shows "put_bytes p (b # bs) m = put_bytes (p + 1) bs (m(p := b))"
proof -
  have "unat (- 1 :: u64) = 2 ^ 64 - 1" unfolding unsigned_minus_1_eq_mask by (simp add: mask_eq_exp_minus_1)
  then have "p \<notin> region (p + 1) (length bs)" using assms by (simp add: region_def)
  then show ?thesis using put_bytes_update [of p "p + 1" bs m b] assms by simp
qed

lemma put_bytes_append:
  "length (as @ bs) < 2 ^ 64 \<Longrightarrow> put_bytes p (as @ bs) m = put_bytes (p + of_nat (length as)) bs (put_bytes p as m)"
proof (induction as arbitrary: p m)
  case (Cons a as)
  have l: "length (as @ bs) < 2 ^ 64 - 1" "length as < 2 ^ 64 - 1" using Cons.prems by simp_all
  have "put_bytes p ((a # as) @ bs) m = put_bytes (p + 1) (as @ bs) (m(p := a))"
    unfolding append_Cons by (rule put_bytes_first [OF l(1)])
  also have "\<dots> = put_bytes (p + 1 + of_nat (length as)) bs (put_bytes (p + 1) as (m(p := a)))"
    by (rule Cons.IH) (use l in simp)
  also have "put_bytes (p + 1) as (m(p := a)) = put_bytes p (a # as) m" by (rule put_bytes_first [OF l(2), symmetric])
  finally show ?case by (simp only: length_Cons of_nat_Suc add.assoc)
qed simp

lemma put_bytes_snoc: "length bs < 2 ^ 64 - 1 \<Longrightarrow> put_bytes p (bs @ [b]) m = (put_bytes p bs m)(p + of_nat (length bs) := b)"
  by (subst put_bytes_append) simp_all

text \<open>The bytes from \<open>a\<close> on are mapped.\<close>

abbreviation accessible :: "(u64 \<Rightarrow> bool) \<Rightarrow> u64 \<Rightarrow> nat \<Rightarrow> bool" where
  "accessible ok a n \<equiv> region a n \<subseteq> {b. ok b}"

lemma accessible_at: "\<lbrakk>accessible ok a n; i < n; n < 2 ^ 64\<rbrakk> \<Longrightarrow> ok (a + of_nat i)"
  using region_offset [of i a n] by auto

lemma lib_printPointer_eq:
  "accessible ok current (length (digits 16 (unat num))) \<Longrightarrow>
    lib_printPointer ok m current num =
      Some (put_bytes current (map ucast (digit_text (digits 16 (unat num)))) m, of_nat (length (digits 16 (unat num))))"
proof (induction ok m current num rule: lib_printPointer.induct)
  case (1 ok m current num)
  show ?case
  proof (cases "num = 0")
    case False
    let ?ds = "digits 16 (unat (num div 16))"
    have len: "length ?ds \<le> 16" by (rule length_digits_16)
    have ds: "digits 16 (unat num) = ?ds @ [unat num mod 16]"
      using False by (subst digits_step) (simp_all add: unat_div unat_eq_zero)
    have "of_nat (unat (num mod 16)) = (ucast (num mod 16) :: cint)" by (rule of_nat_unat)
    then have d: "(ucast (num mod 16) :: cint) = of_nat (unat num mod 16)" by (simp add: unat_mod)
    have nonneg: "\<not> sint (of_nat (unat num mod 16) :: cint) < 0"
      using sint_cint_of_nat [of "unat num mod 16"] by simp
    have here: "ok (current + of_nat (length ?ds))"
      by (rule accessible_at [OF "1.prems"]) (use ds len in simp_all)
    have "region current (length ?ds) \<subseteq> region current (length (digits 16 (unat num)))" by (rule region_mono) (simp add: ds)
    then have "lib_printPointer ok m current (num div 16) = Some (put_bytes current (map ucast (digit_text ?ds)) m, of_nat (length ?ds))"
      using "1.IH" [OF False] "1.prems" by blast
    then show ?thesis
      using False len nonneg here
      by (subst lib_printPointer.simps)
        (simp add: Let_def d ds digit_text_def put_bytes_snoc poke_def scast_cint_of_nat)
  qed (simp add: lib_printPointer.simps digit_text_def)
qed

lemma lib_printHex_eq:
  "\<lbrakk>k < 2 ^ 31; accessible ok current (length (digits 16 k))\<rbrakk> \<Longrightarrow>
    lib_printHex ok m current (of_nat k) =
      Some (put_bytes current (map ucast (digit_text (digits 16 k))) m, of_nat (length (digits 16 k)))"
proof (induction k rule: less_induct)
  case (less k)
  show ?case
  proof (cases "k = 0")
    case False
    let ?ds = "digits 16 (k div 16)"
    have len: "length ?ds \<le> 31" by (rule length_digits_int) (use less.prems in simp_all)
    have parts: "cint_div (of_nat k) 16 = of_nat (k div 16)" "cint_mod (of_nat k) 16 = of_nat (k mod 16)"
      using cint_div_of_nat [of k 16] cint_mod_of_nat [of k 16] less.prems by simp_all
    have ds: "digits 16 k = ?ds @ [k mod 16]" using False by (simp add: digits_step)
    have here: "ok (current + of_nat (length ?ds))"
      by (rule accessible_at [OF less.prems(2)]) (use ds len in simp_all)
    have "region current (length ?ds) \<subseteq> region current (length (digits 16 k))" by (rule region_mono) (simp add: ds)
    then have "accessible ok current (length ?ds)" using less.prems(2) by blast
    then have "lib_printHex ok m current (of_nat (k div 16)) = Some (put_bytes current (map ucast (digit_text ?ds)) m, of_nat (length ?ds))"
      by (intro less.IH) (use False less.prems in simp_all)
    then show ?thesis
      using False len less.prems here
      by (subst lib_printHex.simps)
        (simp add: of_nat_cint_eq_0 parts ds digit_text_def put_bytes_snoc poke_def scast_cint_of_nat)
  qed (simp add: lib_printHex.simps digit_text_def)
qed

lemma lib_printInt_eq:
  "\<lbrakk>0 < k; k < 2 ^ 31; accessible ok current (length (digits 10 k))\<rbrakk> \<Longrightarrow>
    lib_printInt ok m current (of_nat k) =
      Some (put_bytes current (map ucast (decimal_digits k)) m, of_nat (length (digits 10 k)))"
proof (induction k rule: less_induct)
  case (less k)
  let ?ds = "digits 10 (k div 10)"
  have len: "length ?ds \<le> 31" by (rule length_digits_int) (use less.prems in simp_all)
  have parts: "cint_div (of_nat k) 10 = of_nat (k div 10)" "cint_mod (of_nat k) 10 = of_nat (k mod 10)"
    using cint_div_of_nat [of k 10] cint_mod_of_nat [of k 10] less.prems by simp_all
  have ds: "digits 10 k = ?ds @ [k mod 10]" using less.prems by (simp add: digits_step)
  have nonneg: "\<not> sint (of_nat k :: cint) < 0" using less.prems by (simp add: sint_cint_of_nat)
  have here: "ok (current + of_nat (length ?ds))"
    by (rule accessible_at [OF less.prems(3)]) (use ds len in simp_all)
  have first: "ok current" using accessible_at [OF less.prems(3), of 0] ds len by simp
  show ?case
  proof (cases "k div 10 = 0")
    case True
    then show ?thesis
      using less.prems nonneg first
      by (subst lib_printInt.simps)
        (simp add: of_nat_cint_eq_0 parts ds decimal_digits_def poke_def lib_printInt.simps [of _ _ _ 0])
  next
    case False
    have "region current (length ?ds) \<subseteq> region current (length (digits 10 k))" by (rule region_mono) (simp add: ds)
    then have "accessible ok current (length ?ds)" using less.prems(3) by blast
    then have "lib_printInt ok m current (of_nat (k div 10)) = Some (put_bytes current (map ucast (decimal_digits (k div 10))) m, of_nat (length ?ds))"
      by (intro less.IH) (use False less.prems in simp_all)
    then show ?thesis
      using less.prems nonneg len here
      by (subst lib_printInt.simps)
        (simp add: of_nat_cint_eq_0 parts ds decimal_digits_def put_bytes_snoc poke_def scast_cint_of_nat)
  qed
qed

section \<open>The text of a format\<close>

text \<open>
  The text that a format stands for, a specification. Strings are terminated, mapped and outside
  \<open>W\<close>. There is no rule for d with 0 or a negative number, where lib_printInt returns a width that
  is not that of its text, nor for x with a negative one, and x with 0 stands for the empty
  text, for lib_printHex prints no digit then.
\<close>

inductive renders :: "(u64 \<Rightarrow> bool) \<Rightarrow> u64 set \<Rightarrow> mem \<Rightarrow> u8 list \<Rightarrow> u64 list \<Rightarrow> u8 list \<Rightarrow> bool" for ok W m where
  finished: "renders ok W m [] args []"
| char: "\<lbrakk>c \<noteq> of_char CHR ''%''; renders ok W m fmt args out\<rbrakk> \<Longrightarrow> renders ok W m (c # fmt) args (c # out)"
| string: "\<lbrakk>cstr m a str; length str < 2 ^ 32; accessible ok a (Suc (length str)); region a (Suc (length str)) \<inter> W = {};
    renders ok W m fmt args out\<rbrakk> \<Longrightarrow>
    renders ok W m (of_char CHR ''%'' # of_char CHR ''s'' # fmt) (a # args) (str @ out)"
| character: "renders ok W m fmt args out \<Longrightarrow>
    renders ok W m (of_char CHR ''%'' # of_char CHR ''c'' # fmt) (a # args) (ucast a # out)"
| decimal: "\<lbrakk>0 < k; k < 2 ^ 31; ucast a = (of_nat k :: cint); renders ok W m fmt args out\<rbrakk> \<Longrightarrow>
    renders ok W m (of_char CHR ''%'' # of_char CHR ''d'' # fmt) (a # args) (map ucast (decimal_digits k) @ out)"
| hexadecimal: "\<lbrakk>k < 2 ^ 31; ucast a = (of_nat k :: cint); renders ok W m fmt args out\<rbrakk> \<Longrightarrow>
    renders ok W m (of_char CHR ''%'' # of_char CHR ''x'' # fmt) (a # args) (map ucast (digit_text (digits 16 k)) @ out)"
| pointer: "renders ok W m fmt args out \<Longrightarrow>
    renders ok W m (of_char CHR ''%'' # of_char CHR ''p'' # fmt) (a # args)
      ([of_char CHR ''0'', of_char CHR ''x''] @ map ucast (digit_text (digits 16 (unat a))) @ out)"

definition same_off :: "u64 set \<Rightarrow> mem \<Rightarrow> mem \<Rightarrow> bool" where
  "same_off W m m' \<longleftrightarrow> (\<forall>b. b \<notin> W \<longrightarrow> m' b = m b)"

lemma same_off_put:
  "\<lbrakk>same_off W m m'; region p (length bs) \<subseteq> W; length bs < 2 ^ 64\<rbrakk> \<Longrightarrow> same_off W m (put_bytes p bs m')"
  unfolding same_off_def using put_bytes_frame [of _ p bs m'] by (metis subsetD)

lemma lib_copy_cstr:
  "\<lbrakk>cstr m a str; accessible ok a (Suc (length str)); region a (Suc (length str)) \<inter> W = {}; same_off W m m';
    region current (length str) \<subseteq> {b. ok b} \<inter> W; length str < 2 ^ 32\<rbrakk> \<Longrightarrow>
    lib_copy ok m' current a = Some (put_bytes current str m', current + of_nat (length str))"
proof (induction str arbitrary: a current m')
  case Nil
  have "a \<in> region a 1" by (simp add: region_def)
  then have "ok a" "m' a = 0" using Nil.prems by (auto simp: same_off_def)
  then show ?case by (subst lib_copy.simps) (simp add: peek_def)
next
  case (Cons c str)
  have a: "a \<in> region a (Suc (length (c # str)))" "current \<in> region current (length (c # str))" by (simp_all add: region_def)
  then have here: "ok a" "m' a = c" "c \<noteq> 0" "ok current" "current \<in> W"
    using Cons.prems unfolding same_off_def by auto
  have next': "region (a + 1) (Suc (length str)) \<subseteq> region a (Suc (length (c # str)))"
    "region (current + 1) (length str) \<subseteq> region current (length (c # str))"
    using region_shift [of 1 "Suc (length str)" "Suc (length (c # str))" a] region_shift [of 1 "length str" "length (c # str)" current]
      Cons.prems(6) by simp_all
  have "lib_copy ok (m'(current := c)) (current + 1) (a + 1) =
      Some (put_bytes (current + 1) str (m'(current := c)), current + 1 + of_nat (length str))"
    by (rule Cons.IH) (use Cons.prems next' here in \<open>auto simp: same_off_def\<close>)
  moreover have "put_bytes (current + 1) str (m'(current := c)) = put_bytes current (c # str) m'"
    by (rule put_bytes_first [symmetric]) (use Cons.prems(6) in simp)
  ultimately show ?case
    using here by (subst lib_copy.simps) (simp add: peek_def poke_def add.assoc del: put_bytes.simps)
qed

lemma cstr_drop: "cstr m f (pre @ fmt) \<Longrightarrow> cstr m (f + of_nat (length pre)) fmt"
  by (induction pre arbitrary: f) (auto simp: add.assoc [symmetric])

text \<open>The format in memory, and the room for the text.\<close>

definition printing :: "(u64 \<Rightarrow> bool) \<Rightarrow> u64 set \<Rightarrow> mem \<Rightarrow> u64 \<Rightarrow> u8 list \<Rightarrow> mem \<Rightarrow> u64 \<Rightarrow> nat \<Rightarrow> bool" where
  "printing ok W m f fmt m' current n \<longleftrightarrow> cstr m f fmt \<and> accessible ok f (Suc (length fmt)) \<and>
     region f (Suc (length fmt)) \<inter> W = {} \<and> length fmt < 2 ^ 32 \<and> same_off W m m' \<and>
     region current n \<subseteq> {b. ok b} \<inter> W \<and> n < 2 ^ 32"

lemma printing_first:
  assumes "printing ok W m f (c # fmt) m' current n"
  shows "peek ok m' f = Some c" "c \<noteq> 0" "fmt = d # fmt' \<Longrightarrow> peek ok m' (f + 1) = Some d"
proof -
  note p = assms [unfolded printing_def]
  have "f \<in> region f (Suc (length (c # fmt)))" "f + 1 \<in> region f (Suc (length (c # fmt)))"
    using region_offset [of 1 f "Suc (length (c # fmt))"] by (simp_all add: region_def)
  then show "peek ok m' f = Some c" "c \<noteq> 0" "fmt = d # fmt' \<Longrightarrow> peek ok m' (f + 1) = Some d"
    using p by (auto simp: peek_def same_off_def)
qed

lemma printing_next:
  assumes "printing ok W m f (pre @ fmt) m' current (length bs + n)" "length pre \<le> 2"
  shows "printing ok W m (f + of_nat (length pre)) fmt (put_bytes current bs m') (current + of_nat (length bs)) n"
proof -
  note p = assms [unfolded printing_def]
  have s1: "region (f + of_nat (length pre)) (Suc (length fmt)) \<subseteq> region f (Suc (length (pre @ fmt)))"
    by (rule region_shift) (use p in simp_all)
  have s2: "region (current + of_nat (length bs)) n \<subseteq> region current (length bs + n)"
    by (rule region_shift) (use p in simp_all)
  have s3: "region current (length bs) \<subseteq> region current (length bs + n)" by (rule region_mono) simp
  note s = s1 s2 s3
  have "cstr m (f + of_nat (length pre)) fmt" using cstr_drop p by blast
  moreover have "same_off W m (put_bytes current bs m')"
    by (rule same_off_put) (use p s(3) in auto)
  moreover have "region (f + of_nat (length pre)) (Suc (length fmt)) \<subseteq> {b. ok b}"
    "region (f + of_nat (length pre)) (Suc (length fmt)) \<inter> W = {}"
    "region (current + of_nat (length bs)) n \<subseteq> {b. ok b} \<inter> W" using p s by blast+
  ultimately show ?thesis using p unfolding printing_def by simp
qed

lemma printf_step:
  assumes p: "printing ok W m f (of_char CHR ''%'' # d # fmt) m' current (length piece + length out)"
    and conv: "lib_conversion ok d m' current args = Some (put_bytes current piece m', current + of_nat (length piece), args')"
    and rest: "\<And>f current m'. printing ok W m f fmt m' current (length out) \<Longrightarrow>
      lib_printf_loop ok m' f current args' = Some (put_bytes current out m', current + of_nat (length out))"
  shows "lib_printf_loop ok m' f current args = Some (put_bytes current (piece @ out) m', current + of_nat (length (piece @ out)))"
proof -
  have len: "length (piece @ out) < 2 ^ 64" using p by (simp add: printing_def)
  have "printing ok W m (f + of_nat (length [of_char CHR ''%'', d])) fmt (put_bytes current piece m') (current + of_nat (length piece)) (length out)"
    by (rule printing_next) (use p in simp_all)
  from rest [OF this] have "lib_printf_loop ok (put_bytes current piece m') (f + 2) (current + of_nat (length piece)) args' =
      Some (put_bytes current (piece @ out) m', current + of_nat (length (piece @ out)))"
    unfolding put_bytes_append [OF len] by (simp add: add.assoc)
  then show ?thesis
    using printing_first(1) [OF p] printing_first(3) [OF p refl] conv
    by (subst lib_printf_loop.simps) simp
qed

lemma printing_room:
  assumes "printing ok W m f fmt m' current (k + n)"
  shows "accessible ok current k" "region current k \<subseteq> {b. ok b} \<inter> W" "0 < k \<Longrightarrow> ok current" "k < 2 ^ 32"
proof -
  have "region current k \<subseteq> region current (k + n)" by (rule region_mono) simp
  then show r: "region current k \<subseteq> {b. ok b} \<inter> W" "accessible ok current k" using assms unfolding printing_def by blast+
  show "ok current" if "0 < k" using r(2) region_offset [of 0 current k] that by auto
  show "k < 2 ^ 32" using assms by (simp add: printing_def)
qed

lemma lib_printf_loop_renders:
  "\<lbrakk>renders ok W m fmt args out; printing ok W m f fmt m' current (length out)\<rbrakk> \<Longrightarrow>
    lib_printf_loop ok m' f current args = Some (put_bytes current out m', current + of_nat (length out))"
proof (induction arbitrary: f current m' rule: renders.induct)
  case (finished args)
  note p = finished.prems [unfolded printing_def]
  have "f \<in> region f (Suc (length ([] :: u8 list)))" by (simp add: region_def)
  then have "peek ok m' f = Some 0" using p by (auto simp: peek_def same_off_def)
  then show ?case by (subst lib_printf_loop.simps) simp
next
  case (char c fmt args out)
  have p: "printing ok W m f ([c] @ fmt) m' current (length [c] + length out)" using char.prems by simp
  have one: "of_nat (length [c]) = (1 :: u64)" by simp
  have len: "length ([c] @ out) < 2 ^ 64" using p by (simp add: printing_def)
  have "lib_printf_loop ok (put_bytes current [c] m') (f + 1) (current + 1) args =
      Some (put_bytes current (c # out) m', current + 1 + of_nat (length out))"
    using char.IH [OF printing_next [OF p]] put_bytes_append [OF len, of current m']
    by (simp only: one append_Cons append_Nil list.size One_nat_def [symmetric] of_nat_1 add_0 simp_thms)
  moreover have "put_bytes current [c] m' = m'(current := c)" by simp
  ultimately have rest: "lib_printf_loop ok (m'(current := c)) (f + 1) (current + 1) args =
      Some (put_bytes current (c # out) m', current + of_nat (length (c # out)))" by (simp only: length_Cons of_nat_Suc add.assoc)
  have "ok current" using printing_room(3) [OF p] by simp
  then have "poke ok m' current c = Some (m'(current := c))" by (simp add: poke_def)
  then show ?case
    using printing_first(1,2) [OF char.prems] char.hyps(1) rest
    by (subst lib_printf_loop.simps) (simp del: put_bytes.simps length_Cons)
next
  case (string a str fmt args out)
  have p: "printing ok W m f (of_char CHR ''%'' # of_char CHR ''s'' # fmt) m' current (length str + length out)"
    using string.prems by simp
  have "lib_copy ok m' current a = Some (put_bytes current str m', current + of_nat (length str))"
    by (rule lib_copy_cstr [OF string.hyps(1,3,4) _ printing_room(2) [OF p] string.hyps(2)]) (use p in \<open>simp add: printing_def\<close>)
  then have "lib_conversion ok (of_char CHR ''s'') m' current (a # args) =
      Some (put_bytes current str m', current + of_nat (length str), args)" by (simp add: lib_conversion.simps)
  then show ?case by (rule printf_step [OF p _ string.IH])
next
  case (character fmt args out a)
  have p: "printing ok W m f (of_char CHR ''%'' # of_char CHR ''c'' # fmt) m' current (length [ucast a :: u8] + length out)"
    using character.prems by simp
  have "ok current" using printing_room(3) [OF p] by simp
  then have "lib_conversion ok (of_char CHR ''c'') m' current (a # args) =
      Some (put_bytes current [ucast a] m', current + of_nat (length [ucast a :: u8]), args)"
    by (simp add: lib_conversion.simps poke_def)
  from printf_step [OF p this character.IH] show ?case by (simp only: append_Cons append_Nil)
next
  case (decimal k a fmt args out)
  let ?piece = "map ucast (decimal_digits k) :: u8 list"
  have p: "printing ok W m f (of_char CHR ''%'' # of_char CHR ''d'' # fmt) m' current (length ?piece + length out)"
    using decimal.prems by simp
  have len: "length ?piece = length (digits 10 k)" by (simp add: decimal_digits_def)
  have "length (digits 10 k) \<le> 31" by (rule length_digits_int) (use decimal.hyps in simp_all)
  then have "lib_conversion ok (of_char CHR ''d'') m' current (a # args) =
      Some (put_bytes current ?piece m', current + of_nat (length ?piece), args)"
    using lib_printInt_eq [OF decimal.hyps(1,2) printing_room(1) [OF p, unfolded len], of m'] decimal.hyps(3)
    by (simp add: lib_conversion.simps scast_cint_of_nat decimal_digits_def)
  then show ?case by (rule printf_step [OF p _ decimal.IH])
next
  case (hexadecimal k a fmt args out)
  let ?piece = "map ucast (digit_text (digits 16 k)) :: u8 list"
  have p: "printing ok W m f (of_char CHR ''%'' # of_char CHR ''x'' # fmt) m' current (length ?piece + length out)"
    using hexadecimal.prems by simp
  have len: "length ?piece = length (digits 16 k)" by (simp add: digit_text_def)
  have "length (digits 16 k) \<le> 31" by (rule length_digits_int) (use hexadecimal.hyps in simp_all)
  then have "lib_conversion ok (of_char CHR ''x'') m' current (a # args) =
      Some (put_bytes current ?piece m', current + of_nat (length ?piece), args)"
    using lib_printHex_eq [OF hexadecimal.hyps(1) printing_room(1) [OF p, unfolded len], of m'] hexadecimal.hyps(2)
    by (simp add: lib_conversion.simps scast_cint_of_nat digit_text_def)
  then show ?case by (rule printf_step [OF p _ hexadecimal.IH])
next
  case (pointer fmt args out a)
  let ?ds = "digits 16 (unat a)" let ?text = "map ucast (digit_text ?ds) :: u8 list"
  let ?x = "[of_char CHR ''0'', of_char CHR ''x''] :: u8 list"
  have len: "length ?text = length ?ds" "length (?x @ ?text) = 2 + length ?ds" by (simp_all add: digit_text_def)
  have p: "printing ok W m f (of_char CHR ''%'' # of_char CHR ''p'' # fmt) m' current (length (?x @ ?text) + length out)"
    using pointer.prems by simp
  have r: "accessible ok current (2 + length ?ds)" using printing_room(1) [OF p] len by simp
  have sm: "length ?ds \<le> 16" by (rule length_digits_16)
  have ok01: "ok current" "ok (current + 1)"
    using accessible_at [OF r, of 0] accessible_at [OF r, of 1] sm by simp_all
  have "region (current + of_nat 2) (length ?ds) \<subseteq> region current (2 + length ?ds)" by (rule region_shift) (use sm in simp_all)
  then have "accessible ok (current + 2) (length ?ds)" using r by simp
  from lib_printPointer_eq [OF this, of "put_bytes current ?x m'"]
  have "lib_printPointer ok (put_bytes current ?x m') (current + 2) a =
      Some (put_bytes current (?x @ ?text) m', of_nat (length ?ds))"
    using put_bytes_append [of ?x ?text current m'] sm len(1) by (simp del: put_bytes.simps)
  moreover have "put_bytes current ?x m' = m'(current := of_char CHR ''0'', current + 1 := of_char CHR ''x'')"
    using put_bytes_append [of "[of_char CHR ''0'']" "[of_char CHR ''x'']" current m'] by simp
  ultimately have "lib_conversion ok (of_char CHR ''p'') m' current (a # args) =
      Some (put_bytes current (?x @ ?text) m', current + of_nat (length (?x @ ?text)), args)"
    using ok01 sm len by (simp add: lib_conversion.simps poke_def scast_cint_of_nat add.assoc del: put_bytes.simps)
  from printf_step [OF p this pointer.IH] show ?case by (simp only: append_Cons append_Nil)
qed

section \<open>From printf to the screen\<close>

lemma shows_terminal_off:
  assumes "shows_terminal st v s t" "\<forall>b \<in> region st 4000. m b = vmem s b"
  shows "shows_terminal st v (s\<lparr>vmem := m\<rparr>) t"
proof -
  have "st + of_nat (2 * i) \<in> region st 4000" if "i < 2000" for i
    by (subst region_offset) (use that in simp_all)
  then show ?thesis using assms by (auto simp: shows_terminal_def split: prod.splits simp del: of_nat_mult)
qed

lemma printed_buffer:
  assumes f: "cstr m f fmt" "accessible ok f (Suc (length fmt))" "length fmt < 2 ^ 32" "region f (Suc (length fmt)) \<inter> region buffer 2000 = {}"
    and b: "accessible ok buffer 2000" and r: "renders ok (region buffer 2000) m fmt args out" "0 \<notin> set out" "length out < 2000"
  obtains m' where "do { (m, current) \<leftarrow> lib_printf_loop ok m f buffer args; poke ok m current 0 } = Some m'"
    "cstr m' buffer out" "same_off (region buffer 2000) m m'"
proof -
  let ?W = "region buffer 2000"
  have sub: "region buffer (length out) \<subseteq> ?W" by (rule region_mono) (use r(3) in simp)
  then have "printing ok ?W m f fmt m buffer (length out)"
    unfolding printing_def using f b r(3) by (auto simp: same_off_def)
  from lib_printf_loop_renders [OF r(1) this]
  have loop: "lib_printf_loop ok m f buffer args = Some (put_bytes buffer out m, buffer + of_nat (length out))" .
  have z: "buffer + of_nat (length out) \<in> ?W" using r(3) by (simp add: region_offset)
  let ?m = "(put_bytes buffer out m)(buffer + of_nat (length out) := 0)"
  have "cstr ?m buffer out"
  proof (rule cstrI)
    fix i assume i: "i < length out"
    have "of_nat i \<noteq> (of_nat (length out) :: u64)" by (subst of_nat_u64_eq_iff) (use i r(3) in simp_all)
    then show "?m (buffer + of_nat i) = out ! i" using put_bytes_nth [OF i, of buffer m] r(3) by simp
  qed (use r(2) in simp_all)
  moreover have "same_off ?W m ?m"
    using same_off_put [of ?W m m buffer out] sub r(3) z by (auto simp: same_off_def)
  ultimately show thesis using that [of ?m] loop b z by (auto simp: poke_def)
qed

text \<open>
  C22. printf of a user program: when its format stands for a text (its numbers printed with d are
  positive, those with x not negative) that fits the 2000 bytes of its buffer, and the
  screen is ready, the system call returns, the characters of the text are
  on the screen from the cursor on, and the interrupt is acknowledged once. A newline is
  one of these characters: the kernel prints the buffer as a string.
\<close>

theorem printf_reaches_screen:
  fixes s :: "'a user_scheme"
  assumes f: "cstr (vmem s) f fmt" "accessible ok f (Suc (length fmt))" "length fmt < 2 ^ 32"
      "region f (Suc (length fmt)) \<inter> region buffer 2000 = {}"
    and b: "accessible ok buffer 2000" "region buffer 2000 \<inter> region st 8000 = {}"
    and r: "renders ok (region buffer 2000) (vmem s) fmt args out" "0 \<notin> set out" "length out < 2000"
    and sh: "shows_terminal st (videoCardPosition s) s (g, n)" "n < 2000" "unat st + 8000 < 2 ^ 64"
  shows "\<exists>s'. printf (kernel_trap exec ls bin_ls) r ok buffer f args s = Some (0, s') \<and>
    videoCardPosition s' = st + of_nat (2 * (n + length out)) \<and>
    (\<forall>i < length out. vmem s' (st + of_nat (2 * (n + i))) = out ! i) \<and>
    ports s' = ports s @ [(0x20, 0x20)] \<and> pending s' = pending s"
proof -
  obtain m where m: "do { (m, current) \<leftarrow> lib_printf_loop ok (vmem s) f buffer args; poke ok m current 0 } = Some m"
    "cstr m buffer out" "same_off (region buffer 2000) (vmem s) m" by (rule printed_buffer [OF f b(1) r])
  obtain m0 current where l: "lib_printf_loop ok (vmem s) f buffer args = Some (m0, current)" "poke ok m0 current 0 = Some m"
    using m(1) by (auto split: bind_splits)
  let ?s = "s\<lparr>vmem := m\<rparr>"
  have st: "region st 4000 \<subseteq> region st 8000" by (rule region_mono) simp
  then have "\<forall>b \<in> region st 4000. m b = vmem s b" using m(3) b(2) unfolding same_off_def by blast
  then have sh': "shows_terminal st (videoCardPosition ?s) ?s (g, n)" using shows_terminal_off [OF sh(1)] by simp
  have pos: "videoCardPosition ?s = st + of_nat (2 * n)" using sh(1) by (simp add: shows_terminal_def)
  have "region (st + of_nat (2 * n)) (2 * length out) \<subseteq> region st 8000"
    by (rule region_shift) (use sh(2) r(3) in simp_all)
  moreover have "region buffer (Suc (length out)) \<subseteq> region buffer 2000" by (rule region_mono) (use r(3) in simp)
  ultimately have dis: "region buffer (Suc (length out)) \<inter> region (videoCardPosition ?s) (2 * length out) = {}"
    unfolding pos using b(2) by blast
  have c: "cstr (vmem ?s) buffer out" using m(2) by simp
  obtain s1 where s1: "kprintf ''%s'' [buffer] ?s = Some s1" "videoCardPosition s1 = st + of_nat (2 * (n + length out))"
    "\<forall>i < length out. vmem s1 (st + of_nat (2 * (n + i))) = out ! i"
    using kprintf_string_at [OF sh' sh(2) c _ _ dis] sh(3) r(3) by auto
  have only: "ports s1 = ports s" "pending s1 = pending s"
    using kprintf_only [OF s1(1)] by (auto simp: only_console_def)
  let ?s2 = "outb 0x20 0x20 s1\<lparr>pending := pending s\<rparr>"
  have "printf (kernel_trap exec ls bin_ls) r ok buffer f args s = Some (0, ?s2)"
    using l s1(1)
    by (simp add: printf_def syscall_2_parameters_def int80_def kernel_trap_def syscall_handler_def)
  moreover have "ports ?s2 = ports s @ [(0x20, 0x20)]" "vmem ?s2 = vmem s1" "videoCardPosition ?s2 = videoCardPosition s1"
    using only by (simp_all add: outb_def)
  ultimately show ?thesis using s1(2,3) by (intro exI [of _ ?s2]) simp
qed

section \<open>Null pointers\<close>

text \<open>
  The shell reads its lines to the address 0 and prints them from there: with page 0 not
  mapped, its first round already ends in a page fault. putchar faults for every character,
  since characters are not addresses of mapped memory.
\<close>

lemma sbush_faults: "\<not> ok 0 \<Longrightarrow> sbush (Suc n) trap r ok buffer prompt hi s = None"
proof -
  assume "\<not> ok 0"
  then have "lib_printf_loop ok m 0 current args = None" for m current args
    by (subst lib_printf_loop.simps) (simp add: peek_def)
  then have "printf trap r ok buffer 0 args s = None" for args s by (simp add: printf_def)
  then have "sbush_round trap r ok buffer hi 0 s = None" for s
    by (auto simp: sbush_round_def gets_def split: bind_splits)
  then show ?thesis by (auto simp: sbush_def getcwd_def split: bind_splits)
qed

lemma putchar_faults: "\<not> ok (scast c) \<Longrightarrow> putchar trap r ok buffer c s = None"
  by (simp add: putchar_def printf_def lib_printf_loop.simps [of ok _ "scast c"] peek_def)

section \<open>A concrete program\<close>

definition blank_user :: user where
  "blank_user = keyboard.extend blank_keyboard (user.fields [])"

definition user_memory :: mem where
  "user_memory = put_bytes 0x5000 [120, 61, 37, 100, 0] (\<lambda>_. 32)"

lemma user_at:
  "vmem (blank_user\<lparr>vmem := user_memory\<rparr>) = user_memory" "videoCardPosition (blank_user\<lparr>vmem := user_memory\<rparr>) = 0xB8000"
  "ports (blank_user\<lparr>vmem := user_memory\<rparr>) = ports blank_keyboard" "pending (blank_user\<lparr>vmem := user_memory\<rparr>) = []"
  "videoCardStart (blank_user\<lparr>vmem := user_memory\<rparr>) = 0xB8000" "videoCardEnd (blank_user\<lparr>vmem := user_memory\<rparr>) = 0xB8FA0"
  "scrollForNextCall (blank_user\<lparr>vmem := user_memory\<rparr>) = 0"
  by (simp_all add: blank_user_def keyboard.defs user.defs)

lemma user_screen: "shows_terminal 0xB8000 0xB8000 (blank_user\<lparr>vmem := user_memory\<rparr>) (\<lambda>_. 32, 0)"
proof -
  have "user_memory (0xB8000 + of_nat (2 * i)) = 32" if "i < 2000" for i
  proof -
    have "unat (0xB8000 + of_nat (2 * i) :: u64) = 0xB8000 + 2 * i" using at_screen [of "0xB8000" "2 * i"] that by simp
    then have "0xB8000 + of_nat (2 * i) \<notin> region 0x5000 (length [120, 61, 37, 100, 0 :: u8])"
      by (auto simp: region_def unat_sub_if_size word_size)
    then show ?thesis unfolding user_memory_def by (subst put_bytes_frame) simp_all
  qed
  then show ?thesis by (simp add: shows_terminal_def user_at del: of_nat_mult)
qed

lemma printf_reaches_screen_witness:
  "\<exists>s'. printf (kernel_trap (\<lambda>_. Some) 0 0) blank_registers (\<lambda>_. True) 0x10000 0x5000 [7] (blank_user\<lparr>vmem := user_memory\<rparr>) = Some (0, s') \<and>
    vmem s' 0xB8000 = 120 \<and> vmem s' 0xB8002 = 61 \<and> vmem s' 0xB8004 = 55"
proof -
  let ?s = "blank_user\<lparr>vmem := user_memory\<rparr>" and ?fmt = "[120, 61, 37, 100] :: u8 list"
  have f: "cstr (vmem ?s) 0x5000 ?fmt" by (simp add: user_at user_memory_def)
  have "renders (\<lambda>_. True) (region 0x10000 2000) (vmem ?s) (120 # 61 # of_char CHR ''%'' # of_char CHR ''d'' # []) [7]
      (120 # 61 # (map ucast (decimal_digits 7) @ []))"
    by (intro renders.char renders.decimal renders.finished) simp_all
  moreover have "map ucast (decimal_digits 7) = [55 :: u8]" by (simp add: decimal_digits_def digits_step)
  ultimately have r: "renders (\<lambda>_. True) (region 0x10000 2000) (vmem ?s) ?fmt [7] [120, 61, 55]" by simp
  have d: "region 0x5000 (Suc (length ?fmt)) \<inter> region 0x10000 2000 = {}" by (rule region_disjointI) simp_all
  have d': "region 0x10000 2000 \<inter> region 0xB8000 8000 = {}" by (rule region_disjointI) simp_all
  have sh: "shows_terminal 0xB8000 (videoCardPosition ?s) ?s (\<lambda>_. 32, 0)" using user_screen by (simp add: user_at)
  obtain s' where s': "printf (kernel_trap (\<lambda>_. Some) 0 0) blank_registers (\<lambda>_. True) 0x10000 0x5000 [7] ?s = Some (0, s')"
    "\<forall>i < length [120, 61, 55 :: u8]. vmem s' (0xB8000 + of_nat (2 * (0 + i))) = [120, 61, 55] ! i"
    using printf_reaches_screen [OF f _ _ d _ d' r _ _ sh,
      where exec = "\<lambda>_. Some" and ls = 0 and bin_ls = 0 and r = blank_registers] by auto
  from spec [OF s'(2), of 0] spec [OF s'(2), of 1] spec [OF s'(2), of 2] show ?thesis using s'(1) by simp
qed

end
