(* ===== verification/BootMap.thy ===== *)
theory BootMap
  imports BootList Loader
begin

text \<open>
  The memory map of the boot loader, which start (sys/main.c) walks to build the free list,
  and the functions of sys/paging.c that look at the list and at the tables or are no longer
  called: print_free_list, print_va_to_pa and map_kernel_page.
\<close>

section \<open>The memory map (start in sys/main.c)\<close>

text \<open>Fields of four or eight bytes at any address; the structure is packed.\<close>

primrec boot_bytes :: "nat \<Rightarrow> pagemap \<Rightarrow> mem \<Rightarrow> u64 \<Rightarrow> nat option" where
  "boot_bytes 0 mp m a = Some 0"
| "boot_bytes (Suc n) mp m a = do {
     b \<leftarrow> vload8 mp m a;
     k \<leftarrow> boot_bytes n mp m (a + 1);
     Some (unat b + 256 * k)
   }"

definition rd32 :: "pagemap \<Rightarrow> 'a paging_scheme \<Rightarrow> u64 \<Rightarrow> u32 option" where
  "rd32 mp s a = map_option of_nat (boot_bytes 4 mp (pmem s) a)"

definition rd64 :: "pagemap \<Rightarrow> 'a paging_scheme \<Rightarrow> u64 \<Rightarrow> u64 option" where
  "rd64 mp s a = map_option of_nat (boot_bytes 8 mp (pmem s) a)"

text \<open>
  The search for the module of type 0x9001. \<open>modulep\<close> is a \<open>uint32_t *\<close>, so it advances by
  four bytes for each unit.
\<close>

partial_function (option) find_module :: "pagemap \<Rightarrow> 'a paging_scheme \<Rightarrow> u64 \<Rightarrow> u64 option" where
  "find_module mp s modulep = do {
     t \<leftarrow> rd32 mp s modulep;
     if t = 0x9001 then Some modulep
     else do {
       n \<leftarrow> rd32 mp s (modulep + 4);
       find_module mp s (modulep + 4 * ucast (n + 2))
     }
   }"

abbreviation (input) sizeof_smap :: u64 where "sizeof_smap \<equiv> 20"

definition smap_base :: "u64 \<Rightarrow> u64" where "smap_base smap = smap"
definition smap_length :: "u64 \<Rightarrow> u64" where "smap_length smap = smap + 8"
definition smap_type :: "u64 \<Rightarrow> u64" where "smap_type smap = smap + 16"

text \<open>The loop over the map; it reads the size of the module in each round.\<close>

partial_function (option) smap_loop ::
  "pagemap \<Rightarrow> u64 \<Rightarrow> u64 \<Rightarrow> u64 \<Rightarrow> cint \<Rightarrow> u64 \<Rightarrow> 'a paging_scheme \<Rightarrow> (cint \<times> u64 \<times> 'a paging_scheme) option" where
  "smap_loop mp modulep physfree smap i end' s = do {
     n \<leftarrow> rd32 mp s (modulep + 4);
     if smap < modulep + ucast n + 8
     then do {
       t \<leftarrow> rd32 mp s (smap_type smap);
       use \<leftarrow> (if t = 1 then do { l \<leftarrow> rd64 mp s (smap_length smap); Some (l \<noteq> 0) } else Some False);
       if use
       then do {
         b \<leftarrow> rd64 mp s (smap_base smap);
         l \<leftarrow> rd64 mp s (smap_length smap);
         s \<leftarrow> append_free_list mp b (b + l) physfree s;
         smap_loop mp modulep physfree (smap + sizeof_smap) (i + 1) (b + l) s
       }
       else smap_loop mp modulep physfree (smap + sizeof_smap) i end' s
     }
     else Some (i, end', s)
   }"

definition read_memory_map :: "pagemap \<Rightarrow> u64 \<Rightarrow> u64 \<Rightarrow> 'a paging_scheme \<Rightarrow> (u64 \<times> 'a paging_scheme) option" where
  "read_memory_map mp modulep physfree s = do {
     let s = initialize_free_list s;
     modulep \<leftarrow> find_module mp s modulep;
     (i, end', s) \<leftarrow> smap_loop mp modulep physfree (modulep + 8) 0 0 s;
     Some (end', s)
   }"

section \<open>Looking at the list and at the tables (sys/paging.c)\<close>

text \<open>print_free_list prints nothing: the loop counts. It reads every field of a descriptor.\<close>

partial_function (option) print_free_list_loop ::
  "pagemap \<Rightarrow> 'a paging_scheme \<Rightarrow> u64 \<Rightarrow> cint \<Rightarrow> cint \<Rightarrow> cint \<Rightarrow> (cint \<times> cint \<times> cint) option" where
  "print_free_list_loop mp s temp i free_c all_c =
     (if temp = 0 then Some (i, free_c, all_c)
      else do {
        status \<leftarrow> rd mp s (temp + status_off);
        next' \<leftarrow> rd mp s (temp + next_off);
        lower \<leftarrow> (if next' \<noteq> 0
          then do { p \<leftarrow> rd mp s (next' + p_addr_off); q \<leftarrow> rd mp s (temp + p_addr_off); Some (p < q) }
          else Some False);
        print_free_list_loop mp s next' (i + 1) (if status = FREE then free_c + 1 else free_c)
          (if status = FREE then all_c else all_c + 1)
      })"

definition print_free_list :: "pagemap \<Rightarrow> 'a paging_scheme \<Rightarrow> (cint \<times> cint \<times> cint) option" where
  "print_free_list mp s = print_free_list_loop mp s (free_list s) 0 0 0"

partial_function (option) print_free_list_kmalloc_loop :: "u64 \<Rightarrow> 'a loader_scheme \<Rightarrow> 'a loader_scheme option" where
  "print_free_list_kmalloc_loop temp s =
     (if temp = 0 then Some s
      else do {
        next' \<leftarrow> rd (mmu s) s (temp + next_off);
        if next' = 0 then say (''NULL! = %p'' @ [CHR 0x0A]) [next'] s
        else if KERNBASE + next' \<noteq> 0 \<and> KERNBASE + next' < temp then Some s
        else print_free_list_kmalloc_loop (KERNBASE + next') s
      })"

definition print_free_list_kmalloc :: "'a loader_scheme \<Rightarrow> 'a loader_scheme option" where
  "print_free_list_kmalloc s = print_free_list_kmalloc_loop (free_list_head_kmalloc s) s"

abbreviation (input) PHYMASK :: u64 where "PHYMASK \<equiv> 0xfffffffffffff000"

text \<open>The entry of a table, as the address of the next one.\<close>

definition table_of :: "pagemap \<Rightarrow> 'a paging_scheme \<Rightarrow> u64 \<Rightarrow> u64 \<Rightarrow> u64 option" where
  "table_of mp s t off = do { e \<leftarrow> rd mp s (t + 8 * off); Some (e AND PHYMASK) }"

definition print_va_to_pa :: "u64 \<Rightarrow> u64 \<Rightarrow> 'a loader_scheme \<Rightarrow> 'a loader_scheme option" where
  "print_va_to_pa vaddr pml4_t s = do {
     let pml4off = get_offset vaddr 39;
     let pdpoff = get_offset vaddr 30;
     let pdoff = get_offset vaddr 21;
     let ptoff = get_offset vaddr 12;
     s \<leftarrow> say (''pml4off = %p, %p, %p, %p'' @ [CHR 0x0A]) [pml4off, pdpoff, pdoff, ptoff] s;
     pdpt \<leftarrow> table_of (mmu s) s pml4_t pml4off;
     s \<leftarrow> say (''Va :%p and pdpt :%p'' @ [CHR 0x0A]) [vaddr, pdpt] s;
     pd_t \<leftarrow> table_of (mmu s) s (to_virtual pdpt) pdpoff;
     s \<leftarrow> say (''Va :%p and pd_t :%p'' @ [CHR 0x0A]) [vaddr, pd_t] s;
     pt_t \<leftarrow> table_of (mmu s) s (to_virtual pd_t) pdoff;
     s \<leftarrow> say (''Va :%p and pt_t :%p'' @ [CHR 0x0A]) [vaddr, pt_t] s;
     pga \<leftarrow> table_of (mmu s) s (to_virtual pt_t) ptoff;
     say (''Va :%p and pga :%p'' @ [CHR 0x0A]) [vaddr, pga] s
   }"

section \<open>The older mapping functions (sys/paging.c)\<close>

text \<open>
  They add the number of an entry to the address of a table in bytes, test addresses instead
  of entries, and do not link the table of the second level.
\<close>

definition map_kernel_page :: "pagemap \<Rightarrow> u64 \<Rightarrow> u64 \<Rightarrow> u64 \<Rightarrow> 'a paging_scheme \<Rightarrow> 'a paging_scheme option" where
  "map_kernel_page mp v_addr p_addr kernel_pml4 s = do {
     let pml4_offset = drop_bit 39 v_addr AND 0x1ff;
     let pdpt_offset = drop_bit 30 v_addr AND 0x1ff;
     let pgd_offset = drop_bit 21 v_addr AND 0x1ff;
     let pgt_offset = drop_bit 12 v_addr AND 0x1ff;
     let offset_in_pml4_t = kernel_pml4 + pml4_offset;
     if is_valid_page offset_in_pml4_t then do {
       let pdp_table = offset_in_pml4_t + KERNBASE;
       let offset_in_pdp_t = pdp_table + pdpt_offset;
       if is_valid_page offset_in_pdp_t then do {
         let pgd_table = offset_in_pdp_t + KERNBASE;
         let offset_in_pgd_t = pgd_table + pgd_offset;
         if is_valid_page offset_in_pgd_t then do {
           let pg_table = offset_in_pgd_t + KERNBASE;
           wr mp s (pg_table + pgt_offset) (p_addr OR PAGE_KERNEL)
         } else do {
           (pg_table_physical, s) \<leftarrow> get_next_free_page mp s;
           let pg_table = pg_table_physical + KERNBASE;
           s \<leftarrow> wr mp s offset_in_pgd_t (pg_table OR PAGE_KERNEL);
           wr mp s (pg_table + pgt_offset) (p_addr OR PAGE_KERNEL)
         }
       } else do {
         (pgd_table_physical, s) \<leftarrow> get_next_free_page mp s;
         let pgd_table = pgd_table_physical + KERNBASE;
         s \<leftarrow> wr mp s offset_in_pdp_t (pgd_table OR PAGE_KERNEL);
         (pg_table_physical, s) \<leftarrow> get_next_free_page mp s;
         let pg_table = pg_table_physical + KERNBASE;
         s \<leftarrow> wr mp s (pgd_table + pgd_offset) (pg_table OR PAGE_KERNEL);
         wr mp s (pg_table + pgt_offset) (p_addr OR PAGE_KERNEL)
       }
     } else do {
       (pdp_table_physical, s) \<leftarrow> get_next_free_page mp s;
       let pdp_table = pdp_table_physical + KERNBASE;
       (pgd_table_physical, s) \<leftarrow> get_next_free_page mp s;
       let pgd_table = pgd_table_physical + KERNBASE;
       s \<leftarrow> wr mp s (pdp_table + pdpt_offset) (pgd_table OR PAGE_KERNEL);
       (pg_table_physical, s) \<leftarrow> get_next_free_page mp s;
       let pg_table = pg_table_physical + KERNBASE;
       s \<leftarrow> wr mp s (pgd_table + pgd_offset) (pg_table OR PAGE_KERNEL);
       wr mp s (pg_table + pgt_offset) (p_addr OR PAGE_KERNEL)
     }
   }"

text \<open>Ten pages are mapped, whatever \<open>v_addr_end\<close> is.\<close>

partial_function (option) map_kernel_pages_loop ::
  "pagemap \<Rightarrow> u64 \<Rightarrow> u64 \<Rightarrow> u64 \<Rightarrow> u64 \<Rightarrow> 'a paging_scheme \<Rightarrow> 'a paging_scheme option" where
  "map_kernel_pages_loop mp current_v_addr current_p_addr v_addr_start kernel_pml4 s =
     (if current_v_addr < v_addr_start + 10 * PAGESIZE
      then do {
        s \<leftarrow> map_kernel_page mp current_v_addr current_p_addr kernel_pml4 s;
        map_kernel_pages_loop mp (current_v_addr + PAGESIZE) (current_p_addr + PAGESIZE) v_addr_start kernel_pml4 s
      }
      else Some s)"

definition map_kernel_pages :: "pagemap \<Rightarrow> u64 \<Rightarrow> u64 \<Rightarrow> u64 \<Rightarrow> u64 \<Rightarrow> 'a paging_scheme \<Rightarrow> 'a paging_scheme option" where
  "map_kernel_pages mp v_addr_start v_addr_end p_addr kernel_pml4 s =
     map_kernel_pages_loop mp v_addr_start p_addr v_addr_start kernel_pml4 s"

section \<open>The regions of the map\<close>

text \<open>An entry is its base, its length and its type.\<close>

type_synonym smap_entry = "u64 \<times> u64 \<times> u32"

fun usable :: "smap_entry \<Rightarrow> bool" where
  "usable (b, l, t) \<longleftrightarrow> t = 1 \<and> l \<noteq> 0"

primrec map_at :: "pagemap \<Rightarrow> 'a paging_scheme \<Rightarrow> u64 \<Rightarrow> smap_entry list \<Rightarrow> bool" where
  "map_at mp s a [] \<longleftrightarrow> True"
| "map_at mp s a (e # es) \<longleftrightarrow> rd64 mp s (smap_base a) = Some (fst e) \<and> rd64 mp s (smap_length a) = Some (fst (snd e)) \<and>
     rd32 mp s (smap_type a) = Some (snd (snd e)) \<and> map_at mp s (a + sizeof_smap) es"

text \<open>What the boot code means to do with the map: hand every usable region to append_free_list.\<close>

primrec append_regions :: "pagemap \<Rightarrow> u64 \<Rightarrow> smap_entry list \<Rightarrow> 'a paging_scheme \<Rightarrow> 'a paging_scheme option" where
  "append_regions mp physfree [] s = Some s"
| "append_regions mp physfree (e # es) s = do {
     s \<leftarrow> append_free_list mp (fst e) (fst e + fst (snd e)) physfree s;
     append_regions mp physfree es s
   }"

text \<open>
  The map is intact: it lies at \<open>smap\<close> and the size of its module is that of the entries.
  \<open>I\<close> stands for what is known of the states in between.
\<close>

definition map_intact :: "pagemap \<Rightarrow> u64 \<Rightarrow> smap_entry list \<Rightarrow> 'a paging_scheme \<Rightarrow> bool" where
  "map_intact mp modulep es s \<longleftrightarrow> map_at mp s (modulep + 8) es \<and>
     rd32 mp s (modulep + 4) = Some (of_nat (20 * length es))"

lemma map_at_append: "map_at mp s a (xs @ ys) \<longleftrightarrow> map_at mp s a xs \<and> map_at mp s (a + of_nat (20 * length xs)) ys"
  by (induction xs arbitrary: a) (auto simp: algebra_simps)

text \<open>
  The loop hands the usable regions of the map to append_free_list, in order and each once,
  and leaves the others out. \<open>I\<close> is kept by the calls and says that the map stays as it is.
\<close>

lemma smap_loop_regions:
  assumes intact: "\<And>s. I s \<Longrightarrow> map_intact mp modulep es s"
    and step: "\<And>s s' e. \<lbrakk>I s; e \<in> set es; usable e; append_free_list mp (fst e) (fst e + fst (snd e)) physfree s = Some s'\<rbrakk> \<Longrightarrow> I s'"
    and room: "unat modulep + 8 + 20 * length es < 2 ^ 64" "20 * length es < 2 ^ 32"
  shows "\<lbrakk>I s; es = xs @ ys\<rbrakk> \<Longrightarrow>
    map_option (\<lambda>(i, end', s). s) (smap_loop mp modulep physfree (modulep + 8 + of_nat (20 * length xs)) i end' s) =
      append_regions mp physfree (filter usable ys) s"
proof -
  have size: "ucast (of_nat (20 * length es) :: u32) = (of_nat (20 * length es) :: u64)"
  proof (rule word_unat_eq_iff [THEN iffD2])
    have "unat (of_nat (20 * length es) :: u32) = 20 * length es" "unat (of_nat (20 * length es) :: u64) = 20 * length es"
      using room(2) by (simp_all add: unat_of_nat del: of_nat_mult)
    then show "unat (ucast (of_nat (20 * length es) :: u32) :: u64) = unat (of_nat (20 * length es) :: u64)"
      using room(2) by (simp add: unsigned_ucast_eq take_bit_nat_eq_self del: of_nat_mult)
  qed
  have at: "unat (modulep + 8 + of_nat (20 * k)) = unat modulep + 8 + 20 * k" if "k \<le> length es" for k
  proof -
    have "unat (modulep + of_nat (8 + 20 * k)) = unat modulep + (8 + 20 * k)"
      by (rule unat_add_no_wrap) (use room(1) that in simp)
    then show ?thesis by (simp add: add.assoc)
  qed
  have guard: "rd32 mp s (modulep + 4) = Some (of_nat (20 * length es))"
    "modulep + 8 + of_nat (20 * k) < modulep + ucast (of_nat (20 * length es) :: u32) + 8 \<longleftrightarrow> k < length es"
    if "I s" "k \<le> length es" for s :: "'a paging_scheme" and k
  proof -
    show "rd32 mp s (modulep + 4) = Some (of_nat (20 * length es))" using intact [OF that(1)] by (simp only: map_intact_def)
    have "modulep + ucast (of_nat (20 * length es) :: u32) + 8 = modulep + 8 + of_nat (20 * length es)"
      unfolding size by (simp only: add.assoc add.commute [of _ 8])
    then show "modulep + 8 + of_nat (20 * k) < modulep + ucast (of_nat (20 * length es) :: u32) + 8 \<longleftrightarrow> k < length es"
      using at [OF that(2)] at [of "length es"] by (simp only: word_less_nat_alt) simp
  qed
  assume "I s" "es = xs @ ys"
  then show ?thesis
  proof (induction ys arbitrary: xs i end' s)
    case Nil
    then have "length xs = length es" by simp
    then show ?case using guard [OF Nil.prems(1), of "length xs"] by (subst smap_loop.simps) (simp del: of_nat_mult)
  next
    case (Cons e ys)
    obtain b l t where e: "e = (b, l, t)" by (cases e)
    let ?a = "modulep + 8 + of_nat (20 * length xs)"
    have es: "es = (xs @ [e]) @ ys" "length xs < length es" using Cons.prems(2) by simp_all
    have next': "?a + sizeof_smap = modulep + 8 + of_nat (20 * length (xs @ [e]))" by simp
    note IH = Cons.IH [OF _ es(1), folded next']
    have "map_at mp s (modulep + 8) (xs @ e # ys)" using intact [OF Cons.prems(1)] Cons.prems(2) by (simp only: map_intact_def)
    then have here: "rd64 mp s (smap_base ?a) = Some b" "rd64 mp s (smap_length ?a) = Some l" "rd32 mp s (smap_type ?a) = Some t"
      by (simp_all only: map_at_append map_at.simps e fst_conv snd_conv)
    have g: "rd32 mp s (modulep + 4) = Some (of_nat (20 * length es))"
      "?a < modulep + ucast (of_nat (20 * length es) :: u32) + 8"
      using guard [OF Cons.prems(1), of "length xs"] es(2) by simp_all
    show ?case
    proof (cases "usable e")
      case False
      then have "smap_loop mp modulep physfree ?a i end' s = smap_loop mp modulep physfree (?a + sizeof_smap) i end' s"
        using g here e by (subst smap_loop.simps) (simp del: of_nat_mult)
      then show ?thesis using IH [OF Cons.prems(1)] False by (simp only: filter.simps if_False)
    next
      case True
      then have u: "t = 1" "l \<noteq> 0" using e by simp_all
      have run: "smap_loop mp modulep physfree ?a i end' s =
          do { s \<leftarrow> append_free_list mp b (b + l) physfree s; smap_loop mp modulep physfree (?a + sizeof_smap) (i + 1) (b + l) s }"
        using g here u by (subst smap_loop.simps) (simp del: of_nat_mult)
      show ?thesis
      proof (cases "append_free_list mp b (b + l) physfree s")
        case None
        then show ?thesis unfolding run using True e by simp
      next
        case (Some s')
        have "I s'" by (rule step [OF Cons.prems(1) _ True]) (use Some e Cons.prems(2) in simp_all)
        from IH [OF this] show ?thesis
          unfolding run Some filter.simps append_regions.simps e using True e Some
          by (simp only: bind.bind_lunit if_True append_regions.simps fst_conv snd_conv)
      qed
    qed
  qed
qed

section \<open>Counting the list\<close>

text \<open>On a list that ends print_free_list returns, having counted the free and the taken descriptors.\<close>

lemma print_free_list_counts:
  "\<lbrakk>page_chain (pmem s) d ps; \<forall>e \<in> fst ` set ps. \<forall>w \<in> words e. mp (pmem s) w = Some w\<rbrakk> \<Longrightarrow>
    print_free_list_loop mp s d i free_c all_c = Some (i + of_nat (length ps),
      free_c + of_nat (length (filter (\<lambda>(e, p). load64 (pmem s) (e + status_off) = FREE) ps)),
      all_c + of_nat (length (filter (\<lambda>(e, p). load64 (pmem s) (e + status_off) \<noteq> FREE) ps)))"
proof (induction ps arbitrary: d i free_c all_c)
  case Nil
  then show ?case by (subst print_free_list_loop.simps) simp
next
  case (Cons x ps)
  obtain e p where x: "x = (e, p)" by (cases x)
  have c: "d = e" "e \<noteq> 0" "page_chain (pmem s) (load64 (pmem s) e) ps" using Cons.prems(1) x by simp_all
  have r: "rd mp s (e + status_off) = Some (load64 (pmem s) (e + status_off))" "rd mp s (e + next_off) = Some (load64 (pmem s) e)"
    "rd mp s (e + p_addr_off) = Some (load64 (pmem s) (e + p_addr_off))"
    using Cons.prems(2) x by (simp_all add: rd_def vload64_def words_def)
  have mapped: "\<forall>e \<in> fst ` set ps. \<forall>w \<in> words e. mp (pmem s) w = Some w" using Cons.prems(2) by simp
  have n: "rd mp s (load64 (pmem s) e + p_addr_off) = Some (load64 (pmem s) (load64 (pmem s) e + p_addr_off))"
    if "load64 (pmem s) e \<noteq> 0"
  proof (cases ps)
    case Nil
    then show ?thesis using c(3) that by simp
  next
    case (Cons y ys)
    then have "load64 (pmem s) e \<in> fst ` set ps" using c(3) by (cases y) simp
    then show ?thesis using mapped by (auto simp: rd_def vload64_def words_def)
  qed
  note IH = Cons.IH [OF c(3) mapped]
  show ?case
    using c r n IH x by (subst print_free_list_loop.simps) (cases "load64 (pmem s) e = 0"; simp)
qed

end
