(* ===== verification/Spec2Isabelle.thy ===== *)
theory Spec2Isabelle
  imports Prelude CString MathLib Schedule Timer RoundRobin Mmu FreeList PageWalk Kmalloc PagingExample BootList KernelMap BootPaging Idt Gdt Console Screen Lines Keyboard Handlers TarfsExample Traverse Elf Vmem Loader LoaderExample Process Spaces ProcessImage ProcessExample Libc BootMap
begin

text \<open>
  SBUnix is a small 64-bit kernel with a shell. This library models its C code and states
  what makes it correct; each theory opens with what it holds.

  \<^bold>\<open>The program.\<close> start (sys/main.c) takes the memory the boot loader reports, builds a list of
  free physical pages, builds and loads the kernel's page tables (sys/paging.c), sets up the
  segments (sys/gdt.c), the interrupt gates (sys/idt.c) and the keyboard, reads the archive of
  files linked into the kernel (sys/tarfs.c), loads the shell from it (sys/elf64.c), makes it a
  process (sys/task.c) and puts it and an idle process under the scheduler (sys/schedule.c). From
  then on the timer interrupt (sys/isr.c) switches between processes, the keyboard interrupt
  (sys/keyboard.c) fills a line buffer, and programs use the C library (libc/) and interrupt 128.
  Everything prints with kprintf (sys/kprintf.c).

  \<^bold>\<open>Conventions.\<close> Integers have the width of the C types: \<open>u8\<close> to \<open>u64\<close>, and \<open>cint\<close> for int, with
  wrap-around. Pointers are 64-bit addresses, \<open>NULL\<close> is 0. Functions of the source keep their names
  (a few get a suffix or a prefix, as printPointer of the library is lib_printPointer). A
  function that can fail, run into an unmapped address or loop for ever returns an option: a
  loop that need not end is a \<open>partial_function (option)\<close>, and that it ends is part of the theorem about it.
  State is passed explicitly in records that extend each other: \<open>segments\<close>, \<open>console\<close>, \<open>keyboard\<close>, \<open>user\<close> on
  one side, \<open>paging\<close>, \<open>loader\<close>, \<open>system\<close> on the other, \<open>sched\<close> and \<open>kernel\<close> for the scheduler. No fuel is
  used but the counts that the code computes itself (pages, bytes, entries) and, in Libc, the
  number of rounds of the endless loop of the shell.

  \<^bold>\<open>Theories and sources.\<close>
  \<^item> Prelude: machine integers, byte memory, regions of addresses. CString and MathLib:
    sys/string.c and sys/math.c. strcmp, strcpy and strcat are proved against lists of bytes, oct2bin
    against octal numerals.
  \<^item> Schedule, Timer, RoundRobin: sys/schedule.c and generate_timer of sys/isr.c. Process control
    blocks live in a store \<open>pcbs\<close>; the ready list is a chain of next fields. The locales
    process_chain and process_queue state the contract of the list operations and are
    interpreted on each of them. The handler refines a round robin on lists (\<open>rr_tick\<close>); every
    process is in one place, is dispatched within a bound, and resumes where it was interrupted.
  \<^item> Mmu, FreeList, PageWalk, Kmalloc, PagingExample: sys/paging.c once the kernel's tables are loaded.
    Mmu models the four-level translation of the processor. \<open>paging_inv\<close> relates the tables
    of each level and the list of free pages to memory; page_walk, through the recursive slot 510,
    maps exactly one page and keeps it. The locales page_allocator and page_mapper are the
    contracts between the free list, page_walk and the allocators.
  \<^item> BootList, KernelMap, BootPaging: the same files before cr3 is loaded, through the mapping
    of the boot loader, which is a parameter; for one region of memory whose pages are zero from
    byte 512 on, as far as the code does not clear them, they end in a state with \<open>paging_inv\<close>. BootMap: the walk
    over the memory map, which hands its usable regions to append_free_list in order; the printing
    of the list and of translations, and the older map_kernel_page.
  \<^item> Idt, Gdt, Handlers: gates, segments, the interrupt controllers, and the handlers of exceptions, devices and
    system calls. Every exception gives a result and leaves its report on the terminal.
  \<^item> Console, Screen, Lines, ScreenFrame, Keyboard: sys/kprintf.c refines a terminal of 25 by 80
    characters, sys/keyboard.c a line editor on it. Lines extends the refinement to lines with
    one conversion that fit into their row; ScreenFrame bounds what kprintf writes for any format.
  \<^item> Tarfs, TarfsTable, TarfsInit, TarfsExample, Traverse: sys/tarfs.c. An archive is a list of entries laid
    out in memory; tarfs_init fills the table \<open>vfs\<close> with their catalogue; get_elf ends.
  \<^item> Vmem, Elf, Loader, LoaderExample: sys/elf64.c. The locale flat_memory is the contract of memory that is
    read and written byte by byte; \<open>heap\<close> gives it for the kernel's mapped memory and the
    allocators extend it. load_elf_vmas builds the list of areas.
  \<^item> Process, Spaces, ProcessImage, ProcessExample: sys/task.c. \<open>spaces\<close> holds of two sets of page
    tables that share the kernel's half and gives flat_memory for the space of a process;
    loading an executable and creating its process gives tables that map its pages, filled
    from where the pointer arithmetic of the code reads, and, but for the kernel's half and the
    recursive slot, nothing else. switch_to, switch_to_user_mode and ring_3_switch are definitions only.
  \<^item> Libc: libc/ and bin/sbush/sbush.c over the system calls of Handlers; the text of a printf
    reaches the screen.

  \<^bold>\<open>Bounds.\<close> Hypotheses such as positions below the top of the address space, lines of fewer than 256
  characters or archives below 2 GiB are those of the code's own types. Descriptions of room
  count four pages of the free list for each page mapped: the page itself and at most three
  tables. The theories named Example and the last section of most others apply the properties
  to concrete states.

  \<^bold>\<open>Not modelled.\<close> The assembly stubs of sys/isr.s, sys/irq.s and sys/gdt.s, except for the
  effect of the registers they save and restore; boot, which switches the stack and calls start; the
  code behind the endless loop of start and the test threads, which are not reached; the AHCI
  declarations, for there is no driver; time spent in busy loops. libc/string.c repeats
  sys/string.c. Inline assembly is a change of the registers in the state. What a
  function prints while it allocates is modelled on the screen only: the video memory is
  taken to be its own page.
\<close>

end
